(* ===== verification/Prelude.thy ===== *)
theory Prelude
  imports Main "HOL-Library.Word" "HOL-Library.Monad_Syntax"
begin

text \<open>
  Shared vocabulary of the development: the return codes of \<^verbatim>\<open>globals.h\<close>, the
  convention for C code that has no defined result, and the predicate that reads a
  singly linked list out of a memory of next pointers.

  Convention. A C function is modelled by a HOL function into \<open>'a option\<close>. \<open>Some v\<close> is
  a normal return, with the C return code as part of \<open>v\<close>. \<open>None\<close> means that the
  process does not get past the call: a dereference of a null or foreign pointer, a read
  outside an array, a failed \<^verbatim>\<open>assert\<close>, an \<^verbatim>\<open>abort()\<close>, or a loop that never ends.
  A theorem that concludes \<open>f x = Some y\<close> therefore also states that the call is safe
  and returns.
\<close>

section \<open>Return codes\<close>

text \<open>\<^verbatim>\<open>#define OK 0\<close>, \<^verbatim>\<open>ERROR (-1)\<close>, \<^verbatim>\<open>AGAIN (-2)\<close>, \<^verbatim>\<open>INVALID_REQUEST (-3)\<close>.\<close>

datatype rc = OK | ERROR | AGAIN | INVALID_REQUEST

section \<open>Guards\<close>

text \<open>
  \<open>guard b\<close> is a C \<^verbatim>\<open>assert(b)\<close> (the code is built without \<^verbatim>\<open>NDEBUG\<close>) or an
  \<^verbatim>\<open>ABORT_ON(!b, ..)\<close>.
\<close>

definition guard :: "bool \<Rightarrow> unit option" where
  "guard b = (if b then Some () else None)"

named_theorems exec "unfolding rules that run the option monad symbolically"

lemma guard_simps [simp]: "guard True = Some ()" "guard False = None"
  by (simp_all add: guard_def)

lemma guard_eq_Some [simp]: "guard b = Some u \<longleftrightarrow> b"
  by (simp add: guard_def)

lemma guard_bind_Some [simp]: "(guard b \<bind> f) = Some x \<longleftrightarrow> b \<and> f () = Some x"
  by (simp add: guard_def)

declare Option.bind_eq_Some_conv [exec]

section \<open>Linked lists in memory\<close>

text \<open>
  \<open>chain nx p as\<close>: starting at pointer \<open>p\<close> (\<open>None\<close> is the null pointer) and following
  the next fields stored in the memory \<open>nx\<close>, one meets exactly the cells \<open>as\<close> and then
  the null pointer.
\<close>

primrec chain :: "('p \<rightharpoonup> 'p option) \<Rightarrow> 'p option \<Rightarrow> 'p list \<Rightarrow> bool" where
  "chain nx p [] \<longleftrightarrow> p = None"
| "chain nx p (a # as) \<longleftrightarrow> p = Some a \<and> (\<exists>q. nx a = Some q \<and> chain nx q as)"

lemma chain_None [simp]: "chain nx None as \<longleftrightarrow> as = []"
  by (cases as) auto

lemma chain_frame [simp]: "a \<notin> set as \<Longrightarrow> chain (nx(a := v)) p as = chain nx p as"
  by (induction as arbitrary: p) auto

lemma chain_map_le:
  "chain nx p as \<Longrightarrow> (\<And>a. a \<in> set as \<Longrightarrow> nx' a = nx a) \<Longrightarrow> chain nx' p as"
  by (induction as arbitrary: p) auto

lemma chain_unique: "chain nx p as \<Longrightarrow> chain nx p bs \<Longrightarrow> as = bs"
proof (induction as arbitrary: p bs)
  case Nil
  then show ?case by simp
next
  case (Cons a as)
  then show ?case by (cases bs) auto
qed

lemma chain_dom: "chain nx p as \<Longrightarrow> set as \<subseteq> dom nx"
  by (induction as arbitrary: p) auto

section \<open>Lists\<close>

lemma slice_Suc:
  "i \<le> p \<Longrightarrow> p < length xs \<Longrightarrow> take (Suc p - i) (drop i xs) = take (p - i) (drop i xs) @ [xs ! p]"
  by (simp add: Suc_diff_le take_Suc_conv_app_nth)

end
