(* ===== verification/Common_Util.thy ===== *)
theory Common_Util
  imports Prelude
begin

unbundle bit_operations_syntax

text \<open>
  The helpers of \<^verbatim>\<open>commonUtil.c\<close>, the macros of \<^verbatim>\<open>globals.h\<close> and the counted
  strings of \<^verbatim>\<open>base/string_t.c\<close>. A C \<^verbatim>\<open>int\<close> is an \<open>int\<close> where the program
  keeps it small and a \<open>32 word\<close> where its wrap-around is observable.
\<close>

section \<open>commonUtil.c\<close>

definition c_max :: "int \<Rightarrow> int \<Rightarrow> int" where
  "c_max x y = (if x > y then x else y)"

definition c_min :: "int \<Rightarrow> int \<Rightarrow> int" where
  "c_min x y = (if x < y then x else y)"

text \<open>
  \<open>p_abs\<close> takes and returns a 32-bit \<^verbatim>\<open>int\<close>; the argument the timers pass is a
  \<^verbatim>\<open>msec_t\<close>, converted bit for bit. The negation of the least value overflows: on
  the two's complement machines the program targets it yields that value again.
\<close>

definition p_abs :: "32 word \<Rightarrow> 32 word" where
  "p_abs x = (if sint x < 0 then - x else x)"

lemma c_max_eq [simp]: "c_max x y = max x y"
  by (simp add: c_max_def max_def)

lemma c_min_eq [simp]: "c_min x y = min x y"
  by (simp add: c_min_def)

text \<open>The value that an assignment stores in a C \<^verbatim>\<open>int\<close>, on the same machines.\<close>

definition c_int :: "int \<Rightarrow> int" where
  "c_int x = sint (word_of_int x :: 32 word)"

lemma c_int_small: "- (2 ^ 31) \<le> x \<Longrightarrow> x < 2 ^ 31 \<Longrightarrow> c_int x = x"
  by (simp add: c_int_def sint_sbintrunc' signed_take_bit_int_eq_self)

lemma c_int_wraps: "2 ^ 31 \<le> x \<Longrightarrow> x < 2 ^ 32 \<Longrightarrow> c_int x = x - 2 ^ 32"
proof -
  assume x: "2 ^ 31 \<le> x" "x < 2 ^ 32"
  then have "(x + 2 ^ 31) mod 2 ^ 32 = x - 2 ^ 31" using int_mod_pos_eq [of "x + 2 ^ 31" "2 ^ 32" 1 "x - 2 ^ 31"] by simp
  then show ?thesis by (simp add: c_int_def int_word_sint)
qed

section \<open>globals.h\<close>

text \<open>\<^verbatim>\<open>#define align(d, a) (((d) + (a - 1)) & ~(a - 1))\<close>, on \<^verbatim>\<open>size_t\<close>.\<close>

definition align :: "64 word \<Rightarrow> 64 word \<Rightarrow> 64 word" where
  "align d a = (d + (a - 1)) AND NOT (a - 1)"

text \<open>\<^verbatim>\<open>#define tolower(c) (u_char) ((c >= 'A' && c <= 'Z') ? (c | 0x20) : c)\<close>\<close>

definition code :: "char \<Rightarrow> nat" where
  "code c = of_char c"

definition c_tolower :: "char \<Rightarrow> char" where
  "c_tolower c = (if 65 \<le> code c \<and> code c \<le> 90 then char_of (code c + 32) else c)"

lemma code_char_of: "n < 256 \<Longrightarrow> code (char_of n) = n"
  by (simp add: code_def)

lemma code_less: "code c < 256"
  by (simp add: code_def)

lemma code_c_tolower:
  "code (c_tolower c) = (if 65 \<le> code c \<and> code c \<le> 90 then code c + 32 else code c)"
  by (simp add: c_tolower_def code_char_of)

lemma c_tolower_idem [simp]: "c_tolower (c_tolower c) = c_tolower c"
  unfolding c_tolower_def [of "c_tolower c"] using code_c_tolower [of c]
  by (auto split: if_splits)

section \<open>Comparing bytes: strncmp and strncasecmp\<close>

text \<open>
  \<open>strneq fold as bs n\<close> is \<^verbatim>\<open>strncmp(a, b, n) == 0\<close> for the bytes readable at \<open>a\<close>
  and \<open>b\<close>, after mapping each byte by \<open>fold\<close> (the identity for \<^verbatim>\<open>strncmp\<close>, lower
  case for \<^verbatim>\<open>strncasecmp\<close>). It stops at the first difference and at a common NUL;
  reading past the end of the readable bytes has no defined result.
\<close>

fun strneq :: "(char \<Rightarrow> char) \<Rightarrow> char list \<Rightarrow> char list \<Rightarrow> nat \<Rightarrow> bool option" where
  "strneq f as bs 0 = Some True"
| "strneq f (a # as) (b # bs) (Suc n) =
     (if f a \<noteq> f b then Some False
      else if code a = 0 then Some True
      else strneq f as bs n)"
| "strneq f as bs (Suc n) = None"

lemma strneq_decides:
  assumes "n \<le> length as" "n \<le> length bs" "\<forall>c \<in> set (take n bs). code (f c) \<noteq> 0"
    and "\<forall>c. code c = 0 \<longrightarrow> code (f c) = 0"
  shows "strneq f as bs n = Some (map f (take n as) = map f (take n bs))"
  using assms
proof (induction f as bs n rule: strneq.induct)
  case (2 f a as b bs n)
  then have "f a = f b \<Longrightarrow> code a \<noteq> 0" by force
  with 2 show ?case by auto
qed auto

lemma strncmp_decides:
  "n \<le> length as \<Longrightarrow> n \<le> length bs \<Longrightarrow> \<forall>c \<in> set (take n bs). code c \<noteq> 0 \<Longrightarrow>
   strneq id as bs n = Some (take n as = take n bs)"
  by (subst strneq_decides) auto

section \<open>string_t.c\<close>

text \<open>
  A \<^verbatim>\<open>string\<close> is a pointer and a length. \<open>chars\<close> holds the bytes that can be read
  from the pointer on, so a length beyond them is a read outside the object.
\<close>

record str =
  chars :: "char list"
  len :: int

definition stringInit :: str where
  "stringInit = \<lparr>chars = [], len = 0\<rparr>"

text \<open>The macro \<^verbatim>\<open>STRING(cstr)\<close>: a literal with its closing NUL, which is not counted.\<close>

definition STRING :: "char list \<Rightarrow> str" where
  "STRING cs = \<lparr>chars = cs @ [CHR 0x00], len = int (length cs)\<rparr>"

definition stringEq :: "str \<Rightarrow> str \<Rightarrow> bool option" where
  "stringEq a b =
     (if len a \<noteq> len b then Some False
      else strneq id (chars a) (chars b) (nat (len a)))"

lemma stringEq_STRING:
  assumes "len a = int n" "n \<le> length (chars a)" "\<forall>c \<in> set cs. code c \<noteq> 0"
  shows "stringEq a (STRING cs) = Some (take n (chars a) = cs)"
  using assms by (auto simp: stringEq_def STRING_def strncmp_decides)

end
