(* ===== verification/Vector_C.thy ===== *)
theory Vector_C
  imports Common_Util
begin

text \<open>
  \<^verbatim>\<open>base/vector.c\<close>: an array that grows by \<^verbatim>\<open>realloc\<close>. One list element stands for
  one unit of \<open>v_unit_size\<close> bytes; a unit that \<^verbatim>\<open>realloc\<close> added and nobody has
  written is \<open>None\<close>. The allocator of the C library is an argument: the Boolean \<open>ok\<close>
  says whether this call finds memory.
\<close>

record 'a vector =
  v_capacity :: int
  v_used :: int
  v_unit_size :: int
  v_data :: "'a option list option"

text \<open>
  \<^verbatim>\<open>memzero\<close> runs before the null test, so a failed \<^verbatim>\<open>malloc\<close> is a write through a
  null pointer. \<open>z\<close> is the value of a unit whose bytes are all zero.
\<close>

definition vectorInit :: "bool \<Rightarrow> 'a \<Rightarrow> int \<Rightarrow> int \<Rightarrow> (rc \<times> 'a vector) option" where
  "vectorInit ok z capacity unit_size = do {
     guard (unit_size > 0);
     d \<leftarrow> (if capacity > 0
          then do { guard ok; Some (Some (replicate (nat capacity) (Some z))) }
          else Some None);
     Some (OK, \<lparr>v_capacity = capacity, v_used = 0, v_unit_size = unit_size, v_data = d\<rparr>)
   }"

text \<open>
  The C \<^verbatim>\<open>vec->capacity * 1.5\<close> is a \<^verbatim>\<open>double\<close> that the call of \<^verbatim>\<open>max(int, int)\<close>
  truncates towards zero. The test of the \<^verbatim>\<open>realloc\<close> result lacks its \<^verbatim>\<open>return\<close>:
  a failure still updates the capacity and answers \<^verbatim>\<open>OK\<close>.
\<close>

definition one_and_half :: "int \<Rightarrow> int" where
  "one_and_half n = (if n \<ge> 0 then n * 3 div 2 else - (- n * 3 div 2))"

definition vectorResize :: "bool \<Rightarrow> 'a vector \<Rightarrow> int \<Rightarrow> rc \<times> 'a vector" where
  "vectorResize ok vec new_capacity =
     (if v_capacity vec \<ge> new_capacity then (OK, vec)
      else
        let n = c_max (one_and_half (v_capacity vec)) new_capacity;
            old = (case v_data vec of None \<Rightarrow> [] | Some xs \<Rightarrow> xs);
            d = (if ok then Some (old @ replicate (nat n - length old) None) else None)
        in (OK, vec\<lparr>v_data := d, v_capacity := n\<rparr>))"

text \<open>The returned pointer is the index of the unit; \<open>None\<close> is the null pointer.\<close>

definition vectorAt :: "'a vector \<Rightarrow> int \<Rightarrow> nat option" where
  "vectorAt vec pos = (if pos \<ge> v_capacity vec \<or> pos < 0 then None else Some (nat pos))"

definition vectorPop :: "'a vector \<Rightarrow> 'a vector option" where
  "vectorPop vec = do {
     guard (v_used vec > 0);
     Some (vec\<lparr>v_used := v_used vec - 1\<rparr>)
   }"

definition vectorBack :: "'a vector \<Rightarrow> nat option" where
  "vectorBack vec = vectorAt vec (v_used vec - 1)"

definition vectorPush :: "bool \<Rightarrow> 'a vector \<Rightarrow> nat option \<times> 'a vector" where
  "vectorPush ok vec =
     (let vec1 = vec\<lparr>v_used := v_used vec + 1\<rparr>;
          (ret, vec2) = vectorResize ok vec1 (v_used vec1)
      in if ret = OK then (vectorBack vec2, vec2) else (None, vec2))"

definition vectorClear :: "'a vector \<Rightarrow> 'a vector" where
  "vectorClear vec = vec\<lparr>v_capacity := 0, v_used := 0, v_unit_size := 0, v_data := None\<rparr>"

text \<open>Loads and stores through a pointer that \<open>vectorAt\<close> returned.\<close>

definition vload :: "'a vector \<Rightarrow> nat \<Rightarrow> 'a option" where
  "vload vec i = do { xs \<leftarrow> v_data vec; guard (i < length xs); xs ! i }"

definition vstore :: "'a vector \<Rightarrow> nat \<Rightarrow> 'a \<Rightarrow> 'a vector option" where
  "vstore vec i x = do {
     xs \<leftarrow> v_data vec;
     guard (i < length xs);
     Some (vec\<lparr>v_data := Some (xs[i := Some x])\<rparr>)
   }"

section \<open>The invariant and the contract of push\<close>

definition units :: "'a vector \<Rightarrow> 'a option list" where
  "units vec = (case v_data vec of None \<Rightarrow> [] | Some xs \<Rightarrow> xs)"

definition vector_wf :: "'a vector \<Rightarrow> bool" where
  "vector_wf vec \<longleftrightarrow> 0 \<le> v_used vec \<and> v_used vec \<le> v_capacity vec \<and>
     int (length (units vec)) = v_capacity vec"

text \<open>The elements in use, the abstract value of a vector.\<close>

definition elems :: "'a vector \<Rightarrow> 'a option list" where
  "elems vec = take (nat (v_used vec)) (units vec)"

lemma vectorInit_wf:
  "vectorInit ok z c u = Some (r, vec) \<Longrightarrow> c \<ge> 0 \<Longrightarrow> vector_wf vec \<and> elems vec = [] \<and> r = OK"
  by (auto simp: vectorInit_def vector_wf_def units_def elems_def exec split: if_splits)

lemma vectorResize_units:
  "vector_wf vec \<Longrightarrow> vectorResize True (vec\<lparr>v_used := n\<rparr>) n = (r, vec') \<Longrightarrow>
   r = OK \<and> v_used vec' = n \<and> n \<le> v_capacity vec' \<and> v_capacity vec \<le> v_capacity vec' \<and>
   int (length (units vec')) = v_capacity vec' \<and> take (length (units vec)) (units vec') = units vec"
  by (auto simp: vectorResize_def Let_def vector_wf_def units_def max_def
      split: option.splits if_splits)

lemma vectorPush_wf:
  assumes wf: "vector_wf vec"
  obtains vec' where "vectorPush True vec = (Some (nat (v_used vec)), vec')" "vector_wf vec'"
    "v_used vec' = v_used vec + 1" "butlast (elems vec') = elems vec"
    "nat (v_used vec) < length (units vec')" "v_capacity vec \<le> v_capacity vec'"
proof -
  let ?n = "v_used vec + 1"
  obtain r vec' where rs: "vectorResize True (vec\<lparr>v_used := ?n\<rparr>) ?n = (r, vec')"
    by (cases "vectorResize True (vec\<lparr>v_used := ?n\<rparr>) ?n")
  note u = vectorResize_units [OF wf rs]
  from wf have bnd: "0 \<le> v_used vec" "nat (v_used vec) \<le> length (units vec)"
    by (auto simp: vector_wf_def)
  have "Suc (nat (v_used vec)) \<le> length (units vec')" using u bnd by linarith
  then have "butlast (elems vec') = take (nat (v_used vec)) (units vec')"
    using u bnd by (simp add: elems_def butlast_take nat_add_distrib)
  also have "\<dots> = take (nat (v_used vec)) (take (length (units vec)) (units vec'))"
    using bnd by (simp add: min_def)
  also have "\<dots> = elems vec" using u by (simp add: elems_def)
  finally have "butlast (elems vec') = elems vec" .
  moreover have "vectorPush True vec = (Some (nat (v_used vec)), vec')"
    using rs u bnd by (simp add: vectorPush_def vectorBack_def vectorAt_def)
  ultimately show thesis
    using that [of vec'] u bnd by (auto simp: vector_wf_def)
qed

text \<open>A store to a unit in use and a load of it.\<close>

lemma vstore_vload:
  "vstore vec i x = Some vec' \<Longrightarrow> vload vec' j = (if i = j then Some x else vload vec j)"
  by (auto simp: vstore_def vload_def exec split: if_splits bind_splits)

lemma vstore_frame:
  "vstore vec i x = Some vec' \<Longrightarrow> vector_wf vec \<Longrightarrow>
   vector_wf vec' \<and> v_used vec' = v_used vec \<and> elems vec' = (elems vec)[i := Some x]"
  by (auto simp: vstore_def vector_wf_def units_def elems_def take_update_swap exec
      split: option.splits)

lemma vstore_defined: "i < length (units vec) \<Longrightarrow> \<exists>vec'. vstore vec i x = Some vec'"
  by (auto simp: vstore_def units_def split: option.splits)

section \<open>Properties\<close>

text \<open>
  Pushing and storing on a well-formed vector (with memory available) appends: the push
  returns the index of a new last unit inside the array, the store through it succeeds, and the
  elements are the old ones followed by the new one, whether or not the array had to grow.
\<close>

theorem push_appends:
  assumes "vector_wf vec"
  shows "\<exists>i vec1 vec2. vectorPush True vec = (Some i, vec1) \<and> vstore vec1 i x = Some vec2 \<and> vector_wf vec2 \<and>
    elems vec2 = elems vec @ [Some x] \<and> vload vec2 i = Some x"
proof -
  obtain vec1 where p: "vectorPush True vec = (Some (nat (v_used vec)), vec1)" "vector_wf vec1"
    "v_used vec1 = v_used vec + 1" "butlast (elems vec1) = elems vec" "nat (v_used vec) < length (units vec1)"
    using vectorPush_wf [OF assms] by metis
  obtain vec2 where s: "vstore vec1 (nat (v_used vec)) x = Some vec2" using vstore_defined [OF p(5)] by blast
  have "0 \<le> v_used vec" using assms by (simp add: vector_wf_def)
  then have "length (elems vec1) = Suc (nat (v_used vec))" using p(3,5) by (simp add: elems_def nat_add_distrib)
  then have "(elems vec1)[nat (v_used vec) := Some x] = elems vec @ [Some x]"
    using p(4) by (metis append_butlast_last_id diff_Suc_1 length_butlast list.size(3) list_update_length old.nat.distinct(1))
  then show ?thesis using p(1) s vstore_frame [OF s p(2)] vstore_vload [OF s, of "nat (v_used vec)"] by auto
qed

theorem push_appends_witness:
  "\<exists>vec i vec1 vec2. vectorInit True (0 :: nat) 1 4 = Some (OK, vec) \<and> vectorPush True vec = (Some i, vec1) \<and>
    vstore vec1 i 7 = Some vec2 \<and> elems vec2 = [Some 7]"
proof -
  obtain vec where v: "vectorInit True (0 :: nat) 1 4 = Some (OK, vec)" by (simp add: vectorInit_def)
  then have "vector_wf vec" "elems vec = []" using vectorInit_wf [OF v] by auto
  then show ?thesis using push_appends [of vec 7] v by auto
qed

end
