(* ===== verification/Pool_C.thy ===== *)
theory Pool_C
  imports Vector_C
begin

text \<open>
  \<^verbatim>\<open>base/chunk.c\<close> and \<^verbatim>\<open>base/pool.c\<close>: the free-list allocator of connections.

  A block obtained from \<^verbatim>\<open>malloc\<close> is named by a number, and a slot by its block and its
  byte offset in the block. The first \<open>WORD\<close> bytes of a slot are its next pointer, the
  rest is the user's data. \<open>mem\<close> holds the next pointers of all slots and the name of the
  next block \<^verbatim>\<open>malloc\<close> will return.
\<close>

section \<open>Chunks\<close>

type_synonym slot = "nat \<times> nat"

record mem =
  next_of :: "slot \<rightharpoonup> slot option"
  brk :: nat

text \<open>\<^verbatim>\<open>sizeof(void*)\<close>, which is also \<^verbatim>\<open>sizeof(chunk_slot)\<close>.\<close>

definition WORD :: nat where
  "WORD = 8"

text \<open>The loop of \<open>chunkInit\<close>: link the slot at \<open>off\<close> and the \<open>n\<close> slots after it.\<close>

fun link_slots :: "nat \<Rightarrow> nat \<Rightarrow> nat \<Rightarrow> nat \<Rightarrow> (slot \<rightharpoonup> slot option) \<Rightarrow> (slot \<rightharpoonup> slot option)" where
  "link_slots b w off 0 nx = nx((b, off) \<mapsto> None)"
| "link_slots b w off (Suc n) nx = link_slots b w (off + w) n (nx((b, off) \<mapsto> Some (b, off + w)))"

definition chunkInit :: "bool \<Rightarrow> int \<Rightarrow> int \<Rightarrow> mem \<Rightarrow> (rc \<times> nat \<times> mem) option" where
  "chunkInit ok unit_size unit_num m = do {
     guard (\<not> unit_num \<le> 0);
     let w = nat unit_size + WORD;
     guard ok;
     let b = brk m;
     Some (OK, b, \<lparr>next_of = link_slots b w 0 (nat unit_num - 1) (next_of m), brk = b + 1\<rparr>)
   }"

definition get_data_from_chunk :: "slot \<Rightarrow> slot" where
  "get_data_from_chunk s = (fst s, snd s + WORD)"

section \<open>The pool\<close>

text \<open>A \<^verbatim>\<open>chunk\<close> is its data pointer: a block, or null in zeroed memory.\<close>

record pool =
  p_unit_size :: int
  p_unit_num :: int
  p_used :: int
  p_free :: "slot option"
  p_chunks :: "nat option vector"

fun init_chunks :: "bool \<Rightarrow> int \<Rightarrow> int \<Rightarrow> nat \<Rightarrow> nat \<Rightarrow> nat option vector \<Rightarrow> mem \<Rightarrow>
    (nat option vector \<times> mem) option" where
  "init_chunks ok us un i 0 ch m = Some (ch, m)"
| "init_chunks ok us un i (Suc n) ch m = do {
     k \<leftarrow> vectorAt ch (int i);
     (r, b, m1) \<leftarrow> chunkInit ok us un m;
     ch1 \<leftarrow> vstore ch k (Some b);
     init_chunks ok us un (i + 1) n ch1 m1
   }"

definition poolInit :: "bool \<Rightarrow> int \<Rightarrow> int \<Rightarrow> int \<Rightarrow> mem \<Rightarrow> (rc \<times> pool \<times> mem) option" where
  "poolInit ok unit_size unit_num chunk_num m = do {
     let us = c_max unit_size (int WORD);
     (err, ch) \<leftarrow> vectorInit ok None chunk_num (int WORD);
     (ch1, m1) \<leftarrow> init_chunks ok us unit_num 0 (nat chunk_num) ch m;
     Some (OK, \<lparr>p_unit_size = us, p_unit_num = unit_num, p_used = 0, p_free = None,
       p_chunks = ch1\<rparr>, m1)
   }"

text \<open>
  \<open>refill\<close> is the branch taken on an empty free list: it pushes a chunk, allocates its
  block and points the free list at the block's first slot.
\<close>

definition refill :: "bool \<Rightarrow> pool \<Rightarrow> mem \<Rightarrow> (bool \<times> pool \<times> mem) option" where
  "refill ok p m =
     (case vectorPush ok (p_chunks p) of
        (None, ch) \<Rightarrow> Some (False, p\<lparr>p_chunks := ch\<rparr>, m)
      | (Some i, ch) \<Rightarrow> do {
          (r, b, m1) \<leftarrow> chunkInit ok (p_unit_size p) (p_unit_num p) m;
          ch1 \<leftarrow> vstore ch i (Some b);
          Some (True, p\<lparr>p_chunks := ch1, p_free := Some (b, 0)\<rparr>, m1)
        })"

definition poolAlloc :: "bool \<Rightarrow> pool \<Rightarrow> mem \<Rightarrow> (slot option \<times> pool \<times> mem) option" where
  "poolAlloc ok p m = do {
     let p0 = p\<lparr>p_used := p_used p + 1\<rparr>;
     (go, p1, m1) \<leftarrow> (if p_free p0 = None then refill ok p0 m else Some (True, p0, m));
     if \<not> go then Some (None, p1, m1)
     else do {
       ret \<leftarrow> p_free p1;
       nxt \<leftarrow> next_of m1 ret;
       Some (Some (get_data_from_chunk ret), p1\<lparr>p_free := nxt\<rparr>, m1)
     }
   }"

definition poolFree :: "pool \<Rightarrow> slot option \<Rightarrow> mem \<Rightarrow> (pool \<times> mem) option" where
  "poolFree p x m =
     (case x of
        None \<Rightarrow> Some (p, m)
      | Some (b, off) \<Rightarrow> do {
          guard (WORD \<le> off);
          let s = (b, off - WORD);
          guard (next_of m s \<noteq> None);
          Some (p\<lparr>p_used := p_used p - 1, p_free := Some s\<rparr>,
                m\<lparr>next_of := (next_of m)(s \<mapsto> p_free p)\<rparr>)
        })"

section \<open>The invariant\<close>

text \<open>The slots a pool has carved out of its blocks.\<close>

definition slots :: "pool \<Rightarrow> mem \<Rightarrow> slot set" where
  "slots p m = {(b, i * (nat (p_unit_size p) + WORD)) |b i. b < brk m \<and> i < nat (p_unit_num p)}"

definition free_slots :: "pool \<Rightarrow> mem \<Rightarrow> slot list \<Rightarrow> bool" where
  "free_slots p m fl \<longleftrightarrow> chain (next_of m) (p_free p) fl \<and> distinct fl"

text \<open>
  The live slots are those not on the free list; \<open>p_used\<close> counts them.
\<close>

definition pool_shape :: "pool \<Rightarrow> mem \<Rightarrow> slot set \<Rightarrow> bool" where
  "pool_shape p m live \<longleftrightarrow>
     p_unit_size p \<ge> int WORD \<and> p_unit_num p > 0 \<and> vector_wf (p_chunks p) \<and>
     dom (next_of m) = slots p m \<and> live \<subseteq> slots p m \<and>
     (\<exists>fl. free_slots p m fl \<and> set fl = slots p m - live)"

definition pool_inv :: "pool \<Rightarrow> mem \<Rightarrow> slot set \<Rightarrow> bool" where
  "pool_inv p m live \<longleftrightarrow> pool_shape p m live \<and> p_used p = int (card live)"

lemma finite_slots [simp]: "finite (slots p m)"
proof -
  have "slots p m = (\<lambda>(b, i). (b, i * (nat (p_unit_size p) + WORD))) `
      ({..<brk m} \<times> {..<nat (p_unit_num p)})"
    by (auto simp: slots_def image_def)
  then show ?thesis by simp
qed

lemma slots_upd [simp]:
  "slots (p\<lparr>p_used := u\<rparr>) m = slots p m" "slots (p\<lparr>p_free := f\<rparr>) m = slots p m"
  "slots (p\<lparr>p_chunks := c\<rparr>) m = slots p m" "slots p (m\<lparr>next_of := nx\<rparr>) = slots p m"
  by (simp_all add: slots_def)

lemma pool_shape_used [simp]: "pool_shape (p\<lparr>p_used := u\<rparr>) m live = pool_shape p m live"
  by (simp add: pool_shape_def free_slots_def)

lemma pool_inv_finite: "pool_inv p m live \<Longrightarrow> finite live"
  by (auto simp: pool_inv_def pool_shape_def intro: finite_subset)

section \<open>Linking a fresh block\<close>

lemma link_slots_outside:
  "fst s \<noteq> b \<Longrightarrow> link_slots b w off n nx s = nx s"
  by (induction n arbitrary: off nx) auto

lemma link_slots_below:
  "o' < off \<Longrightarrow> 0 < w \<Longrightarrow> link_slots b w off n nx (b, o') = nx (b, o')"
  by (induction n arbitrary: off nx) auto

lemma link_slots_dom:
  "dom (link_slots b w off n nx) = dom nx \<union> (\<lambda>i. (b, off + i * w)) ` {..n}"
proof (induction n arbitrary: off nx)
  case 0
  then show ?case by auto
next
  case (Suc n)
  have "{..Suc n} = insert 0 (Suc ` {..n})" by (rule atMost_Suc_eq_insert_0)
  then show ?case by (auto simp: Suc.IH image_image algebra_simps)
qed

lemma link_slots_chain:
  "0 < w \<Longrightarrow> chain (link_slots b w off n nx) (Some (b, off)) (map (\<lambda>i. (b, off + i * w)) [0..<Suc n])"
proof (induction n arbitrary: off nx)
  case 0
  then show ?case by simp
next
  case (Suc n)
  have "map (\<lambda>i. (b, off + i * w)) [0..<Suc (Suc n)] =
      (b, off) # map (\<lambda>i. (b, off + w + i * w)) [0..<Suc n]"
    by (simp add: upt_conv_Cons map_Suc_upt [symmetric] algebra_simps del: upt_Suc)
  with Suc show ?case by (simp add: link_slots_below del: upt_Suc)
qed

section \<open>The contract of alloc and free\<close>

lemma refill_ok:
  assumes sh: "pool_shape p m live" and empty: "p_free p = None"
  obtains p' m' where "refill True p m = Some (True, p', m')" "pool_shape p' m' live"
    "p_free p' \<noteq> None" "p_used p' = p_used p"
proof -
  let ?n = "nat (p_unit_num p) - 1" and ?w = "nat (p_unit_size p) + WORD" and ?b = "brk m"
  let ?nx = "link_slots ?b ?w 0 ?n (next_of m)"
  let ?fl = "map (\<lambda>i. (?b, i * ?w)) [0..<nat (p_unit_num p)]"
  from sh have un: "p_unit_num p > 0" and wf: "vector_wf (p_chunks p)"
    and live: "live = slots p m" and dom: "dom (next_of m) = slots p m"
    using empty by (auto simp: pool_shape_def free_slots_def)
  obtain ch where push: "vectorPush True (p_chunks p) = (Some (nat (v_used (p_chunks p))), ch)"
    and chwf: "vector_wf ch" and len: "nat (v_used (p_chunks p)) < length (units ch)"
    using vectorPush_wf [OF wf] by metis
  obtain ch' where st: "vstore ch (nat (v_used (p_chunks p))) (Some ?b) = Some ch'"
    using vstore_defined [OF len] by blast
  let ?p = "p\<lparr>p_chunks := ch', p_free := Some (?b, 0)\<rparr>" and ?m = "\<lparr>next_of = ?nx, brk = ?b + 1\<rparr>"
  have eq: "refill True p m = Some (True, ?p, ?m)"
    using push st un by (simp add: refill_def chunkInit_def Let_def)
  have new: "slots ?p ?m = slots p m \<union> set ?fl"
    by (auto simp: slots_def less_Suc_eq image_iff)
  have sep: "set ?fl \<inter> slots p m = {}" by (auto simp: slots_def)
  have n: "Suc ?n = nat (p_unit_num p)" "{..?n} = {0..<nat (p_unit_num p)}" using un by auto
  have c: "chain ?nx (Some (?b, 0)) ?fl"
    using link_slots_chain [of ?w ?b 0 ?n "next_of m", unfolded n] by (simp add: WORD_def)
  have d: "distinct ?fl" by (auto simp: distinct_map inj_on_def WORD_def)
  have dm: "dom ?nx = slots ?p ?m" unfolding new link_slots_dom dom n by simp
  have fl: "free_slots ?p ?m ?fl" using c d by (simp add: free_slots_def)
  have "live \<subseteq> slots ?p ?m" "set ?fl = slots ?p ?m - live"
    unfolding new live using sep by auto
  then have "pool_shape ?p ?m live"
    using sh vstore_frame [OF st chwf] dm fl unfolding pool_shape_def
    by (intro conjI exI [of _ ?fl]) simp_all
  with eq show thesis using that by simp
qed

lemma pool_take:
  assumes sh: "pool_shape p m live" and f: "p_free p = Some s"
  obtains nxt where "next_of m s = Some nxt" "s \<notin> live"
    "pool_shape (p\<lparr>p_free := nxt\<rparr>) m (insert s live)"
proof -
  obtain fl where fl: "chain (next_of m) (Some s) fl" "distinct fl" "set fl = slots p m - live"
    using sh f by (auto simp: pool_shape_def free_slots_def)
  then obtain fl' nxt where "fl = s # fl'" "next_of m s = Some nxt" "chain (next_of m) nxt fl'"
    by (cases fl) auto
  with fl sh show thesis
    by (intro that [of nxt]) (auto simp: pool_shape_def free_slots_def intro!: exI [of _ fl'])
qed

lemma poolAlloc_ok:
  assumes inv: "pool_inv p m live"
  obtains s p' m' where "poolAlloc True p m = Some (Some (get_data_from_chunk s), p', m')"
    "s \<notin> live" "pool_inv p' m' (insert s live)"
proof -
  let ?p = "p\<lparr>p_used := p_used p + 1\<rparr>"
  have sh: "pool_shape ?p m live" using inv by (simp add: pool_inv_def)
  obtain p1 m1 s where go: "(if p_free ?p = None then refill True ?p m else Some (True, ?p, m)) =
      Some (True, p1, m1)" and sh1: "pool_shape p1 m1 live" and f: "p_free p1 = Some s"
    and u: "p_used p1 = p_used p + 1"
  proof (cases "p_free ?p")
    case None
    obtain p' m' where r: "refill True ?p m = Some (True, p', m')" "pool_shape p' m' live"
      "p_free p' \<noteq> None" "p_used p' = p_used ?p"
      using refill_ok [OF sh None] .
    then obtain s where "p_free p' = Some s" by blast
    with r None show ?thesis using that [of p' m' s] by simp
  next
    case (Some s)
    then show ?thesis using that sh by simp
  qed
  obtain nxt where n: "next_of m1 s = Some nxt" "s \<notin> live"
    "pool_shape (p1\<lparr>p_free := nxt\<rparr>) m1 (insert s live)"
    using pool_take [OF sh1 f] .
  have "poolAlloc True p m = Some (Some (get_data_from_chunk s), p1\<lparr>p_free := nxt\<rparr>, m1)"
    using go f n by (simp add: poolAlloc_def Let_def del: pool.select_convs)
  moreover have "pool_inv (p1\<lparr>p_free := nxt\<rparr>) m1 (insert s live)"
    using n u inv pool_inv_finite [OF inv] by (simp add: pool_inv_def)
  ultimately show thesis using that n by blast
qed

lemma poolFree_ok:
  assumes inv: "pool_inv p m live" and s: "s \<in> live"
  obtains p' m' where "poolFree p (Some (get_data_from_chunk s)) m = Some (p', m')"
    "pool_inv p' m' (live - {s})" "p_free p' = Some s"
proof -
  let ?p = "p\<lparr>p_used := p_used p - 1, p_free := Some s\<rparr>"
    and ?m = "m\<lparr>next_of := (next_of m)(s \<mapsto> p_free p)\<rparr>"
  obtain fl where fl: "chain (next_of m) (p_free p) fl" "distinct fl" "set fl = slots p m - live"
    using inv by (auto simp: pool_inv_def pool_shape_def free_slots_def)
  have d: "s \<in> dom (next_of m)" using inv s by (auto simp: pool_inv_def pool_shape_def)
  then have eq: "poolFree p (Some (get_data_from_chunk s)) m = Some (?p, ?m)"
    by (cases s) (auto simp: poolFree_def get_data_from_chunk_def Let_def)
  have "s \<notin> set fl" using fl s by auto
  then have "free_slots ?p ?m (s # fl)" using fl by (simp add: free_slots_def)
  moreover have "dom (next_of ?m) = slots ?p ?m"
    using d inv by (auto simp: pool_inv_def pool_shape_def)
  ultimately have "pool_shape ?p ?m (live - {s})"
    using inv fl s by (auto simp: pool_inv_def pool_shape_def intro!: exI [of _ "s # fl"])
  then have "pool_inv ?p ?m (live - {s})"
    using inv s pool_inv_finite [OF inv]
    by (simp add: pool_inv_def card_Diff_singleton of_nat_diff card_gt_0_iff Suc_leI)
      (metis card_gt_0_iff empty_iff of_nat_1 of_nat_diff One_nat_def Suc_leI)
  with eq show thesis using that by simp
qed

section \<open>The interface to the connection layer\<close>

text \<open>
  What the connection layer relies on: an allocation hands out a slot that is not in use,
  a release takes back one that is, and \<open>used\<close> counts the slots in use. \<open>p\<close> is the
  allocator's whole state and \<open>live\<close> the set of slots in use.
\<close>

locale slot_allocator =
  fixes alloc :: "'p \<Rightarrow> ('s option \<times> 'p) option"
    and free :: "'p \<Rightarrow> 's \<Rightarrow> 'p option"
    and used :: "'p \<Rightarrow> int"
    and inv :: "'p \<Rightarrow> 's set \<Rightarrow> bool"
  assumes alloc_fresh: "inv p live \<Longrightarrow>
      \<exists>s p'. alloc p = Some (Some s, p') \<and> s \<notin> live \<and> inv p' (insert s live)"
    and free_live: "inv p live \<Longrightarrow> s \<in> live \<Longrightarrow> \<exists>p'. free p s = Some p' \<and> inv p' (live - {s})"
    and used_card: "inv p live \<Longrightarrow> finite live \<and> used p = int (card live)"
begin

lemma alloc_used:
  assumes "inv p live" "alloc p = Some (Some s, p')"
  shows "s \<notin> live" "inv p' (insert s live)" "used p' = used p + 1"
  using alloc_fresh [OF assms(1)] assms used_card [of p live] used_card [of p' "insert s live"]
  by auto

lemma free_used:
  assumes "inv p live" "s \<in> live" "free p s = Some p'"
  shows "inv p' (live - {s})" "used p' = used p - 1"
proof -
  show i: "inv p' (live - {s})" using free_live [OF assms(1,2)] assms(3) by auto
  have "card live > 0" using used_card [OF assms(1)] assms(2) by (auto simp: card_gt_0_iff)
  then show "used p' = used p - 1"
    using used_card [OF assms(1)] used_card [OF i] assms(2) by (simp add: of_nat_diff)
qed

lemma alloc_then_free:
  assumes "inv p live"
  shows "\<exists>s p' p''. alloc p = Some (Some s, p') \<and> free p' s = Some p'' \<and> inv p'' live \<and> used p'' = used p"
proof -
  obtain s p' where a: "alloc p = Some (Some s, p')" "s \<notin> live" "inv p' (insert s live)"
    using alloc_fresh [OF assms] by blast
  obtain p'' where f: "free p' s = Some p''" "inv p'' (insert s live - {s})"
    using free_live [OF a(3), of s] by blast
  have "insert s live - {s} = live" using a by simp
  with a f show ?thesis using used_card [OF assms] used_card [of p'' live] by auto
qed

end

text \<open>
  The code's pool provides it: its state is the pool with the memory behind it, its slots
  are the data pointers that \<open>get_data_from_chunk\<close> computes, and the C library is
  assumed to find memory.
\<close>

definition data_ptrs :: "slot set \<Rightarrow> slot set" where
  "data_ptrs live = get_data_from_chunk ` live"

definition pool_live :: "pool \<times> mem \<Rightarrow> slot set \<Rightarrow> bool" where
  "pool_live pm ptrs \<longleftrightarrow> (\<exists>live. ptrs = data_ptrs live \<and> pool_inv (fst pm) (snd pm) live)"

definition pool_alloc :: "pool \<times> mem \<Rightarrow> (slot option \<times> pool \<times> mem) option" where
  "pool_alloc pm = poolAlloc True (fst pm) (snd pm)"

definition pool_free :: "pool \<times> mem \<Rightarrow> slot \<Rightarrow> (pool \<times> mem) option" where
  "pool_free pm x = poolFree (fst pm) (Some x) (snd pm)"

lemma inj_data: "inj get_data_from_chunk"
  by (auto simp: inj_def get_data_from_chunk_def prod_eq_iff)

lemma data_ptrs_simps [simp]:
  "get_data_from_chunk s \<in> data_ptrs live \<longleftrightarrow> s \<in> live"
  "data_ptrs (insert s live) = insert (get_data_from_chunk s) (data_ptrs live)"
  "data_ptrs (live - {s}) = data_ptrs live - {get_data_from_chunk s}"
  "card (data_ptrs live) = card live"
  using inj_data card_image [OF inj_on_subset [OF inj_data subset_UNIV]]
  by (auto simp: data_ptrs_def inj_image_mem_iff image_set_diff)

interpretation pool: slot_allocator pool_alloc pool_free "\<lambda>pm. p_used (fst pm)" pool_live
proof (unfold_locales, goal_cases)
  case (1 pm ptrs)
  then obtain live where live: "ptrs = data_ptrs live" "pool_inv (fst pm) (snd pm) live"
    by (auto simp: pool_live_def)
  obtain s p' m' where "poolAlloc True (fst pm) (snd pm) = Some (Some (get_data_from_chunk s), p', m')"
    "s \<notin> live" "pool_inv p' m' (insert s live)"
    using poolAlloc_ok [OF live(2)] .
  with live show ?case
    by (intro exI [of _ "get_data_from_chunk s"] exI [of _ "(p', m')"])
      (auto simp: pool_alloc_def pool_live_def intro!: exI [of _ "insert s live"])
next
  case (2 pm ptrs x)
  then obtain live s where live: "ptrs = data_ptrs live" "pool_inv (fst pm) (snd pm) live"
    and s: "x = get_data_from_chunk s" "s \<in> live"
    by (auto simp: pool_live_def data_ptrs_def)
  obtain p' m' where "poolFree (fst pm) (Some x) (snd pm) = Some (p', m')" "pool_inv p' m' (live - {s})"
    using poolFree_ok [OF live(2) s(2)] s(1) by metis
  with live s show ?case
    by (auto simp: pool_free_def pool_live_def intro!: exI [of _ "live - {s}"])
next
  case (3 pm ptrs)
  then show ?case using pool_inv_finite
    by (auto simp: pool_live_def pool_inv_def data_ptrs_def [symmetric]) (auto simp: data_ptrs_def pool_inv_def)
qed

section \<open>Properties\<close>

lemma empty_pool:
  "\<exists>p m. poolInit True 8 2 0 \<lparr>next_of = Map.empty, brk = 0\<rparr> = Some (OK, p, m) \<and> pool_inv p m {}"
  by (auto simp: poolInit_def vectorInit_def pool_inv_def pool_shape_def free_slots_def slots_def vector_wf_def
      units_def WORD_def)

text \<open>
  C34. The pool of connections is a correct allocator: from a pool in order, an allocation (with
  memory available) returns the data pointer of a slot that is not in use, whether it comes from
  the free list or from a new chunk; releasing that pointer succeeds and puts the slot in front
  of the free list; and \<open>used\<close> counts the slots in use throughout.
\<close>

theorem pool_alloc_free:
  assumes "pool_inv p m live"
  shows "\<exists>s p' m' p'' m''. poolAlloc True p m = Some (Some (get_data_from_chunk s), p', m') \<and> s \<notin> live \<and>
    pool_inv p' m' (insert s live) \<and> poolFree p' (Some (get_data_from_chunk s)) m' = Some (p'', m'') \<and>
    pool_inv p'' m'' live \<and> p_free p'' = Some s"
proof -
  obtain s p' m' where a: "poolAlloc True p m = Some (Some (get_data_from_chunk s), p', m')" "s \<notin> live"
    "pool_inv p' m' (insert s live)" using poolAlloc_ok [OF assms] .
  obtain p'' m'' where "poolFree p' (Some (get_data_from_chunk s)) m' = Some (p'', m'')"
    "pool_inv p'' m'' (insert s live - {s})" "p_free p'' = Some s"
    using poolFree_ok [OF a(3), of s] by auto
  moreover have "insert s live - {s} = live" using a(2) by simp
  ultimately show ?thesis using a by metis
qed

theorem pool_alloc_free_witness:
  "\<exists>p m s p' m'. poolInit True 8 2 0 \<lparr>next_of = Map.empty, brk = 0\<rparr> = Some (OK, p, m) \<and>
    poolAlloc True p m = Some (Some (get_data_from_chunk s), p', m') \<and> pool_inv p' m' {s}"
proof -
  obtain p m where p: "poolInit True 8 2 0 \<lparr>next_of = Map.empty, brk = 0\<rparr> = Some (OK, p, m)" "pool_inv p m {}"
    using empty_pool by blast
  show ?thesis using pool_alloc_free [OF p(2)] p(1) by blast
qed

end
