(* ===== verification/Memory_Pool.thy ===== *)
theory Memory_Pool
  imports Common_Util
begin

text \<open>
  \<^verbatim>\<open>base/memory_pool.c\<close>: the next-fit allocator behind every request and hash table.

  The arena is counted in units of one \<^verbatim>\<open>Header\<close> (16 bytes) from \<^verbatim>\<open>data\<close>, which is
  unit 0. \<open>mp_mem\<close> maps a unit to the header stored there; \<open>None\<close> is memory that holds
  no header. Sizes are 32-bit unsigned and wrap.
\<close>

section \<open>The code\<close>

record header =
  h_next :: nat
  usedsize :: "32 word"
  freesize :: "32 word"

record memory_pool =
  mp_mem :: "nat \<rightharpoonup> header"
  mp_units :: nat \<comment> \<open>whole units inside the block that \<^verbatim>\<open>malloc\<close> returned\<close>
  memptr :: "nat option"
  MEMSIZE :: int

definition HEADERSIZE :: "32 word" where
  "HEADERSIZE = 16"

text \<open>A store of a header must lie inside the block.\<close>

definition put_header :: "memory_pool \<Rightarrow> nat \<Rightarrow> header \<Rightarrow> memory_pool option" where
  "put_header pool a h = do {
     guard (a < mp_units pool);
     Some (pool\<lparr>mp_mem := (mp_mem pool)(a \<mapsto> h)\<rparr>)
   }"

text \<open>\<open>memsize\<close> is converted to \<^verbatim>\<open>size_t\<close> before the additions, which do not wrap.\<close>

definition pMemoryPoolInit :: "bool \<Rightarrow> 32 word \<Rightarrow> rc \<times> memory_pool" where
  "pMemoryPoolInit ok memsize =
     (if ok then OK else ERROR,
      \<lparr>mp_mem = Map.empty, mp_units = (if ok then (unat memsize + 16) div 16 else 0),
       memptr = None, MEMSIZE = int ((unat memsize + 16 - 1) div 16)\<rparr>)"

definition createPool :: "bool \<Rightarrow> 32 word \<Rightarrow> memory_pool option" where
  "createPool ok bytes =
     (case pMemoryPoolInit ok bytes of (ret, p) \<Rightarrow> if ret \<noteq> OK then None else Some p)"

text \<open>The search loop of \<open>pMalloc\<close>.\<close>

partial_function (option) find_block ::
    "(nat \<rightharpoonup> header) \<Rightarrow> nat \<Rightarrow> 32 word \<Rightarrow> nat \<Rightarrow> nat option" where
  "find_block m start nunits p =
     Option.bind (m p) (\<lambda>h.
       if h_next h \<noteq> start \<and> freesize h < nunits then find_block m start nunits (h_next h)
       else Some p)"

definition nunits_of :: "32 word \<Rightarrow> 32 word" where
  "nunits_of nbytes = (nbytes + HEADERSIZE - 1) div HEADERSIZE + 1"

text \<open>The block for the first header is set up by the first call.\<close>

definition first_header :: "memory_pool \<Rightarrow> (nat \<times> memory_pool) option" where
  "first_header pool =
     (case memptr pool of
        Some p \<Rightarrow> Some (p, pool)
      | None \<Rightarrow> do {
          pool1 \<leftarrow> put_header pool 0
            \<lparr>h_next = 0, usedsize = 1, freesize = word_of_int (MEMSIZE pool - 1)\<rparr>;
          Some (0, pool1)
        })"

text \<open>The result is the unit after the new header, or the null pointer.\<close>

definition pMalloc :: "memory_pool \<Rightarrow> 32 word \<Rightarrow> (nat option \<times> memory_pool) option" where
  "pMalloc pool0 nbytes = do {
     let nunits = nunits_of nbytes;
     (start, pool) \<leftarrow> first_header pool0;
     p \<leftarrow> find_block (mp_mem pool) start nunits start;
     h \<leftarrow> mp_mem pool p;
     if freesize h < nunits then Some (None, pool)
     else do {
       let newp = p + unat (usedsize h);
       pool1 \<leftarrow> put_header pool newp
         \<lparr>h_next = h_next h, usedsize = nunits, freesize = freesize h - nunits\<rparr>;
       pool2 \<leftarrow> put_header pool1 p (h\<lparr>h_next := newp, freesize := 0\<rparr>);
       Some (Some (newp + 1), pool2\<lparr>memptr := Some newp\<rparr>)
     }
   }"

text \<open>The search loop of \<open>pFree\<close>: the header \<open>bp\<close> and the one before it.\<close>

partial_function (option) find_prev ::
    "(nat \<rightharpoonup> header) \<Rightarrow> nat \<Rightarrow> nat \<Rightarrow> nat \<Rightarrow> nat \<Rightarrow> (nat \<times> nat) option" where
  "find_prev m start bp prev p =
     (if p \<noteq> bp \<and> p \<noteq> start
      then Option.bind (m p) (\<lambda>h. find_prev m start bp p (h_next h))
      else Some (prev, p))"

definition pFree :: "memory_pool \<Rightarrow> nat \<Rightarrow> memory_pool option" where
  "pFree pool ap = do {
     guard (1 \<le> ap);
     let bp = ap - 1;
     start \<leftarrow> memptr pool;
     hs \<leftarrow> mp_mem pool start;
     (prev, p) \<leftarrow> find_prev (mp_mem pool) start bp start (h_next hs);
     if p \<noteq> bp then Some pool
     else do {
       h \<leftarrow> mp_mem pool p;
       h1 \<leftarrow> mp_mem pool prev;
       pool1 \<leftarrow> put_header pool prev (h1\<lparr>freesize := freesize h1 + (usedsize h + freesize h)\<rparr>);
       h' \<leftarrow> mp_mem pool1 p;
       h2 \<leftarrow> mp_mem pool1 prev;
       pool2 \<leftarrow> put_header pool1 prev (h2\<lparr>h_next := h_next h'\<rparr>);
       Some (pool2\<lparr>memptr := Some prev\<rparr>)
     }
   }"

section \<open>Circular lists of headers\<close>

text \<open>
  \<open>circ m L\<close>: the headers at the units \<open>L\<close> are linked in this order into a ring.
\<close>

definition circ :: "(nat \<rightharpoonup> header) \<Rightarrow> nat list \<Rightarrow> bool" where
  "circ m L \<longleftrightarrow> L \<noteq> [] \<and> distinct L \<and>
     (\<forall>i < length L. \<exists>h. m (L ! i) = Some h \<and> h_next h = L ! (Suc i mod length L))"

lemma circ_rotate: "circ m L \<Longrightarrow> circ m (rotate k L)"
  unfolding circ_def
proof (intro conjI allI impI, goal_cases)
  case (3 i)
  let ?n = "length L"
  from 3 have "(k + i) mod ?n < ?n" by simp
  with 3 obtain h where "m (L ! ((k + i) mod ?n)) = Some h"
    "h_next h = L ! (Suc ((k + i) mod ?n) mod ?n)" by blast
  moreover have "Suc ((k + i) mod ?n) mod ?n = (k + Suc i mod ?n) mod ?n"
    by (simp add: mod_Suc_eq mod_add_right_eq)
  ultimately show ?case using 3 by (simp add: nth_rotate add.commute)
qed auto

lemma circ_head: "circ m L \<Longrightarrow> L ! 0 \<notin> set (drop 1 L)"
  by (cases L) (auto simp: circ_def)

text \<open>The first block from the start of the ring that is large enough, or the last block.\<close>

definition too_small :: "(nat \<rightharpoonup> header) \<Rightarrow> 32 word \<Rightarrow> nat \<Rightarrow> bool" where
  "too_small m n a \<longleftrightarrow> (\<exists>h. m a = Some h \<and> freesize h < n)"

lemma find_block_ring:
  assumes ring: "circ m L" and i: "i < length L" and small: "\<forall>j < i. too_small m n (L ! j)"
  shows "\<exists>k < length L. find_block m (L ! 0) n (L ! i) = Some (L ! k) \<and>
    (\<forall>j < k. too_small m n (L ! j)) \<and> (\<not> too_small m n (L ! k) \<or> Suc k = length L)"
  using i small
proof (induction "length L - i" arbitrary: i)
  case 0
  then show ?case by simp
next
  case (Suc d)
  from ring Suc.prems obtain h where h: "m (L ! i) = Some h" "h_next h = L ! (Suc i mod length L)"
    by (auto simp: circ_def)
  show ?case
  proof (cases "Suc i = length L \<or> n \<le> freesize h")
    case True
    then have "find_block m (L ! 0) n (L ! i) = Some (L ! i)"
      using h by (subst find_block.simps) auto
    then show ?thesis using Suc.prems True h by (intro exI [of _ i]) (auto simp: too_small_def)
  next
    case False
    then have lt: "Suc i < length L" "freesize h < n" using Suc.prems by auto
    have "L ! Suc i \<noteq> L ! 0" using ring lt by (auto simp: circ_def nth_eq_iff_index_eq)
    then have "find_block m (L ! 0) n (L ! i) = find_block m (L ! 0) n (L ! Suc i)"
      using h lt by (subst find_block.simps) simp
    moreover have "\<forall>j < Suc i. too_small m n (L ! j)"
      using Suc.prems h lt by (auto simp: less_Suc_eq too_small_def)
    ultimately show ?thesis using Suc.hyps(1) [of "Suc i"] Suc.hyps(2) lt by simp
  qed
qed

text \<open>Walking the ring finds \<open>bp\<close> and its predecessor, or comes back to the start.\<close>

lemma find_prev_hit:
  assumes ring: "circ m L" and i: "0 < i" "i \<le> k" "k < length L"
  shows "find_prev m (L ! 0) (L ! k) (L ! (i - 1)) (L ! i) = Some (L ! (k - 1), L ! k)"
  using i
proof (induction "k - i" arbitrary: i)
  case 0
  then show ?case by (subst find_prev.simps) simp
next
  case (Suc d)
  then have lt: "i < k" by simp
  then have "L ! i \<noteq> L ! k" "L ! i \<noteq> L ! 0"
    using ring Suc.prems by (auto simp: circ_def nth_eq_iff_index_eq)
  moreover obtain h where "m (L ! i) = Some h" "h_next h = L ! (Suc i mod length L)"
    using ring Suc.prems lt by (auto simp: circ_def dest!: spec [of _ i])
  moreover have "Suc i mod length L = Suc i" using Suc.prems lt by simp
  ultimately have "find_prev m (L ! 0) (L ! k) (L ! (i - 1)) (L ! i) =
      find_prev m (L ! 0) (L ! k) (L ! (Suc i - 1)) (L ! Suc i)"
    by (subst find_prev.simps) simp
  then show ?case using Suc.hyps(1) [of "Suc i"] Suc.hyps(2) Suc.prems lt by simp
qed

lemma find_prev_miss:
  assumes ring: "circ m L" and i: "0 < i" "i \<le> length L" and none: "bp \<notin> set (drop i L)"
  shows "find_prev m (L ! 0) bp (L ! (i - 1)) (L ! (i mod length L)) =
    Some (L ! (length L - 1), L ! 0)"
  using i none
proof (induction "length L - i" arbitrary: i)
  case 0
  then show ?case by (subst find_prev.simps) simp
next
  case (Suc d)
  then have lt: "i < length L" by simp
  then have "L ! i \<noteq> L ! 0" using ring Suc.prems by (auto simp: circ_def nth_eq_iff_index_eq)
  moreover have "L ! i \<noteq> bp"
    using Suc.prems lt by (metis Cons_nth_drop_Suc list.set_intros(1))
  moreover obtain h where "m (L ! i) = Some h" "h_next h = L ! (Suc i mod length L)"
    using ring lt by (auto simp: circ_def)
  ultimately have "find_prev m (L ! 0) bp (L ! (i - 1)) (L ! (i mod length L)) =
      find_prev m (L ! 0) bp (L ! (Suc i - 1)) (L ! (Suc i mod length L))"
    using lt by (subst find_prev.simps) simp
  moreover have "bp \<notin> set (drop (Suc i) L)"
    using Suc.prems by (meson in_mono set_drop_subset_set_drop le_SucI order_refl)
  ultimately show ?case using Suc.hyps(1) [of "Suc i"] Suc.hyps(2) Suc.prems lt by simp
qed

section \<open>The arena as a list of blocks\<close>

text \<open>
  The abstract value of a pool is the list of its blocks in address order, each with the
  units in use (its header among them) and the free units behind them. The blocks tile the
  arena.
\<close>

type_synonym blocks = "(nat \<times> nat) list"

definition extent :: "blocks \<Rightarrow> nat" where
  "extent bs = sum_list (map (\<lambda>b. fst b + snd b) bs)"

primrec addrs :: "nat \<Rightarrow> blocks \<Rightarrow> nat list" where
  "addrs a [] = []"
| "addrs a (b # bs) = a # addrs (a + fst b + snd b) bs"

primrec hdrs :: "(nat \<rightharpoonup> header) \<Rightarrow> nat \<Rightarrow> blocks \<Rightarrow> nat \<Rightarrow> bool" where
  "hdrs m a [] z \<longleftrightarrow> True"
| "hdrs m a (b # bs) z \<longleftrightarrow>
     m a = Some \<lparr>h_next = (if bs = [] then z else a + fst b + snd b),
       usedsize = of_nat (fst b), freesize = of_nat (snd b)\<rparr> \<and>
     hdrs m (a + fst b + snd b) bs z"

definition wf_blocks :: "blocks \<Rightarrow> bool" where
  "wf_blocks bs \<longleftrightarrow> (\<forall>b \<in> set bs. 0 < fst b)"

definition mp_shape :: "memory_pool \<Rightarrow> blocks \<Rightarrow> bool" where
  "mp_shape pool bs \<longleftrightarrow> bs \<noteq> [] \<and> fst (hd bs) = 1 \<and> wf_blocks bs \<and> int (extent bs) = MEMSIZE pool \<and>
     extent bs \<le> mp_units pool \<and> extent bs < 2 ^ 32 \<and> hdrs (mp_mem pool) 0 bs 0"

definition mp_inv :: "memory_pool \<Rightarrow> blocks \<Rightarrow> bool" where
  "mp_inv pool bs \<longleftrightarrow> mp_shape pool bs \<and> (\<exists>p \<in> set (addrs 0 bs). memptr pool = Some p)"

text \<open>A pool that has not been used yet, or one with a ring of headers.\<close>

definition mp_ready :: "memory_pool \<Rightarrow> blocks \<Rightarrow> bool" where
  "mp_ready pool bs \<longleftrightarrow> mp_inv pool bs \<or>
     memptr pool = None \<and> 0 < MEMSIZE pool \<and> MEMSIZE pool \<le> int (mp_units pool) \<and>
     MEMSIZE pool < 2 ^ 32 \<and> bs = [(1, nat (MEMSIZE pool) - 1)]"

lemma extent_simps [simp]:
  "extent [] = 0" "extent (b # bs) = fst b + snd b + extent bs" "extent (xs @ ys) = extent xs + extent ys"
  by (simp_all add: extent_def)

lemma wf_blocks_simps [simp]:
  "wf_blocks []" "wf_blocks (b # bs) \<longleftrightarrow> 0 < fst b \<and> wf_blocks bs"
  "wf_blocks (xs @ ys) \<longleftrightarrow> wf_blocks xs \<and> wf_blocks ys"
  by (auto simp: wf_blocks_def)

lemma addrs_append [simp]: "addrs a (xs @ ys) = addrs a xs @ addrs (a + extent xs) ys"
  by (induction xs arbitrary: a) (auto simp: add.assoc)

lemma length_addrs [simp]: "length (addrs a bs) = length bs"
  by (induction bs arbitrary: a) auto

lemma addrs_eq_Nil [simp]: "addrs a bs = [] \<longleftrightarrow> bs = []"
  by (cases bs) auto

lemma addrs_bounds: "wf_blocks bs \<Longrightarrow> x \<in> set (addrs a bs) \<Longrightarrow> a \<le> x \<and> x < a + extent bs"
  by (induction bs arbitrary: a) fastforce+

lemma addrs_distinct: "wf_blocks bs \<Longrightarrow> distinct (addrs a bs)"
proof (induction bs arbitrary: a)
  case (Cons b bs)
  then have "a \<notin> set (addrs (a + fst b + snd b) bs)" using addrs_bounds by fastforce
  with Cons show ?case by simp
qed simp

lemma hdrs_append [simp]:
  "hdrs m a (xs @ ys) z \<longleftrightarrow>
   hdrs m a xs (if ys = [] then z else a + extent xs) \<and> hdrs m (a + extent xs) ys z"
  by (induction xs arbitrary: a) (auto simp: add.assoc)

lemma hdrs_frame [simp]: "c \<notin> set (addrs a bs) \<Longrightarrow> hdrs (m(c := v)) a bs z = hdrs m a bs z"
  by (induction bs arbitrary: a) auto

lemma hdrs_nth:
  "hdrs m a bs z \<Longrightarrow> i < length bs \<Longrightarrow>
   m (addrs a bs ! i) = Some \<lparr>h_next = (if Suc i < length bs then addrs a bs ! Suc i else z),
     usedsize = of_nat (fst (bs ! i)), freesize = of_nat (snd (bs ! i))\<rparr>"
proof (induction bs arbitrary: a i)
  case (Cons b bs)
  then show ?case by (cases i; cases bs) auto
qed simp

lemma hdrs_circ:
  assumes "hdrs m 0 bs 0" "bs \<noteq> []" "wf_blocks bs"
  shows "circ m (addrs 0 bs)"
proof -
  have "addrs 0 bs ! 0 = 0" using assms by (cases bs) auto
  moreover have "Suc i mod length bs = (if Suc i < length bs then Suc i else 0)" if "i < length bs" for i
    using that by (auto simp: mod_Suc)
  ultimately show ?thesis
    using assms hdrs_nth [OF assms(1)] by (auto simp: circ_def addrs_distinct)
qed

text \<open>Every address splits the block list.\<close>

lemma addr_split:
  "p \<in> set (addrs a bs) \<Longrightarrow> \<exists>xs b ys. bs = xs @ b # ys \<and> p = a + extent xs"
proof (induction bs arbitrary: a)
  case (Cons c bs)
  show ?case
  proof (cases "p = a")
    case True
    then show ?thesis by (metis append_Nil extent_simps(1) add_0_right)
  next
    case False
    then obtain xs b ys where "bs = xs @ b # ys" "p = a + fst c + snd c + extent xs"
      using Cons.prems Cons.IH [of "a + fst c + snd c"] by auto
    then show ?thesis by (intro exI [of _ "c # xs"]) auto
  qed
qed simp

section \<open>Allocation\<close>

lemma unat_nunits_of:
  "unat nbytes \<le> 2 ^ 32 - 16 \<Longrightarrow> unat (nunits_of nbytes) = (unat nbytes + 15) div 16 + 1"
  by (simp add: nunits_of_def HEADERSIZE_def unat_word_ariths unat_div)

lemma nunits_of_pos: "0 < unat (nunits_of nbytes)"
proof -
  let ?w = "nbytes + HEADERSIZE - 1"
  have "unat (?w div HEADERSIZE) = unat ?w div 16" by (simp add: HEADERSIZE_def unat_div)
  moreover have "unat ?w < 2 ^ 32" using unsigned_less [where 'a = nat, of ?w] by simp
  ultimately have "unat (?w div HEADERSIZE) < 2 ^ 28" by simp
  then show ?thesis by (simp add: nunits_of_def unat_word_ariths)
qed

lemma put_header_Some:
  "a < mp_units pool \<Longrightarrow> put_header pool a h = Some (pool\<lparr>mp_mem := (mp_mem pool)(a \<mapsto> h)\<rparr>)"
  by (simp add: put_header_def)

text \<open>After \<open>first_header\<close> the ring exists, whether or not it is the first call.\<close>

lemma first_header_ok:
  assumes "mp_ready pool bs"
  obtains p pool1 where "first_header pool = Some (p, pool1)" "mp_shape pool1 bs"
    "p \<in> set (addrs 0 bs)" "memptr pool1 = memptr pool" "MEMSIZE pool1 = MEMSIZE pool"
    "mp_units pool1 = mp_units pool"
proof (cases "memptr pool")
  case (Some p)
  with assms show thesis using that by (auto simp: mp_ready_def mp_inv_def first_header_def)
next
  case None
  with assms have M: "0 < MEMSIZE pool" "MEMSIZE pool \<le> int (mp_units pool)" "MEMSIZE pool < 2 ^ 32"
    and bs: "bs = [(1, nat (MEMSIZE pool) - 1)]" by (auto simp: mp_ready_def mp_inv_def)
  let ?h = "\<lparr>h_next = 0, usedsize = 1, freesize = word_of_int (MEMSIZE pool - 1)\<rparr> :: header"
  have "MEMSIZE pool - 1 = int (nat (MEMSIZE pool) - 1)" using M by simp
  then have "word_of_int (MEMSIZE pool - 1) = (of_nat (nat (MEMSIZE pool) - 1) :: 32 word)"
    by (metis of_int_of_nat_eq)
  then have "mp_shape (pool\<lparr>mp_mem := (mp_mem pool)(0 \<mapsto> ?h)\<rparr>) bs"
    using M by (auto simp: mp_shape_def bs)
  moreover have "first_header pool = Some (0, pool\<lparr>mp_mem := (mp_mem pool)(0 \<mapsto> ?h)\<rparr>)"
    using M None by (simp add: first_header_def put_header_Some)
  ultimately show thesis using that bs by simp
qed

text \<open>
  The search returns a block that is large enough, if there is one anywhere in the ring.
\<close>

lemma find_block_ok:
  assumes sh: "mp_shape pool bs" and start: "start \<in> set (addrs 0 bs)"
  obtains p where "find_block (mp_mem pool) start n start = Some p" "p \<in> set (addrs 0 bs)"
    "\<not> too_small (mp_mem pool) n p \<or> (\<forall>a \<in> set (addrs 0 bs). too_small (mp_mem pool) n a)"
proof -
  let ?m = "mp_mem pool" and ?A = "addrs 0 bs"
  obtain i where i: "i < length ?A" "start = ?A ! i" using start by (metis in_set_conv_nth)
  let ?L = "rotate i ?A"
  have ring: "circ ?m ?L"
    using sh by (intro circ_rotate hdrs_circ) (auto simp: mp_shape_def)
  have "0 < length ?A" using i by linarith
  then have L0: "?L ! 0 = start" using i nth_rotate [of 0 ?A i] by simp
  have len: "0 < length ?L" using \<open>0 < length ?A\<close> by simp
  obtain k where k: "k < length ?L" "find_block ?m (?L ! 0) n (?L ! 0) = Some (?L ! k)"
    "\<forall>j < k. too_small ?m n (?L ! j)" "\<not> too_small ?m n (?L ! k) \<or> Suc k = length ?L"
    using find_block_ring [OF ring len, of n] by auto
  have "\<forall>a \<in> set ?L. too_small ?m n a" if "too_small ?m n (?L ! k)"
  proof
    fix a assume "a \<in> set ?L"
    then obtain j where "j < length ?L" "a = ?L ! j" by (metis in_set_conv_nth)
    with k that show "too_small ?m n a" by (cases "j = k") auto
  qed
  moreover have "?L ! k \<in> set ?A" using k(1) by (metis nth_mem set_rotate)
  ultimately show thesis using that k L0 by auto
qed

text \<open>
  Allocation splits the free tail of one block, or fails when no block has enough of it.
\<close>

lemma of_nat_less_word32: "f < 2 ^ 32 \<Longrightarrow> (of_nat f < (w :: 32 word)) = (f < unat w)"
  by (simp add: word_less_nat_alt unat_of_nat)

lemma too_small_block:
  assumes "mp_shape pool (xs @ (u, f) # ys)"
  shows "too_small (mp_mem pool) n (extent xs) \<longleftrightarrow> f < unat n"
  using assms of_nat_less_word32 [of f n] by (auto simp: mp_shape_def too_small_def)

lemma pMalloc_cases:
  assumes ready: "mp_ready pool bs" and n_def: "n = unat (nunits_of nbytes)"
  shows "(\<exists>xs u f ys pool'. bs = xs @ (u, f) # ys \<and> n \<le> f \<and>
           pMalloc pool nbytes = Some (Some (extent xs + u + 1), pool') \<and>
           mp_inv pool' (xs @ (u, 0) # (n, f - n) # ys)) \<or>
         ((\<forall>b \<in> set bs. snd b < n) \<and>
           (\<exists>pool'. pMalloc pool nbytes = Some (None, pool') \<and> mp_ready pool' bs))"
proof -
  let ?w = "nunits_of nbytes"
  obtain start pool1 where fh: "first_header pool = Some (start, pool1)" "mp_shape pool1 bs"
    "start \<in> set (addrs 0 bs)" and same: "memptr pool1 = memptr pool"
    "MEMSIZE pool1 = MEMSIZE pool" "mp_units pool1 = mp_units pool"
    using first_header_ok [OF ready] .
  obtain p where p: "find_block (mp_mem pool1) start ?w start = Some p" "p \<in> set (addrs 0 bs)"
    and best: "\<not> too_small (mp_mem pool1) ?w p \<or> (\<forall>a \<in> set (addrs 0 bs). too_small (mp_mem pool1) ?w a)"
    using find_block_ok [OF fh(2,3)] .
  obtain xs u f ys where bs: "bs = xs @ (u, f) # ys" and pa: "p = extent xs"
    using addr_split [OF p(2)] by auto
  have len: "extent bs < 2 ^ 32" "extent bs \<le> mp_units pool1" "0 < u" "u < 2 ^ 32" "f < 2 ^ 32"
    using fh(2) by (auto simp: mp_shape_def bs)
  let ?h = "\<lparr>h_next = (if ys = [] then 0 else p + u + f), usedsize = of_nat u, freesize = of_nat f\<rparr> :: header"
  have h: "mp_mem pool1 p = Some ?h" using fh(2) by (auto simp: mp_shape_def bs pa)
  have small: "freesize ?h < ?w \<longleftrightarrow> f < n" using of_nat_less_word32 [OF len(5)] by (simp add: n_def)
  show ?thesis
  proof (cases "f < n")
    case True
    have "snd b < n" if b: "b \<in> set bs" for b
    proof -
      obtain xs' ys' where sp: "bs = xs' @ b # ys'" using split_list [OF b] by blast
      then have "extent xs' \<in> set (addrs 0 bs)" by simp
      moreover have "too_small (mp_mem pool1) ?w p"
        using too_small_block [OF fh(2) [unfolded bs]] True by (simp add: pa n_def)
      ultimately show ?thesis
        using best too_small_block [of pool1 xs' "fst b" "snd b" ys' ?w] fh(2) sp by (simp add: n_def)
    qed
    moreover have "pMalloc pool nbytes = Some (None, pool1)"
      using fh(1) p(1) h small True by (simp add: pMalloc_def)
    moreover have "mp_ready pool1 bs"
      using ready same fh(2) by (auto simp: mp_ready_def mp_inv_def)
    ultimately show ?thesis by blast
  next
    case False
    let ?new = "\<lparr>h_next = h_next ?h, usedsize = ?w, freesize = of_nat f - ?w\<rparr> :: header"
      and ?old = "?h\<lparr>h_next := p + u, freesize := 0\<rparr>"
    let ?pool = "pool1\<lparr>mp_mem := (mp_mem pool1)(p + u \<mapsto> ?new, p \<mapsto> ?old), memptr := Some (p + u)\<rparr>"
    have n0: "0 < n" unfolding n_def by (rule nunits_of_pos)
    have inb: "p + u < mp_units pool1" "p < mp_units pool1"
      using len False n0 by (auto simp: bs pa)
    have uu: "unat (of_nat u :: 32 word) = u" using len by (simp add: unat_of_nat)
    have eq: "pMalloc pool nbytes = Some (Some (p + u + 1), ?pool)"
      using fh(1) p(1) h small False inb uu by (simp add: pMalloc_def put_header_Some Let_def)
    have w: "of_nat n = ?w" "of_nat (f - n) = of_nat f - ?w"
      using False by (simp_all add: n_def of_nat_diff)
    have out: "p \<notin> set (addrs 0 xs)" "p + u \<notin> set (addrs 0 xs)"
      "p \<notin> set (addrs (p + u + f) ys)" "p + u \<notin> set (addrs (p + u + f) ys)"
      using addrs_bounds [of xs _ 0] addrs_bounds [of ys _ "p + u + f"] fh(2) False n0 len
      by (force simp: mp_shape_def bs pa)+
    have "mp_shape ?pool (xs @ (u, 0) # (n, f - n) # ys)"
      using fh(2) out w False n0 len unfolding mp_shape_def bs
      by (cases xs) (auto simp: pa add.assoc)
    then have "mp_inv ?pool (xs @ (u, 0) # (n, f - n) # ys)" by (simp add: mp_inv_def pa)
    with eq bs False pa show ?thesis by (metis leI)
  qed
qed

section \<open>Release\<close>

lemma mod_pred: "(i + k) mod n = Suc s \<Longrightarrow> 0 < k \<Longrightarrow> (i + (k - 1)) mod n = (s::nat)"
  by (cases k) (auto simp: mod_Suc split: if_splits)

text \<open>
  Releasing the block at \<open>extent xs + u0 + f0\<close> gives all its units to the block before it.
  Block 0, which is the pool's own first header, is never handed out.
\<close>

lemma pFree_ok:
  assumes inv: "mp_inv pool (xs @ (u0, f0) # (u, f) # ys)"
  obtains pool' where "pFree pool (extent xs + u0 + f0 + 1) = Some pool'"
    "mp_inv pool' (xs @ (u0, f0 + u + f) # ys)" "memptr pool' = Some (extent xs)"
proof -
  let ?bs = "xs @ (u0, f0) # (u, f) # ys" and ?m = "mp_mem pool"
  let ?A = "addrs 0 ?bs" and ?q = "extent xs"
  let ?p = "?q + u0 + f0"
  obtain start where sh: "mp_shape pool ?bs" and start: "memptr pool = Some start" "start \<in> set ?A"
    using inv by (auto simp: mp_inv_def)
  obtain i where i: "i < length ?A" "start = ?A ! i" using start by (metis in_set_conv_nth)
  let ?L = "rotate i ?A" and ?n = "length ?A"
  have ring: "circ ?m ?L" using sh by (intro circ_rotate hdrs_circ) (auto simp: mp_shape_def)
  have nth: "?L ! j = ?A ! ((i + j) mod ?n)" if "j < ?n" for j using that by (simp add: nth_rotate)
  have L0: "?L ! 0 = start" using i nth [of 0] by simp
  have Aq: "?A ! length xs = ?q" and Ap: "?A ! Suc (length xs) = ?p" by (simp_all add: nth_append)
  obtain hs where hs: "?m start = Some hs" "h_next hs = ?L ! (1 mod ?n)"
    using ring L0 by (auto simp: circ_def dest!: spec [of _ 0])
  have n2: "1 < ?n" by simp
  have "i + (Suc (length xs) + (?n - i)) = Suc (length xs) + ?n" using i by linarith
  then have "(i + (Suc (length xs) + (?n - i)) mod ?n) mod ?n = (Suc (length xs) + ?n) mod ?n"
    unfolding mod_add_right_eq by (simp only:)
  also have "\<dots> = Suc (length xs) mod ?n" by (rule mod_add_self2)
  finally obtain k where k: "k < ?n" "(i + k) mod ?n = Suc (length xs)"
    using that [of "(Suc (length xs) + (?n - i)) mod ?n"] by simp
  have Lk: "?L ! k = ?p" using nth [OF k(1)] unfolding k(2) Ap .
  have found: "find_prev ?m start ?p start (h_next hs) = Some (?q, ?p)"
  proof (cases "k = 0")
    case True
    then have s0: "start = ?p" using Lk L0 by simp
    have "(i + (?n - 1)) mod ?n = length xs" using True k i by (simp add: mod_if)
    moreover have "?n - 1 < ?n" by simp
    ultimately have lst: "?L ! (?n - 1) = ?q" using nth Aq by metis
    have "start \<notin> set (drop 1 ?L)" using circ_head [OF ring] L0 by simp
    then show ?thesis
      using find_prev_miss [OF ring zero_less_one, of start] hs(2) L0 s0 lst n2
      by (simp only: diff_self_eq_0 length_rotate less_imp_le simp_thms)
  next
    case False
    then have "(i + (k - 1)) mod ?n = length xs" using k by (intro mod_pred) simp_all
    moreover have "k - 1 < ?n" using k(1) by linarith
    ultimately have lq: "?L ! (k - 1) = ?q" using nth Aq by metis
    have le: "1 \<le> k" "k < length ?L" using False k by simp_all
    have "?L ! (1 mod ?n) = ?L ! 1" using n2 by simp
    then show ?thesis
      using find_prev_hit [OF ring zero_less_one le] hs(2) L0 lq Lk by (simp only: diff_self_eq_0)
  qed
  let ?hq = "\<lparr>h_next = ?p, usedsize = of_nat u0, freesize = of_nat f0\<rparr> :: header"
    and ?hp = "\<lparr>h_next = (if ys = [] then 0 else ?p + u + f), usedsize = of_nat u, freesize = of_nat f\<rparr> :: header"
  have pos: "0 < u0" "0 < u" and ext: "?p < mp_units pool"
    using sh by (auto simp: mp_shape_def)
  have h: "?m ?q = Some ?hq" "?m ?p = Some ?hp" using sh by (auto simp: mp_shape_def)
  let ?new = "\<lparr>h_next = h_next ?hp, usedsize = of_nat u0, freesize = of_nat f0 + (of_nat u + of_nat f)\<rparr> :: header"
  let ?pool = "pool\<lparr>mp_mem := ?m(?q \<mapsto> ?new), memptr := Some ?q\<rparr>"
  have eq: "pFree pool (?p + 1) = Some ?pool"
    using start hs found h ext pos by (simp add: pFree_def put_header_Some fun_upd_upd Let_def)
  have out: "?q \<notin> set (addrs 0 xs)" "?q \<notin> set (addrs (?p + u + f) ys)"
    using addrs_bounds [of xs _ 0] addrs_bounds [of ys _ "?p + u + f"] sh pos
    by (force simp: mp_shape_def)+
  have "mp_shape ?pool (xs @ (u0, f0 + u + f) # ys)"
    using sh out pos unfolding mp_shape_def by (cases xs) (auto simp: add.assoc)
  then show thesis using that [of ?pool] eq by (simp add: mp_inv_def)
qed

text \<open>A pointer that is not the data of a block is ignored.\<close>

lemma pFree_unknown:
  assumes inv: "mp_inv pool bs" and ap: "ap - 1 \<notin> set (addrs 0 bs)" "1 \<le> ap"
  shows "pFree pool ap = Some pool"
proof -
  let ?A = "addrs 0 bs" and ?m = "mp_mem pool"
  obtain start where sh: "mp_shape pool bs" and start: "memptr pool = Some start" "start \<in> set ?A"
    using inv by (auto simp: mp_inv_def)
  obtain i where i: "i < length ?A" "start = ?A ! i" using start by (metis in_set_conv_nth)
  let ?L = "rotate i ?A"
  have ring: "circ ?m ?L" using sh by (intro circ_rotate hdrs_circ) (auto simp: mp_shape_def)
  have pos: "0 < length ?A" using i by linarith
  then have L0: "?L ! 0 = start" using i nth_rotate [of 0 ?A i] by simp
  obtain hs where hs: "?m start = Some hs" "h_next hs = ?L ! (1 mod length ?L)"
    using ring L0 by (auto simp: circ_def dest!: spec [of _ 0])
  have out: "ap - 1 \<notin> set (drop 1 ?L)" using ap by (metis in_set_dropD set_rotate)
  have one: "1 \<le> length ?L" unfolding length_rotate using pos by linarith
  have "find_prev ?m start (ap - 1) start (h_next hs) = Some (?L ! (length ?L - 1), start)"
    using find_prev_miss [OF ring zero_less_one one out] unfolding diff_self_eq_0 L0 hs(2) .
  moreover have "start \<noteq> ap - 1" using ap start by auto
  ultimately show ?thesis using start hs ap by (simp add: pFree_def Let_def)
qed

section \<open>Regions and the interface\<close>

text \<open>
  The region of a block is what its user may write: the units after the header, as a start
  and a length. The region of block 0 is empty and belongs to nobody.
\<close>

primrec regions :: "nat \<Rightarrow> blocks \<Rightarrow> (nat \<times> nat) list" where
  "regions a [] = []"
| "regions a (b # bs) = (a + 1, fst b - 1) # regions (a + fst b + snd b) bs"

definition live_regions :: "blocks \<Rightarrow> (nat \<times> nat) set" where
  "live_regions bs = set (regions (extent (take 1 bs)) (drop 1 bs))"

definition disjoint_regions :: "nat \<times> nat \<Rightarrow> nat \<times> nat \<Rightarrow> bool" where
  "disjoint_regions r s \<longleftrightarrow> fst r + snd r \<le> fst s \<or> fst s + snd s \<le> fst r"

lemma regions_append [simp]:
  "regions a (xs @ ys) = regions a xs @ regions (a + extent xs) ys"
  by (induction xs arbitrary: a) (auto simp: add.assoc)

lemma regions_bounds:
  "wf_blocks bs \<Longrightarrow> r \<in> set (regions a bs) \<Longrightarrow> a < fst r \<and> fst r + snd r \<le> a + extent bs"
  by (induction bs arbitrary: a) fastforce+

lemma regions_apart:
  assumes "wf_blocks (xs @ b # ys)" "r \<in> set (regions a xs) \<union> set (regions (a + extent xs + fst b + snd b) ys)"
  shows "disjoint_regions (a + extent xs + 1, fst b - 1) r \<and> fst r \<noteq> a + extent xs + 1"
  using assms regions_bounds [of xs r a] regions_bounds [of ys r "a + extent xs + fst b + snd b"]
  by (force simp: disjoint_regions_def)

text \<open>
  The contract of an arena: an allocation either leaves the regions as they are and answers
  null, or adds a region that is large enough and apart from all others; a release removes
  exactly the region it is given.
\<close>

locale arena =
  fixes alloc :: "'p \<Rightarrow> 32 word \<Rightarrow> (nat option \<times> 'p) option"
    and release :: "'p \<Rightarrow> nat \<Rightarrow> 'p option"
    and live :: "'p \<Rightarrow> (nat \<times> nat) set \<Rightarrow> bool"
  assumes alloc_cases: "live p R \<Longrightarrow> unat nb \<le> 2 ^ 32 - 16 \<Longrightarrow>
      (\<exists>p'. alloc p nb = Some (None, p') \<and> live p' R) \<or>
      (\<exists>s n p'. alloc p nb = Some (Some s, p') \<and> live p' (insert (s, n) R) \<and> unat nb \<le> 16 * n \<and>
        (\<forall>r \<in> R. disjoint_regions (s, n) r \<and> fst r \<noteq> s))"
    and release_live: "live p R \<Longrightarrow> (s, n) \<in> R \<Longrightarrow> \<exists>p'. release p s = Some p' \<and> live p' (R - {(s, n)})"
begin

text \<open>Two regions held at the same time do not overlap, whichever was taken first.\<close>

lemma two_allocs:
  assumes "live p R" "unat n1 \<le> 2 ^ 32 - 16" "unat n2 \<le> 2 ^ 32 - 16"
    and "alloc p n1 = Some (Some s1, p1)" "alloc p1 n2 = Some (Some s2, p2)"
  shows "\<exists>k1 k2. disjoint_regions (s1, k1) (s2, k2) \<and> unat n1 \<le> 16 * k1 \<and> unat n2 \<le> 16 * k2 \<and>
    live p2 (insert (s2, k2) (insert (s1, k1) R))"
proof -
  obtain k1 where 1: "live p1 (insert (s1, k1) R)" "unat n1 \<le> 16 * k1"
    using alloc_cases [OF assms(1,2)] assms(4) by auto
  then obtain k2 where 2: "live p2 (insert (s2, k2) (insert (s1, k1) R))" "unat n2 \<le> 16 * k2"
    "disjoint_regions (s2, k2) (s1, k1)"
    using alloc_cases [OF 1(1) assms(3)] assms(5) by auto
  then show ?thesis using 1 by (auto simp: disjoint_regions_def)
qed

lemma alloc_release:
  assumes "live p R" "unat nb \<le> 2 ^ 32 - 16" "alloc p nb = Some (Some s, p')"
  shows "\<exists>p''. release p' s = Some p'' \<and> live p'' R"
proof -
  obtain n where n: "live p' (insert (s, n) R)" "\<forall>r \<in> R. fst r \<noteq> s"
    using alloc_cases [OF assms(1,2)] assms(3) by auto
  then have "insert (s, n) R - {(s, n)} = R" by force
  then show ?thesis using release_live [OF n(1), of s n] by auto
qed

end

definition mp_live :: "memory_pool \<Rightarrow> (nat \<times> nat) set \<Rightarrow> bool" where
  "mp_live pool R \<longleftrightarrow> (\<exists>bs. mp_ready pool bs \<and> R = live_regions bs)"

text \<open>How the two operations change the regions.\<close>

lemma live_regions_split:
  "live_regions (xs @ (u, 0) # (n, g) # ys) =
   insert (extent xs + u + 1, n - 1) (live_regions (xs @ (u, n + g) # ys))"
  by (cases xs) (auto simp: live_regions_def add.assoc)

lemma live_regions_fresh:
  assumes "wf_blocks (xs @ (u, n + g) # ys)" "0 < n" "r \<in> live_regions (xs @ (u, n + g) # ys)"
  shows "disjoint_regions (extent xs + u + 1, n - 1) r \<and> fst r \<noteq> extent xs + u + 1"
proof -
  have "r \<in> set (regions 0 (xs @ [(u, 0)])) \<union> set (regions (extent xs + u + n + g) ys)"
    using assms(3) by (cases xs) (auto simp: live_regions_def add.assoc)
  then show ?thesis
    using regions_apart [of "xs @ [(u, 0)]" "(n, g)" ys r 0] assms(1,2) by (simp add: add.assoc)
qed

lemma live_regions_find:
  assumes "(s, n) \<in> live_regions bs"
  obtains xs u0 f0 u f ys where "bs = xs @ (u0, f0) # (u, f) # ys"
    "s = extent xs + u0 + f0 + 1" "n = u - 1"
proof -
  obtain b bs' where bs: "bs = b # bs'" using assms by (cases bs) (auto simp: live_regions_def)
  have *: "\<exists>xs c ys. bs' = xs @ c # ys \<and> s = a + extent xs + 1 \<and> n = fst c - 1"
    if "(s, n) \<in> set (regions a bs')" for a
    using that
  proof (induction bs' arbitrary: a)
    case (Cons c cs)
    show ?case
    proof (cases "(s, n) = (a + 1, fst c - 1)")
      case True
      then show ?thesis by (intro exI [of _ "[]"]) auto
    next
      case False
      then obtain xs d ys where "cs = xs @ d # ys" "s = a + fst c + snd c + extent xs + 1" "n = fst d - 1"
        using Cons by fastforce
      then show ?thesis by (intro exI [of _ "c # xs"]) auto
    qed
  qed simp
  have "(s, n) \<in> set (regions (extent [b]) bs')" using assms bs by (simp add: live_regions_def)
  from * [OF this] obtain xs c ys where
    sp: "bs' = xs @ c # ys" "s = extent [b] + extent xs + 1" "n = fst c - 1" by blast
  show thesis
  proof (cases xs rule: rev_cases)
    case Nil
    then show thesis using that [of "[]" "fst b" "snd b" "fst c" "snd c" ys] sp bs by simp
  next
    case (snoc zs z)
    then show thesis
      using that [of "b # zs" "fst z" "snd z" "fst c" "snd c" ys] sp bs by simp
  qed
qed

lemma live_regions_merge:
  assumes "wf_blocks (xs @ (u0, f0) # (u, f) # ys)"
  shows "live_regions (xs @ (u0, f0 + u + f) # ys) =
    live_regions (xs @ (u0, f0) # (u, f) # ys) - {(extent xs + u0 + f0 + 1, u - 1)}"
proof -
  let ?r = "(extent xs + u0 + f0 + 1, u - 1)"
  have a: "live_regions (xs @ (u0, f0) # (u, f) # ys) = insert ?r (live_regions (xs @ (u0, f0 + u + f) # ys))"
    by (cases xs) (auto simp: live_regions_def add.assoc)
  have "?r \<notin> live_regions (xs @ (u0, f0 + u + f) # ys)"
  proof
    assume "?r \<in> live_regions (xs @ (u0, f0 + u + f) # ys)"
    then have "?r \<in> set (regions 0 (xs @ [(u0, f0)])) \<union> set (regions (extent xs + u0 + f0 + u + f) ys)"
      by (cases xs) (auto simp: live_regions_def add.assoc)
    then show False
      using regions_apart [of "xs @ [(u0, f0)]" "(u, f)" ys ?r 0] assms by (simp add: add.assoc)
  qed
  with a show ?thesis by blast
qed

interpretation mpool: arena pMalloc pFree mp_live
proof (unfold_locales, goal_cases)
  case (1 p R nb)
  then obtain bs where bs: "mp_ready p bs" "R = live_regions bs" by (auto simp: mp_live_def)
  let ?n = "unat (nunits_of nb)"
  have n: "0 < ?n" "unat nb \<le> 16 * (?n - 1)"
    using nunits_of_pos unat_nunits_of [OF 1(2)] by auto
  from pMalloc_cases [OF bs(1) refl, of nb] show ?case
  proof (elim disjE)
    assume "\<exists>xs u f ys pool'. bs = xs @ (u, f) # ys \<and> ?n \<le> f \<and>
      pMalloc p nb = Some (Some (extent xs + u + 1), pool') \<and> mp_inv pool' (xs @ (u, 0) # (?n, f - ?n) # ys)"
    then obtain xs u f ys pool' where m: "bs = xs @ (u, f) # ys" "?n \<le> f"
      "pMalloc p nb = Some (Some (extent xs + u + 1), pool')"
      "mp_inv pool' (xs @ (u, 0) # (?n, f - ?n) # ys)" by blast
    have f: "?n + (f - ?n) = f" using m by simp
    have wf: "wf_blocks (xs @ (u, ?n + (f - ?n)) # ys)"
      using m(4) by (auto simp: mp_inv_def mp_shape_def)
    have "live_regions (xs @ (u, 0) # (?n, f - ?n) # ys) = insert (extent xs + u + 1, ?n - 1) R"
      using live_regions_split [of xs u ?n "f - ?n" ys] f bs m by simp
    moreover have "\<forall>r \<in> R. disjoint_regions (extent xs + u + 1, ?n - 1) r \<and> fst r \<noteq> extent xs + u + 1"
      using live_regions_fresh [OF wf n(1)] f bs m by simp
    moreover have "mp_live pool' (live_regions (xs @ (u, 0) # (?n, f - ?n) # ys))"
      unfolding mp_live_def mp_ready_def using m(4) by auto
    ultimately show ?thesis
      using m(3) n by (intro disjI2 exI [of _ "extent xs + u + 1"] exI [of _ "?n - 1"] exI [of _ pool']) auto
  qed (use bs in \<open>auto simp: mp_live_def\<close>)
next
  case (2 p R s n)
  then obtain bs where bs: "mp_ready p bs" "(s, n) \<in> live_regions bs" "R = live_regions bs"
    by (auto simp: mp_live_def)
  then obtain xs u0 f0 u f ys where sp: "bs = xs @ (u0, f0) # (u, f) # ys"
    "s = extent xs + u0 + f0 + 1" "n = u - 1" by (elim live_regions_find)
  have inv: "mp_inv p (xs @ (u0, f0) # (u, f) # ys)" using bs sp by (auto simp: mp_ready_def)
  then obtain pool' where "pFree p s = Some pool'" "mp_inv pool' (xs @ (u0, f0 + u + f) # ys)"
    using pFree_ok sp by metis
  moreover have "wf_blocks (xs @ (u0, f0) # (u, f) # ys)" using inv by (simp add: mp_inv_def mp_shape_def)
  ultimately show ?case
    using live_regions_merge bs sp by (auto simp: mp_live_def mp_ready_def)
qed

section \<open>Allocating from a fresh pool\<close>

text \<open>
  While nothing has been released, all the free space lies behind the last block, and an
  allocation succeeds exactly as long as it fits there.
\<close>

lemma createPool_ready:
  assumes "0 < bytes"
  shows "\<exists>p. createPool True bytes = Some p \<and> mp_ready p [(1, (unat bytes + 15) div 16 - 1)] \<and>
    mp_units p = (unat bytes + 16) div 16"
proof -
  have "0 < unat bytes" using assms by (simp add: unat_gt_0 word_gt_0)
  moreover have "unat bytes < 2 ^ 32" using unsigned_less [where 'a = nat, of bytes] by simp
  ultimately show ?thesis
    by (auto simp: createPool_def pMemoryPoolInit_def mp_ready_def nat_div_distrib div_le_mono nat_add_distrib)
qed

lemma pMalloc_bump:
  assumes "mp_ready p (xs @ [(u, f)])" "\<forall>b \<in> set xs. snd b = 0" "unat (nunits_of nb) \<le> f"
  shows "\<exists>p'. pMalloc p nb = Some (Some (extent xs + u + 1), p') \<and>
    mp_inv p' ((xs @ [(u, 0)]) @ [(unat (nunits_of nb), f - unat (nunits_of nb))])"
  using pMalloc_cases [OF assms(1) refl, of nb]
proof (elim disjE)
  assume "\<exists>xs' u' f' ys p'. xs @ [(u, f)] = xs' @ (u', f') # ys \<and> unat (nunits_of nb) \<le> f' \<and>
    pMalloc p nb = Some (Some (extent xs' + u' + 1), p') \<and>
    mp_inv p' (xs' @ (u', 0) # (unat (nunits_of nb), f' - unat (nunits_of nb)) # ys)"
  then obtain xs' u' f' ys p' where m: "xs @ [(u, f)] = xs' @ (u', f') # ys" "unat (nunits_of nb) \<le> f'"
    "pMalloc p nb = Some (Some (extent xs' + u' + 1), p')"
    "mp_inv p' (xs' @ (u', 0) # (unat (nunits_of nb), f' - unat (nunits_of nb)) # ys)" by blast
  have "ys = []"
  proof (cases ys rule: rev_cases)
    case (snoc zs z)
    then have "(u', f') \<in> set xs" using m(1) by (metis append_Cons append_assoc butlast_snoc in_set_conv_decomp)
    then show ?thesis using assms(2) m(2) nunits_of_pos [of nb] by fastforce
  qed
  with m show ?thesis by auto
qed (use assms(3) in auto)

section \<open>Properties\<close>

lemma small_pool: "\<exists>p. createPool True 160 = Some p \<and> mp_ready p ([] @ [(1, 9)])"
  using createPool_ready [of 160] by (auto simp: word_less_nat_alt)

text \<open>
  C31. \<open>pMalloc\<close> never hands out memory twice: the blocks of two successive allocations do not
  overlap, each has at least the bytes asked for, both are added to the blocks already held, and
  the ring of headers stays intact.
\<close>

theorem pMalloc_disjoint:
  assumes "mp_live p R" "unat n1 \<le> 2 ^ 32 - 16" "unat n2 \<le> 2 ^ 32 - 16"
    and "pMalloc p n1 = Some (Some s1, p1)" "pMalloc p1 n2 = Some (Some s2, p2)"
  shows "\<exists>k1 k2. disjoint_regions (s1, k1) (s2, k2) \<and> unat n1 \<le> 16 * k1 \<and> unat n2 \<le> 16 * k2 \<and>
    mp_live p2 (insert (s2, k2) (insert (s1, k1) R))"
  by (rule mpool.two_allocs [OF assms])

theorem pMalloc_disjoint_witness:
  "\<exists>p s1 p1 s2 p2 k1 k2. createPool True 160 = Some p \<and> pMalloc p 20 = Some (Some s1, p1) \<and>
    pMalloc p1 30 = Some (Some s2, p2) \<and> disjoint_regions (s1, k1) (s2, k2) \<and> 20 \<le> 16 * k1"
proof -
  obtain p where p: "createPool True 160 = Some p" "mp_ready p ([] @ [(1, 9)])" using small_pool by blast
  have n: "unat (nunits_of 20) = 3" "unat (nunits_of 30) = 3" by (simp_all add: unat_nunits_of)
  obtain s1 p1 where 1: "pMalloc p 20 = Some (Some s1, p1)" "mp_inv p1 ([(1, 0)] @ [(3, 6)])"
    using pMalloc_bump [OF p(2), of 20] n by auto
  obtain s2 p2 where 2: "pMalloc p1 30 = Some (Some s2, p2)"
    using pMalloc_bump [of p1 "[(1, 0)]" 3 6 30] 1(2) n by (auto simp: mp_ready_def)
  have "mp_live p (live_regions ([] @ [(1, 9)]))" using p(2) by (auto simp: mp_live_def)
  from pMalloc_disjoint [OF this _ _ 1(1) 2] p(1) 1(1) 2 show ?thesis by auto
qed

text \<open>
  C32. \<open>pFree\<close> undoes \<open>pMalloc\<close>: freeing the block that was allocated last succeeds and leaves
  exactly the blocks that were held before.
\<close>

theorem pFree_undoes_pMalloc:
  assumes "mp_live p R" "unat nb \<le> 2 ^ 32 - 16" "pMalloc p nb = Some (Some s, p')"
  shows "\<exists>p''. pFree p' s = Some p'' \<and> mp_live p'' R"
  by (rule mpool.alloc_release [OF assms])

theorem pFree_undoes_pMalloc_witness:
  "\<exists>p s p' p''. createPool True 160 = Some p \<and> pMalloc p 20 = Some (Some s, p') \<and> pFree p' s = Some p'' \<and> mp_live p'' {}"
proof -
  obtain p where p: "createPool True 160 = Some p" "mp_ready p ([] @ [(1, 9)])" using small_pool by blast
  have n: "unat (nunits_of 20) = 3" by (simp add: unat_nunits_of)
  obtain s p1 where 1: "pMalloc p 20 = Some (Some s, p1)" using pMalloc_bump [OF p(2), of 20] n by auto
  have "mp_live p {}"
    unfolding mp_live_def by (rule exI [of _ "[(1, 9)]"]) (use p(2) in \<open>simp add: live_regions_def\<close>)
  from pFree_undoes_pMalloc [OF this _ 1] p(1) 1 show ?thesis by auto
qed

lemma pMalloc_total:
  assumes "mp_ready p bs"
  shows "\<exists>a p'. pMalloc p nb = Some (a, p') \<and> (a = None \<longleftrightarrow> (\<forall>b \<in> set bs. snd b < unat (nunits_of nb))) \<and>
    (a = None \<longrightarrow> mp_ready p' bs)"
  using pMalloc_cases [OF assms refl, of nb] by fastforce

text \<open>
  C33. \<open>pMalloc\<close> always returns, and answers null exactly when no block of the arena has enough
  free units behind it; a null answer changes nothing. So the search round the ring terminates
  wherever it starts, and no free block is overlooked.
\<close>

theorem pMalloc_complete:
  assumes "mp_ready p bs"
  shows "\<exists>a p'. pMalloc p nb = Some (a, p') \<and> (a = None \<longleftrightarrow> (\<forall>b \<in> set bs. snd b < unat (nunits_of nb))) \<and>
    (a = None \<longrightarrow> mp_ready p' bs)"
  by (rule pMalloc_total [OF assms])

theorem pMalloc_complete_witness:
  "\<exists>p p'. createPool True 160 = Some p \<and> pMalloc p 200 = Some (None, p')"
proof -
  obtain p where p: "createPool True 160 = Some p" "mp_ready p ([] @ [(1, 9)])" using small_pool by blast
  then show ?thesis using pMalloc_complete [OF p(2), of 200] by (auto simp: unat_nunits_of)
qed

lemma nunits_of_wraps:
  assumes "2 ^ 32 - 15 \<le> unat nb"
  shows "unat (nunits_of nb) = 1"
proof -
  define w where "w = nb + HEADERSIZE - 1"
  have lt: "unat nb < 4294967296" using unsigned_less [where 'a = nat, of nb] by simp
  have "w = nb + 15" by (simp add: w_def HEADERSIZE_def)
  then have "unat w = (unat nb + 15) mod 4294967296" by (simp add: unat_word_ariths)
  also have "\<dots> = unat nb + 15 - 4294967296"
    using assms lt by (subst mod_if, subst mod_less) simp_all
  also have "\<dots> < 16" using lt by simp
  finally have "unat (w div 16) = 0" by (simp add: unat_div)
  then have "w div HEADERSIZE = 0" by (simp add: HEADERSIZE_def unat_eq_zero)
  then show ?thesis by (simp add: nunits_of_def flip: w_def)
qed

lemma unat_max_word32: "unat (- 1 :: 32 word) = 4294967295"
  by (simp add: unsigned_minus_1_eq_mask mask_eq_exp_minus_1)

text \<open>
  A request near \<open>2 ^ 32\<close> bytes wraps around in the computation of the units and is served
  with a block that has no room for data at all.
\<close>

theorem pMalloc_wraps:
  assumes "mp_ready p (xs @ [(u, f)])" "\<forall>b \<in> set xs. snd b = 0" "0 < f" "2 ^ 32 - 15 \<le> unat nb"
  shows "\<exists>s p'. pMalloc p nb = Some (Some s, p') \<and> mp_inv p' (xs @ [(u, 0), (1, f - 1)])"
  using pMalloc_bump [OF assms(1,2), of nb] nunits_of_wraps [OF assms(4)] assms(3) by fastforce

theorem pMalloc_wraps_witness:
  "\<exists>p s p'. createPool True 160 = Some p \<and> pMalloc p (- 1) = Some (Some s, p') \<and> mp_inv p' [(1, 0), (1, 8)]"
proof -
  obtain p where p: "createPool True 160 = Some p" "mp_ready p ([] @ [(1, 9)])" using small_pool by blast
  have "2 ^ 32 - 15 \<le> unat (- 1 :: 32 word)" unfolding unat_max_word32 by simp
  then have "\<exists>s p'. pMalloc p (- 1) = Some (Some s, p') \<and> mp_inv p' ([] @ [(1, 0), (1, 9 - 1)])"
    by (intro pMalloc_wraps [OF p(2)]) simp_all
  with p(1) show ?thesis by simp
qed

end
