(* ===== verification/Buffer_C.thy ===== *)
theory Buffer_C
  imports Common_Util
begin

text \<open>
  The fixed-size buffers of \<^verbatim>\<open>http/connection.c\<close>, which carry the bytes between a
  socket and the parser or the response. The pointers \<^verbatim>\<open>begin\<close>, \<^verbatim>\<open>end\<close> and
  \<^verbatim>\<open>limit\<close> are offsets into the array \<^verbatim>\<open>data\<close>. The sockets are not part of the
  program: \<^verbatim>\<open>recv\<close> and \<^verbatim>\<open>send\<close> are described by the list of what the kernel will
  answer, and an empty list stands for a socket that has nothing (more) to say, which on
  these non-blocking sockets is \<^verbatim>\<open>EAGAIN\<close>.
\<close>

section \<open>The buffer\<close>

definition BUF_SIZE :: nat where
  "BUF_SIZE = 1024"

text \<open>\<^verbatim>\<open>char data[BUF_SIZE + 1]\<close> is followed by \<^verbatim>\<open>char limit[1]\<close>.\<close>

definition limit :: nat where
  "limit = BUF_SIZE + 1"

record buffer =
  bbegin :: nat
  bend :: nat
  bpos :: nat
  bdata :: "char list"

definition buffer_full :: "buffer \<Rightarrow> bool" where
  "buffer_full b = (bend b \<ge> limit)"

definition buffer_size :: "buffer \<Rightarrow> int" where
  "buffer_size b = int (bend b) - int (bbegin b)"

definition buffer_clear :: "buffer \<Rightarrow> buffer" where
  "buffer_clear b = b\<lparr>bbegin := 0, bend := 0\<rparr>"

text \<open>\<open>poke d i bs\<close> is \<^verbatim>\<open>memcpy(data + i, bs, n)\<close>; a write outside the array has no result.\<close>

definition poke :: "char list \<Rightarrow> nat \<Rightarrow> char list \<Rightarrow> char list option" where
  "poke d i bs =
     (if i + length bs \<le> length d then Some (take i d @ bs @ drop (i + length bs) d) else None)"

section \<open>Receiving\<close>

datatype sock_in = Data "char list" | Eof | In_again | In_intr | In_error

text \<open>
  One \<^verbatim>\<open>recv(fd, end, margin, 0)\<close> takes at most \<open>margin\<close> of the bytes that have
  arrived; the others stay in the socket. No bytes is the end of the stream.
\<close>

fun buffer_recv :: "buffer \<Rightarrow> sock_in list \<Rightarrow> (rc \<times> buffer \<times> sock_in list) option" where
  "buffer_recv b [] = Some (AGAIN, b, [])"
| "buffer_recv b (ev # evs) =
     (if buffer_full b then Some (AGAIN, b, ev # evs)
      else let margin = limit - bend b in
        case ev of
          Eof \<Rightarrow> Some (OK, b, evs)
        | In_again \<Rightarrow> Some (AGAIN, b, evs)
        | In_intr \<Rightarrow> buffer_recv b evs
        | In_error \<Rightarrow> Some (ERROR, b, evs)
        | Data bs \<Rightarrow>
            (if bs = [] then Some (OK, b, evs)
             else do {
               d \<leftarrow> poke (bdata b) (bend b) (take margin bs);
               Some (AGAIN, b\<lparr>bdata := d, bend := bend b + length (take margin bs)\<rparr>,
                     if length bs \<le> margin then evs else Data (drop margin bs) # evs)
             }))"

section \<open>Sending\<close>

datatype sock_out = Sent nat | Out_again | Out_intr | Out_error

text \<open>
  One \<^verbatim>\<open>send(fd, begin, size, 0)\<close> takes a number of the first bytes. The third
  component is what has gone out on the wire.
\<close>

fun buffer_send :: "buffer \<Rightarrow> sock_out list \<Rightarrow> (rc \<times> buffer \<times> char list) option" where
  "buffer_send b evs =
     (if buffer_size b > 0
      then (case evs of
          [] \<Rightarrow> Some (AGAIN, b, [])
        | Out_again # evs' \<Rightarrow> Some (AGAIN, b, [])
        | Out_intr # evs' \<Rightarrow> buffer_send b evs'
        | Out_error # evs' \<Rightarrow> Some (ERROR, b, [])
        | Sent k # evs' \<Rightarrow> do {
            let n = min k (nat (buffer_size b));
            guard (bend b \<le> length (bdata b));
            (r, b', out) \<leftarrow> buffer_send (b\<lparr>bbegin := bbegin b + n\<rparr>) evs';
            Some (r, b', take n (drop (bbegin b) (bdata b)) @ out)
          })
      else Some (OK, buffer_clear b, []))"

declare buffer_send.simps [simp del]

section \<open>Appending\<close>

definition append_string_to_buffer :: "buffer \<Rightarrow> str \<Rightarrow> (int \<times> buffer) option" where
  "append_string_to_buffer b s = do {
     let margin = int limit - int (bend b);
     guard (margin > 0);
     let appended = c_min margin (len s);
     guard (0 \<le> appended \<and> nat appended \<le> length (chars s));
     d \<leftarrow> poke (bdata b) (bend b) (take (nat appended) (chars s));
     Some (appended, b\<lparr>bdata := d, bend := bend b + nat appended\<rparr>)
   }"

text \<open>
  \<^verbatim>\<open>buffer_sprintf\<close> after the formatting: \<open>txt\<close> is the text the format and its
  arguments produce. \<^verbatim>\<open>vsnprintf\<close> stores at most \<open>margin - 1\<close> bytes of it and a NUL, and
  returns its full length.
\<close>

definition buffer_sprintf :: "buffer \<Rightarrow> char list \<Rightarrow> (int \<times> buffer) option" where
  "buffer_sprintf b txt = do {
     let margin = int limit - int (bend b);
     guard (margin > 0);
     d \<leftarrow> poke (bdata b) (bend b) (take (nat margin - 1) txt @ [CHR 0x00]);
     let n = int (length txt);
     let b' = b\<lparr>bdata := d, bend := bend b + length txt\<rparr>;
     guard (n \<le> margin);
     Some (n, b')
   }"

section \<open>Well-formed buffers and their contents\<close>

definition buffer_wf :: "buffer \<Rightarrow> bool" where
  "buffer_wf b \<longleftrightarrow> length (bdata b) = limit \<and> bbegin b \<le> bend b \<and> bend b \<le> limit"

definition segment :: "char list \<Rightarrow> nat \<Rightarrow> nat \<Rightarrow> char list" where
  "segment d i j = take (j - i) (drop i d)"

definition contents :: "buffer \<Rightarrow> char list" where
  "contents b = segment (bdata b) (bbegin b) (bend b)"

lemma segment_length [simp]: "j \<le> length d \<Longrightarrow> length (segment d i j) = j - i"
  by (simp add: segment_def)

lemma segment_empty [simp]: "segment d i i = []"
  by (simp add: segment_def)

lemma segment_nth: "i + k < j \<Longrightarrow> j \<le> length d \<Longrightarrow> segment d i j ! k = d ! (i + k)"
  by (simp add: segment_def)

lemma segment_map: "j \<le> length d \<Longrightarrow> segment d i j = map (\<lambda>k. d ! k) [i..<j]"
  by (rule nth_equalityI) (simp_all add: segment_nth)

lemma set_segment: "j \<le> length d \<Longrightarrow> set (segment d i j) = {d ! k |k. i \<le> k \<and> k < j}"
  by (auto simp: segment_map)

lemma segment_append: "i \<le> j \<Longrightarrow> j \<le> k \<Longrightarrow> segment d i j @ segment d j k = segment d i k"
proof -
  assume h: "i \<le> j" "j \<le> k"
  then have "k - i = (j - i) + (k - j)" "drop (j - i) (drop i d) = drop j d" by simp_all
  then show ?thesis unfolding segment_def by (metis take_add)
qed

lemma segment_snoc: "i \<le> j \<Longrightarrow> j < length d \<Longrightarrow> segment d i (Suc j) = segment d i j @ [d ! j]"
  unfolding segment_def by (rule slice_Suc)

lemma poke_some: "i + length bs \<le> length d \<Longrightarrow> poke d i bs = Some (take i d @ bs @ drop (i + length bs) d)"
  by (simp add: poke_def)

lemma poke_facts:
  assumes "poke d i bs = Some d'"
  shows "length d' = length d" "take i d' = take i d" "segment d' i (i + length bs) = bs"
    "i + length bs \<le> length d"
  using assms by (auto simp: poke_def segment_def split: if_splits)

lemma poke_segment:
  assumes "poke d i bs = Some d'" "k \<le> i"
  shows "segment d' k i = segment d k i" "segment d' k (i + length bs) = segment d k i @ bs"
proof -
  have "take (i - k) (drop k d') = take (i - k) (drop k d)"
    using poke_facts(2) [OF assms(1)] assms(2) by (simp add: take_drop)
  then show 1: "segment d' k i = segment d k i" by (simp add: segment_def)
  show "segment d' k (i + length bs) = segment d k i @ bs"
    using segment_append [of k i "i + length bs" d'] poke_facts(3) [OF assms(1)] assms(2) 1 by simp
qed

lemma buffer_clear_contents [simp]: "contents (buffer_clear b) = []"
  by (simp add: contents_def buffer_clear_def)

lemma buffer_clear_wf [simp]: "buffer_wf b \<Longrightarrow> buffer_wf (buffer_clear b)"
  by (simp add: buffer_wf_def buffer_clear_def)

lemma contents_length: "buffer_wf b \<Longrightarrow> int (length (contents b)) = buffer_size b"
  by (simp add: contents_def buffer_wf_def buffer_size_def)

text \<open>A buffer into which a text has been received.\<close>

definition received :: "char list \<Rightarrow> buffer" where
  "received w = \<lparr>bbegin = 0, bend = length w, bpos = 0, bdata = w @ replicate (limit - length w) (CHR 0x00)\<rparr>"

lemma received_wf: "length w \<le> limit \<Longrightarrow> buffer_wf (received w) \<and> contents (received w) = w"
  by (simp add: received_def buffer_wf_def contents_def segment_def)

section \<open>What the operations do\<close>

text \<open>
  \<open>pending evs\<close> is what the peer has sent and the program has not yet read, up to the
  first end of stream or error.
\<close>

fun pending :: "sock_in list \<Rightarrow> char list" where
  "pending (Data bs # evs) = (if bs = [] then [] else bs @ pending evs)"
| "pending (In_again # evs) = pending evs"
| "pending (In_intr # evs) = pending evs"
| "pending evs = []"

lemma buffer_recv_ok:
  assumes "buffer_wf b"
  obtains r b' evs' bs where "buffer_recv b evs = Some (r, b', evs')" "buffer_wf b'"
    "contents b' = contents b @ bs" "bbegin b' = bbegin b" "bend b' = bend b + length bs"
    "take (bend b) (bdata b') = take (bend b) (bdata b)"
    "r = AGAIN \<Longrightarrow> pending evs = bs @ pending evs'" "r \<noteq> AGAIN \<Longrightarrow> bs = []"
    "r \<noteq> INVALID_REQUEST"
proof (atomize_elim, induction evs)
  case Nil
  then show ?case using assms by (auto intro!: exI [of _ "[]"])
next
  case (Cons ev evs)
  show ?case
  proof (cases "buffer_full b")
    case True
    then show ?thesis using assms by (auto intro!: exI [of _ "[]"])
  next
    case False
    let ?m = "limit - bend b"
    show ?thesis
    proof (cases ev)
      case (Data bs)
      show ?thesis
      proof (cases "bs = []")
        case True
        then show ?thesis using False Data assms by (auto simp: Let_def intro!: exI [of _ "[]"])
      next
        case ne: False
        have "bend b + length (take ?m bs) \<le> length (bdata b)" using assms by (auto simp: buffer_wf_def)
        then obtain d where d: "poke (bdata b) (bend b) (take ?m bs) = Some d" using poke_some by blast
        let ?b = "b\<lparr>bdata := d, bend := bend b + length (take ?m bs)\<rparr>"
        let ?evs = "if length bs \<le> ?m then evs else Data (drop ?m bs) # evs"
        have "buffer_recv b (ev # evs) = Some (AGAIN, ?b, ?evs)"
          using False Data ne d by (simp add: Let_def)
        moreover have "buffer_wf ?b" using assms poke_facts [OF d] by (auto simp: buffer_wf_def)
        moreover have "contents ?b = contents b @ take ?m bs"
          using poke_segment(2) [OF d, of "bbegin b"] assms by (simp add: contents_def buffer_wf_def)
        moreover have "pending (ev # evs) = take ?m bs @ pending ?evs"
          using Data ne by (auto simp flip: append_assoc)
        ultimately show ?thesis using poke_facts(2) [OF d]
          by (intro exI [of _ AGAIN] exI [of _ ?b] exI [of _ ?evs] exI [of _ "take ?m bs"]) simp
      qed
    qed (use False assms Cons in \<open>auto simp: Let_def intro!: exI [of _ "[]"]\<close>)
  qed
qed

lemma append_ok:
  assumes "buffer_wf b" "bend b < limit" "0 \<le> len s" "nat (len s) \<le> length (chars s)"
  obtains b' where "append_string_to_buffer b s = Some (min (int limit - int (bend b)) (len s), b')"
    "buffer_wf b'" "contents b' = contents b @ take (limit - bend b) (take (nat (len s)) (chars s))"
    "bbegin b' = bbegin b" "bend b' = min limit (bend b + nat (len s))"
proof -
  let ?n = "min (limit - bend b) (nat (len s))" and ?bs = "take (min (limit - bend b) (nat (len s))) (chars s)"
  have n: "nat (min (int limit - int (bend b)) (len s)) = ?n" using assms by (auto simp: min_def)
  have l: "length ?bs = ?n" using assms by simp
  then have "bend b + length ?bs \<le> length (bdata b)" using assms by (auto simp: buffer_wf_def)
  then obtain d where d: "poke (bdata b) (bend b) ?bs = Some d" using poke_some by blast
  let ?b = "b\<lparr>bdata := d, bend := bend b + ?n\<rparr>"
  have "append_string_to_buffer b s = Some (min (int limit - int (bend b)) (len s), ?b)"
    using assms d n by (auto simp: append_string_to_buffer_def Let_def)
  moreover have "buffer_wf ?b" using assms poke_facts [OF d] by (auto simp: buffer_wf_def)
  moreover have "contents ?b = contents b @ ?bs"
    using poke_segment(2) [OF d, of "bbegin b"] assms l by (simp add: contents_def buffer_wf_def)
  moreover have "bend ?b = min limit (bend b + nat (len s))" using assms by auto
  ultimately show thesis using that by (simp add: min.commute)
qed

lemma sprintf_ok:
  assumes "buffer_wf b" "bend b + length txt < limit"
  obtains b' where "buffer_sprintf b txt = Some (int (length txt), b')" "buffer_wf b'"
    "contents b' = contents b @ txt" "bbegin b' = bbegin b" "bend b' = bend b + length txt"
proof -
  have t: "take (nat (int limit - int (bend b)) - 1) txt = txt" using assms by simp
  have "bend b + length (txt @ [CHR 0x00]) \<le> length (bdata b)" using assms by (auto simp: buffer_wf_def)
  then obtain d where d: "poke (bdata b) (bend b) (txt @ [CHR 0x00]) = Some d" using poke_some by blast
  let ?b = "b\<lparr>bdata := d, bend := bend b + length txt\<rparr>"
  have "buffer_sprintf b txt = Some (int (length txt), ?b)"
    using assms d t by (auto simp: buffer_sprintf_def Let_def)
  moreover have "buffer_wf ?b" using assms poke_facts [OF d] by (auto simp: buffer_wf_def)
  moreover have "contents ?b = contents b @ txt"
  proof -
    have k: "bbegin b \<le> bend b" using assms by (simp add: buffer_wf_def)
    have "segment d (bbegin b) (bend b + length txt) = segment (bdata b) (bbegin b) (bend b) @ segment d (bend b) (bend b + length txt)"
      using segment_append [of "bbegin b" "bend b" "bend b + length txt" d] poke_segment(1) [OF d k] k by simp
    moreover have "segment d (bend b) (bend b + length txt) = txt"
      using segment_snoc [of "bend b" "bend b + length txt" d] poke_facts(1,3,4) [OF d] by simp
    ultimately show ?thesis by (simp add: contents_def)
  qed
  ultimately show thesis using that by simp
qed

lemma buffer_send_ok:
  assumes "buffer_wf b"
  obtains r b' out where "buffer_send b evs = Some (r, b', out)" "buffer_wf b'"
    "contents b = out @ contents b' \<or> r = ERROR" "r = OK \<longrightarrow> b' = buffer_clear b"
    "r = OK \<or> r = AGAIN \<or> r = ERROR"
  using assms
proof (atomize_elim, induction b evs rule: buffer_send.induct)
  case (1 b evs)
  show ?case
  proof (cases "buffer_size b > 0")
    case False
    then have "contents b = []" using 1(3) by (simp add: contents_def buffer_size_def buffer_wf_def)
    then show ?thesis using 1(3) False by (subst buffer_send.simps) simp
  next
    case True
    show ?thesis
    proof (cases evs)
      case Nil
      then show ?thesis using 1(3) True by (subst buffer_send.simps) simp
    next
      case (Cons ev evs')
      show ?thesis
      proof (cases ev)
        case (Sent k)
        let ?n = "min k (nat (buffer_size b))" and ?b = "b\<lparr>bbegin := bbegin b + min k (nat (buffer_size b))\<rparr>"
        have wf: "buffer_wf ?b" and n: "bbegin b + ?n \<le> bend b" and len: "bend b \<le> length (bdata b)"
          using 1(3) by (auto simp: buffer_wf_def buffer_size_def)
        have clr: "buffer_clear ?b = buffer_clear b" by (simp add: buffer_clear_def)
        have "contents b = segment (bdata b) (bbegin b) (bbegin b + ?n) @ contents ?b"
          using segment_append [of "bbegin b" "bbegin b + ?n" "bend b" "bdata b"] n by (simp add: contents_def)
        then have c: "contents b = take ?n (drop (bbegin b) (bdata b)) @ contents ?b"
          by (simp add: segment_def)
        have "\<exists>r b' out. buffer_send ?b evs' = Some (r, b', out) \<and> buffer_wf b' \<and>
            (contents ?b = out @ contents b' \<or> r = ERROR) \<and> (r = OK \<longrightarrow> b' = buffer_clear ?b) \<and>
            (r = OK \<or> r = AGAIN \<or> r = ERROR)"
          by (rule 1(1) [OF True Cons Sent refl]) (use len wf in auto)
        then obtain r b' out where ih: "buffer_send ?b evs' = Some (r, b', out)" "buffer_wf b'"
          "contents ?b = out @ contents b' \<or> r = ERROR" "r = OK \<longrightarrow> b' = buffer_clear ?b"
          "r = OK \<or> r = AGAIN \<or> r = ERROR"
          by blast
        have "buffer_send b evs = Some (r, b', take ?n (drop (bbegin b) (bdata b)) @ out)"
          using True Cons Sent ih(1) len by (subst buffer_send.simps) (simp add: Let_def)
        then show ?thesis using ih c clr by (auto simp flip: append_assoc)
      next
        case Out_intr
        then show ?thesis using 1(2) [OF True Cons Out_intr] 1(3) True Cons
          by (subst (1) buffer_send.simps) simp
      qed (use 1(3) True Cons in \<open>subst buffer_send.simps, simp\<close>)+
    qed
  qed
qed

section \<open>Properties\<close>

text \<open>
  C39. \<open>buffer_recv\<close> moves bytes from the socket into the buffer without loss or overrun: on a
  well-formed buffer it returns, never stores beyond \<^verbatim>\<open>limit\<close>, keeps the unread contents and puts
  behind them a prefix of what the peer has sent, leaving the rest in the socket.
\<close>

theorem buffer_recv_appends:
  assumes "buffer_wf b"
  shows "\<exists>r b' evs' bs. buffer_recv b evs = Some (r, b', evs') \<and> buffer_wf b' \<and> contents b' = contents b @ bs \<and>
    (r = AGAIN \<longrightarrow> pending evs = bs @ pending evs') \<and> (r \<noteq> AGAIN \<longrightarrow> bs = []) \<and> r \<noteq> INVALID_REQUEST"
  using buffer_recv_ok [OF assms, of evs] by metis

theorem buffer_recv_appends_witness:
  "\<exists>r b' evs'. buffer_recv (received ''GET '') [In_intr, Data ''/a''] = Some (r, b', evs') \<and> buffer_wf b'"
proof -
  have "buffer_wf (received ''GET '')" using received_wf [of "''GET ''"] by (simp add: limit_def BUF_SIZE_def)
  from buffer_recv_appends [OF this] show ?thesis by blast
qed

text \<open>
  C40. \<open>buffer_send\<close> sends the contents in order and loses nothing: unless the socket fails, what
  has gone out followed by what is left is what was there, and it answers \<^verbatim>\<open>OK\<close> only after
  sending everything and clearing the buffer.
\<close>

theorem buffer_send_in_order:
  assumes "buffer_wf b"
  shows "\<exists>r b' out. buffer_send b evs = Some (r, b', out) \<and> buffer_wf b' \<and>
    (r \<noteq> ERROR \<longrightarrow> contents b = out @ contents b') \<and> (r = OK \<longrightarrow> b' = buffer_clear b)"
  using buffer_send_ok [OF assms, of evs] by metis

theorem buffer_send_in_order_witness:
  "\<exists>r b' out. buffer_send (received ''HTTP/1.1'') [Sent 3, Out_intr, Sent 9] = Some (r, b', out) \<and> buffer_wf b'"
proof -
  have "buffer_wf (received ''HTTP/1.1'')" using received_wf [of "''HTTP/1.1''"] by (simp add: limit_def BUF_SIZE_def)
  from buffer_send_in_order [OF this] show ?thesis by blast
qed

text \<open>
  \<open>buffer_sprintf\<close> accepts a text that just does not fit: when the text is as long as the
  space left, the closing NUL replaces its last byte and the assertion still holds, so that the
  buffer ends in a NUL instead of that byte.
\<close>

theorem sprintf_truncates:
  assumes "buffer_wf b" "bend b < limit" "length txt = limit - bend b"
  shows "\<exists>b'. buffer_sprintf b txt = Some (int (length txt), b') \<and> contents b' = contents b @ butlast txt @ [CHR 0x00]"
proof -
  have wf: "length (bdata b) = limit" "bbegin b \<le> bend b" using assms(1) by (auto simp: buffer_wf_def)
  have t: "take (nat (int limit - int (bend b)) - 1) txt = butlast txt" "length (butlast txt @ [CHR 0x00]) = limit - bend b"
    using assms(2,3) by (simp_all add: butlast_conv_take nat_diff_distrib')
  then obtain d where d: "poke (bdata b) (bend b) (butlast txt @ [CHR 0x00]) = Some d"
    using poke_some [of "bend b" "butlast txt @ [CHR 0x00]" "bdata b"] wf assms(2) by auto
  have "buffer_sprintf b txt = Some (int (length txt), b\<lparr>bdata := d, bend := bend b + length txt\<rparr>)"
    using assms(2,3) d t(1) by (auto simp: buffer_sprintf_def Let_def)
  moreover have "contents (b\<lparr>bdata := d, bend := bend b + length txt\<rparr>) = contents b @ butlast txt @ [CHR 0x00]"
    using poke_segment(2) [OF d wf(2)] t(2) assms(3) by (simp add: contents_def)
  ultimately show ?thesis by blast
qed

theorem sprintf_truncates_witness:
  "\<exists>b'. buffer_sprintf (received (replicate 1023 (CHR ''x''))) ''ab'' = Some (2, b') \<and>
    contents b' = replicate 1023 (CHR ''x'') @ ''a'' @ [CHR 0x00]"
proof -
  have w: "buffer_wf (received (replicate 1023 (CHR ''x''))) \<and> contents (received (replicate 1023 (CHR ''x''))) = replicate 1023 (CHR ''x'')"
    by (rule received_wf) (simp add: limit_def BUF_SIZE_def)
  have "bend (received (replicate 1023 (CHR ''x''))) = 1023" by (simp add: received_def)
  then show ?thesis using sprintf_truncates [of "received (replicate 1023 (CHR ''x''))" "''ab''"] w
    by (auto simp: limit_def BUF_SIZE_def)
qed

end
