(* ===== verification/Hash_Table.thy ===== *)
theory Hash_Table
  imports Memory_Pool
begin

text \<open>
  \<^verbatim>\<open>base/hash.c\<close>: the read-only hash table of header names and of proxied locations.
  \<open>hashInit\<close> looks for the least number of buckets that keeps every bucket small, takes the
  memory for them from a memory pool and lays the elements of a bucket out one behind the
  other, with a null value as end mark. Addresses are in bytes; \<open>base\<close> is the address of the
  pool's block. The memory of the elements is a map from addresses to the slots stored there.
\<close>

section \<open>Hash functions\<close>

text \<open>\<^verbatim>\<open>#define char_hash(key, c) ((uint) key * 31 + c)\<close> with a signed \<^verbatim>\<open>char\<close>.\<close>

definition char_hash :: "32 word \<Rightarrow> char \<Rightarrow> 32 word" where
  "char_hash key c = key * 31 + (if code c < 128 then of_nat (code c) else of_nat (code c) - 256)"

definition hash_key_function :: "char list \<Rightarrow> 32 word" where
  "hash_key_function cs = foldl char_hash 0 cs"

definition strlow :: "char list \<Rightarrow> char list" where
  "strlow cs = map c_tolower cs"

definition random_salt :: "32 word list" where
  "random_salt = [1451352145, 453454322, 3454325, 3542345, 1214225, 75243532, 45324515, 3445665,
     1477235, 4532543, 7855743, 4114345, 132145, 14533432, 958930665, 34455, 25484754]"

text \<open>The loop of \<open>hash_code_of_ip_integer\<close> runs once per bit of \<open>x\<close>.\<close>

function ip_rounds :: "32 word \<Rightarrow> 32 word \<Rightarrow> 32 word" where
  "ip_rounds x h =
     (if x > 0 then ip_rounds (drop_bit 1 x) (h * 113 + random_salt ! unat (h mod 17)) else h)"
  by auto
termination
proof (relation "measure (\<lambda>(x, h). unat x)", goal_cases)
  case (2 x h)
  then have "0 < unat x" by (simp add: word_gt_0 unat_gt_0)
  then show ?case by (simp add: drop_bit_eq_div unat_div)
qed simp

declare ip_rounds.simps [simp del]

definition hash_code_of_ip_integer :: "32 word \<Rightarrow> 32 word" where
  "hash_code_of_ip_integer x = ip_rounds x x"

section \<open>Sizes\<close>

text \<open>\<^verbatim>\<open>align\<close> on the sizes that occur, and its value as arithmetic.\<close>

definition align_nat :: "nat \<Rightarrow> nat \<Rightarrow> nat" where
  "align_nat d a = unat (align (of_nat d) (of_nat a))"

text \<open>\<^verbatim>\<open>HASH_ELT_SIZE\<close>: a pointer, then the length and the name, aligned to a pointer.\<close>

definition HASH_ELT_SIZE :: "nat \<Rightarrow> nat" where
  "HASH_ELT_SIZE n = 8 + align_nat (n + 2) 8"

definition cacheline_size :: nat where
  "cacheline_size = 32"

lemma align_pow2:
  assumes "d + 2 ^ k < 2 ^ 64" "k < 64"
  shows "align_nat d (2 ^ k) = (d + (2 ^ k - 1)) div 2 ^ k * 2 ^ k"
proof -
  let ?x = "of_nat d + mask k :: 64 word"
  have m: "(of_nat (2 ^ k) :: 64 word) - 1 = mask k" by (simp add: mask_eq_exp_minus_1)
  have "mask k = (of_nat (2 ^ k - 1) :: 64 word)" by (simp add: mask_eq_exp_minus_1 of_nat_diff)
  then have "?x = of_nat (d + (2 ^ k - 1))" by (metis of_nat_add)
  moreover have "(d + (2 ^ k - 1)) mod 2 ^ 64 = d + (2 ^ k - 1)" using assms(1) by simp
  ultimately have ux: "unat ?x = d + (2 ^ k - 1)" by (simp only: unat_of_nat len_num1 len_num0 len_bit0 mult_1_right) simp
  have "push_bit k (drop_bit k ?x) = ?x - take_bit k ?x" by (metis add_diff_cancel_right' bits_ident)
  moreover have "align (of_nat d) (of_nat (2 ^ k)) = push_bit k (drop_bit k ?x)"
    unfolding align_def m by (auto simp: bit_eq_iff bit_simps not_less)
  moreover have t: "unat (take_bit k ?x) = unat ?x mod 2 ^ k"
    unfolding unsigned_take_bit_eq by (rule take_bit_eq_mod)
  moreover have "take_bit k ?x \<le> ?x" unfolding word_le_nat_alt t by simp
  ultimately have "align_nat d (2 ^ k) = unat ?x - unat ?x mod 2 ^ k"
    by (simp add: align_nat_def unat_sub)
  then show ?thesis by (simp add: ux minus_mod_eq_div_mult)
qed

lemma HASH_ELT_SIZE_eq: "n < 2 ^ 32 \<Longrightarrow> HASH_ELT_SIZE n = 8 + (n + 9) div 8 * 8"
  using align_pow2 [of "n + 2" 3] by (simp add: HASH_ELT_SIZE_def)

section \<open>Building the table\<close>

record 'v hash_key =
  k_name :: "char list option" \<comment> \<open>\<^verbatim>\<open>key\<close>: null, or as many bytes as \<^verbatim>\<open>key.len\<close> says\<close>
  k_hash :: "32 word"
  k_value :: 'v

record 'v hash_slot =
  s_value :: "'v option"
  s_len :: nat
  s_name :: "char list"

record 'v hash =
  h_buckets :: "nat option list"
  h_size :: nat
  h_mem :: "nat \<rightharpoonup> 'v hash_slot"

definition u_short :: "nat \<Rightarrow> nat" where
  "u_short n = n mod 2 ^ 16"

definition key_len :: "'v hash_key \<Rightarrow> nat" where
  "key_len k = (case k_name k of None \<Rightarrow> 0 | Some w \<Rightarrow> length w)"

definition elt_size :: "'v hash_key \<Rightarrow> nat" where
  "elt_size k = HASH_ELT_SIZE (key_len k)"

definition bucket_no :: "nat \<Rightarrow> 'v hash_key \<Rightarrow> nat" where
  "bucket_no sz k = unat (k_hash k) mod sz"

text \<open>The trial of one number of buckets: \<open>test\<close> sums up what every bucket would hold.\<close>

fun try_size :: "nat \<Rightarrow> nat \<Rightarrow> 'v hash_key list \<Rightarrow> nat list \<Rightarrow> bool" where
  "try_size sz b [] test = True"
| "try_size sz b (k # ks) test =
     (if k_name k = None then try_size sz b ks test
      else let i = bucket_no sz k; t = u_short (test ! i + elt_size k) in
        if t > u_short b then False else try_size sz b ks (test[i := t]))"

text \<open>\<^verbatim>\<open>for (size = start; size <= max_size; size++)\<close>, with \<open>n\<close> rounds to go; falling out of the
  loop is the failing \<^verbatim>\<open>assert\<close> after it.\<close>

fun find_size :: "nat \<Rightarrow> 'v hash_key list \<Rightarrow> nat \<Rightarrow> nat \<Rightarrow> nat option" where
  "find_size b ks sz 0 = None"
| "find_size b ks sz (Suc n) =
     (if try_size sz b ks (replicate sz 0) then Some sz else find_size b ks (sz + 1) n)"

fun add_sizes :: "nat \<Rightarrow> 'v hash_key list \<Rightarrow> nat list \<Rightarrow> nat list" where
  "add_sizes sz [] test = test"
| "add_sizes sz (k # ks) test =
     (if k_name k = None then add_sizes sz ks test
      else let i = bucket_no sz k in
        add_sizes sz ks (test[i := u_short (test ! i + elt_size k)]))"

text \<open>A bucket that holds no more than its end mark gets no memory.\<close>

definition round_up :: "nat \<Rightarrow> nat" where
  "round_up t = (if t = 8 then t else u_short (align_nat t cacheline_size))"

definition area :: "nat \<Rightarrow> nat" where
  "area t = (if t = 8 then 0 else t)"

fun place :: "nat \<Rightarrow> nat list \<Rightarrow> nat option list" where
  "place e [] = []"
| "place e (t # ts) = (if t = 8 then None # place e ts else Some e # place (e + t) ts)"

text \<open>Writes must stay below \<open>lim\<close>, the end of the allocated block.\<close>

definition slot_of :: "'v hash_key \<Rightarrow> 'v hash_slot" where
  "slot_of k = \<lparr>s_value = Some (k_value k), s_len = u_short (key_len k),
     s_name = strlow (case k_name k of None \<Rightarrow> [] | Some w \<Rightarrow> w)\<rparr>"

definition end_slot :: "'v hash_slot" where
  "end_slot = \<lparr>s_value = None, s_len = 0, s_name = []\<rparr>"

fun store_all :: "nat \<Rightarrow> nat \<Rightarrow> nat option list \<Rightarrow> 'v hash_key list \<Rightarrow> nat list \<Rightarrow> (nat \<rightharpoonup> 'v hash_slot) \<Rightarrow>
    (nat list \<times> (nat \<rightharpoonup> 'v hash_slot)) option" where
  "store_all lim sz buckets [] test m = Some (test, m)"
| "store_all lim sz buckets (k # ks) test m =
     (if k_name k = None then store_all lim sz buckets ks test m
      else do {
        let i = bucket_no sz k;
        a \<leftarrow> buckets ! i;
        guard (a + test ! i + elt_size k \<le> lim);
        store_all lim sz buckets ks (test[i := u_short (test ! i + elt_size k)])
          (m(a + test ! i \<mapsto> slot_of k))
      })"

fun end_marks :: "nat \<Rightarrow> nat option list \<Rightarrow> nat list \<Rightarrow> (nat \<rightharpoonup> 'v hash_slot) \<Rightarrow> (nat \<rightharpoonup> 'v hash_slot) option" where
  "end_marks lim (Some a # bs) (t # ts) m = do {
     guard (a + t + 8 \<le> lim);
     end_marks lim bs ts (m(a + t \<mapsto> end_slot))
   }"
| "end_marks lim (None # bs) (t # ts) m = end_marks lim bs ts m"
| "end_marks lim bs ts m = Some m"

text \<open>
  The bucket array is fresh memory. An entry that is never assigned keeps what the memory
  held; \<open>clean\<close> says that this was null. Otherwise the loop that writes the end marks stores
  through it, which has no defined result.

  The branch in which the caller passes no \<^verbatim>\<open>hash\<close> object is not modelled; no caller takes it.
\<close>

definition hashInit :: "nat \<Rightarrow> bool \<Rightarrow> memory_pool \<Rightarrow> nat \<Rightarrow> nat \<Rightarrow> 'v hash_key list \<Rightarrow>
    (rc \<times> 'v hash option \<times> memory_pool) option" where
  "hashInit base clean pool bucket_size max_size names = do {
     guard (\<forall>k \<in> set names. \<not> bucket_size < elt_size k + 8);
     (test, p1) \<leftarrow> pMalloc pool (of_nat (max_size * 2));
     (case test of
        None \<Rightarrow> Some (ERROR, None, p1)
      | Some tst \<Rightarrow> do {
          let b = bucket_size - 8;
          guard (b div 20 \<noteq> 0);
          let start = length names div (b div 20);
          let start = (if start \<noteq> 0 then start else 1);
          sz \<leftarrow> find_size b names start (Suc max_size - start);
          let ts = map round_up (add_sizes sz names (replicate sz 8));
          let n = sum_list (map area ts);
          (bu, p2) \<leftarrow> pMalloc p1 (of_nat (sz * 8));
          if bu = None then do { p3 \<leftarrow> pFree p2 tst; Some (ERROR, None, p3) }
          else do {
            (el, p3) \<leftarrow> pMalloc p2 (of_nat n + of_nat cacheline_size);
            (case el of
               None \<Rightarrow> do { p4 \<leftarrow> pFree p3 tst; Some (ERROR, None, p4) }
             | Some e \<Rightarrow> do {
                 let raw = base + 16 * e;
                 let buckets = place (align_nat raw cacheline_size) ts;
                 (test', m) \<leftarrow> store_all (raw + n + cacheline_size) sz buckets names (replicate sz 0) Map.empty;
                 guard (clean \<or> None \<notin> set buckets);
                 m' \<leftarrow> end_marks (raw + n + cacheline_size) buckets test' m;
                 p4 \<leftarrow> pFree p3 tst;
                 Some (OK, Some \<lparr>h_buckets = buckets, h_size = sz, h_mem = m'\<rparr>, p4)
               })
          }
        })
   }"

section \<open>Looking a name up\<close>

partial_function (option) find_slot :: "(nat \<rightharpoonup> 'v hash_slot) \<Rightarrow> char list \<Rightarrow> nat \<Rightarrow> nat \<Rightarrow> 'v option option" where
  "find_slot m name n a =
     Option.bind (m a) (\<lambda>s.
       case s_value s of
         None \<Rightarrow> Some None
       | Some v \<Rightarrow>
           Option.bind (if n = s_len s then strneq id name (s_name s) n else Some False) (\<lambda>eq.
             if eq then Some (Some v)
             else find_slot m name n (align_nat (a + 10 + s_len s) 8)))"

definition hash_find :: "'v hash \<Rightarrow> char list \<Rightarrow> nat \<Rightarrow> 'v option option" where
  "hash_find h name n = do {
     guard (n \<le> length name \<and> 0 < h_size h);
     a \<leftarrow> h_buckets h ! (unat (hash_key_function (take n name)) mod h_size h);
     find_slot (h_mem h) name n a
   }"

section \<open>What a bucket holds\<close>

definition bk :: "nat \<Rightarrow> 'v hash_key list \<Rightarrow> nat \<Rightarrow> 'v hash_key list" where
  "bk sz ks i = filter (\<lambda>k. k_name k \<noteq> None \<and> bucket_no sz k = i) ks"

definition load :: "'v hash_key list \<Rightarrow> nat" where
  "load ks = sum_list (map elt_size ks)"

lemma load_simps [simp]: "load [] = 0" "load (k # ks) = elt_size k + load ks" "load (xs @ ys) = load xs + load ys"
  by (simp_all add: load_def)

lemma bk_simps [simp]:
  "bk sz [] i = []"
  "bk sz (k # ks) i = (if k_name k \<noteq> None \<and> bucket_no sz k = i then k # bk sz ks i else bk sz ks i)"
  "bk sz (xs @ ys) i = bk sz xs i @ bk sz ys i"
  by (simp_all add: bk_def)

lemma elt_size_ge: "16 \<le> elt_size k" if "key_len k < 2 ^ 32"
  using that by (simp add: elt_size_def HASH_ELT_SIZE_eq)

lemma elt_size_dvd: "key_len k < 2 ^ 32 \<Longrightarrow> 8 dvd elt_size k"
  by (simp add: elt_size_def HASH_ELT_SIZE_eq)

lemma load_dvd: "\<forall>k \<in> set ks. key_len k < 2 ^ 32 \<Longrightarrow> 8 dvd load ks"
  by (induction ks) (auto simp: elt_size_dvd)

lemma load_pos: "\<forall>k \<in> set ks. key_len k < 2 ^ 32 \<Longrightarrow> load ks = 0 \<longleftrightarrow> ks = []"
  using elt_size_ge by (cases ks) (force)+

lemma bucket_no_less: "0 < sz \<Longrightarrow> bucket_no sz k < sz"
  by (simp add: bucket_no_def)

text \<open>The trial rejects a number of buckets unless every bucket stays within its bound.\<close>

lemma try_size_ok:
  assumes "try_size sz b ks test" "length test = sz" "0 < sz" "b < 2 ^ 15"
    and "\<forall>k \<in> set ks. elt_size k \<le> b" "\<forall>i < sz. test ! i \<le> b"
  shows "\<forall>i < sz. test ! i + load (bk sz ks i) \<le> b"
  using assms
proof (induction ks arbitrary: test)
  case (Cons k ks)
  show ?case
  proof (cases "k_name k = None")
    case True
    then show ?thesis using Cons by simp
  next
    case False
    let ?i = "bucket_no sz k" and ?t = "test ! bucket_no sz k + elt_size k"
    have i: "?i < sz" using bucket_no_less [OF Cons.prems(3)] .
    have "?t < 2 ^ 16" using Cons.prems i by (auto dest!: spec [of _ ?i])
    then have t: "u_short ?t = ?t" "u_short b = b" using Cons.prems(4) by (simp_all add: u_short_def)
    have le: "?t \<le> b" and rest: "try_size sz b ks (test[?i := ?t])"
      using Cons.prems(1) False t by (auto simp: Let_def split: if_splits)
    have "\<forall>j < sz. test[?i := ?t] ! j + load (bk sz ks j) \<le> b"
    proof (rule Cons.IH [OF rest])
      show "\<forall>j < sz. test[?i := ?t] ! j \<le> b" using Cons.prems(2,6) le i by (auto simp: nth_list_update)
    qed (use Cons.prems in auto)
    then show ?thesis using False i Cons.prems(2) by (auto simp: nth_list_update split: if_splits)
  qed
qed simp

lemma try_size_fits:
  assumes "length test = sz" "0 < sz" "b < 2 ^ 15" "\<forall>i < sz. test ! i + load (bk sz ks i) \<le> b"
  shows "try_size sz b ks test"
  using assms
proof (induction ks arbitrary: test)
  case (Cons k ks)
  show ?case
  proof (cases "k_name k = None")
    case True
    then show ?thesis using Cons by simp
  next
    case False
    let ?i = "bucket_no sz k" and ?t = "test ! bucket_no sz k + elt_size k"
    have i: "?i < sz" using bucket_no_less [OF Cons.prems(2)] .
    have le: "?t \<le> b" using Cons.prems(4) False i by (auto dest!: spec [of _ ?i])
    then have t: "u_short ?t = ?t" "u_short b = b" using Cons.prems(3) by (simp_all add: u_short_def)
    have "try_size sz b ks (test[?i := ?t])"
      using Cons.prems False i by (intro Cons.IH) (auto simp: nth_list_update add.assoc split: if_splits)
    then show ?thesis using False t le by (auto simp: Let_def)
  qed
qed simp

lemma find_size_ok:
  assumes "find_size b ks sz n = Some sz'" "0 < sz" "b < 2 ^ 15" "\<forall>k \<in> set ks. elt_size k \<le> b"
  shows "sz \<le> sz' \<and> sz' < sz + n \<and> (\<forall>i < sz'. load (bk sz' ks i) \<le> b)"
  using assms(1,2)
proof (induction n arbitrary: sz)
  case (Suc n)
  show ?case
  proof (cases "try_size sz b ks (replicate sz 0)")
    case True
    then have "\<forall>i < sz. replicate sz 0 ! i + load (bk sz ks i) \<le> b"
      using Suc.prems assms by (intro try_size_ok) auto
    with True Suc.prems show ?thesis by auto
  next
    case False
    then show ?thesis using Suc.IH [of "sz + 1"] Suc.prems by auto
  qed
qed simp

lemma add_sizes_ok:
  assumes "length test = sz" "0 < sz" "\<forall>i < sz. test ! i + load (bk sz ks i) < 2 ^ 16"
  shows "length (add_sizes sz ks test) = sz \<and> (\<forall>i < sz. add_sizes sz ks test ! i = test ! i + load (bk sz ks i))"
  using assms
proof (induction ks arbitrary: test)
  case (Cons k ks)
  show ?case
  proof (cases "k_name k = None")
    case True
    then show ?thesis using Cons by simp
  next
    case False
    let ?i = "bucket_no sz k" and ?t = "test ! bucket_no sz k + elt_size k"
    have i: "?i < sz" using bucket_no_less [OF Cons.prems(2)] .
    have "?t < 2 ^ 16" using Cons.prems(3) False i by (auto dest!: spec [of _ ?i])
    then have t: "u_short ?t = ?t" by (simp add: u_short_def)
    have "\<forall>j < sz. test[?i := ?t] ! j + load (bk sz ks j) < 2 ^ 16"
      using Cons.prems False i by (auto simp: nth_list_update add.assoc split: if_splits)
    then show ?thesis using Cons.IH [of "test[?i := ?t]"] Cons.prems False i t
      by (auto simp: nth_list_update Let_def split: if_splits)
  qed
qed simp

lemma round_up_ge:
  assumes "t + 32 < 2 ^ 16" "t \<noteq> 8"
  shows "t \<le> round_up t" "round_up t < t + 32" "32 dvd round_up t"
proof -
  have "align_nat t cacheline_size = (t + 31) div 32 * 32"
    using align_pow2 [of t 5] assms by (simp add: cacheline_size_def)
  moreover have "(t + 31) div 32 * 32 < 2 ^ 16" using assms by simp
  ultimately have "round_up t = (t + 31) div 32 * 32" using assms by (simp add: round_up_def u_short_def)
  then show "t \<le> round_up t" "round_up t < t + 32" "32 dvd round_up t" by simp_all
qed

lemma place_nth:
  "i < length ts \<Longrightarrow> place e ts ! i = (if ts ! i = 8 then None else Some (e + sum_list (map area (take i ts))))"
proof (induction ts arbitrary: e i)
  case (Cons t ts)
  then show ?case by (cases i) (auto simp: area_def [of t])
qed simp

lemma place_length [simp]: "length (place e ts) = length ts"
  by (induction ts arbitrary: e) auto

lemma area_prefix: "i < j \<Longrightarrow> j \<le> length ts \<Longrightarrow>
    sum_list (map area (take i ts)) + area (ts ! i) \<le> sum_list (map area (take j ts))"
proof (induction j)
  case (Suc j)
  then show ?case by (cases "i = j") (auto simp: take_Suc_conv_app_nth)
qed simp

section \<open>Filling the buckets\<close>

primrec slots_at :: "(nat \<rightharpoonup> 'v hash_slot) \<Rightarrow> nat \<Rightarrow> 'v hash_key list \<Rightarrow> bool" where
  "slots_at m a [] \<longleftrightarrow> True"
| "slots_at m a (k # ks) \<longleftrightarrow> m a = Some (slot_of k) \<and> slots_at m (a + elt_size k) ks"

lemma slots_at_append [simp]: "slots_at m a (xs @ ys) \<longleftrightarrow> slots_at m a xs \<and> slots_at m (a + load xs) ys"
  by (induction xs arbitrary: a) (auto simp: add.assoc)

lemma slots_at_frame:
  "\<forall>k \<in> set ks. 0 < elt_size k \<Longrightarrow> x < a \<or> a + load ks \<le> x \<Longrightarrow> slots_at (m(x := y)) a ks = slots_at m a ks"
  by (induction ks arbitrary: a) auto

text \<open>
  Where the buckets are: every non-empty bucket has its start \<open>A i\<close>, with room for its load and
  an end mark, below \<open>lim\<close> and apart from the others.
\<close>

definition room :: "nat \<Rightarrow> nat \<Rightarrow> 'v hash_key list \<Rightarrow> nat option list \<Rightarrow> (nat \<Rightarrow> nat) \<Rightarrow> bool" where
  "room lim sz ks buckets A \<longleftrightarrow> length buckets = sz \<and> 0 < sz \<and>
     (\<forall>i < sz. bk sz ks i \<noteq> [] \<longrightarrow> buckets ! i = Some (A i) \<and> A i + load (bk sz ks i) + 8 \<le> lim \<and>
        load (bk sz ks i) < 2 ^ 16) \<and>
     (\<forall>i < sz. bk sz ks i = [] \<longrightarrow> buckets ! i = None) \<and>
     (\<forall>i < sz. \<forall>j < sz. i \<noteq> j \<and> bk sz ks i \<noteq> [] \<and> bk sz ks j \<noteq> [] \<longrightarrow>
        A i + load (bk sz ks i) + 8 \<le> A j \<or> A j + load (bk sz ks j) + 8 \<le> A i)"

definition filled :: "nat \<Rightarrow> 'v hash_key list \<Rightarrow> (nat \<Rightarrow> nat) \<Rightarrow> nat list \<Rightarrow> (nat \<rightharpoonup> 'v hash_slot) \<Rightarrow> bool" where
  "filled sz ks A test m \<longleftrightarrow> length test = sz \<and>
     (\<forall>i < sz. test ! i = load (bk sz ks i) \<and> slots_at m (A i) (bk sz ks i))"

lemma store_all_ok:
  assumes "room lim sz (xs @ ks) buckets A" "filled sz xs A test m" "\<forall>k \<in> set (xs @ ks). key_len k < 2 ^ 32"
  obtains test' m' where "store_all lim sz buckets ks test m = Some (test', m')" "filled sz (xs @ ks) A test' m'"
  using assms
proof (atomize_elim, induction ks arbitrary: xs test m)
  case Nil
  then show ?case by auto
next
  case (Cons k ks)
  show ?case
  proof (cases "k_name k = None")
    case True
    have "filled sz (xs @ [k]) A test m" using Cons.prems(2) True by (simp add: filled_def)
    then show ?thesis using Cons.IH [of "xs @ [k]" test m] Cons.prems True by simp
  next
    case False
    let ?i = "bucket_no sz k"
    let ?a = "A ?i + test ! ?i" and ?t = "test ! ?i + elt_size k"
    have sz: "0 < sz" "?i < sz" using Cons.prems(1) bucket_no_less by (auto simp: room_def)
    have ti: "test ! ?i = load (bk sz xs ?i)" using Cons.prems(2) sz by (simp add: filled_def)
    have "bk sz (xs @ k # ks) ?i = bk sz xs ?i @ k # bk sz ks ?i" using False by simp
    then have i: "buckets ! ?i = Some (A ?i)" "A ?i + ?t + load (bk sz ks ?i) + 8 \<le> lim" "?t < 2 ^ 16"
      using Cons.prems(1) sz ti by (auto simp: room_def dest!: spec [of _ ?i])
    let ?m = "m(?a \<mapsto> slot_of k)" and ?test = "test[?i := ?t]"
    have "slots_at ?m (A j) (bk sz (xs @ [k]) j)" if "j < sz" for j
    proof -
      have pos: "\<forall>k \<in> set (bk sz xs j). 0 < elt_size k"
        using elt_size_ge Cons.prems(3) by (force simp: bk_def)
      have old: "slots_at m (A j) (bk sz xs j)" using Cons.prems(2) that by (simp add: filled_def)
      show ?thesis
      proof (cases "j = ?i")
        case True
        then show ?thesis using old ti False slots_at_frame [OF pos, of ?a "A j"] by simp
      next
        case other: False
        have "?a < A j \<or> A j + load (bk sz xs j) \<le> ?a" if ne: "bk sz xs j \<noteq> []"
        proof -
          have "A ?i + load (bk sz (xs @ k # ks) ?i) + 8 \<le> A j \<or> A j + load (bk sz (xs @ k # ks) j) + 8 \<le> A ?i"
            using Cons.prems(1) \<open>j < sz\<close> sz other ne False unfolding room_def by force
          then show ?thesis using ti False by auto
        qed
        then show ?thesis using old other slots_at_frame [OF pos, of ?a "A j"] by (cases "bk sz xs j = []") auto
      qed
    qed
    then have "filled sz (xs @ [k]) A ?test ?m"
      using Cons.prems(2) sz False by (auto simp: filled_def nth_list_update)
    then have "\<exists>test' m'. store_all lim sz buckets ks ?test ?m = Some (test', m') \<and>
        filled sz ((xs @ [k]) @ ks) A test' m'"
      using Cons.prems(1,3) by (intro Cons.IH) (simp_all del: fun_upd_apply)
    then show ?thesis using i False by (auto simp: Let_def u_short_def)
  qed
qed

text \<open>The end marks go exactly behind the elements.\<close>

lemma end_marks_ok:
  assumes "length bs = length ts" "\<forall>i < length bs. \<forall>a. bs ! i = Some a \<longrightarrow> a + ts ! i + 8 \<le> lim"
  obtains m' where "end_marks lim bs ts m = Some m'"
    "\<forall>x. m' x = (if \<exists>i < length bs. \<exists>a. bs ! i = Some a \<and> x = a + ts ! i then Some end_slot else m x)"
  using assms
proof (atomize_elim, induction bs arbitrary: ts m)
  case Nil
  then show ?case by (cases ts) auto
next
  case (Cons b bs)
  then obtain t ts' where ts: "ts = t # ts'" by (cases ts) auto
  have len: "length bs = length ts'" using Cons.prems ts by simp
  have fit: "\<forall>i < length bs. \<forall>a. bs ! i = Some a \<longrightarrow> a + ts' ! i + 8 \<le> lim"
  proof (intro allI impI)
    fix i a assume "i < length bs" "bs ! i = Some a"
    then show "a + ts' ! i + 8 \<le> lim" using Cons.prems(2) [rule_format, of "Suc i" a] ts by simp
  qed
  have all: "(\<exists>i < length (b # bs). P i) \<longleftrightarrow> P 0 \<or> (\<exists>i < length bs. P (Suc i))" for P
    by (auto simp: less_Suc_eq_0_disj)
  show ?case
  proof (cases b)
    case None
    then show ?thesis using Cons.IH [OF len fit len fit, of m] ts unfolding all by simp
  next
    case (Some a)
    have g: "a + t + 8 \<le> lim" using Cons.prems(2) [rule_format, of 0 a] ts Some by simp
    obtain m' where m': "end_marks lim bs ts' (m(a + t \<mapsto> end_slot)) = Some m'"
      "\<forall>x. m' x = (if \<exists>i < length bs. \<exists>a. bs ! i = Some a \<and> x = a + ts' ! i then Some end_slot
         else (m(a + t \<mapsto> end_slot)) x)"
      using Cons.IH [OF len fit len fit] by blast
    show ?thesis unfolding all using m' Some ts g by (intro exI [of _ m']) auto
  qed
qed

text \<open>
  The finished table: the elements of every bucket in the order of the input, and the end mark.
\<close>

definition table :: "'v hash_key list \<Rightarrow> 'v hash \<Rightarrow> bool" where
  "table ks h \<longleftrightarrow> 0 < h_size h \<and> length (h_buckets h) = h_size h \<and>
     (\<forall>i < h_size h. if bk (h_size h) ks i = [] then h_buckets h ! i = None
        else \<exists>a. h_buckets h ! i = Some a \<and> 8 dvd a \<and> a + load (bk (h_size h) ks i) < 2 ^ 63 \<and>
          slots_at (h_mem h) a (bk (h_size h) ks i) \<and>
          h_mem h (a + load (bk (h_size h) ks i)) = Some end_slot)"

lemma room_table:
  assumes rm: "room lim sz ks buckets A" and fl: "filled sz ks A test m" and small: "\<forall>k \<in> set ks. key_len k < 2 ^ 32"
    and al: "\<forall>i < sz. 8 dvd A i" and lim: "lim < 2 ^ 63"
  shows "\<exists>m'. end_marks lim buckets test m = Some m' \<and> table ks \<lparr>h_buckets = buckets, h_size = sz, h_mem = m'\<rparr>"
proof -
  have bt: "buckets ! i = Some a \<longleftrightarrow> bk sz ks i \<noteq> [] \<and> a = A i" if "i < sz" for i a
    using rm that by (cases "bk sz ks i = []") (auto simp: room_def)
  have len: "length buckets = sz" "length test = sz" "\<forall>i < sz. test ! i = load (bk sz ks i)"
    "\<forall>i < sz. slots_at m (A i) (bk sz ks i)"
    using rm fl by (auto simp: room_def filled_def)
  have fit: "\<forall>i < sz. bk sz ks i \<noteq> [] \<longrightarrow> A i + load (bk sz ks i) + 8 \<le> lim" using rm by (simp add: room_def)
  obtain m' where m': "end_marks lim buckets test m = Some m'"
    "\<forall>x. m' x = (if \<exists>i < sz. \<exists>a. buckets ! i = Some a \<and> x = a + test ! i then Some end_slot else m x)"
    using end_marks_ok [of buckets test lim m] len fit bt by auto
  have mark: "m' (A i + load (bk sz ks i)) = Some end_slot" if "i < sz" "bk sz ks i \<noteq> []" for i
    using m'(2) bt that len by auto
  have slots: "slots_at m' (A i) (bk sz ks i)" if i: "i < sz" "bk sz ks i \<noteq> []" for i
  proof -
    have keep: "m' x = m x" if x: "A i \<le> x" "x < A i + load (bk sz ks i)" for x
    proof -
      have off: "x \<noteq> A j + load (bk sz ks j)" if "j < sz" "bk sz ks j \<noteq> []" for j
      proof (cases "i = j")
        case False
        then have "A i + load (bk sz ks i) + 8 \<le> A j \<or> A j + load (bk sz ks j) + 8 \<le> A i"
          using rm i that by (auto simp: room_def)
        then show ?thesis using x by auto
      qed (use x in auto)
      have "\<not> (\<exists>j < sz. \<exists>a. buckets ! j = Some a \<and> x = a + test ! j)" using off bt len by auto
      then show ?thesis unfolding m'(2) [rule_format] by (rule if_not_P)
    qed
    have "slots_at m' a zs" if "slots_at m a zs" "\<forall>k \<in> set zs. 0 < elt_size k"
      "\<forall>x. a \<le> x \<and> x < a + load zs \<longrightarrow> m' x = m x" for a zs
      using that by (induction zs arbitrary: a) auto
    moreover have "\<forall>k \<in> set (bk sz ks i). 0 < elt_size k" using small elt_size_ge by (force simp: bk_def)
    ultimately show ?thesis using len(4) i keep by blast
  qed
  have "table ks \<lparr>h_buckets = buckets, h_size = sz, h_mem = m'\<rparr>"
  proof -
    have "0 < sz" using rm by (simp add: room_def)
    moreover have "A i + load (bk sz ks i) < 2 ^ 63" if "i < sz" "bk sz ks i \<noteq> []" for i
      using fit that lim by fastforce
    moreover have "buckets ! i = None" if "i < sz" "bk sz ks i = []" for i using rm that by (simp add: room_def)
    ultimately show ?thesis using len bt mark slots al by (simp add: table_def)
  qed
  with m' show ?thesis by blast
qed

section \<open>Lookup\<close>

definition plain_names :: "'v hash_key list \<Rightarrow> bool" where
  "plain_names ks \<longleftrightarrow> (\<forall>k \<in> set ks. \<forall>w. k_name k = Some w \<longrightarrow> length w < 2 ^ 16 \<and> (\<forall>c \<in> set w. code c \<noteq> 0))"

lemma plain_names_bk: "plain_names ks \<Longrightarrow> plain_names (bk sz ks i)"
  by (auto simp: plain_names_def bk_def)

lemma key_len_small: "plain_names ks \<Longrightarrow> k \<in> set ks \<Longrightarrow> key_len k < 2 ^ 16"
  by (auto simp: plain_names_def key_len_def split: option.splits)

text \<open>The name a key is stored under.\<close>

definition low_name :: "'v hash_key \<Rightarrow> char list" where
  "low_name k = strlow (the (k_name k))"

lemma find_slot_ok:
  assumes "slots_at m a ks" "m (a + load ks) = Some end_slot" "8 dvd a" "a + load ks < 2 ^ 63"
    and "plain_names ks" "\<forall>k \<in> set ks. k_name k \<noteq> None" "n \<le> length name"
  shows "find_slot m name n a = Some (map_option k_value (find (\<lambda>k. low_name k = take n name) ks))"
  using assms
proof (induction ks arbitrary: a)
  case Nil
  then show ?case by (subst find_slot.simps) (simp add: end_slot_def)
next
  case (Cons k ks)
  obtain w where w: "k_name k = Some w" using Cons.prems(6) by auto
  have lw: "length w < 2 ^ 16" "\<forall>c \<in> set w. code c \<noteq> 0" using Cons.prems(5) w by (auto simp: plain_names_def)
  have len: "s_len (slot_of k) = length w" "s_name (slot_of k) = strlow w" "s_value (slot_of k) = Some (k_value k)"
    using w lw by (simp_all add: slot_of_def key_len_def u_short_def)
  have nz: "\<forall>c \<in> set (strlow w). code c \<noteq> 0"
    using lw(2) by (auto simp: strlow_def code_c_tolower)
  have eq: "(if n = length w then strneq id name (strlow w) n else Some False) = Some (low_name k = take n name)"
  proof (cases "n = length w")
    case True
    then have "strneq id name (strlow w) n = Some (take n name = take n (strlow w))"
      using Cons.prems(7) nz by (intro strncmp_decides) (auto simp: strlow_def)
    then show ?thesis using True w by (auto simp: low_name_def strlow_def)
  next
    case False
    then have "length (low_name k) \<noteq> length (take n name)" using w Cons.prems(7) by (simp add: low_name_def strlow_def)
    then show ?thesis using False by auto
  qed
  have next_addr: "align_nat (a + 10 + length w) 8 = a + elt_size k"
  proof -
    have "a < 2 ^ 63" using Cons.prems(4) by simp
    then have "align_nat (a + 10 + length w) 8 = (a + 10 + length w + 7) div 8 * 8"
      using align_pow2 [of "a + 10 + length w" 3] lw(1) by simp
    also have "\<dots> = a + (8 + (length w + 9) div 8 * 8)"
    proof -
      obtain q where "a = 8 * q" using Cons.prems(3) by blast
      moreover have "(8 * q + 10 + length w + 7) div 8 = q + (1 + (length w + 9) div 8)"
      proof -
        have "8 * q + 10 + length w + 7 = (length w + 9) + 8 * (q + 1)" by simp
        then show ?thesis by (simp only: div_mult_self2)
      qed
      ultimately show ?thesis by simp
    qed
    finally show ?thesis using w lw(1) by (simp add: elt_size_def key_len_def HASH_ELT_SIZE_eq)
  qed
  have "8 dvd a + elt_size k" using Cons.prems(3) elt_size_dvd [of k] w lw(1) by (simp add: key_len_def)
  then have ih: "find_slot m name n (a + elt_size k) =
      Some (map_option k_value (find (\<lambda>k. low_name k = take n name) ks))"
    using Cons.prems by (intro Cons.IH) (auto simp: plain_names_def add.assoc)
  have ma: "m a = Some (slot_of k)" using Cons.prems(1) by simp
  have "find_slot m name n a =
      Option.bind (if n = length w then strneq id name (strlow w) n else Some False)
        (\<lambda>eq. if eq then Some (Some (k_value k)) else find_slot m name n (a + elt_size k))"
    by (subst find_slot.simps) (simp only: ma len next_addr Option.bind.simps option.case)
  then show ?case unfolding eq by (simp add: ih)
qed

lemma hash_find_table:
  assumes "table ks h" "plain_names ks" "n \<le> length name"
    and i: "i = unat (hash_key_function (take n name)) mod h_size h"
  shows "hash_find h name n =
    (if bk (h_size h) ks i = [] then None
     else Some (map_option k_value (find (\<lambda>k. low_name k = take n name) (bk (h_size h) ks i))))"
proof -
  have lt: "i < h_size h" "0 < h_size h" using assms(1) i by (auto simp: table_def)
  show ?thesis
  proof (cases "bk (h_size h) ks i = []")
    case True
    then show ?thesis using assms lt by (auto simp: hash_find_def table_def)
  next
    case False
    then obtain a where "h_buckets h ! i = Some a" "8 dvd a" "a + load (bk (h_size h) ks i) < 2 ^ 63"
      "slots_at (h_mem h) a (bk (h_size h) ks i)" "h_mem h (a + load (bk (h_size h) ks i)) = Some end_slot"
      using assms(1) lt unfolding table_def by meson
    moreover have "\<forall>k \<in> set (bk (h_size h) ks i). k_name k \<noteq> None" by (auto simp: bk_def)
    ultimately show ?thesis
      using find_slot_ok [of "h_mem h" a "bk (h_size h) ks i" n name] plain_names_bk [OF assms(2)] assms(3) lt False i
      by (simp add: hash_find_def)
  qed
qed

text \<open>With keys in lower case and hashed by \<open>hash_key_function\<close>, a bucket answers for the whole table.\<close>

definition well_hashed :: "'v hash_key list \<Rightarrow> bool" where
  "well_hashed ks \<longleftrightarrow> (\<forall>k \<in> set ks. \<forall>w. k_name k = Some w \<longrightarrow> strlow w = w \<and> k_hash k = hash_key_function w)"

definition assoc :: "'v hash_key list \<Rightarrow> char list \<Rightarrow> 'v option" where
  "assoc ks w = map_option k_value (find (\<lambda>k. k_name k = Some w) ks)"

lemma find_bk:
  assumes "well_hashed ks"
  shows "find (\<lambda>k. low_name k = w) (bk sz ks (unat (hash_key_function w) mod sz)) = find (\<lambda>k. k_name k = Some w) ks"
  using assms
proof (induction ks)
  case (Cons k ks)
  then have "find (\<lambda>k. low_name k = w) (bk sz ks (unat (hash_key_function w) mod sz)) = find (\<lambda>k. k_name k = Some w) ks"
    by (auto simp: well_hashed_def)
  then show ?case using Cons.prems by (cases "k_name k") (auto simp: well_hashed_def low_name_def bucket_no_def)
qed simp

section \<open>hashInit\<close>

lemma align_cacheline:
  assumes "raw + 64 < 2 ^ 64"
  shows "raw \<le> align_nat raw cacheline_size" "align_nat raw cacheline_size < raw + cacheline_size"
    "32 dvd align_nat raw cacheline_size"
proof -
  have "align_nat raw cacheline_size = (raw + 31) div 32 * 32"
    using align_pow2 [of raw 5] assms by (simp add: cacheline_size_def)
  then show "raw \<le> align_nat raw cacheline_size" "align_nat raw cacheline_size < raw + cacheline_size"
    "32 dvd align_nat raw cacheline_size" by (simp_all add: cacheline_size_def)
qed

text \<open>The areas of the buckets: \<open>rounded sz ks\<close> is \<open>test\<close> after the alignment loop.\<close>

definition rounded :: "nat \<Rightarrow> 'v hash_key list \<Rightarrow> nat list" where
  "rounded sz ks = map round_up (add_sizes sz ks (replicate sz 8))"

lemma sum_list_le: "\<forall>x \<in> set xs. x \<le> (c::nat) \<Longrightarrow> sum_list xs \<le> length xs * c"
  by (induction xs) auto

lemma rounded_ok:
  assumes "0 < sz" "b < 2 ^ 15" "\<forall>i < sz. load (bk sz ks i) \<le> b" "\<forall>k \<in> set ks. key_len k < 2 ^ 32"
  shows "length (rounded sz ks) = sz"
    "\<forall>i < sz. if bk sz ks i = [] then rounded sz ks ! i = 8
      else rounded sz ks ! i \<noteq> 8 \<and> 8 + load (bk sz ks i) \<le> rounded sz ks ! i \<and> 32 dvd rounded sz ks ! i"
    "sum_list (map area (rounded sz ks)) \<le> sz * (b + 40)"
proof -
  have small: "8 + load (bk sz ks i) < 2 ^ 15 + 8" if "i < sz" for i
    using assms(2,3) that by (metis add.commute add_less_cancel_right le_less_trans)
  have a: "length (add_sizes sz ks (replicate sz 8)) = sz"
    "\<forall>i < sz. add_sizes sz ks (replicate sz 8) ! i = 8 + load (bk sz ks i)"
    using add_sizes_ok [of "replicate sz 8" sz ks] assms(1) small by fastforce+
  show len: "length (rounded sz ks) = sz" using a by (simp add: rounded_def)
  have nth: "rounded sz ks ! i = round_up (8 + load (bk sz ks i))" if "i < sz" for i
    using a that by (simp add: rounded_def)
  have none: "load (bk sz ks i) = 0 \<longleftrightarrow> bk sz ks i = []" for i
    using assms(4) by (intro load_pos) (auto simp: bk_def)
  show "\<forall>i < sz. if bk sz ks i = [] then rounded sz ks ! i = 8
      else rounded sz ks ! i \<noteq> 8 \<and> 8 + load (bk sz ks i) \<le> rounded sz ks ! i \<and> 32 dvd rounded sz ks ! i"
  proof (intro allI impI)
    fix i assume i: "i < sz"
    show "if bk sz ks i = [] then rounded sz ks ! i = 8
      else rounded sz ks ! i \<noteq> 8 \<and> 8 + load (bk sz ks i) \<le> rounded sz ks ! i \<and> 32 dvd rounded sz ks ! i"
    proof (cases "bk sz ks i = []")
      case True
      then show ?thesis using nth [OF i] by (simp add: round_up_def)
    next
      case False
      then have "8 + load (bk sz ks i) \<noteq> 8" using none by simp
      then show ?thesis using round_up_ge [of "8 + load (bk sz ks i)"] small [OF i] nth [OF i] False none [of i] by auto
    qed
  qed
  have "area (rounded sz ks ! i) \<le> b + 40" if "i < sz" for i
  proof -
    have "round_up (8 + l) \<le> l + 40" if "l < 2 ^ 15" for l
      using round_up_ge(2) [of "8 + l"] that by (cases "l = 0") (simp_all add: round_up_def)
    from this [of "load (bk sz ks i)"] have "rounded sz ks ! i \<le> load (bk sz ks i) + 40"
      using nth [OF that] small [OF that] by simp
    then show ?thesis using assms(3) that by (fastforce simp: area_def)
  qed
  then have "\<forall>x \<in> set (map area (rounded sz ks)). x \<le> b + 40" using len by (auto simp: in_set_conv_nth)
  then show "sum_list (map area (rounded sz ks)) \<le> sz * (b + 40)"
    using sum_list_le [of "map area (rounded sz ks)" "b + 40"] len by simp
qed

lemma sum_list_dvd: "\<forall>x \<in> set xs. (n::nat) dvd x \<Longrightarrow> n dvd sum_list xs"
  by (induction xs) auto

lemma rounded_room:
  assumes "0 < sz" "b < 2 ^ 15" "\<forall>i < sz. load (bk sz ks i) \<le> b" "\<forall>k \<in> set ks. key_len k < 2 ^ 32"
    and e: "32 dvd e" "e + sum_list (map area (rounded sz ks)) \<le> lim"
  shows "room lim sz ks (place e (rounded sz ks)) (\<lambda>i. e + sum_list (map area (take i (rounded sz ks))))"
    "\<forall>i < sz. 8 dvd e + sum_list (map area (take i (rounded sz ks)))"
proof -
  let ?ts = "rounded sz ks" and ?S = "\<lambda>i. sum_list (map area (take i (rounded sz ks)))"
  note r = rounded_ok [OF assms(1-4)]
  have step: "?S i + (8 + load (bk sz ks i)) \<le> ?S j" if "i < j" "j \<le> sz" "bk sz ks i \<noteq> []" for i j
    using area_prefix [of i j ?ts] r(1) r(2) [rule_format, of i] that by (simp add: area_def)
  have up: "?S i + (8 + load (bk sz ks i)) \<le> sum_list (map area ?ts)" if "i < sz" "bk sz ks i \<noteq> []" for i
    using step [of i sz] that r(1) by simp
  have big: "load (bk sz ks i) < 2 ^ 16" if "i < sz" for i using le_less_trans [of "load (bk sz ks i)" b "2 ^ 15"] assms(2,3) that by simp
  show "room lim sz ks (place e ?ts) (\<lambda>i. e + ?S i)"
    unfolding room_def
  proof (intro conjI allI impI)
    fix i assume i: "i < sz" "bk sz ks i \<noteq> []"
    then show "place e ?ts ! i = Some (e + ?S i)" using place_nth [of i ?ts e] r(1,2) by auto
    show "e + ?S i + load (bk sz ks i) + 8 \<le> lim" using up [OF i] e(2) by simp
    show "load (bk sz ks i) < 2 ^ 16" using big i by simp
  next
    fix i assume i: "i < sz" "bk sz ks i = []"
    then show "place e ?ts ! i = None" using place_nth [of i ?ts e] r(1,2) by auto
  next
    fix i j assume "i < sz" "j < sz" "i \<noteq> j \<and> bk sz ks i \<noteq> [] \<and> bk sz ks j \<noteq> []"
    then show "e + ?S i + load (bk sz ks i) + 8 \<le> e + ?S j \<or> e + ?S j + load (bk sz ks j) + 8 \<le> e + ?S i"
      using step [of i j] step [of j i] by (cases "i < j") auto
  qed (use r assms in auto)
  show "\<forall>i < sz. 8 dvd e + ?S i"
  proof (intro allI impI)
    fix i assume "i < sz"
    have "32 dvd area x" if "x \<in> set ?ts" for x
      using that r(1,2) by (auto simp: in_set_conv_nth area_def) (metis)
    then have "32 dvd ?S i" by (intro sum_list_dvd) (auto dest: in_set_takeD)
    then have "32 dvd e + ?S i" using e by simp
    then show "8 dvd e + ?S i" using dvd_trans [of "8 :: nat" 32] by simp
  qed
qed

lemma unat_of_nat_le: "unat (of_nat n :: 32 word) \<le> n"
  unfolding unat_of_nat by simp

lemma pMalloc_units:
  "pMalloc p nb = Some (Some s, p') \<Longrightarrow> s \<le> mp_units p \<and> mp_units p' = mp_units p"
  by (auto simp: pMalloc_def first_header_def put_header_def Let_def bind_eq_Some_conv guard_def
      split: option.splits if_splits)

text \<open>
  The inputs \<open>hashInit\<close> is meant for: every element fits into a bucket, buckets and tables are
  of moderate size, and the search finds a number of buckets.
\<close>

definition init_ok :: "nat \<Rightarrow> nat \<Rightarrow> 'v hash_key list \<Rightarrow> nat \<Rightarrow> bool" where
  "init_ok bucket_size max_size ks sz \<longleftrightarrow> 28 \<le> bucket_size \<and> bucket_size \<le> 2 ^ 15 \<and> max_size \<le> 2 ^ 15 \<and>
     (\<forall>k \<in> set ks. elt_size k + 8 \<le> bucket_size) \<and> plain_names ks \<and>
     (let start = length ks div ((bucket_size - 8) div 20); start = (if start \<noteq> 0 then start else 1)
      in find_size (bucket_size - 8) ks start (Suc max_size - start) = Some sz)"

lemma init_ok_size:
  assumes "init_ok bucket_size max_size ks sz"
  shows "0 < sz" "sz \<le> 2 ^ 15" "\<forall>i < sz. load (bk sz ks i) \<le> bucket_size - 8"
    "\<forall>k \<in> set ks. key_len k < 2 ^ 32" "bucket_size - 8 < 2 ^ 15"
proof -
  show b: "bucket_size - 8 < 2 ^ 15" using assms by (auto simp: init_ok_def)
  let ?start = "if length ks div ((bucket_size - 8) div 20) \<noteq> 0 then length ks div ((bucket_size - 8) div 20) else 1"
  have "find_size (bucket_size - 8) ks ?start (Suc max_size - ?start) = Some sz"
    using assms by (simp add: init_ok_def Let_def)
  moreover have "\<forall>k \<in> set ks. elt_size k \<le> bucket_size - 8" "max_size \<le> 2 ^ 15"
    using assms by (auto simp: init_ok_def)
  moreover note b
  moreover have "0 < ?start" by simp
  ultimately have "?start \<le> sz \<and> sz < ?start + (Suc max_size - ?start) \<and> (\<forall>i < sz. load (bk sz ks i) \<le> bucket_size - 8)"
    "0 < ?start" "max_size \<le> 2 ^ 15"
    using find_size_ok [of "bucket_size - 8" ks ?start "Suc max_size - ?start" sz] by blast+
  then show "0 < sz" "sz \<le> 2 ^ 15" "\<forall>i < sz. load (bk sz ks i) \<le> bucket_size - 8"
    by (linarith, linarith, blast)
  show "\<forall>k \<in> set ks. key_len k < 2 ^ 32"
    using assms key_len_small by (fastforce simp: init_ok_def)
qed

text \<open>
  Filling the table that has been laid out at the unit \<open>e\<close> of the pool.
\<close>

lemma layout_ok:
  assumes ok: "init_ok bucket_size max_size ks sz" and raw: "raw + 2 ^ 32 < 2 ^ 63"
  shows "\<exists>test' m m'. store_all (raw + sum_list (map area (rounded sz ks)) + cacheline_size) sz
      (place (align_nat raw cacheline_size) (rounded sz ks)) ks (replicate sz 0) Map.empty = Some (test', m) \<and>
    end_marks (raw + sum_list (map area (rounded sz ks)) + cacheline_size)
      (place (align_nat raw cacheline_size) (rounded sz ks)) test' m = Some m' \<and>
    table ks \<lparr>h_buckets = place (align_nat raw cacheline_size) (rounded sz ks), h_size = sz, h_mem = m'\<rparr>"
    "sum_list (map area (rounded sz ks)) + cacheline_size < 2 ^ 32 - 16"
proof -
  note i = init_ok_size [OF ok]
  let ?n = "sum_list (map area (rounded sz ks))" and ?e = "align_nat raw cacheline_size"
  have "sz * (bucket_size - 8 + 40) \<le> 2 ^ 15 * (2 ^ 15 + 40)" using i(2,5) by (intro mult_mono) auto
  then have n: "?n \<le> 2 ^ 15 * (2 ^ 15 + 40)" using rounded_ok(3) [OF i(1,5,3,4)] by linarith
  then show "?n + cacheline_size < 2 ^ 32 - 16" by (simp add: cacheline_size_def)
  have e: "raw \<le> ?e" "?e < raw + cacheline_size" "32 dvd ?e" using align_cacheline [of raw] raw by auto
  then have fit: "?e + ?n \<le> raw + ?n + cacheline_size" by simp
  let ?A = "\<lambda>i. ?e + sum_list (map area (take i (rounded sz ks)))"
  have rm: "room (raw + ?n + cacheline_size) sz ([] @ ks) (place ?e (rounded sz ks)) ?A"
    using rounded_room(1) [OF i(1,5,3,4) e(3) fit] by simp
  have fl: "filled sz [] ?A (replicate sz 0) Map.empty" by (simp add: filled_def)
  obtain test' m where st: "store_all (raw + ?n + cacheline_size) sz (place ?e (rounded sz ks)) ks (replicate sz 0) Map.empty = Some (test', m)"
    "filled sz ks ?A test' m"
    using store_all_ok [OF rm fl] i(4) by (metis append_Nil)
  have "raw + ?n + cacheline_size < 2 ^ 63" using n raw by (simp add: cacheline_size_def)
  then show "\<exists>test' m m'. store_all (raw + ?n + cacheline_size) sz (place ?e (rounded sz ks)) ks (replicate sz 0) Map.empty = Some (test', m) \<and>
    end_marks (raw + ?n + cacheline_size) (place ?e (rounded sz ks)) test' m = Some m' \<and>
    table ks \<lparr>h_buckets = place ?e (rounded sz ks), h_size = sz, h_mem = m'\<rparr>"
    using room_table [where A = ?A and sz = sz and ks = ks, OF _ st(2) i(4) rounded_room(2) [OF i(1,5,3,4) e(3) fit]] rm st(1) by auto
qed

text \<open>The guards of \<open>hashInit\<close> hold, and the search has its result.\<close>

lemma hashInit_eq:
  assumes ok: "init_ok bucket_size max_size ks sz" and n: "n = sum_list (map area (rounded sz ks))"
  shows "hashInit base True pool bucket_size max_size ks = do {
      (test, p1) \<leftarrow> pMalloc pool (of_nat (max_size * 2));
      (case test of
        None \<Rightarrow> Some (ERROR, None, p1)
      | Some tst \<Rightarrow> do {
          (bu, p2) \<leftarrow> pMalloc p1 (of_nat (sz * 8));
          if bu = None then do { p3 \<leftarrow> pFree p2 tst; Some (ERROR, None, p3) }
          else do {
            (el, p3) \<leftarrow> pMalloc p2 (of_nat n + of_nat cacheline_size);
            (case el of
               None \<Rightarrow> do { p4 \<leftarrow> pFree p3 tst; Some (ERROR, None, p4) }
             | Some e \<Rightarrow> do {
                 (test', m) \<leftarrow> store_all (base + 16 * e + n + cacheline_size) sz
                   (place (align_nat (base + 16 * e) cacheline_size) (rounded sz ks)) ks (replicate sz 0) Map.empty;
                 m' \<leftarrow> end_marks (base + 16 * e + n + cacheline_size)
                   (place (align_nat (base + 16 * e) cacheline_size) (rounded sz ks)) test' m;
                 p4 \<leftarrow> pFree p3 tst;
                 Some (OK, Some \<lparr>h_buckets = place (align_nat (base + 16 * e) cacheline_size) (rounded sz ks), h_size = sz, h_mem = m'\<rparr>, p4)
               })
          }
        })
     }"
proof -
  let ?start = "if length ks div ((bucket_size - 8) div 20) \<noteq> 0 then length ks div ((bucket_size - 8) div 20) else 1"
  have g: "\<forall>k \<in> set ks. \<not> bucket_size < elt_size k + 8" "(bucket_size - 8) div 20 \<noteq> 0"
    "find_size (bucket_size - 8) ks ?start (Suc max_size - ?start) = Some sz"
    using ok by (auto simp: init_ok_def Let_def)
  show ?thesis
    unfolding n hashInit_def Let_def rounded_def [symmetric] g(3) using g(1,2)
    by (simp add: guard_def rounded_def cong: option.case_cong if_cong)
qed

lemma hashInit_succeeds:
  assumes ok: "init_ok bucket_size max_size ks sz" and n: "n = sum_list (map area (rounded sz ks))"
    and w: "w1 = of_nat (max_size * 2)" "w2 = of_nat (sz * 8)" "w3 = of_nat n + of_nat cacheline_size"
    and p: "pMalloc pool w1 = Some (Some tst, p1)" "pMalloc p1 w2 = Some (Some bu, p2)"
      "pMalloc p2 w3 = Some (Some e, p3)" "pFree p3 tst = Some p4"
    and raw: "base + 16 * e + 2 ^ 32 < 2 ^ 63"
  shows "\<exists>t. hashInit base True pool bucket_size max_size ks = Some (OK, Some t, p4) \<and> table ks t \<and> h_size t = sz"
proof -
  define ts where ts: "ts = rounded sz ks"
  obtain test' m m' where l: "store_all (base + 16 * e + n + cacheline_size) sz
      (place (align_nat (base + 16 * e) cacheline_size) ts) ks (replicate sz 0) Map.empty = Some (test', m)"
    "end_marks (base + 16 * e + n + cacheline_size) (place (align_nat (base + 16 * e) cacheline_size) ts) test' m = Some m'"
    "table ks \<lparr>h_buckets = place (align_nat (base + 16 * e) cacheline_size) ts, h_size = sz, h_mem = m'\<rparr>"
    using layout_ok(1) [OF ok raw] unfolding n ts by blast
  then show ?thesis
    unfolding hashInit_eq [OF ok n, folded ts, folded w] by (auto simp: p)
qed

text \<open>The pool has a block for each of the requests, one after the other.\<close>

fun grants :: "memory_pool \<Rightarrow> 32 word list \<Rightarrow> bool" where
  "grants p [] = True"
| "grants p (nb # nbs) = (case pMalloc p nb of Some (Some a, p') \<Rightarrow> grants p' nbs | _ \<Rightarrow> False)"

text \<open>What a table of \<open>sz\<close> buckets asks for: the scratch array, the array of buckets, and the elements.\<close>

definition table_blocks :: "nat \<Rightarrow> 'v hash_key list \<Rightarrow> nat \<Rightarrow> 32 word list" where
  "table_blocks max_size ks sz =
     [of_nat (max_size * 2), of_nat (sz * 8), of_nat (sum_list (map area (rounded sz ks))) + of_nat cacheline_size]"

text \<open>
  \<open>hashInit\<close> on a pool in working order returns. If the pool has the three blocks, it answers \<^verbatim>\<open>OK\<close> with a
  finished table, all of whose stores have gone into the blocks it has allocated, and otherwise \<^verbatim>\<open>ERROR\<close>; the
  pool stays in working order, and the scratch array is returned to it.
\<close>

lemma hashInit_total:
  assumes ok: "init_ok bucket_size max_size ks sz" and live: "mp_live pool R"
    and base: "base + 16 * mp_units pool + 2 ^ 32 < 2 ^ 63"
  shows "\<exists>c h p' R'. hashInit base True pool bucket_size max_size ks = Some (c, h, p') \<and> mp_live p' R' \<and> R \<subseteq> R' \<and>
    (if grants pool (table_blocks max_size ks sz) then c = OK \<and> (\<exists>t. h = Some t \<and> table ks t \<and> h_size t = sz) else c = ERROR \<and> h = None)"
proof -
  note i = init_ok_size [OF ok]
  let ?ts = "rounded sz ks" and ?n = "sum_list (map area (rounded sz ks))"
  have max: "max_size \<le> 2 ^ 15" using ok by (simp add: init_ok_def)
  define w1 w2 w3 :: "32 word" where w: "w1 = of_nat (max_size * 2)" "w2 = of_nat (sz * 8)"
    "w3 = of_nat ?n + of_nat cacheline_size"
  have small: "unat w1 \<le> 2 ^ 32 - 16" "unat w2 \<le> 2 ^ 32 - 16"
    using max i(2) w unat_of_nat_le [of "max_size * 2"] unat_of_nat_le [of "sz * 8"] by simp_all
  have n32: "?n + cacheline_size < 2 ^ 32 - 16"
    using layout_ok(2) [OF ok, of 0] by simp
  then have "unat (of_nat (?n + cacheline_size) :: 32 word) \<le> 2 ^ 32 - 16"
    using unat_of_nat_le [of "?n + cacheline_size"] by linarith
  then have nb: "unat w3 \<le> 2 ^ 32 - 16"
    by (simp only: w of_nat_add)
  note init = hashInit_eq [OF ok refl, folded w, of base pool]
  have g: "grants pool (table_blocks max_size ks sz) = grants pool [w1, w2, w3]" by (simp only: table_blocks_def w)
  show ?thesis
  proof (cases "\<exists>p1. pMalloc pool w1 = Some (None, p1)")
    case True
    then obtain p1 where p1: "pMalloc pool w1 = Some (None, p1)" by blast
    then have "mp_live p1 R" using mpool.alloc_cases [OF live small(1)] by auto
    then show ?thesis unfolding init g by (auto simp: p1)
  next
    case False
    then obtain tst n1 p1 where p1: "pMalloc pool w1 = Some (Some tst, p1)"
      "mp_live p1 (insert (tst, n1) R)" and fresh: "(tst, n1) \<notin> R"
      using mpool.alloc_cases [OF live small(1)] by fastforce
    have u1: "mp_units p1 = mp_units pool" using pMalloc_units [OF p1(1)] by simp
    have release: "\<exists>p'. pFree q tst = Some p' \<and> mp_live p' (Q - {(tst, n1)}) \<and> R \<subseteq> Q - {(tst, n1)}"
      if "mp_live q Q" "insert (tst, n1) R \<subseteq> Q" for q Q
      using mpool.release_live [OF that(1), of tst n1] that(2) fresh by blast
    show ?thesis
    proof (cases "\<exists>p2. pMalloc p1 w2 = Some (None, p2)")
      case True
      then obtain p2 where p2: "pMalloc p1 w2 = Some (None, p2)" by blast
      then have "mp_live p2 (insert (tst, n1) R)" using mpool.alloc_cases [OF p1(2) small(2)] by auto
      then obtain p3 where "pFree p2 tst = Some p3" "mp_live p3 (insert (tst, n1) R - {(tst, n1)})"
        "R \<subseteq> insert (tst, n1) R - {(tst, n1)}" using release by blast
      then show ?thesis unfolding init g by (auto simp: p1(1) p2)
    next
      case False
      then obtain bu n2 p2 where p2: "pMalloc p1 w2 = Some (Some bu, p2)"
        "mp_live p2 (insert (bu, n2) (insert (tst, n1) R))"
        using mpool.alloc_cases [OF p1(2) small(2)] by fastforce
      have u2: "mp_units p2 = mp_units pool" using pMalloc_units [OF p2(1)] u1 by simp
      show ?thesis
      proof (cases "\<exists>p3. pMalloc p2 w3 = Some (None, p3)")
        case True
        then obtain p3 where p3: "pMalloc p2 w3 = Some (None, p3)" by blast
        then have "mp_live p3 (insert (bu, n2) (insert (tst, n1) R))" using mpool.alloc_cases [OF p2(2) nb] by auto
        then obtain p4 where "pFree p3 tst = Some p4" "mp_live p4 (insert (bu, n2) (insert (tst, n1) R) - {(tst, n1)})"
          "R \<subseteq> insert (bu, n2) (insert (tst, n1) R) - {(tst, n1)}" using release by blast
        then show ?thesis unfolding init g by (auto simp: p1(1) p2(1) p3)
      next
        case False
        then obtain e n3 p3 where p3: "pMalloc p2 w3 = Some (Some e, p3)"
          "mp_live p3 (insert (e, n3) (insert (bu, n2) (insert (tst, n1) R)))"
          using mpool.alloc_cases [OF p2(2) nb] by fastforce
        have "e \<le> mp_units pool" using pMalloc_units [OF p3(1)] u2 by simp
        then have raw: "base + 16 * e + 2 ^ 32 < 2 ^ 63" using base by simp
        obtain p4 where p4: "pFree p3 tst = Some p4"
          "mp_live p4 (insert (e, n3) (insert (bu, n2) (insert (tst, n1) R)) - {(tst, n1)})"
          "R \<subseteq> insert (e, n3) (insert (bu, n2) (insert (tst, n1) R)) - {(tst, n1)}"
          using release [OF p3(2)] by blast
        have "\<exists>R'. mp_live p4 R' \<and> R \<subseteq> R'" using p4(2,3) by blast
        then show ?thesis unfolding init g using layout_ok(1) [OF ok raw] by (auto simp: p1(1) p2(1) p3(1) p4(1))
      qed
    qed
  qed
qed

end
