(* ===== verification/Http_Types.thy ===== *)
theory Http_Types
  imports Buffer_C
begin

text \<open>
  The data types of \<^verbatim>\<open>http/http.h\<close> and \<^verbatim>\<open>http/header.h\<close>. A \<^verbatim>\<open>char *\<close> that the
  parsers keep is null, an offset into the receive buffer of the request, or the address of
  a literal of the program.
\<close>

section \<open>Pointers into the receive buffer\<close>

datatype cptr = Null | At nat | Literal "char list"

text \<open>\<^verbatim>\<open>p - c\<close>: defined within one object only.\<close>

fun ptr_diff :: "cptr \<Rightarrow> cptr \<Rightarrow> int option" where
  "ptr_diff (At i) (At j) = Some (int i - int j)"
| "ptr_diff _ _ = None"

fun ptr_add :: "cptr \<Rightarrow> nat \<Rightarrow> cptr option" where
  "ptr_add (At i) n = Some (At (i + n))"
| "ptr_add _ _ = None"

text \<open>The bytes that can be read from a pointer on; a literal has its closing NUL.\<close>

fun bytes_at :: "char list \<Rightarrow> cptr \<Rightarrow> char list option" where
  "bytes_at d Null = None"
| "bytes_at d (At i) = Some (drop i d)"
| "bytes_at d (Literal cs) = Some (cs @ [CHR 0x00])"

text \<open>A \<^verbatim>\<open>string\<close> member of the request.\<close>

record pstr =
  pc :: cptr
  pl :: int

definition NULL_PSTR :: pstr where
  "NULL_PSTR = \<lparr>pc = Null, pl = 0\<rparr>"

text \<open>The text a \<^verbatim>\<open>string\<close> of the request stands for, in the buffer \<open>d\<close>.\<close>

definition text_of :: "char list \<Rightarrow> pstr \<Rightarrow> char list option" where
  "text_of d s = (case pc s of Null \<Rightarrow> None | At i \<Rightarrow> Some (segment d i (i + nat (pl s))) | Literal cs \<Rightarrow> Some (take (nat (pl s)) cs))"

section \<open>Enumerations\<close>

text \<open>\<^verbatim>\<open>State_value\<close> is a value of the variable that is no enumerator: \<^verbatim>\<open>parse_header\<close>
  stores the return code \<^verbatim>\<open>ERROR\<close> there.\<close>

datatype req_state =
    RQ_BEGIN | RQ_METHOD | RQ_URI | RQ_BEFORE_URI | RQ_BEFORE_VERSION | RQ_VERSION_H
  | RQ_VERSION_HT | RQ_VERSION_HTT | RQ_VERSION_HTTP | RQ_VERSION_SLASH | RQ_VERSION_MAJOR
  | RQ_VERSION_DOT | RQ_VERSION_MINOR | RQ_AFTER_VERSION | RQ_ALMOST_DONE | RQ_DONE
  | HD_BEGIN | HD_NAME | HD_IGNORE | HD_IGNORE_TO_BEGIN | HD_COLON | HD_BEFORE_VALUE
  | HD_VALUE | HD_ALMOST_DONE | BODY_RECV_BEGIN | BODY_RECV_DONE | State_value int

datatype uri_state =
    URI_BEGIN | URI_SCHEME | URI_SCHEME_COLON | URI_PORT | URI_HOST | URI_BEFORE_QUERY
  | URI_EXTENSION | URI_BEFORE_EXTENSION | URI_QUERY | URI_ABS_PATH
  | URI_SLASH_BEFORE_ABS_PATH | URI_SLASH_AFTER_HOST | URI_SLASH_SLASH_AFTER_HOST
  | URI_SLASH_AFTER_SCHECME | URI_SLASH_SLASH_AFTER_SCHECME

datatype http_method = M_GET | M_POST | M_OPTIONS | M_INVALID_METHOD

datatype extension_t = HTML | JSON | TXT | UNKNOWN_EXTENSION

text \<open>The union of \<^verbatim>\<open>uri_t\<close>: the spelling of the extension, later its type.\<close>

datatype extension_u = Ext_str pstr | Ext_type extension_t

section \<open>The request\<close>

record uri =
  u_state :: uri_state
  scheme :: pstr
  abs_path :: pstr
  host :: pstr
  u_port :: pstr
  extension :: extension_u
  query :: pstr

record request_header =
  h_date :: pstr
  h_connection :: pstr
  h_accept :: pstr
  h_cookie :: pstr

record request =
  request_line :: pstr
  r_uri :: uri
  major :: "16 word"
  minor :: "16 word"
  r_method :: http_method
  header_name :: pstr
  header_value :: pstr
  headers :: request_header
  r_state :: req_state
  status :: int
  content_length :: int
  body_received :: int
  resource_off :: int
  resource_fd :: int
  resource_len :: int
  response_done :: bool
  keep_alive :: bool

text \<open>Zeroed memory, read as a \<^verbatim>\<open>uri_t\<close> and as a \<^verbatim>\<open>http_request_t\<close>.\<close>

definition zero_uri :: uri where
  "zero_uri = \<lparr>u_state = URI_BEGIN, scheme = NULL_PSTR, abs_path = NULL_PSTR, host = NULL_PSTR,
     u_port = NULL_PSTR, extension = Ext_str NULL_PSTR, query = NULL_PSTR\<rparr>"

definition zero_request :: request where
  "zero_request = \<lparr>request_line = NULL_PSTR, r_uri = zero_uri, major = 0, minor = 0,
     r_method = M_GET, header_name = NULL_PSTR, header_value = NULL_PSTR,
     headers = \<lparr>h_date = NULL_PSTR, h_connection = NULL_PSTR, h_accept = NULL_PSTR, h_cookie = NULL_PSTR\<rparr>,
     r_state = RQ_BEGIN, status = 0, content_length = 0, body_received = 0, resource_off = 0, resource_fd = 0,
     resource_len = 0, response_done = False, keep_alive = False\<rparr>"

section \<open>Character classes\<close>

text \<open>The \<^verbatim>\<open>case\<close> ranges of the parsers; all of them lie below 128.\<close>

definition upper :: "char \<Rightarrow> bool" where
  "upper c \<longleftrightarrow> 65 \<le> code c \<and> code c \<le> 90"

definition lower :: "char \<Rightarrow> bool" where
  "lower c \<longleftrightarrow> 97 \<le> code c \<and> code c \<le> 122"

definition digit :: "char \<Rightarrow> bool" where
  "digit c \<longleftrightarrow> 48 \<le> code c \<and> code c \<le> 57"

definition alpha :: "char \<Rightarrow> bool" where
  "alpha c \<longleftrightarrow> upper c \<or> lower c"

definition CR :: char where "CR = CHR 0x0D"
definition LF :: char where "LF = CHR 0x0A"
definition TAB :: char where "TAB = CHR 0x09"

lemma class_alpha:
  "alpha c \<Longrightarrow> c \<noteq> CHR ''.'' \<and> c \<noteq> CHR ''/'' \<and> c \<noteq> CHR '' '' \<and> c \<noteq> CHR ''?'' \<and> c \<noteq> CHR '':'' \<and>
    c \<noteq> CR \<and> c \<noteq> LF \<and> c \<noteq> TAB \<and> c \<noteq> CHR 0x00"
  by (auto simp: alpha_def upper_def lower_def code_def CR_def LF_def TAB_def)

end
