(* ===== verification/Byte_Scan.thy ===== *)
theory Byte_Scan
  imports Http_Types
begin

text \<open>
  The shape the two parsers share: a loop over the bytes of a buffer that runs a state
  machine on the request and stops on its first verdict. The locale \<open>byte_machine\<close> is the
  contract such a machine gives to the code that receives bytes: a step looks at the
  processed bytes and at the current one only, so that a message may arrive in pieces.
\<close>

section \<open>The loop\<close>

text \<open>
  A step answers \<open>None\<close> to go on with the next byte, or the return code to leave the loop
  with; it may change the request and the bytes.
\<close>

type_synonym 'r stepper = "'r \<Rightarrow> char list \<Rightarrow> nat \<Rightarrow> (rc option \<times> 'r \<times> char list) option"

fun scan :: "'r stepper \<Rightarrow> 'r \<Rightarrow> char list \<Rightarrow> nat \<Rightarrow> nat \<Rightarrow>
    (rc option \<times> 'r \<times> char list \<times> nat) option" where
  "scan step r d p 0 = Some (None, r, d, p)"
| "scan step r d p (Suc n) =
     (if p < length d
      then (case step r d p of
          None \<Rightarrow> None
        | Some (None, r', d') \<Rightarrow> scan step r' d' (Suc p) n
        | Some (Some c, r', d') \<Rightarrow> Some (Some c, r', d', p))
      else None)"

text \<open>
  The frame of both parsers: the loop from \<^verbatim>\<open>begin\<close> to \<^verbatim>\<open>end\<close>, what follows it, and
  what follows the label \<^verbatim>\<open>done\<close>.
\<close>

definition parse_with :: "'r stepper \<Rightarrow> (nat \<Rightarrow> 'r \<Rightarrow> 'r option) \<Rightarrow> 'r \<Rightarrow> buffer \<Rightarrow>
    (rc \<times> 'r \<times> buffer) option" where
  "parse_with step fin r b = do {
     (q, r', d, p) \<leftarrow> scan step r (bdata b) (bbegin b) (bend b - bbegin b);
     case q of
       None \<Rightarrow> Some (AGAIN, r', b\<lparr>bdata := d, bbegin := bend b\<rparr>)
     | Some OK \<Rightarrow> do {
         r'' \<leftarrow> fin p r';
         Some (OK, r'', b\<lparr>bdata := d, bbegin := p + 1\<rparr>)
       }
     | Some c \<Rightarrow> Some (c, r', b\<lparr>bdata := d\<rparr>)
   }"

section \<open>Running the loop\<close>

lemma scan_append:
  "scan step r d p n = Some (None, r1, d1, p1) \<Longrightarrow> scan step r d p (n + m) = scan step r1 d1 (p + n) m"
proof (induction n arbitrary: r d p)
  case 0
  then show ?case by simp
next
  case (Suc n)
  then show ?case
    by (auto split: if_splits option.splits prod.splits simp: Suc.IH)
qed

lemma scan_stop:
  "scan step r d p n = Some (Some c, r1, d1, p1) \<Longrightarrow> scan step r d p (n + m) = Some (Some c, r1, d1, p1)"
  by (induction n arbitrary: r d p) (auto split: if_splits option.splits prod.splits)

lemma scan_none: "scan step r d p n = None \<Longrightarrow> scan step r d p (n + m) = None"
  by (induction n arbitrary: r d p) (auto split: if_splits option.splits prod.splits)

lemma scan_pos:
  "scan step r d p n = Some (q, r1, d1, p1) \<Longrightarrow> (q = None \<longrightarrow> p1 = p + n) \<and> (q \<noteq> None \<longrightarrow> p \<le> p1 \<and> p1 < p + n)"
  by (induction n arbitrary: r d p) (fastforce split: if_splits option.splits prod.splits)+

text \<open>Invariants: \<open>I\<close> holds before every step, \<open>Q\<close> where the loop is left by a verdict.\<close>

lemma scan_inv:
  assumes "I r d p" "p + n \<le> length d"
    and step: "\<And>r d p. I r d p \<Longrightarrow> p < length d \<Longrightarrow>
      \<exists>q r' d'. step r d p = Some (q, r', d') \<and> length d' = length d \<and>
        (q = None \<longrightarrow> I r' d' (Suc p)) \<and> (\<forall>c. q = Some c \<longrightarrow> Q c r' d' p)"
  shows "\<exists>q r' d' p'. scan step r d p n = Some (q, r', d', p') \<and> length d' = length d \<and>
    (q = None \<longrightarrow> p' = p + n \<and> I r' d' p') \<and> (\<forall>c. q = Some c \<longrightarrow> p' < p + n \<and> p \<le> p' \<and> Q c r' d' p')"
  using assms(1,2)
proof (induction n arbitrary: r d p)
  case 0
  then show ?case by auto
next
  case (Suc n)
  obtain q r' d' where s: "step r d p = Some (q, r', d')" "length d' = length d"
    "q = None \<longrightarrow> I r' d' (Suc p)" "\<forall>c. q = Some c \<longrightarrow> Q c r' d' p"
    using step [OF Suc.prems(1)] Suc.prems(2) by auto
  show ?case
  proof (cases q)
    case None
    then obtain q2 r2 d2 p2 where "scan step r' d' (Suc p) n = Some (q2, r2, d2, p2)" "length d2 = length d'"
      "q2 = None \<longrightarrow> p2 = Suc p + n \<and> I r2 d2 p2" "\<forall>c. q2 = Some c \<longrightarrow> p2 < Suc p + n \<and> Suc p \<le> p2 \<and> Q c r2 d2 p2"
      using Suc.IH [of r' d' "Suc p"] s Suc.prems by auto
    with None s Suc.prems show ?thesis by auto
  next
    case (Some c)
    with s Suc.prems show ?thesis by auto
  qed
qed

text \<open>\<open>runs step d r p r' p'\<close>: the loop gets from \<open>r\<close> at \<open>p\<close> to \<open>r'\<close> at \<open>p'\<close> over unchanged bytes.\<close>

definition runs :: "'r stepper \<Rightarrow> char list \<Rightarrow> 'r \<Rightarrow> nat \<Rightarrow> 'r \<Rightarrow> nat \<Rightarrow> bool" where
  "runs step d r p r' p' \<longleftrightarrow> p \<le> p' \<and> scan step r d p (p' - p) = Some (None, r', d, p')"

lemma runs_trans [trans]: "runs step d r p r1 p1 \<Longrightarrow> runs step d r1 p1 r2 p2 \<Longrightarrow> runs step d r p r2 p2"
  using scan_append [of step r d p "p1 - p" r1 d p1 "p2 - p1"] by (simp add: runs_def)

lemma runs_one: "p < length d \<Longrightarrow> step r d p = Some (None, r', d) \<Longrightarrow> runs step d r p r' (Suc p)"
  by (simp add: runs_def)

lemma runs_while:
  assumes "p \<le> p'" "p' \<le> length d" "\<And>k. p \<le> k \<Longrightarrow> k < p' \<Longrightarrow> step r d k = Some (None, r, d)"
  shows "runs step d r p r p'"
  using assms
proof (induction "p' - p" arbitrary: p)
  case 0
  then show ?case by (simp add: runs_def)
next
  case (Suc n)
  have "runs step d r p r (Suc p)" using Suc by (intro runs_one) auto
  moreover have "runs step d r (Suc p) r p'" using Suc by auto
  ultimately show ?case by (rule runs_trans)
qed

lemma runs_stop:
  assumes "runs step d r p r' p'" "p' < p + n" "p' < length d" "step r' d p' = Some (Some c, r'', d)"
  shows "scan step r d p n = Some (Some c, r'', d, p')"
proof -
  have "n = (p' - p) + Suc (n - (p' - p) - 1)" using assms(1,2) by (simp add: runs_def)
  then obtain m where n: "n = (p' - p) + Suc m" by blast
  have "scan step r d p n = scan step r' d p' (Suc m)"
    unfolding n using scan_append [of step r d p "p' - p" r' d p' "Suc m"] assms(1) by (simp only: runs_def le_add_diff_inverse)
  then show ?thesis using assms(3,4) by simp
qed

text \<open>\<open>reads d p w\<close>: the word \<open>w\<close> stands at \<open>p\<close>.\<close>

primrec reads :: "char list \<Rightarrow> nat \<Rightarrow> char list \<Rightarrow> bool" where
  "reads d p [] \<longleftrightarrow> True"
| "reads d p (c # w) \<longleftrightarrow> p < length d \<and> d ! p = c \<and> reads d (Suc p) w"

lemma reads_append [simp]: "reads d p (v @ w) \<longleftrightarrow> reads d p v \<and> reads d (p + length v) w"
  by (induction v arbitrary: p) auto

lemma reads_cong: "reads d p w \<Longrightarrow> length d' = length d \<Longrightarrow> (\<And>k. p \<le> k \<Longrightarrow> k < p + length w \<Longrightarrow> d' ! k = d ! k) \<Longrightarrow> reads d' p w"
  by (induction w arbitrary: p) auto

lemma reads_nth: "reads d p w \<Longrightarrow> k < length w \<Longrightarrow> p + k < length d \<and> d ! (p + k) = w ! k"
proof (induction w arbitrary: p k)
  case (Cons c w)
  then show ?case using Cons.IH [of "Suc p" "k - 1"] by (cases k) auto
qed simp

lemma reads_in: "reads d p w \<Longrightarrow> p \<le> k \<Longrightarrow> k < p + length w \<Longrightarrow> k < length d \<and> d ! k \<in> set w"
  using reads_nth [of d p w "k - p"] by auto

lemma reads_fit: "reads d p w \<Longrightarrow> w \<noteq> [] \<Longrightarrow> p + length w \<le> length d"
  using reads_nth [of d p w "length w - 1"] by (cases w) auto

lemma reads_segment: "reads d p w \<Longrightarrow> segment d p (p + length w) = w"
  by (induction w arbitrary: p) (auto simp: segment_def take_Suc_conv_app_nth simp flip: Cons_nth_drop_Suc)

lemma segment_reads: "j \<le> length d \<Longrightarrow> segment d i j = w @ rest \<Longrightarrow> reads d i w"
proof (induction w arbitrary: i)
  case (Cons c w)
  have "segment d i j \<noteq> []" using Cons.prems by simp
  then have "i < j" by (cases "i < j") (auto simp: segment_def)
  then have "segment d i j = d ! i # segment d (Suc i) j"
    using Cons.prems(1) by (simp add: segment_map upt_conv_Cons)
  with Cons \<open>i < j\<close> show ?case by auto
qed simp

section \<open>Machines that look no further than the current byte\<close>

text \<open>\<open>overlay n x d\<close>: the first \<open>n\<close> bytes of \<open>x\<close>, then \<open>d\<close> as it was.\<close>

definition overlay :: "nat \<Rightarrow> char list \<Rightarrow> char list \<Rightarrow> char list" where
  "overlay n x d = take n x @ drop n d"

lemma overlay_length [simp]: "length x = length d \<Longrightarrow> length (overlay n x d) = length d"
  by (simp add: overlay_def)

lemma overlay_take [simp]: "length x = length d \<Longrightarrow> k \<le> n \<Longrightarrow> take k (overlay n x d) = take k x"
  by (cases "n \<le> length x") (auto simp: overlay_def min_def)

lemma overlay_overlay: "length x = length d \<Longrightarrow> length y = length d \<Longrightarrow> k \<le> n \<Longrightarrow>
    overlay n y (overlay k x d) = overlay n y d"
  by (cases "k \<le> length d") (auto simp: overlay_def)

lemma overlay_self [simp]: "take n x = take n d \<Longrightarrow> overlay n x d = d"
  by (simp add: overlay_def)

text \<open>
  What the event loop does with a parser: each time bytes have arrived at \<^verbatim>\<open>end\<close>, it runs
  the parser, until that gives a verdict.
\<close>

definition arrive :: "buffer \<Rightarrow> char list \<Rightarrow> buffer option" where
  "arrive b bs = do {
     d \<leftarrow> poke (bdata b) (bend b) bs;
     Some (b\<lparr>bdata := d, bend := bend b + length bs\<rparr>)
   }"

fun feed :: "('r \<Rightarrow> buffer \<Rightarrow> (rc \<times> 'r \<times> buffer) option) \<Rightarrow> 'r \<Rightarrow> buffer \<Rightarrow> char list list \<Rightarrow>
    (rc \<times> 'r \<times> buffer) option" where
  "feed parse r b [] = Some (AGAIN, r, b)"
| "feed parse r b (bs # bss) = do {
     b1 \<leftarrow> arrive b bs;
     (c, r', b') \<leftarrow> parse r b1;
     if c = AGAIN then feed parse r' b' bss else Some (c, r', b')
   }"

text \<open>
  What the caller sees of a run: the return code, the request and, unless parsing has failed,
  where it stopped. After a failure \<^verbatim>\<open>begin\<close> is where the last call started.
\<close>

definition view :: "rc \<times> 'r \<times> buffer \<Rightarrow> rc \<times> 'r \<times> nat option" where
  "view x = (case x of (c, r, b) \<Rightarrow> (c, r, if c \<in> {OK, AGAIN} then Some (bbegin b) else None))"

lemma arrive_append:
  assumes "arrive b (xs @ ys) = Some b2"
  obtains b1 where "arrive b xs = Some b1" "bbegin b1 = bbegin b" "bend b1 = bend b + length xs"
    "bbegin b2 = bbegin b" "bend b2 = bend b1 + length ys" "length (bdata b2) = length (bdata b1)"
    "take (bend b1) (bdata b2) = take (bend b1) (bdata b1)" "bpos b1 = bpos b2"
    "drop (bend b1) (bdata b2) = ys @ drop (bend b2) (bdata b1)" "bend b2 \<le> length (bdata b1)"
proof -
  have fit: "bend b + length xs + length ys \<le> length (bdata b)"
    and b2: "b2 = b\<lparr>bdata := take (bend b) (bdata b) @ (xs @ ys) @ drop (bend b + length xs + length ys) (bdata b),
        bend := bend b + length xs + length ys\<rparr>"
    using assms by (auto simp: arrive_def poke_def add.assoc split: if_splits)
  let ?b1 = "b\<lparr>bdata := take (bend b) (bdata b) @ xs @ drop (bend b + length xs) (bdata b),
      bend := bend b + length xs\<rparr>"
  have "arrive b xs = Some ?b1" using fit by (simp add: arrive_def poke_def)
  moreover have "min (length (bdata b)) (bend b) = bend b" using fit by simp
  ultimately show thesis using that [of ?b1] b2 fit by (simp add: ac_simps)
qed

locale byte_machine =
  fixes step :: "'r stepper"
  assumes step_local: "p < length d \<Longrightarrow> length d' = length d \<Longrightarrow> take (Suc p) d' = take (Suc p) d \<Longrightarrow>
      step r d' p = map_option (\<lambda>(q, r', x). (q, r', overlay (Suc p) x d')) (step r d p)"
    and step_length: "step r d p = Some (q, r', x) \<Longrightarrow> length x = length d"
    and step_verdict: "step r d p = Some (q, r', x) \<Longrightarrow> q \<noteq> Some AGAIN"
begin

lemma scan_local:
  assumes "p + n \<le> length d" "length d' = length d" "take (p + n) d' = take (p + n) d"
  shows "scan step r d' p n = map_option (\<lambda>(q, r', x, p'). (q, r', overlay (p + n) x d', p')) (scan step r d p n)"
  using assms
proof (induction n arbitrary: r d d' p)
  case 0
  then show ?case by simp
next
  case (Suc n)
  have p: "p < length d" using Suc.prems by simp
  then have sp: "min (length d) (Suc p) = Suc p" by simp
  have t: "take (Suc p) d' = take (Suc p) d"
    using Suc.prems(3) by (metis add_Suc_right le_add1 min.absorb1 not_less_eq_eq plus_1_eq_Suc take_take
      Suc_le_mono add.commute)
  show ?case
  proof (cases "step r d p")
    case None
    then show ?thesis using step_local [OF p Suc.prems(2) t, of r] p Suc.prems(2) by simp
  next
    case (Some y)
    obtain q r' x where y: "y = (q, r', x)" by (cases y) auto
    have lx: "length x = length d" using step_length Some y by metis
    have own: "overlay (Suc p) x d = x" using step_local [OF p refl refl, of r] Some y by simp
    let ?e = "overlay (Suc p) x d'"
    have s': "step r d' p = Some (q, r', ?e)" using step_local [OF p Suc.prems(2) t, of r] Some y by simp
    have rest: "take (Suc p + n) ?e = take (Suc p + n) x"
    proof -
      have "take (Suc p + n) ?e = take (Suc p) x @ take n (drop (Suc p) d')"
        using lx sp by (simp add: overlay_def)
      also have "take n (drop (Suc p) d') = take n (drop (Suc p) d)"
        using Suc.prems(3) by (simp add: take_drop add.commute)
      also have "take (Suc p) x @ take n (drop (Suc p) d) = take (Suc p + n) (overlay (Suc p) x d)"
        using lx sp by (simp add: overlay_def)
      finally show ?thesis by (simp only: own)
    qed
    show ?thesis
    proof (cases q)
      case None
      have l2: "length z = length d" if "scan step r' x (Suc p) n = Some (a, b, z, k)" for a b z k
      proof -
        have "length z = length x" using that
          by (induction n arbitrary: r' x p) (auto split: if_splits option.splits prod.splits dest!: step_length)
        then show ?thesis using lx by simp
      qed
      have "scan step r' ?e (Suc p) n =
          map_option (\<lambda>(q, r', z, p'). (q, r', overlay (Suc p + n) z ?e, p')) (scan step r' x (Suc p) n)"
        using Suc.IH [of "Suc p" x ?e r'] rest lx Suc.prems by simp
      also have "\<dots> = map_option (\<lambda>(q, r', z, p'). (q, r', overlay (Suc p + n) z d', p')) (scan step r' x (Suc p) n)"
        using l2 lx Suc.prems(2) by (intro option.map_cong refl) (auto simp: overlay_overlay)
      finally show ?thesis using None s' Some y p Suc.prems(2) by simp
    next
      case (Some c)
      have "overlay (Suc p + n) x d' = ?e"
      proof -
        have "overlay (Suc p + n) x d' = take (Suc p + n) ?e @ drop (Suc p + n) d'" by (simp only: overlay_def [of "Suc p + n" x] rest)
        also have "drop (Suc p + n) d' = drop (Suc p + n) ?e" using lx p Suc.prems(2) by (simp add: overlay_def add.commute)
        finally show ?thesis by (simp only: append_take_drop_id)
      qed
      then show ?thesis using Some s' \<open>step r d p = Some y\<close> y p Suc.prems(2) by simp
    qed
  qed
qed

text \<open>
  Bytes that arrive later do not change what has been parsed: parsing what is there and
  then the rest is parsing it all.
\<close>

lemma scan_length: "scan step r d p n = Some (q, r1, d1, p1) \<Longrightarrow> length d1 = length d"
  by (induction n arbitrary: r d p) (auto split: if_splits option.splits prod.splits dest!: step_length)

lemma resume:
  assumes first: "scan step r d p n = Some (None, r1, d1, p1)"
    and d': "p + n \<le> length d" "length d' = length d" "take (p + n) d' = take (p + n) d"
  shows "scan step r d' p (n + m) = scan step r1 (overlay (p + n) d1 d') (p + n) m"
  using scan_append [of step r d' p n r1 "overlay (p + n) d1 d'" p1 m] scan_local [OF d', of r] first by simp

lemma stopped:
  assumes first: "scan step r d p n = Some (Some c, r1, d1, p1)"
    and d': "p + n \<le> length d" "length d' = length d" "take (p + n) d' = take (p + n) d"
  shows "scan step r d' p (n + m) = Some (Some c, r1, overlay (p + n) d1 d', p1)"
  using scan_stop [of step r d' p n c r1 "overlay (p + n) d1 d'" p1 m] scan_local [OF d', of r] first by simp

lemma scan_verdict: "scan step r d p n = Some (q, r1, d1, p1) \<Longrightarrow> q \<noteq> Some AGAIN"
  by (induction n arbitrary: r d p) (auto split: if_splits option.splits prod.splits dest!: step_verdict)

lemma failed:
  assumes "scan step r d p n = None" "p + n \<le> length d" "length d' = length d" "take (p + n) d' = take (p + n) d"
  shows "scan step r d' p (n + m) = None"
  using scan_none [of step r d' p n m] scan_local [OF assms(2-4), of r] assms(1) by simp

lemma parse_again:
  assumes "parse_with step fin r b = Some (AGAIN, r', b')"
  shows "bbegin b' = bend b'"
proof -
  obtain q r1 d p where s: "scan step r (bdata b) (bbegin b) (bend b - bbegin b) = Some (q, r1, d, p)"
    using assms by (cases "scan step r (bdata b) (bbegin b) (bend b - bbegin b)") (auto simp: parse_with_def)
  show ?thesis
  proof (cases q)
    case None
    then show ?thesis using assms s by (auto simp: parse_with_def)
  next
    case (Some c)
    then have "c \<noteq> AGAIN" using scan_verdict [OF s] by simp
    then show ?thesis using assms s Some by (cases c) (auto simp: parse_with_def bind_eq_Some_conv)
  qed
qed

text \<open>The same for the parser around the loop, and for a stream cut up in any way.\<close>

lemma parse_resume:
  assumes "arrive b (xs @ ys) = Some b2" "bbegin b \<le> bend b"
    and "arrive b xs = Some b1" "parse_with step fin r b1 = Some (AGAIN, r1, b1')"
  obtains b2' where "arrive b1' ys = Some b2'" "bbegin b1' = bend b1'"
    "map_option view (parse_with step fin r1 b2') = map_option view (parse_with step fin r b2)"
proof -
  have b1: "bbegin b1 = bbegin b" "bend b1 = bend b + length xs"
    "bbegin b2 = bbegin b" "bend b2 = bend b1 + length ys" "length (bdata b2) = length (bdata b1)"
    "take (bend b1) (bdata b2) = take (bend b1) (bdata b1)" "bpos b1 = bpos b2"
    "drop (bend b1) (bdata b2) = ys @ drop (bend b2) (bdata b1)" "bend b2 \<le> length (bdata b1)"
    using arrive_append [OF assms(1)] assms(3) by (metis option.inject)+
  let ?n = "bend b1 - bbegin b" and ?d = "bdata b1"
  have pn: "bbegin b + ?n = bend b1" using assms(2) b1 by simp
  have nm: "bend b2 - bbegin b = ?n + length ys" using assms(2) b1 by simp
  obtain d1 where sc: "scan step r ?d (bbegin b) ?n = Some (None, r1, d1, bend b1)"
    and b1': "b1' = b1\<lparr>bdata := d1, bbegin := bend b1\<rparr>"
  proof -
    obtain q r' d p where s: "scan step r ?d (bbegin b) ?n = Some (q, r', d, p)"
      using assms(4) b1 by (cases "scan step r ?d (bbegin b) ?n") (auto simp: parse_with_def)
    have "q \<noteq> Some AGAIN" using scan_verdict [OF s] .
    then have "q = None" using assms(4) s b1
      by (auto simp: parse_with_def bind_eq_Some_conv split: option.splits rc.splits)
    then show thesis using that s assms(4) b1 scan_pos [OF s] pn by (simp add: parse_with_def)
  qed
  have len: "length d1 = length ?d" using scan_length [OF sc] .
  have "scan step r ?d (bbegin b) ?n = Some (None, r1, overlay (bend b1) d1 ?d, bend b1)"
    using scan_local [of "bbegin b" ?n ?d ?d r] b1 pn sc by simp
  then have own: "overlay (bend b1) d1 ?d = d1" using sc by simp
  have "drop (bend b2) (overlay (bend b1) d1 ?d) = drop (bend b2) ?d"
    using b1(4,9) len by (simp add: overlay_def add.commute)
  then have "drop (bend b2) d1 = drop (bend b2) ?d" by (simp only: own)
  then have new: "overlay (bend b1) d1 (bdata b2) = take (bend b1) d1 @ ys @ drop (bend b2) d1"
    using b1(8) by (simp add: overlay_def)
  let ?b2 = "b1'\<lparr>bdata := overlay (bend b1) d1 (bdata b2), bend := bend b2\<rparr>"
  have a: "arrive b1' ys = Some ?b2" using b1' new b1 len by (simp add: arrive_def poke_def)
  have "scan step r (bdata b2) (bbegin b) (bend b2 - bbegin b) =
      scan step r1 (bdata ?b2) (bbegin ?b2) (bend ?b2 - bbegin ?b2)"
    using resume [OF sc, of "bdata b2" "length ys"] b1 pn nm b1' by simp
  then have "map_option view (parse_with step fin r1 ?b2) = map_option view (parse_with step fin r b2)"
    using b1(3) by (cases "scan step r (bdata b2) (bbegin b) (bend b2 - bbegin b)")
      (auto simp: parse_with_def view_def split: option.splits rc.splits bind_splits dest!: scan_verdict)
  with a show thesis using that b1' by simp
qed

text \<open>A stream that arrives in pieces is parsed like one that arrives at once.\<close>

lemma parse_halted:
  assumes "arrive b (xs @ ys) = Some b2" "bbegin b \<le> bend b" "arrive b xs = Some b1"
    and "\<forall>r1 b1'. parse_with step fin r b1 \<noteq> Some (AGAIN, r1, b1')"
  shows "map_option view (parse_with step fin r b2) = map_option view (parse_with step fin r b1)"
proof -
  have b1: "bbegin b1 = bbegin b" "bend b1 = bend b + length xs"
    "bbegin b2 = bbegin b" "bend b2 = bend b1 + length ys" "length (bdata b2) = length (bdata b1)"
    "take (bend b1) (bdata b2) = take (bend b1) (bdata b1)" "bend b2 \<le> length (bdata b1)"
    using arrive_append [OF assms(1)] assms(3) by (metis option.inject)+
  let ?n = "bend b1 - bbegin b"
  have pn: "bbegin b + ?n = bend b1" and nm: "bend b2 - bbegin b = ?n + length ys"
    using assms(2) b1 by simp_all
  have d': "bbegin b + ?n \<le> length (bdata b1)" "length (bdata b2) = length (bdata b1)"
    "take (bbegin b + ?n) (bdata b2) = take (bbegin b + ?n) (bdata b1)"
    using b1 pn by simp_all
  show ?thesis
  proof (cases "scan step r (bdata b1) (bbegin b) ?n")
    case None
    then show ?thesis using failed [OF None d', of "length ys"] b1 nm by (simp add: parse_with_def)
  next
    case (Some y)
    obtain q r1 d1 p1 where y: "y = (q, r1, d1, p1)" by (cases y) auto
    then obtain c where q: "q = Some c" using Some assms(4) b1 by (cases q) (auto simp: parse_with_def)
    have "scan step r (bdata b2) (bbegin b) (bend b2 - bbegin b) =
        Some (Some c, r1, overlay (bend b1) d1 (bdata b2), p1)"
      using stopped [of r "bdata b1" "bbegin b" ?n c r1 d1 p1, OF _ d'] Some y q pn nm by simp
    then show ?thesis using Some y q b1
      by (cases c; cases "fin p1 r1") (simp_all add: parse_with_def view_def)
  qed
qed

lemma feed_pieces:
  assumes "arrive b (concat bss) = Some b2" "bbegin b \<le> bend b" "bss \<noteq> []"
  shows "map_option view (feed (parse_with step fin) r b bss) = map_option view (parse_with step fin r b2)"
  using assms
proof (induction bss arbitrary: r b b2)
  case Nil
  then show ?case by simp
next
  case (Cons bs bss)
  have a: "arrive b (bs @ concat bss) = Some b2" using Cons.prems by simp
  obtain b1 where b1: "arrive b bs = Some b1" using arrive_append [OF a] by metis
  show ?case
  proof (cases "\<exists>r1 b1'. parse_with step fin r b1 = Some (AGAIN, r1, b1')")
    case False
    then show ?thesis using parse_halted [OF a Cons.prems(2) b1, of fin r] b1
      by (cases "parse_with step fin r b1") (auto split: prod.splits)
  next
    case True
    then obtain r1 b1' where p: "parse_with step fin r b1 = Some (AGAIN, r1, b1')" by blast
    show ?thesis
    proof (cases "bss = []")
      case True
      then show ?thesis using a b1 p by simp
    next
      case False
      obtain b2' where "arrive b1' (concat bss) = Some b2'"
        "bbegin b1' = bend b1'"
        "map_option view (parse_with step fin r1 b2') = map_option view (parse_with step fin r b2)"
        using parse_resume [OF a Cons.prems(2) b1 p] .
      then show ?thesis using Cons.IH [of b1' b2' r1] False b1 p a by simp
    qed
  qed
qed

end

end
