(* ===== verification/Header_Parser.thy ===== *)
theory Header_Parser
  imports Byte_Scan
begin

text \<open>
  \<open>parse_header\<close> of \<^verbatim>\<open>http/header.c\<close>: one header line per accepted call. The letters of
  a name are stored back in lower case, in the receive buffer itself.
\<close>

section \<open>One byte\<close>

text \<open>The macro \<^verbatim>\<open>HEADER_NAME_ALLOW_CASE\<close>; the byte it leaves is \<open>c_tolower\<close> of the one it found.\<close>

definition name_char :: "char \<Rightarrow> bool" where
  "name_char c \<longleftrightarrow> upper c \<or> lower c \<or> digit c \<or> c = CHR ''-'' \<or> c = CHR ''_''"

definition set_measure :: "nat \<Rightarrow> pstr \<Rightarrow> pstr option" where
  "set_measure p s = map_option (\<lambda>n. s\<lparr>pl := n\<rparr>) (ptr_diff (At p) (pc s))"

definition header_step :: "request stepper" where
  "header_step r d p = (let ch = d ! p in
     case r_state r of
       HD_BEGIN \<Rightarrow>
         (let r0 = r\<lparr>header_name := NULL_PSTR, header_value := NULL_PSTR\<rparr> in
          if name_char ch then
            Some (None, r0\<lparr>header_name := \<lparr>pc = At p, pl = 0\<rparr>, r_state := HD_NAME\<rparr>, d[p := c_tolower ch])
          else if ch = CR then Some (None, r0\<lparr>r_state := HD_ALMOST_DONE\<rparr>, d)
          else if ch = LF then Some (Some OK, r0, d)
          else if ch = CHR '' '' then Some (None, r0, d)
          else Some (Some ERROR, r0, d))
     | HD_NAME \<Rightarrow>
         if name_char ch then Some (None, r, d[p := c_tolower ch])
         else if ch = CHR '':'' then do {
           n \<leftarrow> set_measure p (header_name r);
           Some (None, r\<lparr>header_name := n, r_state := HD_COLON\<rparr>, d)
         }
         else if ch = CR then Some (None, r\<lparr>r_state := HD_ALMOST_DONE\<rparr>, d)
         else if ch = CHR '' '' then Some (None, r\<lparr>r_state := State_value (- 1)\<rparr>, d)
         else Some (Some ERROR, r, d)
     | HD_BEFORE_VALUE \<Rightarrow>
         if ch = CHR '' '' then Some (None, r\<lparr>r_state := HD_BEFORE_VALUE\<rparr>, d)
         else Some (None, r\<lparr>r_state := HD_VALUE, header_value := (header_value r)\<lparr>pc := At p\<rparr>\<rparr>, d)
     | HD_COLON \<Rightarrow>
         if ch = CHR '' '' then Some (None, r\<lparr>r_state := HD_BEFORE_VALUE\<rparr>, d)
         else Some (None, r\<lparr>r_state := HD_VALUE, header_value := (header_value r)\<lparr>pc := At p\<rparr>\<rparr>, d)
     | HD_VALUE \<Rightarrow>
         if ch = CR then do {
           v \<leftarrow> set_measure p (header_value r);
           Some (None, r\<lparr>header_value := v, r_state := HD_ALMOST_DONE\<rparr>, d)
         }
         else if ch = LF then do {
           v \<leftarrow> set_measure p (header_value r);
           Some (Some OK, r\<lparr>header_value := v\<rparr>, d)
         }
         else Some (None, r, d)
     | HD_ALMOST_DONE \<Rightarrow>
         if ch = LF then Some (Some OK, r, d) else Some (Some ERROR, r, d)
     | _ \<Rightarrow> Some (Some ERROR, r, d))"

section \<open>One header line\<close>

definition header_done :: "nat \<Rightarrow> request \<Rightarrow> request option" where
  "header_done p r = Some (r\<lparr>r_state := HD_BEGIN\<rparr>)"

text \<open>The loop runs while \<^verbatim>\<open>p != b->end\<close>, so it needs \<^verbatim>\<open>begin <= end\<close> to stop.\<close>

definition parse_header :: "request \<Rightarrow> buffer \<Rightarrow> (rc \<times> request \<times> buffer) option" where
  "parse_header r b = do {
     guard (bbegin b \<le> bend b);
     parse_with header_step header_done r b
   }"

section \<open>Looking no further than the current byte\<close>

lemma overlay_update: "p < length d \<Longrightarrow> length d' = length d \<Longrightarrow> take (Suc p) d' = take (Suc p) d \<Longrightarrow>
    overlay (Suc p) (d[p := c]) d' = d'[p := c]"
  by (simp add: overlay_def take_update_swap)
    (metis append_take_drop_id drop_update_cancel lessI take_update_swap)

interpretation header_line: byte_machine header_step
proof (unfold_locales, goal_cases)
  case (1 p d d' r)
  have e: "d' ! p = d ! p" using 1 by (metis lessI nth_take)
  have o: "overlay (Suc p) d d' = d'" using 1 by simp
  show ?case
    by (cases "r_state r"; cases "set_measure p (header_name r)"; cases "set_measure p (header_value r)")
      (simp_all add: header_step_def Let_def e o overlay_update [OF 1])
next
  case (2 r d p q r' x)
  then show ?case
    by (auto simp: header_step_def Let_def bind_eq_Some_conv split: req_state.splits if_splits)
next
  case (3 r d p q r' x)
  then show ?case
    by (auto simp: header_step_def Let_def bind_eq_Some_conv split: req_state.splits if_splits)
qed

section \<open>The invariant\<close>

text \<open>The name stands in lower case from \<open>i\<close> to \<open>j\<close>.\<close>

definition name_at :: "char list \<Rightarrow> nat \<Rightarrow> nat \<Rightarrow> bool" where
  "name_at d i j \<longleftrightarrow> i < j \<and> (\<forall>k. i \<le> k \<and> k < j \<longrightarrow> name_char (d ! k) \<and> \<not> upper (d ! k))"

text \<open>
  What a line may have recorded by the time the byte at \<open>p\<close> is looked at: nothing, a name
  without length (the line had no colon), a name, or a name and a value after it.
\<close>

definition line_rec :: "request \<Rightarrow> char list \<Rightarrow> nat \<Rightarrow> bool" where
  "line_rec r d p \<longleftrightarrow>
     (pc (header_name r) = Null \<and> header_value r = NULL_PSTR) \<or>
     (\<exists>i. header_name r = \<lparr>pc = At i, pl = 0\<rparr> \<and> i < p \<and> header_value r = NULL_PSTR) \<or>
     (\<exists>i j k l. header_name r = \<lparr>pc = At i, pl = int (j - i)\<rparr> \<and> name_at d i j \<and>
        header_value r = \<lparr>pc = At k, pl = int (l - k)\<rparr> \<and> j < k \<and> k < l \<and> l \<le> p)"

definition hd_inv :: "request \<Rightarrow> char list \<Rightarrow> nat \<Rightarrow> bool" where
  "hd_inv r d p \<longleftrightarrow>
     (case r_state r of
        HD_NAME \<Rightarrow> \<exists>i. header_name r = \<lparr>pc = At i, pl = 0\<rparr> \<and> name_at d i p \<and> header_value r = NULL_PSTR
      | HD_COLON \<Rightarrow> \<exists>i j. header_name r = \<lparr>pc = At i, pl = int (j - i)\<rparr> \<and> name_at d i j \<and> j < p \<and>
          header_value r = NULL_PSTR
      | HD_BEFORE_VALUE \<Rightarrow> \<exists>i j. header_name r = \<lparr>pc = At i, pl = int (j - i)\<rparr> \<and> name_at d i j \<and> j < p \<and>
          header_value r = NULL_PSTR
      | HD_VALUE \<Rightarrow> \<exists>i j k. header_name r = \<lparr>pc = At i, pl = int (j - i)\<rparr> \<and> name_at d i j \<and>
          header_value r = \<lparr>pc = At k, pl = 0\<rparr> \<and> j < k \<and> k < p
      | HD_ALMOST_DONE \<Rightarrow> line_rec r d p
      | _ \<Rightarrow> True)"

lemma line_rec_full:
  "header_name r = \<lparr>pc = At i, pl = int (j - i)\<rparr> \<Longrightarrow> name_at d i j \<Longrightarrow>
   header_value r = \<lparr>pc = At k, pl = int (l - k)\<rparr> \<Longrightarrow> j < k \<Longrightarrow> k < l \<Longrightarrow> l \<le> p \<Longrightarrow> line_rec r d p"
  unfolding line_rec_def by blast

lemma lowered: "name_char c \<Longrightarrow> name_char (c_tolower c) \<and> \<not> upper (c_tolower c)"
  using code_c_tolower [of c]
  by (auto simp: name_char_def upper_def lower_def digit_def c_tolower_def split: if_splits)

lemma name_at_Suc: "p < length d \<Longrightarrow> name_at d i p \<Longrightarrow> name_char (d ! p) \<Longrightarrow> name_at (d[p := c_tolower (d ! p)]) i (Suc p)"
  using lowered by (auto simp: name_at_def less_Suc_eq nth_list_update)

lemma name_at_first: "p < length d \<Longrightarrow> name_char (d ! p) \<Longrightarrow> name_at (d[p := c_tolower (d ! p)]) p (Suc p)"
  using lowered by (auto simp: name_at_def less_Suc_eq nth_list_update)

lemma header_step_inv:
  assumes "hd_inv r d p" "p < length d"
  shows "\<exists>q r' d'. header_step r d p = Some (q, r', d') \<and> length d' = length d \<and>
    (q = None \<longrightarrow> hd_inv r' d' (Suc p)) \<and> (\<forall>c. q = Some c \<longrightarrow> c = OK \<longrightarrow> line_rec r' d' p)"
proof (cases "r_state r")
  case HD_BEGIN
  then show ?thesis using name_at_first [OF assms(2)]
    by (auto simp: header_step_def Let_def hd_inv_def line_rec_def NULL_PSTR_def)
next
  case HD_NAME
  then obtain i where i: "header_name r = \<lparr>pc = At i, pl = 0\<rparr>" "name_at d i p" "header_value r = NULL_PSTR"
    using assms(1) by (auto simp: hd_inv_def)
  then have "i < p" by (simp add: name_at_def)
  then have m: "set_measure p (header_name r) = Some \<lparr>pc = At i, pl = int (p - i)\<rparr>"
    using i by (simp add: set_measure_def of_nat_diff)
  have colon: "hd_inv (r\<lparr>header_name := \<lparr>pc = At i, pl = int (p - i)\<rparr>, r_state := HD_COLON\<rparr>) d (Suc p)"
    unfolding hd_inv_def using i by auto
  have cr: "hd_inv (r\<lparr>r_state := HD_ALMOST_DONE\<rparr>) d (Suc p)"
    unfolding hd_inv_def line_rec_def using i \<open>i < p\<close> by auto
  have ch: "hd_inv r (d[p := c_tolower (d ! p)]) (Suc p)" if "name_char (d ! p)"
    unfolding hd_inv_def using HD_NAME i name_at_Suc [OF assms(2) i(2) that] by auto
  have blank: "hd_inv (r\<lparr>r_state := State_value (- 1)\<rparr>) d (Suc p)" by (simp add: hd_inv_def)
  show ?thesis using HD_NAME m colon cr ch blank by (simp add: header_step_def Let_def)
next
  case HD_VALUE
  then obtain i j k where i: "header_name r = \<lparr>pc = At i, pl = int (j - i)\<rparr>" "name_at d i j"
    "header_value r = \<lparr>pc = At k, pl = 0\<rparr>" "j < k" "k < p"
    using assms(1) by (auto simp: hd_inv_def)
  have same: "hd_inv r d (Suc p)" unfolding hd_inv_def using HD_VALUE i by auto
  let ?r = "r\<lparr>header_value := \<lparr>pc = At k, pl = int (p - k)\<rparr>\<rparr>"
  have m: "set_measure p (header_value r) = Some \<lparr>pc = At k, pl = int (p - k)\<rparr>"
    using i by (simp add: set_measure_def of_nat_diff)
  have "line_rec ?r d p \<and> line_rec (?r\<lparr>r_state := HD_ALMOST_DONE\<rparr>) d (Suc p)"
    using i line_rec_full [of ?r i j d k p p] line_rec_full [of "?r\<lparr>r_state := HD_ALMOST_DONE\<rparr>" i j d k p "Suc p"]
    by simp
  then show ?thesis using HD_VALUE m same by (simp add: header_step_def Let_def hd_inv_def)
next
  case HD_ALMOST_DONE
  then show ?thesis using assms(1) by (auto simp: header_step_def Let_def hd_inv_def)
next
  case HD_COLON
  then show ?thesis using assms(1) by (auto simp: header_step_def Let_def hd_inv_def NULL_PSTR_def less_Suc_eq)
next
  case HD_BEFORE_VALUE
  then show ?thesis using assms(1) by (auto simp: header_step_def Let_def hd_inv_def NULL_PSTR_def less_Suc_eq)
qed (auto simp: header_step_def Let_def)

text \<open>
  \<open>parse_header\<close> always returns with a well-formed buffer. When it accepts, the slices lie
  before the read position and the name is in lower case.
\<close>

lemma parse_header_total:
  assumes "buffer_wf b" "hd_inv r (bdata b) (bbegin b)"
  obtains c r' b' where "parse_header r b = Some (c, r', b')" "buffer_wf b'" "bend b' = bend b"
    "c = AGAIN \<Longrightarrow> hd_inv r' (bdata b') (bbegin b') \<and> bbegin b' = bend b"
    "c = OK \<Longrightarrow> r_state r' = HD_BEGIN \<and> bbegin b < bbegin b' \<and> line_rec r' (bdata b') (bbegin b' - 1)"
proof -
  let ?n = "bend b - bbegin b"
  have wf: "bbegin b \<le> bend b" "bend b \<le> limit" "length (bdata b) = limit"
    using assms(1) by (auto simp: buffer_wf_def)
  then have fit: "bbegin b + ?n \<le> length (bdata b)" by simp
  have "\<exists>q r1 d1 p1. scan header_step r (bdata b) (bbegin b) ?n = Some (q, r1, d1, p1) \<and>
    length d1 = length (bdata b) \<and> (q = None \<longrightarrow> p1 = bbegin b + ?n \<and> hd_inv r1 d1 p1) \<and>
    (\<forall>c. q = Some c \<longrightarrow> p1 < bbegin b + ?n \<and> bbegin b \<le> p1 \<and> (c = OK \<longrightarrow> line_rec r1 d1 p1))"
    by (rule scan_inv [where I = hd_inv, OF assms(2) fit header_step_inv])
  then obtain q r1 d1 p1 where s: "scan header_step r (bdata b) (bbegin b) ?n = Some (q, r1, d1, p1)"
    "length d1 = length (bdata b)" "q = None \<longrightarrow> p1 = bbegin b + ?n \<and> hd_inv r1 d1 p1"
    "\<And>c. q = Some c \<Longrightarrow> p1 < bbegin b + ?n \<and> bbegin b \<le> p1 \<and> (c = OK \<longrightarrow> line_rec r1 d1 p1)"
    by blast
  show thesis
  proof (cases q)
    case None
    then show thesis using that [of AGAIN r1 "b\<lparr>bdata := d1, bbegin := bend b\<rparr>"] s(1-3) wf
      by (auto simp: parse_header_def parse_with_def buffer_wf_def)
  next
    case (Some c)
    have c: "c \<noteq> AGAIN" using header_line.scan_verdict [OF s(1)] Some by simp
    show thesis
    proof (cases "c = OK")
      case True
      have "line_rec (r1\<lparr>r_state := HD_BEGIN\<rparr>) d1 p1" using s(4) [OF Some] True by (simp add: line_rec_def)
      then show thesis
        using that [of OK "r1\<lparr>r_state := HD_BEGIN\<rparr>" "b\<lparr>bdata := d1, bbegin := p1 + 1\<rparr>"] s(1,2) s(4) [OF Some] True Some wf
        by (simp add: parse_header_def parse_with_def buffer_wf_def header_done_def)
    next
      case False
      then show thesis using that [of c r1 "b\<lparr>bdata := d1\<rparr>"] s(1,2) Some c wf
        by (cases c) (simp_all add: parse_header_def parse_with_def buffer_wf_def)
    qed
  qed
qed

section \<open>Accepted lines\<close>

text \<open>\<open>Name: value\<close>, with any number of blanks after the colon.\<close>

definition header_line_text :: "char list \<Rightarrow> nat \<Rightarrow> char list \<Rightarrow> char list" where
  "header_line_text name n v = name @ CHR '':'' # replicate n (CHR '' '') @ v @ [CR, LF]"

definition header_text_ok :: "char list \<Rightarrow> char list \<Rightarrow> bool" where
  "header_text_ok name v \<longleftrightarrow> name \<noteq> [] \<and> (\<forall>c \<in> set name. name_char c) \<and>
     v \<noteq> [] \<and> hd v \<noteq> CHR '' '' \<and> (\<forall>c \<in> set v. c \<noteq> CR \<and> c \<noteq> LF)"

definition put :: "char list \<Rightarrow> nat \<Rightarrow> char list \<Rightarrow> char list" where
  "put d p w = take p d @ w @ drop (p + length w) d"

lemma put_length [simp]: "p + length w \<le> length d \<Longrightarrow> length (put d p w) = length d"
  by (simp add: put_def)

lemma put_nth: "p + length w \<le> length d \<Longrightarrow> k < length d \<Longrightarrow>
    put d p w ! k = (if p \<le> k \<and> k < p + length w then w ! (k - p) else d ! k)"
  by (auto simp: put_def nth_append min_def)

lemma put_Cons: "p + length (c # w) \<le> length d \<Longrightarrow> put d p (c # w) = put (d[p := c]) (Suc p) w"
  by (rule nth_equalityI) (auto simp: put_nth nth_Cons' not_less_eq_eq dest!: le_antisym)

lemma name_chars_scan:
  assumes "r_state r = HD_NAME" "reads d p w" "\<forall>c \<in> set w. name_char c"
  shows "scan header_step r d p (length w) = Some (None, r, put d p (map c_tolower w), p + length w)"
  using assms
proof (induction w arbitrary: d p)
  case Nil
  then show ?case by (simp add: put_def)
next
  case (Cons c w)
  have fit: "p + length (map c_tolower (c # w)) \<le> length d" using reads_fit [OF Cons.prems(2)] by simp
  have s: "header_step r d p = Some (None, r, d[p := c_tolower c])"
    using Cons.prems by (simp add: header_step_def)
  have rd: "reads (d[p := c_tolower c]) (Suc p) w"
    using Cons.prems(2) by (auto intro: reads_cong)
  show ?case using Cons.IH [OF Cons.prems(1) rd] Cons.prems s put_Cons [of p "c_tolower c" "map c_tolower w" d] fit
    by simp
qed

lemma value_runs:
  assumes "r_state r = HD_COLON" "header_value r = NULL_PSTR"
    and "reads d p (replicate n (CHR '' '') @ v @ [CR])" "v \<noteq> []" "hd v \<noteq> CHR '' ''" "\<forall>c \<in> set v. c \<noteq> CR \<and> c \<noteq> LF"
  shows "runs header_step d r p
    (r\<lparr>r_state := HD_ALMOST_DONE, header_value := \<lparr>pc = At (p + n), pl = int (length v)\<rparr>\<rparr>) (p + n + length v + 1)"
proof -
  let ?i = "p + n" and ?e = "p + n + length v"
  let ?rb = "r\<lparr>r_state := HD_BEFORE_VALUE\<rparr>" and ?rv = "r\<lparr>r_state := HD_VALUE, header_value := \<lparr>pc = At (p + n), pl = 0\<rparr>\<rparr>"
  define r0 where "r0 = (if n = 0 then r else ?rb)"
  have sp: "reads d p (replicate n (CHR '' ''))" and rv: "reads d ?i v" and e: "?e < length d" "d ! ?e = CR"
    using assms(3) by (auto simp: add.assoc)
  have blanks: "runs header_step d r p r0 ?i"
  proof (cases n)
    case 0
    then show ?thesis by (simp add: r0_def runs_def)
  next
    case (Suc k)
    have bl: "k < length d \<and> d ! k = CHR '' ''" if "p \<le> k" "k < p + n" for k
      using reads_in [OF sp that(1)] that(2) by auto
    have "runs header_step d r p ?rb (Suc p)"
      using bl [of p] Suc assms(1) by (intro runs_one) (auto simp: header_step_def)
    also have "runs header_step d ?rb (Suc p) ?rb ?i"
    proof (rule runs_while)
      show "Suc p \<le> ?i" "?i \<le> length d" using Suc e by auto
    qed (use bl in \<open>auto simp: header_step_def\<close>)
    finally show ?thesis by (simp add: r0_def Suc)
  qed
  obtain c v' where v: "v = c # v'" using assms(4) by (cases v) auto
  have first: "runs header_step d r0 ?i ?rv (Suc ?i)"
    using rv v assms(1,2,5) by (intro runs_one) (auto simp: r0_def header_step_def NULL_PSTR_def)
  note blanks
  also note first
  also have "runs header_step d ?rv (Suc ?i) ?rv ?e"
  proof (rule runs_while)
    show "Suc ?i \<le> ?e" "?e \<le> length d" using v e by auto
    fix k assume k: "Suc ?i \<le> k" "k < ?e"
    then show "header_step ?rv d k = Some (None, ?rv, d)"
      using reads_in [OF rv, of k] assms(6) by (auto simp: header_step_def)
  qed
  also have "runs header_step d ?rv ?e
      (r\<lparr>r_state := HD_ALMOST_DONE, header_value := \<lparr>pc = At (p + n), pl = int (length v)\<rparr>\<rparr>) (Suc ?e)"
    using e by (intro runs_one) (auto simp: header_step_def set_measure_def)
  finally show ?thesis by simp
qed

lemma accept_header_exact:
  assumes "header_text_ok name v" "buffer_wf b" "contents b = header_line_text name n v @ rest"
    and "r_state r = HD_BEGIN"
  shows "\<exists>s t b'. parse_header r b = Some (OK, r\<lparr>header_name := s, header_value := t, r_state := HD_BEGIN\<rparr>, b') \<and>
    contents b' = rest \<and> buffer_wf b' \<and> text_of (bdata b') s = Some (map c_tolower name) \<and> text_of (bdata b') t = Some v"
proof -
  let ?p = "bbegin b" and ?d = "bdata b"
  define j i e where ijk: "j = ?p + length name" "i = Suc j + n" "e = i + length v"
  have wf: "?p \<le> bend b" "bend b \<le> limit" "length ?d = limit" using assms(2) by (auto simp: buffer_wf_def)
  have nm: "name \<noteq> []" "\<forall>c \<in> set name. name_char c" and vl: "v \<noteq> []" "hd v \<noteq> CHR '' ''"
    "\<forall>c \<in> set v. c \<noteq> CR \<and> c \<noteq> LF" using assms(1) by (auto simp: header_text_ok_def)
  have rd: "reads ?d ?p (header_line_text name n v)"
    using assms(3) wf by (intro segment_reads [of "bend b"]) (auto simp: contents_def)
  then have rdn: "reads ?d ?p name" and col: "j < length ?d" "?d ! j = CHR '':''"
    and rdv: "reads ?d (Suc j) (replicate n (CHR '' '') @ v @ [CR, LF])"
    using ijk by (auto simp: header_line_text_def)
  let ?d1 = "put ?d ?p (map c_tolower name)"
  have fit: "?p + length (map c_tolower name) \<le> length ?d" using reads_fit [OF rdn] nm by simp
  have same: "?d1 ! k = ?d ! k" if "j \<le> k" "k < length ?d" for k
    using put_nth [OF fit, of k] that ijk by simp
  have rdv1: "reads ?d1 (Suc j) (replicate n (CHR '' '') @ v @ [CR, LF])"
  proof (rule reads_cong [OF rdv])
    show "length ?d1 = length ?d" using fit by simp
    fix k assume k: "Suc j \<le> k" "k < Suc j + length (replicate n (CHR '' '') @ v @ [CR, LF])"
    show "?d1 ! k = ?d ! k" using reads_in [OF rdv k] k by (intro same) auto
  qed
  have lf: "Suc e < length ?d1" "?d1 ! Suc e = LF" "reads ?d1 i v"
    using rdv1 ijk by (auto simp: add.assoc)
  let ?r1 = "r\<lparr>header_name := \<lparr>pc = At ?p, pl = 0\<rparr>, header_value := NULL_PSTR, r_state := HD_NAME\<rparr>"
  obtain c w where cw: "name = c # w" using nm by (cases name) auto
  have first: "header_step r ?d ?p = Some (None, ?r1, ?d[?p := c_tolower c])"
    using rdn cw nm assms(4) by (simp add: header_step_def Let_def)
  have "scan header_step ?r1 (?d[?p := c_tolower c]) (Suc ?p) (length w) =
      Some (None, ?r1, put (?d[?p := c_tolower c]) (Suc ?p) (map c_tolower w), Suc ?p + length w)"
    using rdn cw nm by (intro name_chars_scan) (auto intro: reads_cong)
  then have names: "scan header_step r ?d ?p (length name) = Some (None, ?r1, ?d1, j)"
    using first fit cw ijk put_Cons [of ?p "c_tolower c" "map c_tolower w" ?d] rdn by simp
  let ?r2 = "?r1\<lparr>header_name := \<lparr>pc = At ?p, pl = int (j - ?p)\<rparr>, r_state := HD_COLON\<rparr>"
  let ?r3 = "?r2\<lparr>r_state := HD_ALMOST_DONE, header_value := \<lparr>pc = At i, pl = int (length v)\<rparr>\<rparr>"
  have "runs header_step ?d1 ?r1 j ?r2 (Suc j)"
    using col same [of j] fit ijk
    by (intro runs_one) (auto simp: header_step_def Let_def set_measure_def name_char_def upper_def lower_def
        digit_def code_def of_nat_diff)
  also have "runs header_step ?d1 ?r2 (Suc j) ?r3 (Suc e)"
    using value_runs [of ?r2 ?d1 "Suc j" n v] rdv1 vl ijk by (simp add: add.assoc)
  finally have run: "runs header_step ?d1 ?r1 j ?r3 (Suc e)" .
  have len: "length (header_line_text name n v) = Suc (Suc e) - ?p" "?p \<le> j" "j < e"
    using ijk vl by (simp_all add: header_line_text_def)
  have fits: "Suc (Suc e) \<le> bend b"
    using arg_cong [OF assms(3), of length] len wf by (simp add: contents_def)
  have "scan header_step ?r1 ?d1 j (bend b - j) = Some (Some OK, ?r3, ?d1, Suc e)"
    using runs_stop [OF run _ lf(1), of "bend b - j" OK ?r3] lf fits len by (simp add: header_step_def)
  moreover have "bend b - ?p = length name + (bend b - j)" using ijk fits len by simp
  ultimately have sc: "scan header_step r ?d ?p (bend b - ?p) = Some (Some OK, ?r3, ?d1, Suc e)"
    using scan_append [OF names] ijk by simp
  let ?b = "b\<lparr>bdata := ?d1, bbegin := Suc e + 1\<rparr>" and ?r4 = "?r3\<lparr>r_state := HD_BEGIN\<rparr>"
  have "parse_header r b = Some (OK, ?r4, ?b)"
    using sc wf by (simp add: parse_header_def parse_with_def header_done_def)
  moreover have "contents ?b = rest"
  proof -
    have "contents ?b = segment ?d (Suc (Suc e)) (bend b)"
      using wf fit same len ijk by (auto simp: contents_def segment_map intro!: map_cong)
    moreover have "segment ?d ?p (Suc (Suc e)) @ segment ?d (Suc (Suc e)) (bend b) = header_line_text name n v @ rest"
      using segment_append [of ?p "Suc (Suc e)" "bend b" ?d] fits len assms(3) by (simp add: contents_def)
    moreover have "length (segment ?d ?p (Suc (Suc e))) = length (header_line_text name n v)"
      using fits wf len by simp
    ultimately show ?thesis by (metis append_eq_append_conv)
  qed
  moreover have "buffer_wf ?b" using wf fit fits by (simp add: buffer_wf_def)
  moreover have "text_of ?d1 (header_name ?r4) = Some (map c_tolower name)"
  proof -
    have "reads ?d1 ?p (map c_tolower name)"
      using reads_segment [of ?d1 ?p] fit put_nth [OF fit] by (intro segment_reads [of j ?d1 ?p "map c_tolower name" "[]"])
        (auto simp: ijk put_def segment_def)
    then show ?thesis using reads_segment ijk by (fastforce simp: text_of_def)
  qed
  moreover have "text_of ?d1 (header_value ?r4) = Some v"
    using reads_segment [OF lf(3)] by (simp add: text_of_def)
  ultimately show ?thesis
    by (intro exI [of _ "\<lparr>pc = At ?p, pl = int (j - ?p)\<rparr>"] exI [of _ "\<lparr>pc = At i, pl = int (length v)\<rparr>"] exI [of _ ?b]) simp
qed

lemma accept_header:
  assumes "header_text_ok name v" "buffer_wf b" "contents b = header_line_text name n v @ rest"
    and "r_state r = HD_BEGIN"
  shows "\<exists>r' b'. parse_header r b = Some (OK, r', b') \<and> contents b' = rest \<and> r_state r' = HD_BEGIN \<and>
    buffer_wf b' \<and> text_of (bdata b') (header_name r') = Some (map c_tolower name) \<and>
    text_of (bdata b') (header_value r') = Some v"
  using accept_header_exact [OF assms] by fastforce

section \<open>Properties\<close>

lemma feed_guarded:
  assumes "bbegin b \<le> bend b"
  shows "feed parse_header r b bss = feed (parse_with header_step header_done) r b bss"
  using assms
proof (induction bss arbitrary: r b)
  case (Cons bs bss)
  show ?case
  proof (cases "arrive b bs")
    case (Some b1)
    then have le: "bbegin b1 \<le> bend b1" using Cons.prems by (auto simp: arrive_def bind_eq_Some_conv)
    then have same: "parse_header r b1 = parse_with header_step header_done r b1" by (simp add: parse_header_def)
    have "bbegin b' \<le> bend b'" if "parse_with header_step header_done r b1 = Some (AGAIN, r', b')" for r' b'
      using header_line.parse_again [OF that] by simp
    then show ?thesis using Some same Cons.IH
      by (cases "parse_with header_step header_done r b1") auto
  qed simp
qed simp

definition example_header :: "char list" where
  "example_header = header_line_text ''Cookie'' 1 ''a=b; c''"

lemma example_header_facts:
  "header_text_ok ''Cookie'' ''a=b; c''" "length example_header = 16"
  by code_simp+

lemma example_header_received: "buffer_wf (received example_header)" "contents (received example_header) = example_header @ []"
  using received_wf [of example_header] example_header_facts(2) by (simp_all add: limit_def BUF_SIZE_def)

text \<open>
  C28. \<open>parse_header\<close> inverts the spelling of a header line: it accepts every name followed by a
  colon, blanks, a value and a line end, consumes exactly that line, and records slices that
  spell the name in lower case and the value.
\<close>

theorem parse_inverts_header_line:
  assumes "header_text_ok name v" "buffer_wf b" "contents b = header_line_text name n v @ rest" "r_state r = HD_BEGIN"
  shows "\<exists>r' b'. parse_header r b = Some (OK, r', b') \<and> contents b' = rest \<and> r_state r' = HD_BEGIN \<and> buffer_wf b' \<and>
    text_of (bdata b') (header_name r') = Some (map c_tolower name) \<and> text_of (bdata b') (header_value r') = Some v"
  by (rule accept_header [OF assms])

theorem parse_inverts_header_line_witness:
  "\<exists>r' b'. parse_header (zero_request\<lparr>r_state := HD_BEGIN\<rparr>) (received example_header) = Some (OK, r', b') \<and>
    text_of (bdata b') (header_name r') = Some ''cookie'' \<and> text_of (bdata b') (header_value r') = Some ''a=b; c''"
proof -
  have low: "map c_tolower ''Cookie'' = ''cookie''" by code_simp
  show ?thesis
    using parse_inverts_header_line [OF example_header_facts(1) example_header_received(1), of 1 "[]" "zero_request\<lparr>r_state := HD_BEGIN\<rparr>"]
      example_header_received(2) unfolding low by (auto simp: example_header_def)
qed

text \<open>
  A header line may arrive in any number of pieces, with the same result as in one.
\<close>

theorem header_line_in_pieces:
  assumes "arrive b (concat bss) = Some b2" "bbegin b \<le> bend b" "bss \<noteq> []"
  shows "map_option view (feed parse_header r b bss) = map_option view (parse_header r b2)"
proof -
  have "bbegin b2 \<le> bend b2" using assms(1,2) by (auto simp: arrive_def bind_eq_Some_conv)
  then show ?thesis
    using header_line.feed_pieces [OF assms, of header_done r] by (simp add: feed_guarded [OF assms(2)] parse_header_def)
qed

theorem header_line_in_pieces_witness:
  "map_option view (feed parse_header (zero_request\<lparr>r_state := HD_BEGIN\<rparr>) (received []) [''Da'', ''te: x'' @ [CR], [LF]]) =
   map_option view (parse_header (zero_request\<lparr>r_state := HD_BEGIN\<rparr>) (the (arrive (received []) (''Date: x'' @ [CR, LF]))))"
  by (rule header_line_in_pieces) (simp_all add: received_def arrive_def poke_def limit_def BUF_SIZE_def)

text \<open>
  C29. \<open>parse_header\<close> is total on well-formed buffers: it returns without a stray access, leaves
  the buffer well-formed, keeps its invariant when it asks for more, and when it accepts a line
  the recorded name and value lie inside the bytes it has consumed, with the name in lower case.
\<close>

theorem parse_header_safe:
  assumes "buffer_wf b" "hd_inv r (bdata b) (bbegin b)"
  shows "\<exists>c r' b'. parse_header r b = Some (c, r', b') \<and> buffer_wf b' \<and> bend b' = bend b \<and>
    (c = AGAIN \<longrightarrow> hd_inv r' (bdata b') (bbegin b') \<and> bbegin b' = bend b') \<and>
    (c = OK \<longrightarrow> r_state r' = HD_BEGIN \<and> bbegin b < bbegin b' \<and> line_rec r' (bdata b') (bbegin b' - 1))"
  using parse_header_total [OF assms] by (metis (no_types))

theorem parse_header_safe_witness:
  "\<exists>c r' b'. parse_header (zero_request\<lparr>r_state := HD_BEGIN\<rparr>) (received ''Da te'') = Some (c, r', b') \<and> buffer_wf b'"
  using parse_header_safe [of "received ''Da te''" "zero_request\<lparr>r_state := HD_BEGIN\<rparr>"] received_wf [of "''Da te''"]
  by (auto simp: limit_def BUF_SIZE_def hd_inv_def)

end
