(* ===== verification/Header_Map.thy ===== *)
theory Header_Map
  imports Hash_Table Header_Parser
begin

text \<open>
  The two tables the server builds at start: the header names it handles
  (\<open>header_map_init\<close> of \<^verbatim>\<open>http/header.c\<close>) and the locations it forwards
  (\<open>create_location_map\<close> of \<^verbatim>\<open>config.c\<close>), and the handlers of the header values.
\<close>

section \<open>The handled headers\<close>

text \<open>A \<^verbatim>\<open>header_val_t\<close>: the offset of the member of \<^verbatim>\<open>request_header_t\<close> and the handler.\<close>

datatype header_handler = Handle_generic | Handle_connection

type_synonym header_val = "nat \<times> header_handler"

text \<open>\<^verbatim>\<open>offsetof(request_header_t, name)\<close>; a \<^verbatim>\<open>string\<close> has 16 bytes.\<close>

definition header_array :: "(char list \<times> header_val) list" where
  "header_array = [(''accept'', (32, Handle_generic)), (''cookie'', (48, Handle_generic)),
     (''date'', (0, Handle_generic)), (''connection'', (16, Handle_connection))]"

definition MAX_HEADER_SIZE :: nat where
  "MAX_HEADER_SIZE = 136"

definition keys_of :: "(char list \<times> 'v) list \<Rightarrow> 'v hash_key list" where
  "keys_of xs = map (\<lambda>(name, v). \<lparr>k_name = Some name, k_hash = hash_key_function name, k_value = v\<rparr>) xs"

text \<open>
  The frame of both initialisers: a pool of its own, whose size is derived from the first name,
  the \<^verbatim>\<open>hash\<close> object (16 bytes) and the table in it.
\<close>

definition make_map :: "nat \<Rightarrow> bool \<Rightarrow> nat \<Rightarrow> (char list \<times> 'v) list \<Rightarrow> 'v hash option" where
  "make_map base clean max_names names = do {
     guard (names \<noteq> []);
     pool \<leftarrow> createPool True (of_nat (2 * max_names * HASH_ELT_SIZE (length (fst (hd names)))));
     (h, pool1) \<leftarrow> pMalloc pool 16;
     guard (h \<noteq> None);
     (ret, t, pool2) \<leftarrow> hashInit base clean pool1 128 1024 (keys_of names);
     guard (ret \<noteq> ERROR);
     t
   }"

definition header_map_init :: "nat \<Rightarrow> bool \<Rightarrow> header_val hash option" where
  "header_map_init base clean = make_map base clean MAX_HEADER_SIZE header_array"

section \<open>The handlers\<close>

text \<open>\<^verbatim>\<open>*(string* )((char* )&r->headers + offset) = r->header_value\<close>; an offset that is no member
  has no defined result.\<close>

definition header_handle_generic :: "request \<Rightarrow> nat \<Rightarrow> (rc \<times> request) option" where
  "header_handle_generic r off =
     (let v = header_value r; h = headers r in
      if off = 0 then Some (OK, r\<lparr>headers := h\<lparr>h_date := v\<rparr>\<rparr>)
      else if off = 16 then Some (OK, r\<lparr>headers := h\<lparr>h_connection := v\<rparr>\<rparr>)
      else if off = 32 then Some (OK, r\<lparr>headers := h\<lparr>h_accept := v\<rparr>\<rparr>)
      else if off = 48 then Some (OK, r\<lparr>headers := h\<lparr>h_cookie := v\<rparr>\<rparr>)
      else None)"

text \<open>
  The value is compared in the buffer \<open>d\<close>. The last component says that the value was neither
  form, in which case the C function goes on to build the error response 400.
\<close>

definition header_handle_connection :: "char list \<Rightarrow> request \<Rightarrow> nat \<Rightarrow> (rc \<times> request \<times> bool) option" where
  "header_handle_connection d r off = do {
     (c, r1) \<leftarrow> header_handle_generic r off;
     v \<leftarrow> bytes_at d (pc (h_connection (headers r1)));
     ka \<leftarrow> strneq c_tolower (''keep-alive'' @ [CHR 0x00]) v 10;
     if ka then Some (OK, r1\<lparr>keep_alive := True\<rparr>, False)
     else do {
       cl \<leftarrow> strneq c_tolower (''close'' @ [CHR 0x00]) v 5;
       if cl then Some (OK, r1\<lparr>keep_alive := False\<rparr>, False) else Some (OK, r1, True)
     }
   }"

section \<open>Building the tables succeeds\<close>

definition names_ok :: "(char list \<times> 'v) list \<Rightarrow> bool" where
  "names_ok names \<longleftrightarrow> (\<forall>x \<in> set names. strlow (fst x) = fst x \<and> length (fst x) \<le> 110 \<and> (\<forall>c \<in> set (fst x). code c \<noteq> 0))"

lemma keys_of_ok:
  assumes "names_ok names"
  shows "well_hashed (keys_of names)" "plain_names (keys_of names)" "\<forall>k \<in> set (keys_of names). elt_size k + 8 \<le> 128"
  using assms by (auto simp: keys_of_def well_hashed_def plain_names_def names_ok_def elt_size_def key_len_def HASH_ELT_SIZE_eq)

lemma assoc_keys_of: "assoc (keys_of names) w = map_of names w"
  by (induction names) (auto simp: assoc_def keys_of_def)

lemma bk_one: "bk 1 ks 0 = filter (\<lambda>k. k_name k \<noteq> None) ks"
  by (simp add: bk_def bucket_no_def)

lemma bk_all: "bk 1 (keys_of names) 0 = keys_of names"
  unfolding bk_one by (auto simp: keys_of_def intro!: filter_True)

lemma names_init_ok:
  assumes "names_ok names" "load (keys_of names) \<le> 120"
  shows "init_ok 128 1024 (keys_of names) 1"
proof -
  let ?ks = "keys_of names"
  note all = bk_all [of names]
  have "length ?ks * 16 \<le> load ?ks"
  proof -
    have "length ks * 16 \<le> load ks" if "\<forall>k \<in> set ks. key_len k < 2 ^ 32" for ks :: "'a hash_key list"
      using that elt_size_ge by (induction ks) force+
    then show ?thesis using keys_of_ok(2) [OF assms(1)] key_len_small by fastforce
  qed
  then have few: "length ?ks div 6 \<le> 1" using assms(2) by simp
  have "try_size 1 120 ?ks (replicate 1 0)"
    using assms(2) all by (intro try_size_fits) auto
  then have "find_size 120 ?ks 1 (Suc 1023) = Some 1" by (simp only: find_size.simps if_True)
  then have "find_size 120 ?ks 1 1024 = Some 1" by simp
  moreover have "(if length ?ks div 6 \<noteq> 0 then length ?ks div 6 else 1) = 1" using few by simp
  ultimately show ?thesis using keys_of_ok [OF assms(1)] by (simp add: init_ok_def Let_def)
qed

lemma single_area:
  assumes "names_ok names" "load (keys_of names) \<le> 120"
  shows "sum_list (map area (rounded 1 (keys_of names))) \<le> 128"
proof -
  let ?ks = "keys_of names"
  have l: "load (bk 1 ?ks 0) \<le> 120" using assms(2) unfolding bk_all .
  have "add_sizes 1 ?ks [8] = [8 + load (bk 1 ?ks 0)]"
    using add_sizes_ok [of "[8]" 1 ?ks] l by (auto simp: list_eq_iff_nth_eq)
  moreover have "round_up t \<le> 128" if "t \<le> 128" for t
    using that align_pow2 [of t 5] div_le_mono [of "t + 31" 159 32] by (simp add: round_up_def u_short_def cacheline_size_def)
  ultimately show ?thesis using l by (simp add: rounded_def area_def)
qed

lemma small_block:
  assumes "n \<le> 128"
  shows "unat (nunits_of (of_nat n + of_nat cacheline_size)) \<le> 11"
proof -
  have "unat (of_nat (n + cacheline_size) :: 32 word) = n + cacheline_size"
    using assms by (simp only: unat_of_nat) (simp add: cacheline_size_def)
  then show ?thesis using assms unat_nunits_of [of "of_nat (n + cacheline_size)"] by (simp add: cacheline_size_def)
qed

lemma make_map_ok:
  assumes names: "names_ok names" "names \<noteq> []" and one: "load (keys_of names) \<le> 120"
    and pool: "2320 \<le> 2 * m * HASH_ELT_SIZE (length (fst (hd names)))" "2 * m * HASH_ELT_SIZE (length (fst (hd names))) < 2 ^ 31"
    and base: "base + 2 ^ 36 < 2 ^ 63"
  shows "\<exists>t. make_map base True m names = Some t \<and> table (keys_of names) t \<and> h_size t = 1"
proof -
  let ?ks = "keys_of names"
  define B where B: "B = 2 * m * HASH_ELT_SIZE (length (fst (hd names)))"
  define n where n: "n = sum_list (map area (rounded 1 (keys_of names)))"
  note ok = names_init_ok [OF names(1) one]
  have n128: "n \<le> 128" unfolding n by (rule single_area [OF names(1) one])
  have uB: "unat (of_nat B :: 32 word) = B" using pool(2) unfolding B [symmetric] by (simp only: unat_of_nat) simp
  then have B0: "(0 :: 32 word) < of_nat B" using pool(1) unfolding B [symmetric] word_less_nat_alt by simp
  obtain p0 where p0: "createPool True (of_nat B) = Some p0" "mp_ready p0 ([] @ [(1, (B + 15) div 16 - 1)])"
    "mp_units p0 = (B + 16) div 16"
    using createPool_ready [OF B0] unfolding uB by auto
  define f where "f = (B + 15) div 16 - 1"
  have f: "144 \<le> f" using pool(1) unfolding B [symmetric] f_def by simp
  then have f2: "2 \<le> f" "129 \<le> f - 2" "2 \<le> f - 131" "11 \<le> f - 133" by linarith+
  have nu: "unat (nunits_of 16) = 2" "unat (nunits_of (of_nat (1024 * 2))) = 129" "unat (nunits_of (of_nat (1 * 8))) = 2"
    by (simp_all add: unat_nunits_of)
  have n3: "unat (nunits_of (of_nat n + of_nat cacheline_size)) \<le> 11" by (rule small_block [OF n128])
  obtain h p1 where p1: "pMalloc p0 16 = Some (Some h, p1)" "mp_inv p1 ([(1, 0)] @ [(2, f - 2)])"
    using pMalloc_bump [OF p0(2), of 16] nu(1) f2 unfolding f_def [symmetric] by auto
  obtain p2 where p2: "pMalloc p1 (of_nat (1024 * 2)) = Some (Some (extent [(1, 0)] + 2 + 1), p2)"
    "mp_inv p2 ([(1, 0), (2, 0)] @ [(129, f - 131)])"
    using pMalloc_bump [of p1 "[(1, 0)]" 2 "f - 2" "of_nat (1024 * 2)"] p1(2) f2
    unfolding nu mp_ready_def by auto
  obtain bu p3 where p3: "pMalloc p2 (of_nat (1 * 8)) = Some (Some bu, p3)"
    "mp_inv p3 ([(1, 0), (2, 0), (129, 0)] @ [(2, f - 133)])"
    using pMalloc_bump [of p2 "[(1, 0), (2, 0)]" 129 "f - 131" "of_nat (1 * 8)"] p2(2) f2
    unfolding nu mp_ready_def by auto
  obtain e p4 x where p4: "pMalloc p3 (of_nat n + of_nat cacheline_size) = Some (Some e, p4)"
    "mp_inv p4 ([(1, 0), (2, 0), (129, 0), (2, 0)] @ [x])"
    using pMalloc_bump [of p3 "[(1, 0), (2, 0), (129, 0)]" 2 "f - 133" "of_nat n + of_nat cacheline_size"] p3(2) f2 n3
    unfolding mp_ready_def by auto
  obtain p5 where p5: "pFree p4 (extent [(1, 0)] + 2 + 1) = Some p5"
    using pFree_ok [of p4 "[(1, 0)]" 2 0 129 0 "[(2, 0), x]"] p4(2) by auto
  have "e \<le> mp_units p0" using pMalloc_units [OF p1(1)] pMalloc_units [OF p2(1)] pMalloc_units [OF p3(1)] pMalloc_units [OF p4(1)]
    by simp
  then have "base + 16 * e + 2 ^ 32 < 2 ^ 63" using base p0(3) pool(2) unfolding B [symmetric] by simp
  from hashInit_succeeds [OF ok n refl refl refl p2(1) p3(1) p4(1) p5 this]
  obtain t where "hashInit base True p1 128 1024 ?ks = Some (OK, Some t, p5)" "table ?ks t" "h_size t = 1"
    by blast
  then show ?thesis using names(2) p0(1) p1(1) unfolding make_map_def B [symmetric] by (auto simp: guard_def)
qed

section \<open>Properties\<close>

lemma header_names:
  "names_ok header_array" "header_array \<noteq> []" "load (keys_of header_array) \<le> 120"
  "2320 \<le> 2 * MAX_HEADER_SIZE * HASH_ELT_SIZE (length (fst (hd header_array)))"
  "2 * MAX_HEADER_SIZE * HASH_ELT_SIZE (length (fst (hd header_array))) < 2 ^ 31"
  by (simp_all add: header_array_def names_ok_def strlow_def c_tolower_def code_def keys_of_def elt_size_def key_len_def
      HASH_ELT_SIZE_eq MAX_HEADER_SIZE_def)

lemma map_lookup:
  assumes "table (keys_of names) t" "h_size t = 1" "names_ok names" "names \<noteq> []" "n \<le> length name"
  shows "hash_find t name n = Some (map_of names (take n name))"
proof -
  have "bk 1 (keys_of names) 0 \<noteq> []" using assms(4) unfolding bk_all by (simp add: keys_of_def)
  then show ?thesis
    using hash_find_table [OF assms(1) keys_of_ok(2) [OF assms(3)] assms(5) refl] assms(2)
      find_bk [OF keys_of_ok(1) [OF assms(3)], of "take n name" 1] assoc_keys_of [of names "take n name"]
    by (simp add: assoc_def)
qed

text \<open>
  Start-up builds the header table, and it answers every lookup: \<open>hash_find\<close> on it returns
  for any name, and gives the entry of \<open>header_array\<close> for a handled header and null for any
  other name. The table has one bucket, so the null dereference of an empty bucket cannot occur.
\<close>

theorem header_map_lookup:
  assumes "base + 2 ^ 36 < 2 ^ 63"
  shows "\<exists>t. header_map_init base True = Some t \<and>
    (\<forall>name n. n \<le> length name \<longrightarrow> hash_find t name n = Some (map_of header_array (take n name)))"
  using make_map_ok [OF header_names assms] map_lookup [OF _ _ header_names(1,2)]
  unfolding header_map_init_def by blast

theorem header_map_lookup_witness:
  "\<exists>t. header_map_init 4096 True = Some t \<and> hash_find t ''connection: close'' 10 = Some (Some (16, Handle_connection))"
proof -
  obtain t where "header_map_init 4096 True = Some t"
    "\<forall>name n. n \<le> length name \<longrightarrow> hash_find t name n = Some (map_of header_array (take n name))"
    using header_map_lookup [of 4096] by auto
  then show ?thesis by (intro exI [of _ t]) (simp add: header_array_def)
qed


text \<open>The table of headers in a fresh pool of 8192 bytes: the scratch array takes 2048 of them.\<close>

lemma fresh_pool_grants: "\<exists>p. createPool True 8192 = Some p \<and> mp_live p (live_regions [(1, 511)]) \<and> mp_units p = 513 \<and>
  grants p (table_blocks 1024 (keys_of header_array) 1)"
proof -
  obtain p where p: "createPool True 8192 = Some p" "mp_ready p ([] @ [(1, 511)])" "mp_units p = 513"
    using createPool_ready [of 8192] by (auto simp: word_less_nat_alt)
  define n where "n = sum_list (map area (rounded 1 (keys_of header_array)))"
  have n128: "n \<le> 128" unfolding n_def by (rule single_area [OF header_names(1,3)])
  have nu: "unat (nunits_of (of_nat (1024 * 2))) = 129" "unat (nunits_of (of_nat (1 * 8))) = 2" by (simp_all add: unat_nunits_of)
  have n3: "unat (nunits_of (of_nat n + of_nat cacheline_size)) \<le> 11" by (rule small_block [OF n128])
  obtain a1 p1 where p1: "pMalloc p (of_nat (1024 * 2)) = Some (Some a1, p1)" "mp_inv p1 ([(1, 0)] @ [(129, 382)])"
    using pMalloc_bump [OF p(2), of "of_nat (1024 * 2)"] nu by auto
  obtain a2 p2 where p2: "pMalloc p1 (of_nat (1 * 8)) = Some (Some a2, p2)" "mp_inv p2 ([(1, 0), (129, 0)] @ [(2, 380)])"
    using pMalloc_bump [of p1 "[(1, 0)]" 129 382 "of_nat (1 * 8)"] p1(2) nu by (auto simp: mp_ready_def)
  obtain a3 p3 where p3: "pMalloc p2 (of_nat n + of_nat cacheline_size) = Some (Some a3, p3)"
    using pMalloc_bump [of p2 "[(1, 0), (129, 0)]" 2 380 "of_nat n + of_nat cacheline_size"] p2(2) n3 by (auto simp: mp_ready_def)
  have "grants p (table_blocks 1024 (keys_of header_array) 1)"
    unfolding table_blocks_def n_def [symmetric] grants.simps by (simp only: p1(1) p2(1) p3 option.case prod.case grants.simps)
  moreover have "mp_live p (live_regions [(1, 511)])" using p(2) by (auto simp: mp_live_def)
  ultimately show ?thesis using p(1,3) by blast
qed


end
