(* ===== verification/Http_Response.thy ===== *)
theory Http_Response
  imports Http_Types
begin

text \<open>
  The responses of \<^verbatim>\<open>http/http_response.c\<close>: the error pages, the status line, and the two
  builders that fill the send buffer. What they do to the events of the connection is recorded
  as the list of calls they make. \<open>send_file\<close> is the loop around \<^verbatim>\<open>sendfile\<close>.
\<close>

section \<open>Texts\<close>

definition CRLF :: "char list" where
  "CRLF = [CR, LF]"

definition err_page_tail :: "char list" where
  "err_page_tail = ''<hr><center><span style='' @ [CHR 0x27] @ ''font-style: italic;'' @ [CHR 0x27] @ ''>'' @
     ''</span></center>'' @ CRLF @ ''</body>'' @ CRLF @ ''</html>'' @ CRLF"

text \<open>The pages \<^verbatim>\<open>err_301_page\<close> to \<^verbatim>\<open>err_507_page\<close> differ in their title only.\<close>

definition err_titles :: "(nat \<times> char list) list" where
  "err_titles = [
     (301, ''301 Moved Permanently''),
     (302, ''302 Found''),
     (303, ''303 See Other''),
     (307, ''307 Temporary Redirect''),
     (400, ''400 Bad Request''),
     (401, ''401 Authorization Required''),
     (402, ''402 Payment Required''),
     (403, ''403 Forbidden''),
     (404, ''404 Not Found''),
     (405, ''405 Not Allowed''),
     (406, ''406 Not Acceptable''),
     (407, ''407 Proxy Authentication Required''),
     (408, ''408 Request Time-out''),
     (409, ''409 Conflict''),
     (410, ''410 Gone''),
     (411, ''411 Length Required''),
     (412, ''412 Precondition Failed''),
     (413, ''413 Request Entity Too Large''),
     (414, ''414 Request-URI Too Large''),
     (415, ''415 Unsupported Media Type''),
     (416, ''416 Requested Range Not Satisfiable''),
     (417, ''417 Expectation Failed''),
     (500, ''500 Internal Server Error''),
     (501, ''501 Not Implemented''),
     (502, ''502 Bad Gateway''),
     (503, ''503 Service Temporarily Unavailable''),
     (504, ''504 Gateway Time-out''),
     (505, ''505 HTTP Version Not Supported''),
     (507, ''507 Insufficient Storage'')]"

definition err_page :: "nat \<Rightarrow> char list option" where
  "err_page err = map_option (\<lambda>t. ''<html>'' @ CRLF @ ''<head><title>'' @ t @ ''</title></head>'' @ CRLF @
     ''<body bgcolor=\"white\">'' @ CRLF @ ''<center><h1>'' @ t @ ''</h1></center>'' @ CRLF) (map_of err_titles err)"

text \<open>\<^verbatim>\<open>%d\<close> of a non-negative number.\<close>

fun decimal :: "nat \<Rightarrow> char list" where
  "decimal n = (if n < 10 then [char_of (48 + n)] else decimal (n div 10) @ [char_of (48 + n mod 10)])"

declare decimal.simps [simp del]

section \<open>Pieces of a response\<close>

text \<open>\<^verbatim>\<open>buffer_append_cstring(b, s)\<close>.\<close>

definition append_cstring :: "char list \<Rightarrow> buffer \<Rightarrow> buffer option" where
  "append_cstring s b = map_option snd (append_string_to_buffer b (STRING s))"

definition status_text :: "int \<Rightarrow> char list" where
  "status_text st =
     (if st = 100 then ''100 continue''
      else if st = 200 then ''200 OK''
      else if st = 404 then ''404 not found''
      else if st = 408 then ''408 Request Timeout''
      else if st = 502 then ''502 Bad Gateway''
      else if st = 503 then ''503 Service Temporarily Unavailable''
      else if st = 504 then ''504 Gateway Time-out''
      else ''500 Internal Server Error'')"

definition buffer_append_status_line :: "16 word \<Rightarrow> int \<Rightarrow> buffer \<Rightarrow> buffer option" where
  "buffer_append_status_line mi st b = do {
     b1 \<leftarrow> append_cstring (if mi = 1 then ''HTTP/1.1 '' else ''HTTP/1.2 '') b;
     b2 \<leftarrow> append_cstring (status_text st) b1;
     append_cstring CRLF b2
   }"

text \<open>
  The macro \<^verbatim>\<open>ERR_PAGE\<close>: \<open>n\<close> counts the page and the tail, and is also passed as the length of
  the page alone, so that the copy goes on behind the page's array. \<open>after\<close> is what the
  program's data holds there; the page is followed by its NUL.
\<close>

definition ERR_PAGE :: "char list \<Rightarrow> char list \<Rightarrow> buffer \<Rightarrow> buffer option" where
  "ERR_PAGE after page b = do {
     let n = length err_page_tail + length page;
     (_, b1) \<leftarrow> buffer_sprintf b (''Content-Length: '' @ decimal n @ CRLF);
     b2 \<leftarrow> append_cstring CRLF b1;
     (_, b3) \<leftarrow> append_string_to_buffer b2 \<lparr>chars = page @ [CHR 0x00] @ after, len = int n\<rparr>;
     Some b3
   }"

text \<open>The tail is appended with its NUL: \<^verbatim>\<open>sizeof(err_page_tail)\<close> counts it.\<close>

definition append_err_page :: "char list \<Rightarrow> buffer \<Rightarrow> nat \<Rightarrow> buffer option" where
  "append_err_page after b err = do {
     b1 \<leftarrow> (if err \<in> {400, 403, 404, 408, 500, 502, 503, 504}
       then Option.bind (err_page err) (\<lambda>page. ERR_PAGE after page b) else Some b);
     (_, b2) \<leftarrow> append_string_to_buffer b1
       \<lparr>chars = err_page_tail @ [CHR 0x00], len = int (length err_page_tail + 1)\<rparr>;
     Some b2
   }"

section \<open>The builders\<close>

text \<open>Calls on the events of the connection, in their order.\<close>

datatype event_call = Add_event_w | Del_event_r | Set_wev_handler_response

definition construct_err :: "char list \<Rightarrow> request \<Rightarrow> buffer \<Rightarrow> nat \<Rightarrow>
    (rc \<times> request \<times> buffer \<times> event_call list) option" where
  "construct_err after r sb err = do {
     let b = buffer_clear sb;
     b1 \<leftarrow> buffer_append_status_line (minor r) (int err) b;
     b2 \<leftarrow> append_cstring (''Server: pwebServer'' @ CRLF) b1;
     b3 \<leftarrow> append_cstring (''Connection: close'' @ CRLF) b2;
     b4 \<leftarrow> append_cstring (''Content-Type: text/html'' @ CRLF) b3;
     b5 \<leftarrow> append_err_page after b4 err;
     b6 \<leftarrow> append_cstring CRLF b5;
     Some (OK, r\<lparr>status := int err, response_done := True, keep_alive := False\<rparr>, b6,
       [Add_event_w, Del_event_r, Set_wev_handler_response])
   }"

definition content_type :: "extension_t \<Rightarrow> char list" where
  "content_type e =
     (case e of
        HTML \<Rightarrow> ''Content-Type: text/html; charset=utf-8''
      | TXT \<Rightarrow> ''Content-Type: text/plain; charset=utf-8''
      | JSON \<Rightarrow> ''Content-Type: application/json; charset=utf-8''
      | UNKNOWN_EXTENSION \<Rightarrow> ''Content-Type: text/html; charset=utf-8'') @ CRLF"

text \<open>
  The \<^verbatim>\<open>long\<close> length is formatted with \<^verbatim>\<open>%d\<close>, which reads an \<^verbatim>\<open>int\<close>: the text is modelled for
  lengths that fit.
\<close>

definition construct_response :: "request \<Rightarrow> buffer \<Rightarrow> buffer option" where
  "construct_response r sb = do {
     b1 \<leftarrow> buffer_append_status_line (minor r) (status r) (buffer_clear sb);
     e \<leftarrow> (case extension (r_uri r) of Ext_type e \<Rightarrow> Some e | Ext_str _ \<Rightarrow> None);
     b2 \<leftarrow> append_cstring (content_type e) b1;
     guard (0 \<le> resource_len r \<and> resource_len r < 2 ^ 31);
     (_, b3) \<leftarrow> buffer_sprintf b2 (''Content-Length: '' @ decimal (nat (resource_len r)) @ CRLF);
     append_cstring CRLF b3
   }"

section \<open>What gets into the send buffer\<close>

text \<open>\<open>grown b w b'\<close>: the buffer has got the bytes \<open>w\<close> at its end.\<close>

definition grown :: "buffer \<Rightarrow> char list \<Rightarrow> buffer \<Rightarrow> bool" where
  "grown b w b' \<longleftrightarrow> buffer_wf b' \<and> contents b' = contents b @ w \<and> bbegin b' = bbegin b \<and> bend b' = bend b + length w"

lemma grown_trans: "grown b v b1 \<Longrightarrow> grown b1 w b2 \<Longrightarrow> grown b (v @ w) b2"
  by (simp add: grown_def)

lemma append_grown:
  assumes "buffer_wf b" "bend b < limit" "bend b + nat (len s) \<le> limit" "0 \<le> len s" "nat (len s) \<le> length (chars s)"
  shows "\<exists>x b'. append_string_to_buffer b s = Some (x, b') \<and> grown b (take (nat (len s)) (chars s)) b'"
proof -
  obtain b' where "append_string_to_buffer b s = Some (min (int limit - int (bend b)) (len s), b')"
    "buffer_wf b'" "contents b' = contents b @ take (limit - bend b) (take (nat (len s)) (chars s))"
    "bbegin b' = bbegin b" "bend b' = min limit (bend b + nat (len s))"
    using append_ok [OF assms(1,2,4,5)] .
  then show ?thesis using assms(2,3,5) by (auto simp: grown_def)
qed

lemma append_cstring_grown:
  assumes "buffer_wf b" "bend b < limit" "bend b + length s \<le> limit"
  shows "\<exists>b'. append_cstring s b = Some b' \<and> grown b s b'"
  using append_grown [of b "STRING s"] assms by (auto simp: append_cstring_def STRING_def)

lemma sprintf_grown:
  assumes "buffer_wf b" "bend b + length s < limit"
  shows "\<exists>x b'. buffer_sprintf b s = Some (x, b') \<and> grown b s b'"
  using sprintf_ok [OF assms] by (metis grown_def)

lemma grown_wf: "grown b w b' \<Longrightarrow> buffer_wf b' \<and> bend b' = bend b + length w"
  by (simp add: grown_def)

definition status_line :: "16 word \<Rightarrow> int \<Rightarrow> char list" where
  "status_line mi st = (if mi = 1 then ''HTTP/1.1 '' else ''HTTP/1.2 '') @ status_text st @ CRLF"

lemma status_text_length: "length (status_text st) \<le> 35"
  by (simp add: status_text_def)

lemma CRLF_length [simp]: "length CRLF = 2"
  by (simp add: CRLF_def)

lemma status_line_length: "length (status_line mi st) \<le> 46"
  using status_text_length [of st] by (simp add: status_line_def)

lemma status_line_grown:
  assumes "buffer_wf b" "bend b + 46 < limit"
  shows "\<exists>b'. buffer_append_status_line mi st b = Some b' \<and> grown b (status_line mi st) b'"
proof -
  let ?v = "if mi = 1 then ''HTTP/1.1 '' else ''HTTP/1.2 ''"
  have l: "length ?v = 9" by simp
  obtain b1 where 1: "append_cstring ?v b = Some b1" "grown b ?v b1"
    using append_cstring_grown [of b ?v] assms l by auto
  obtain b2 where 2: "append_cstring (status_text st) b1 = Some b2" "grown b1 (status_text st) b2"
    using append_cstring_grown [of b1 "status_text st"] grown_wf [OF 1(2)] assms l status_text_length [of st] by auto
  obtain b3 where 3: "append_cstring CRLF b2 = Some b3" "grown b2 CRLF b3"
    using append_cstring_grown [of b2 CRLF] grown_wf [OF 1(2)] grown_wf [OF 2(2)] assms l status_text_length [of st] by auto
  have "buffer_append_status_line mi st b = Some b3"
    unfolding buffer_append_status_line_def using 1(1) 2(1) 3(1) by simp
  then show ?thesis using grown_trans [OF grown_trans [OF 1(2) 2(2)] 3(2)] by (auto simp: status_line_def)
qed

section \<open>Error responses\<close>

definition handled_errors :: "nat list" where
  "handled_errors = [400, 403, 404, 408, 500, 502, 503, 504]"

definition err_head :: "16 word \<Rightarrow> nat \<Rightarrow> nat \<Rightarrow> char list" where
  "err_head mi err n = status_line mi (int err) @ (''Server: pwebServer'' @ CRLF) @ (''Connection: close'' @ CRLF) @
     (''Content-Type: text/html'' @ CRLF) @ (''Content-Length: '' @ decimal n @ CRLF) @ CRLF"

text \<open>The body that is sent: the page, what follows the page in memory, and the tail.\<close>

definition err_body :: "char list \<Rightarrow> char list \<Rightarrow> char list" where
  "err_body after page = (page @ [CHR 0x00] @ take (length err_page_tail - 1) after) @
     (err_page_tail @ [CHR 0x00]) @ CRLF"

lemma tail_length: "length err_page_tail = 82"
  by (simp add: err_page_tail_def)

lemma err_page_length:
  assumes "err \<in> set handled_errors"
  obtains page where "err_page err = Some page" "length page \<le> 190" "length (decimal (82 + length page)) = 3"
proof -
  from assms consider "err = 400" | "err = 403" | "err = 404" | "err = 408" | "err = 500" | "err = 502" | "err = 503" | "err = 504"
    by (auto simp: handled_errors_def)
  then show thesis
    by cases (use that in \<open>simp_all add: err_page_def err_titles_def decimal.simps CRLF_def\<close>)
qed

lemma construct_err_text:
  assumes "err \<in> set handled_errors" "buffer_wf sb" "81 \<le> length after"
  shows "\<exists>page b. err_page err = Some page \<and>
    construct_err after r sb err = Some (OK, r\<lparr>status := int err, response_done := True, keep_alive := False\<rparr>, b,
      [Add_event_w, Del_event_r, Set_wev_handler_response]) \<and>
    buffer_wf b \<and> contents b = err_head (minor r) err (length err_page_tail + length page) @ err_body after page"
proof -
  obtain page where page: "err_page err = Some page" "length page \<le> 190" "length (decimal (82 + length page)) = 3"
    using err_page_length [OF assms(1)] .
  let ?b = "buffer_clear sb" and ?cl = "''Content-Length: '' @ decimal (82 + length page) @ CRLF"
    and ?pg = "\<lparr>chars = page @ [CHR 0x00] @ after, len = int (82 + length page)\<rparr>"
    and ?tl = "\<lparr>chars = err_page_tail @ [CHR 0x00], len = int (length err_page_tail + 1)\<rparr>"
  have b0: "buffer_wf ?b" "bend ?b = 0" using assms(2) by (simp, simp add: buffer_clear_def)
  have lim: "limit = 1025" by (simp add: limit_def BUF_SIZE_def)
  note sl = status_line_length [of "minor r" "int err"]
  obtain b1 where 1: "buffer_append_status_line (minor r) (int err) ?b = Some b1" "grown ?b (status_line (minor r) (int err)) b1"
    using status_line_grown [OF b0(1)] b0 lim by auto
  have w1: "buffer_wf b1" "bend b1 \<le> 46" using grown_wf [OF 1(2)] b0 sl by auto
  obtain b2 where 2: "append_cstring (''Server: pwebServer'' @ CRLF) b1 = Some b2" "grown b1 (''Server: pwebServer'' @ CRLF) b2"
    using append_cstring_grown [of b1 "''Server: pwebServer'' @ CRLF"] w1 lim by auto
  have w2: "buffer_wf b2" "bend b2 \<le> 66" using grown_wf [OF 2(2)] w1 by auto
  obtain b3 where 3: "append_cstring (''Connection: close'' @ CRLF) b2 = Some b3" "grown b2 (''Connection: close'' @ CRLF) b3"
    using append_cstring_grown [of b2 "''Connection: close'' @ CRLF"] w2 lim by auto
  have w3: "buffer_wf b3" "bend b3 \<le> 85" using grown_wf [OF 3(2)] w2 by auto
  obtain b4 where 4: "append_cstring (''Content-Type: text/html'' @ CRLF) b3 = Some b4" "grown b3 (''Content-Type: text/html'' @ CRLF) b4"
    using append_cstring_grown [of b3 "''Content-Type: text/html'' @ CRLF"] w3 lim by auto
  have w4: "buffer_wf b4" "bend b4 \<le> 110" using grown_wf [OF 4(2)] w3 by auto
  obtain x5 b5 where 5: "buffer_sprintf b4 ?cl = Some (x5, b5)" "grown b4 ?cl b5"
    using sprintf_grown [of b4 ?cl] w4 lim page(3) by auto
  have w5: "buffer_wf b5" "bend b5 \<le> 131" using grown_wf [OF 5(2)] w4 page(3) by auto
  obtain b6 where 6: "append_cstring CRLF b5 = Some b6" "grown b5 CRLF b6"
    using append_cstring_grown [of b5 CRLF] w5 lim by auto
  have w6: "buffer_wf b6" "bend b6 \<le> 133" using grown_wf [OF 6(2)] w5 by auto
  obtain x7 b7 where 7: "append_string_to_buffer b6 ?pg = Some (x7, b7)"
    "grown b6 (take (nat (len ?pg)) (chars ?pg)) b7"
    using append_grown [of b6 ?pg] w6 lim page(2) assms(3) by (auto simp: nat_add_distrib)
  have pg: "take (nat (len ?pg)) (chars ?pg) = page @ [CHR 0x00] @ take (length err_page_tail - 1) after"
    by (simp add: tail_length nat_add_distrib)
  have w7: "buffer_wf b7" "bend b7 \<le> 410" using grown_wf [OF 7(2)] w6 page(2) by auto
  obtain x8 b8 where 8: "append_string_to_buffer b7 ?tl = Some (x8, b8)" "grown b7 (take (nat (len ?tl)) (chars ?tl)) b8"
    using append_grown [of b7 ?tl] w7 lim by (auto simp: tail_length)
  have tl: "take (nat (len ?tl)) (chars ?tl) = err_page_tail @ [CHR 0x00]" by (simp add: nat_add_distrib)
  have w8: "buffer_wf b8" "bend b8 \<le> 498" using grown_wf [OF 8(2)] w7 by (auto simp: tail_length)
  obtain b9 where 9: "append_cstring CRLF b8 = Some b9" "grown b8 CRLF b9"
    using append_cstring_grown [of b8 CRLF] w8 lim by auto
  have "err \<in> {400, 403, 404, 408, 500, 502, 503, 504}" using assms(1) by (auto simp: handled_errors_def)
  then have "append_err_page after b4 err = Some b8"
    unfolding append_err_page_def ERR_PAGE_def Let_def tail_length
    using 5(1) 6(1) 7(1) 8(1) page(1) unfolding tail_length by simp
  then have c: "construct_err after r sb err = Some (OK, r\<lparr>status := int err, response_done := True, keep_alive := False\<rparr>, b9,
      [Add_event_w, Del_event_r, Set_wev_handler_response])"
    unfolding construct_err_def Let_def using 1(1) 2(1) 3(1) 4(1) 9(1) by simp
  have "grown ?b (status_line (minor r) (int err) @ (''Server: pwebServer'' @ CRLF) @ (''Connection: close'' @ CRLF) @
      (''Content-Type: text/html'' @ CRLF) @ ?cl @ CRLF @ (page @ [CHR 0x00] @ take (length err_page_tail - 1) after) @
      (err_page_tail @ [CHR 0x00]) @ CRLF) b9"
    by (rule grown_trans [OF 1(2)], rule grown_trans [OF 2(2)], rule grown_trans [OF 3(2)], rule grown_trans [OF 4(2)],
        rule grown_trans [OF 5(2)], rule grown_trans [OF 6(2)], rule grown_trans [OF 7(2) [unfolded pg]],
        rule grown_trans [OF 8(2) [unfolded tl]], rule 9(2))
  then have "buffer_wf b9 \<and> contents b9 = err_head (minor r) err (length err_page_tail + length page) @ err_body after page"
    by (simp add: grown_def err_head_def err_body_def tail_length)
  then show ?thesis using c page(1) by blast
qed

section \<open>The response header of a file\<close>

definition response_head :: "16 word \<Rightarrow> int \<Rightarrow> extension_t \<Rightarrow> nat \<Rightarrow> char list" where
  "response_head mi st e n = status_line mi st @ content_type e @ (''Content-Length: '' @ decimal n @ CRLF) @ CRLF"

lemma decimal_length: "n < 10 ^ Suc k \<Longrightarrow> length (decimal n) \<le> Suc k"
proof (induction k arbitrary: n)
  case 0
  then show ?case by (simp add: decimal.simps)
next
  case (Suc k)
  have "n div 10 < 10 ^ Suc k" using Suc.prems by (simp add: div_less_iff_less_mult)
  then show ?case using Suc.IH [of "n div 10"] by (subst decimal.simps) simp
qed

lemma construct_response_text:
  assumes "buffer_wf sb" "extension (r_uri r) = Ext_type e" "0 \<le> resource_len r" "resource_len r < 2 ^ 31"
  shows "\<exists>b. construct_response r sb = Some b \<and> buffer_wf b \<and>
    contents b = response_head (minor r) (status r) e (nat (resource_len r))"
proof -
  let ?b = "buffer_clear sb" and ?cl = "''Content-Length: '' @ decimal (nat (resource_len r)) @ CRLF"
  have b0: "buffer_wf ?b" "bend ?b = 0" using assms(1) by (simp, simp add: buffer_clear_def)
  have lim: "limit = 1025" by (simp add: limit_def BUF_SIZE_def)
  have "nat (resource_len r) < 10 ^ Suc 9" using assms(3,4) by simp
  then have dl: "length (decimal (nat (resource_len r))) \<le> 10" using decimal_length [of "nat (resource_len r)" 9] by simp
  have ct: "length (content_type e) \<le> 50" by (cases e) (simp_all add: content_type_def)
  obtain b1 where 1: "buffer_append_status_line (minor r) (status r) ?b = Some b1" "grown ?b (status_line (minor r) (status r)) b1"
    using status_line_grown [OF b0(1)] b0 lim by auto
  have w1: "buffer_wf b1" "bend b1 \<le> 46" using grown_wf [OF 1(2)] b0 status_line_length [of "minor r" "status r"] by auto
  obtain b2 where 2: "append_cstring (content_type e) b1 = Some b2" "grown b1 (content_type e) b2"
    using append_cstring_grown [of b1 "content_type e"] w1 lim ct by auto
  have w2: "buffer_wf b2" "bend b2 \<le> 96" using grown_wf [OF 2(2)] w1 ct by auto
  obtain x3 b3 where 3: "buffer_sprintf b2 ?cl = Some (x3, b3)" "grown b2 ?cl b3"
    using sprintf_grown [of b2 ?cl] w2 lim dl by auto
  have w3: "buffer_wf b3" "bend b3 \<le> 124" using grown_wf [OF 3(2)] w2 dl by auto
  obtain b4 where 4: "append_cstring CRLF b3 = Some b4" "grown b3 CRLF b4"
    using append_cstring_grown [of b3 CRLF] w3 lim by auto
  have "construct_response r sb = Some b4"
    unfolding construct_response_def using 1(1) 2(1) 3(1) 4(1) assms(2-4) by simp
  moreover have "grown ?b (status_line (minor r) (status r) @ content_type e @ ?cl @ CRLF) b4"
    by (rule grown_trans [OF 1(2)], rule grown_trans [OF 2(2)], rule grown_trans [OF 3(2)], rule 4(2))
  ultimately show ?thesis by (auto simp: grown_def response_head_def)
qed

section \<open>send_file\<close>

text \<open>
  An answer of \<^verbatim>\<open>sendfile\<close>; each kind but the last comes with the number of bytes that have been
  sent, which the call also stores in its length argument. A socket with nothing more to say
  cannot take more bytes.
\<close>

datatype file_out = File_sent nat | File_again nat | File_intr nat | File_error

text \<open>
  What \<^verbatim>\<open>sendfile\<close> sends at most: what is left of the file, and no more than it is asked for, where 0
  asks for everything up to the end.
\<close>

definition file_room :: "char list \<Rightarrow> nat \<Rightarrow> nat \<Rightarrow> nat" where
  "file_room file off should = (if should = 0 then length file - off else min should (length file - off))"

text \<open>
  One run of the loop: \<open>should\<close> is \<^verbatim>\<open>should_send_len\<close>. \<^verbatim>\<open>resource_off\<close> is an \<^verbatim>\<open>int\<close>, and
  \<^verbatim>\<open>sendfile\<close> refuses a negative offset with \<^verbatim>\<open>EINVAL\<close>. The last component is what has gone out.
\<close>

fun send_loop :: "char list \<Rightarrow> request \<Rightarrow> nat \<Rightarrow> file_out list \<Rightarrow> (rc \<times> request \<times> char list) option" where
  "send_loop file r should [] = (if resource_off r < 0 then Some (ERROR, r, []) else Some (AGAIN, r, []))"
| "send_loop file r should (ev # evs) =
     (if resource_off r < 0 then Some (ERROR, r, [])
      else
        let off = nat (resource_off r); out = (\<lambda>k. take k (drop off file)) in
        case ev of
          File_sent k \<Rightarrow>
            (let n = min k (file_room file off should);
                 r' = r\<lparr>resource_off := c_int (resource_off r + int n), resource_len := resource_len r - int n\<rparr> in
             if resource_len r' \<noteq> 0 then None else Some (OK, r', out n))
        | File_again k \<Rightarrow>
            (let n = min k (file_room file off should) in
             Some (AGAIN, r\<lparr>resource_len := resource_len r - int n, resource_off := c_int (resource_off r + int n)\<rparr>, out n))
        | File_intr k \<Rightarrow>
            (let n = min k (file_room file off should) in
             map_option (\<lambda>(c, r', w). (c, r', out n @ w)) (send_loop file r n evs))
        | File_error \<Rightarrow> Some (ERROR, r, []))"

definition send_file :: "char list \<Rightarrow> request \<Rightarrow> file_out list \<Rightarrow> (rc \<times> request \<times> char list) option" where
  "send_file file r evs = send_loop file r (nat (resource_len r)) evs"

text \<open>
  The remaining part of the file is the one from \<^verbatim>\<open>resource_off\<close> on.
\<close>

definition file_left :: "char list \<Rightarrow> request \<Rightarrow> bool" where
  "file_left file r \<longleftrightarrow> 0 \<le> resource_off r \<and> 0 \<le> resource_len r \<and> resource_off r + resource_len r = int (length file)"

lemma file_left_room: "file_left file r \<Longrightarrow> file_room file (nat (resource_off r)) (nat (resource_len r)) = nat (resource_len r)"
  by (auto simp: file_left_def file_room_def nat_diff_distrib)

text \<open>
  Without an interruption in mid-transfer, and when the last call sends all it is asked for,
  the bytes that go out are the next ones of the file.
\<close>

lemma send_file_progress:
  assumes l: "file_left file r" "length file < 2 ^ 31"
    and e: "evs = [] \<or> (\<exists>k es. evs = File_again k # es) \<or> (\<exists>es. evs = File_error # es) \<or>
      (\<exists>es. evs = File_sent (nat (resource_len r)) # es)"
  shows "\<exists>c r' w. send_file file r evs = Some (c, r', w) \<and> file_left file r' \<and>
    drop (nat (resource_off r)) file = w @ drop (nat (resource_off r')) file \<and> (c = OK \<longrightarrow> resource_len r' = 0)"
proof -
  note room = file_left_room [OF l(1)]
  have pos: "\<not> resource_off r < 0" and len: "0 \<le> resource_len r" using l(1) by (simp_all add: file_left_def)
  have split: "drop (nat (resource_off r)) file = take n (drop (nat (resource_off r)) file) @ drop (nat (resource_off r) + n) file" for n
    by (metis append_take_drop_id add.commute drop_drop)
  have step: "\<exists>c r' w. Some (c0, r\<lparr>resource_off := c_int (resource_off r + int n), resource_len := resource_len r - int n\<rparr>,
        take n (drop (nat (resource_off r)) file)) = Some (c, r', w) \<and> file_left file r' \<and>
      drop (nat (resource_off r)) file = w @ drop (nat (resource_off r')) file \<and> (c = OK \<longrightarrow> resource_len r' = 0)"
    if n: "int n \<le> resource_len r" "c0 = OK \<longrightarrow> int n = resource_len r" for c0 n
  proof -
    have "resource_off r + int n < 2 ^ 31" using l n(1) by (simp add: file_left_def)
    then have "c_int (resource_off r + int n) = resource_off r + int n" using pos by (intro c_int_small) simp_all
    moreover have "nat (resource_off r + int n) = nat (resource_off r) + n" using pos by (simp add: nat_add_distrib)
    ultimately show ?thesis using l(1) n split [of n] by (auto simp: file_left_def)
  qed
  show ?thesis
    using e
  proof (elim disjE exE)
    fix k es assume e: "evs = File_again k # es"
    have "int (min k (nat (resource_len r))) \<le> resource_len r"
      using l(1) by (auto simp: file_left_def)
    then show ?thesis unfolding send_file_def e
      using step [of "min k (nat (resource_len r))" AGAIN] pos room by (simp add: Let_def file_left_def)
  next
    fix es assume e: "evs = File_sent (nat (resource_len r)) # es"
    show ?thesis unfolding send_file_def e
      using step [of "nat (resource_len r)" OK] pos room len by (simp add: Let_def)
  qed (use l(1) pos in \<open>auto simp: send_file_def\<close>)
qed

text \<open>
  A file of 2 GiB or more is not sent to its end: once the position has passed 2 GiB it is negative, and
  from then on \<^verbatim>\<open>sendfile\<close> fails.
\<close>

lemma send_file_wraps:
  assumes "file_left file r" "resource_off r < 2 ^ 31" "2 ^ 31 \<le> resource_off r + int n" "int n < resource_len r" "n < 2 ^ 31"
  shows "\<exists>r' w. send_file file r [File_again n] = Some (AGAIN, r', w) \<and> resource_off r' < 0 \<and> 0 < resource_len r' \<and>
    (\<forall>evs. send_file file r' evs = Some (ERROR, r', []))"
proof -
  have "min n (nat (resource_len r)) = n" using assms(4) by simp
  moreover have "c_int (resource_off r + int n) = resource_off r + int n - 2 ^ 32" using assms by (intro c_int_wraps) simp_all
  moreover have "\<not> resource_off r < 0" using assms(1) by (simp add: file_left_def)
  ultimately have "send_file file r [File_again n] = Some (AGAIN, r\<lparr>resource_len := resource_len r - int n,
      resource_off := resource_off r + int n - 2 ^ 32\<rparr>, take n (drop (nat (resource_off r)) file))"
    using file_left_room [OF assms(1)] by (simp add: send_file_def Let_def)
  moreover have "send_file file x evs = Some (ERROR, x, [])" if "resource_off x < 0" for x evs
    using that by (cases evs) (simp_all add: send_file_def)
  ultimately show ?thesis using assms(2-5) by auto
qed

section \<open>Properties\<close>

lemma err_body_length:
  assumes "81 \<le> length after"
  shows "length (err_body after page) = length err_page_tail + length page + 85"
  using assms by (simp add: err_body_def tail_length)

lemma received_buffer_wf: "length w \<le> limit \<Longrightarrow> buffer_wf (received w)"
  using received_wf by blast

text \<open>
  C35. An error response for one of the codes that have a page fits the send buffer: it is the
  status line, the headers and the page, the request is marked as answered with its connection
  not kept alive, and the write event is armed. Its body is 85 bytes longer than the
  \<^verbatim>\<open>Content-Length\<close> it announces.
\<close>

theorem error_response_text:
  assumes "err \<in> set handled_errors" "buffer_wf sb" "81 \<le> length after"
  shows "\<exists>page b. err_page err = Some page \<and>
    construct_err after r sb err = Some (OK, r\<lparr>status := int err, response_done := True, keep_alive := False\<rparr>, b,
      [Add_event_w, Del_event_r, Set_wev_handler_response]) \<and>
    buffer_wf b \<and> contents b = err_head (minor r) err (length err_page_tail + length page) @ err_body after page \<and>
    length (err_body after page) = length err_page_tail + length page + 85"
  using construct_err_text [OF assms, of r] err_body_length [OF assms(3)] by metis

theorem error_response_text_witness:
  "\<exists>b ev. construct_err (replicate 81 (CHR 0x00)) zero_request (received ''old'') 404 =
    Some (OK, zero_request\<lparr>status := 404, response_done := True, keep_alive := False\<rparr>, b, ev) \<and> buffer_wf b"
proof -
  have "404 \<in> set handled_errors" by (simp add: handled_errors_def)
  moreover have "buffer_wf (received ''old'')" by (rule received_buffer_wf) (simp add: limit_def BUF_SIZE_def)
  ultimately show ?thesis
    using error_response_text [of 404 "received ''old''" "replicate 81 (CHR 0x00)" zero_request] by fastforce
qed

text \<open>
  C36. The header of a successful response always fits the send buffer, and is the status line,
  the content type of the file's extension, and the length of the file.
\<close>

theorem response_header_text:
  assumes "buffer_wf sb" "extension (r_uri r) = Ext_type e" "0 \<le> resource_len r" "resource_len r < 2 ^ 31"
  shows "\<exists>b. construct_response r sb = Some b \<and> buffer_wf b \<and>
    contents b = response_head (minor r) (status r) e (nat (resource_len r))"
  by (rule construct_response_text [OF assms])

theorem response_header_text_witness:
  "\<exists>b. construct_response (zero_request\<lparr>minor := 1, status := 200, resource_len := 42,
      r_uri := zero_uri\<lparr>extension := Ext_type TXT\<rparr>\<rparr>) (received []) = Some b \<and>
    contents b = ''HTTP/1.1 200 OK'' @ CRLF @ ''Content-Type: text/plain; charset=utf-8'' @ CRLF @
      ''Content-Length: 42'' @ CRLF @ CRLF"
proof -
  let ?r = "zero_request\<lparr>minor := 1, status := 200, resource_len := 42, r_uri := zero_uri\<lparr>extension := Ext_type TXT\<rparr>\<rparr>"
  have w: "buffer_wf (received [])" by (rule received_buffer_wf) simp
  have d: "decimal 42 = ''42''" by code_simp
  obtain b where b: "construct_response ?r (received []) = Some b" "contents b = response_head 1 200 TXT 42"
    using response_header_text [OF w, of ?r TXT] by auto
  have "response_head 1 200 TXT 42 = ''HTTP/1.1 200 OK'' @ CRLF @ ''Content-Type: text/plain; charset=utf-8'' @ CRLF @
      ''Content-Length: 42'' @ CRLF @ CRLF"
    by (simp add: response_head_def status_line_def status_text_def content_type_def d)
  with b show ?thesis by metis
qed

text \<open>
  C37. \<open>send_file\<close> sends a file of less than 2 GiB in order and without a gap when no interruption hits a
  transfer: the bytes that go out are the next ones, the offset moves by as many, and \<^verbatim>\<open>OK\<close> means
  that the whole file is out. (For longer files \<open>send_file_wraps\<close> shows the offset to overflow.)
\<close>

theorem send_file_in_order:
  assumes "file_left file r" "length file < 2 ^ 31"
    and "evs = [] \<or> (\<exists>k es. evs = File_again k # es) \<or> (\<exists>es. evs = File_error # es) \<or>
      (\<exists>es. evs = File_sent (nat (resource_len r)) # es)"
  shows "\<exists>c r' w. send_file file r evs = Some (c, r', w) \<and> file_left file r' \<and>
    drop (nat (resource_off r)) file = w @ drop (nat (resource_off r')) file \<and> (c = OK \<longrightarrow> resource_len r' = 0)"
  by (rule send_file_progress [OF assms])

theorem send_file_in_order_witness:
  "\<exists>c r' w. send_file ''abcdef'' (zero_request\<lparr>resource_off := 1, resource_len := 5\<rparr>) [File_again 2] = Some (c, r', w) \<and>
    ''bcdef'' = w @ drop (nat (resource_off r')) ''abcdef''"
proof -
  have "file_left ''abcdef'' (zero_request\<lparr>resource_off := 1, resource_len := 5\<rparr>)" by (simp add: file_left_def)
  from send_file_in_order [OF this, of "[File_again 2]"] show ?thesis by auto
qed

text \<open>
  C38. An interruption in mid-transfer breaks \<open>send_file\<close>: the call goes round again with the
  number of bytes already sent as the number to send and the offset unchanged, so that the same
  bytes go out a second time, and a call that then succeeds ends in the abort. (The offset moves by the
  second number only, as an \<^verbatim>\<open>int\<close>.)
\<close>

theorem send_file_interrupted:
  assumes "file_left file r" "0 < k" "int k < resource_len r" "j \<le> k"
  shows "send_file file r [File_intr k, File_sent j] = None \<and>
    (\<exists>r'. send_file file r [File_intr k, File_again j] =
      Some (AGAIN, r', take k (drop (nat (resource_off r)) file) @ take j (drop (nat (resource_off r)) file)) \<and>
      resource_off r' = c_int (resource_off r + int j) \<and>
      (resource_off r + int j < 2 ^ 31 \<longrightarrow> resource_off r' = resource_off r + int j))"
proof -
  have k: "min k (nat (resource_len r)) = k" "\<not> resource_off r < 0" "resource_len r \<noteq> int j" using assms by (auto simp: file_left_def)
  have "k \<le> length file - nat (resource_off r)" using assms unfolding file_left_def by linarith
  then have "file_room file (nat (resource_off r)) k = k" using assms(2) by (simp add: file_room_def)
  then show ?thesis
    using assms(4) k file_left_room [OF assms(1)] c_int_small [of "resource_off r + int j"] by (simp add: send_file_def Let_def)
qed

theorem send_file_interrupted_witness:
  "\<exists>r'. send_file ''abcdef'' (zero_request\<lparr>resource_len := 6\<rparr>) [File_intr 3, File_again 2] = Some (AGAIN, r', ''abcab'')"
proof -
  have "file_left ''abcdef'' (zero_request\<lparr>resource_len := 6\<rparr>)" by (simp add: file_left_def zero_request_def)
  from send_file_interrupted [OF this, of 3 2] show ?thesis by (auto simp: zero_request_def)
qed

end
