(* ===== verification/Uri_Parser.thy ===== *)
theory Uri_Parser
  imports Byte_Scan
begin

text \<open>
  \<open>parse_uri\<close> of \<^verbatim>\<open>http/http.c\<close>, one byte of the request target per call, with the
  invariant that relates its state and the slices it records to the bytes it has seen.
\<close>

section \<open>The state machine\<close>

text \<open>The macros \<^verbatim>\<open>ALLOWED_IN_ABS_PATH\<close> and \<^verbatim>\<open>ALLOWED_IN_QUERY\<close>.\<close>

definition allowed_in_abs_path :: "char \<Rightarrow> bool" where
  "allowed_in_abs_path c \<longleftrightarrow> upper c \<or> lower c \<or> digit c \<or>
     c \<in> set [CHR ''-'', CHR ''_'', CHR ''!'', CHR ''~'', CHR ''*'', CHR 0x27, CHR ''('', CHR '')'',
       CHR ''%'', CHR '':'', CHR ''@'', CHR ''&'', CHR ''='', CHR ''+'', CHR ''$'', CHR '','', CHR '';'']"

definition allowed_in_query :: "char \<Rightarrow> bool" where
  "allowed_in_query c \<longleftrightarrow> c \<in> set [CHR ''.'', CHR ''/'', CHR ''?''] \<or> allowed_in_abs_path c"

definition allowed_in_scheme :: "char \<Rightarrow> bool" where
  "allowed_in_scheme c \<longleftrightarrow> upper c \<or> lower c \<or> digit c \<or> c \<in> set [CHR ''+'', CHR ''-'', CHR ''.'']"

definition allowed_in_host :: "char \<Rightarrow> bool" where
  "allowed_in_host c \<longleftrightarrow> upper c \<or> lower c \<or> digit c \<or> c \<in> set [CHR ''.'', CHR ''-'']"

text \<open>Accesses to members: \<^verbatim>\<open>s.c = p\<close> and \<^verbatim>\<open>s.len = p - s.c\<close>.\<close>

definition mark :: "nat \<Rightarrow> pstr \<Rightarrow> pstr" where
  "mark p s = s\<lparr>pc := At p\<rparr>"

definition measure_to :: "nat \<Rightarrow> pstr \<Rightarrow> pstr option" where
  "measure_to p s = map_option (\<lambda>n. s\<lparr>pl := n\<rparr>) (ptr_diff (At p) (pc s))"

text \<open>The same for the \<^verbatim>\<open>extension_str\<close> member of the union, which must be the live one.\<close>

definition ext_mark :: "nat \<Rightarrow> extension_u \<Rightarrow> extension_u option" where
  "ext_mark p e = (case e of Ext_str s \<Rightarrow> Some (Ext_str (mark p s)) | Ext_type _ \<Rightarrow> None)"

definition ext_measure :: "nat \<Rightarrow> extension_u \<Rightarrow> extension_u option" where
  "ext_measure p e = (case e of Ext_str s \<Rightarrow> map_option Ext_str (measure_to p s) | Ext_type _ \<Rightarrow> None)"

text \<open>\<^verbatim>\<open>++(port.c); port.len = p - port.c\<close>: skip the colon.\<close>

definition port_end :: "nat \<Rightarrow> pstr \<Rightarrow> pstr option" where
  "port_end p s = do { c \<leftarrow> ptr_add (pc s) 1; measure_to p (s\<lparr>pc := c\<rparr>) }"

definition parse_uri :: "uri \<Rightarrow> char list \<Rightarrow> nat \<Rightarrow> (rc \<times> uri) option" where
  "parse_uri u d p = (let ch = d ! p in
     case u_state u of
       URI_BEGIN \<Rightarrow>
         if ch = CHR ''/'' then Some (OK, u\<lparr>u_state := URI_SLASH_BEFORE_ABS_PATH\<rparr>)
         else if alpha ch then Some (OK, u\<lparr>scheme := mark p (scheme u), u_state := URI_SCHEME\<rparr>)
         else Some (ERROR, u)
     | URI_SCHEME \<Rightarrow>
         if allowed_in_scheme ch then Some (OK, u)
         else if ch = CHR '':'' then do {
           s \<leftarrow> measure_to p (scheme u);
           Some (OK, u\<lparr>scheme := s, u_state := URI_SCHEME_COLON\<rparr>)
         }
         else Some (ERROR, u)
     | URI_SCHEME_COLON \<Rightarrow>
         if ch = CHR ''/'' then Some (OK, u\<lparr>u_state := URI_SLASH_AFTER_SCHECME\<rparr>)
         else Some (ERROR, u)
     | URI_SLASH_AFTER_SCHECME \<Rightarrow>
         if ch = CHR ''/'' then Some (OK, u\<lparr>u_state := URI_SLASH_SLASH_AFTER_SCHECME\<rparr>)
         else Some (ERROR, u)
     | URI_SLASH_SLASH_AFTER_SCHECME \<Rightarrow>
         if alpha ch \<or> digit ch then Some (OK, u\<lparr>host := mark p (host u), u_state := URI_HOST\<rparr>)
         else Some (ERROR, u)
     | URI_HOST \<Rightarrow>
         if allowed_in_host ch then Some (OK, u)
         else if ch = CHR '':'' then do {
           h \<leftarrow> measure_to p (host u);
           Some (OK, u\<lparr>host := h, u_state := URI_PORT, u_port := mark p (u_port u)\<rparr>)
         }
         else if ch = CHR ''/'' then do {
           h \<leftarrow> measure_to p (host u);
           Some (OK, u\<lparr>host := h, u_state := URI_SLASH_BEFORE_ABS_PATH\<rparr>)
         }
         else Some (ERROR, u)
     | URI_PORT \<Rightarrow>
         if digit ch then Some (OK, u)
         else if ch = CHR ''/'' then do {
           s \<leftarrow> port_end p (u_port u);
           Some (OK, u\<lparr>u_port := s, u_state := URI_SLASH_BEFORE_ABS_PATH\<rparr>)
         }
         else Some (ERROR, u)
     | URI_SLASH_BEFORE_ABS_PATH \<Rightarrow>
         if allowed_in_abs_path ch
         then Some (OK, u\<lparr>u_state := URI_ABS_PATH, abs_path := mark p (abs_path u)\<rparr>)
         else Some (ERROR, u)
     | URI_ABS_PATH \<Rightarrow>
         if allowed_in_abs_path ch then Some (OK, u)
         else if ch = CHR ''.'' then do {
           a \<leftarrow> measure_to p (abs_path u);
           Some (OK, u\<lparr>abs_path := a, u_state := URI_BEFORE_EXTENSION\<rparr>)
         }
         else if ch = CHR ''?'' then Some (OK, u\<lparr>u_state := URI_BEFORE_QUERY\<rparr>)
         else Some (OK, u)
     | URI_BEFORE_EXTENSION \<Rightarrow>
         if alpha ch then do {
           e \<leftarrow> ext_mark p (extension u);
           Some (OK, u\<lparr>extension := e, u_state := URI_EXTENSION\<rparr>)
         }
         else Some (ERROR, u)
     | URI_EXTENSION \<Rightarrow>
         if alpha ch then Some (OK, u)
         else if ch = CHR ''?'' then do {
           e \<leftarrow> ext_measure p (extension u);
           Some (OK, u\<lparr>extension := e, u_state := URI_BEFORE_QUERY\<rparr>)
         }
         else Some (ERROR, u)
     | URI_BEFORE_QUERY \<Rightarrow>
         if allowed_in_query ch then Some (OK, u\<lparr>query := mark p (query u), u_state := URI_QUERY\<rparr>)
         else Some (ERROR, u)
     | URI_QUERY \<Rightarrow> if allowed_in_query ch then Some (OK, u) else Some (ERROR, u)
     | _ \<Rightarrow> Some (ERROR, u))"

text \<open>
  The end of the target, in the \<^verbatim>\<open>' '\<close> case of state \<^verbatim>\<open>RQ_URI\<close>: the open slice gets its
  length. The final \<^verbatim>\<open>ABORT_ON(0, ..)\<close> never aborts, so every other state passes.
\<close>

definition close_uri :: "uri \<Rightarrow> nat \<Rightarrow> uri option" where
  "close_uri u p =
     (if u_state u = URI_ABS_PATH
      then map_option (\<lambda>a. u\<lparr>abs_path := a\<rparr>) (measure_to p (abs_path u))
      else if u_state u = URI_HOST
      then map_option (\<lambda>h. u\<lparr>host := h\<rparr>) (measure_to p (host u))
      else if u_state u = URI_PORT
      then map_option (\<lambda>s. u\<lparr>u_port := s\<rparr>) (port_end p (u_port u))
      else if u_state u = URI_EXTENSION
      then map_option (\<lambda>e. u\<lparr>extension := e\<rparr>) (ext_measure p (extension u))
      else if u_state u = URI_QUERY
      then map_option (\<lambda>q. u\<lparr>query := q\<rparr>) (measure_to p (query u))
      else Some u)"

section \<open>The invariant\<close>

text \<open>
  \<open>plain d i j\<close>: the bytes from \<open>i\<close> to \<open>j\<close> can stand in the path before its extension.
  The first one is from the allowed set, and none is a dot or a question mark.
\<close>

definition plain :: "char list \<Rightarrow> nat \<Rightarrow> nat \<Rightarrow> bool" where
  "plain d i j \<longleftrightarrow> i < j \<and> allowed_in_abs_path (d ! i) \<and>
     (\<forall>k. i \<le> k \<and> k < j \<longrightarrow> d ! k \<noteq> CHR ''.'' \<and> d ! k \<noteq> CHR ''?'')"

definition letters :: "char list \<Rightarrow> nat \<Rightarrow> nat \<Rightarrow> bool" where
  "letters d i j \<longleftrightarrow> i < j \<and> (\<forall>k. i \<le> k \<and> k < j \<longrightarrow> alpha (d ! k))"

definition no_ext :: "uri \<Rightarrow> bool" where
  "no_ext u \<longleftrightarrow> extension u = Ext_str NULL_PSTR"

definition no_path :: "uri \<Rightarrow> bool" where
  "no_path u \<longleftrightarrow> abs_path u = NULL_PSTR \<and> no_ext u"

text \<open>
  \<open>path_at d u p\<close>: the recorded path and extension, all of it before \<open>p\<close>, in one of the four
  forms the parser produces: none; a path whose length has not been set (a query follows it);
  a path; a path with an extension.
\<close>

definition path_at :: "char list \<Rightarrow> uri \<Rightarrow> nat \<Rightarrow> bool" where
  "path_at d u p \<longleftrightarrow> no_path u \<or>
     (\<exists>i. abs_path u = \<lparr>pc = At i, pl = 0\<rparr> \<and> no_ext u \<and> i < p \<and> plain d i (Suc i)) \<or>
     (\<exists>i j. abs_path u = \<lparr>pc = At i, pl = int (j - i)\<rparr> \<and> no_ext u \<and> j \<le> p \<and> plain d i j) \<or>
     (\<exists>i j k. abs_path u = \<lparr>pc = At i, pl = int (j - i)\<rparr> \<and> plain d i j \<and> d ! j = CHR ''.'' \<and>
        extension u = Ext_str \<lparr>pc = At (Suc j), pl = int (k - Suc j)\<rparr> \<and> letters d (Suc j) k \<and> k \<le> p)"

definition uri_inv :: "uri \<Rightarrow> char list \<Rightarrow> nat \<Rightarrow> bool" where
  "uri_inv u d p \<longleftrightarrow>
     (case u_state u of
        URI_BEGIN \<Rightarrow> u = zero_uri
      | URI_SCHEME \<Rightarrow> no_path u \<and> (\<exists>i<p. pc (scheme u) = At i)
      | URI_HOST \<Rightarrow> no_path u \<and> (\<exists>i<p. pc (host u) = At i)
      | URI_PORT \<Rightarrow> no_path u \<and> (\<exists>i<p. pc (u_port u) = At i)
      | URI_ABS_PATH \<Rightarrow> no_ext u \<and> (\<exists>i. abs_path u = \<lparr>pc = At i, pl = 0\<rparr> \<and> plain d i p)
      | URI_BEFORE_EXTENSION \<Rightarrow> no_ext u \<and>
          (\<exists>i j. abs_path u = \<lparr>pc = At i, pl = int (j - i)\<rparr> \<and> plain d i j \<and> d ! j = CHR ''.'' \<and> p = Suc j)
      | URI_EXTENSION \<Rightarrow>
          (\<exists>i j. abs_path u = \<lparr>pc = At i, pl = int (j - i)\<rparr> \<and> plain d i j \<and> d ! j = CHR ''.'' \<and>
             extension u = Ext_str \<lparr>pc = At (Suc j), pl = 0\<rparr> \<and> letters d (Suc j) p)
      | URI_BEFORE_QUERY \<Rightarrow> path_at d u p
      | URI_QUERY \<Rightarrow> path_at d u p \<and> (\<exists>i<p. pc (query u) = At i)
      | URI_SLASH_AFTER_HOST \<Rightarrow> False
      | URI_SLASH_SLASH_AFTER_HOST \<Rightarrow> False
      | _ \<Rightarrow> no_path u)"

lemma plain_Suc: "plain d i p \<Longrightarrow> d ! p \<noteq> CHR ''.'' \<Longrightarrow> d ! p \<noteq> CHR ''?'' \<Longrightarrow> plain d i (Suc p)"
  by (auto simp: plain_def less_Suc_eq)

lemma letters_Suc: "letters d i p \<Longrightarrow> alpha (d ! p) \<Longrightarrow> letters d i (Suc p)"
  by (auto simp: letters_def less_Suc_eq)

lemma letters_first: "alpha (d ! i) \<Longrightarrow> letters d i (Suc i)"
  by (auto simp: letters_def less_Suc_eq dest: le_antisym)

lemma allowed_not_dot: "allowed_in_abs_path c \<Longrightarrow> c \<noteq> CHR ''.'' \<and> c \<noteq> CHR ''?'' \<and> c \<noteq> CHR ''/'' \<and> c \<noteq> CHR 0x00"
  by (auto simp: allowed_in_abs_path_def upper_def lower_def digit_def code_def)

lemma plain_first: "allowed_in_abs_path (d ! i) \<Longrightarrow> plain d i (Suc i)"
  using allowed_not_dot by (auto simp: plain_def less_Suc_eq)

lemma plain_start: "plain d i j \<Longrightarrow> plain d i (Suc i)"
  by (auto simp: plain_def)

lemmas member_simps = mark_def measure_to_def ext_mark_def ext_measure_def port_end_def NULL_PSTR_def

text \<open>The parser never fails to make sense of its own slices, and keeps the invariant.\<close>

lemma parse_uri_ABS_PATH:
  assumes "u_state u = URI_ABS_PATH" "uri_inv u d p"
  shows "case parse_uri u d p of None \<Rightarrow> False | Some (c, u') \<Rightarrow> c = OK \<and> uri_inv u' d (Suc p)"
proof -
  obtain i where i: "extension u = Ext_str NULL_PSTR" "abs_path u = \<lparr>pc = At i, pl = 0\<rparr>" "plain d i p"
    using assms by (auto simp: uri_inv_def no_ext_def)
  then have ip: "i < p" "int p - int i = int (p - i)" by (auto simp: plain_def)
  consider (dot) "d ! p = CHR ''.''" | (query) "d ! p = CHR ''?''" | (other) "plain d i (Suc p)"
    using plain_Suc [OF i(3)] by blast
  then show ?thesis
  proof cases
    case dot
    then have "parse_uri u d p =
        Some (OK, u\<lparr>abs_path := \<lparr>pc = At i, pl = int (p - i)\<rparr>, u_state := URI_BEFORE_EXTENSION\<rparr>)"
      using assms(1) i ip allowed_not_dot by (auto simp: parse_uri_def Let_def measure_to_def)
    then show ?thesis using i dot by (auto simp: uri_inv_def no_ext_def)
  next
    case query
    then have "parse_uri u d p = Some (OK, u\<lparr>u_state := URI_BEFORE_QUERY\<rparr>)"
      using assms(1) allowed_not_dot by (auto simp: parse_uri_def Let_def)
    moreover have "path_at d u (Suc p)" using i ip plain_start [OF i(3)]
      unfolding path_at_def no_ext_def by (intro disjI2 disjI1 exI [of _ i]) auto
    ultimately show ?thesis by (simp add: uri_inv_def path_at_def no_path_def no_ext_def)
  next
    case other
    then have "d ! p \<noteq> CHR ''.''" "d ! p \<noteq> CHR ''?''" using ip by (auto simp: plain_def)
    then have "parse_uri u d p = Some (OK, u)" using assms(1) by (auto simp: parse_uri_def Let_def)
    then show ?thesis using assms(1) i other by (simp add: uri_inv_def no_ext_def)
  qed
qed

lemma path_at_frame:
  "path_at d (u\<lparr>u_state := s\<rparr>) p = path_at d u p" "path_at d (u\<lparr>query := q\<rparr>) p = path_at d u p"
  by (simp_all add: path_at_def no_path_def no_ext_def)

lemma no_path_frame:
  "no_path (u\<lparr>host := h\<rparr>) = no_path u" "no_path (u\<lparr>u_port := h\<rparr>) = no_path u"
  by (simp_all add: no_path_def no_ext_def)

lemma path_at_none: "no_path u \<Longrightarrow> path_at d u p"
  by (simp add: path_at_def)

lemma path_at_Suc: "path_at d u p \<Longrightarrow> path_at d u (Suc p)"
  unfolding path_at_def by (meson le_SucI less_SucI)

lemma parse_uri_EXTENSION:
  assumes "u_state u = URI_EXTENSION" "uri_inv u d p"
  shows "case parse_uri u d p of None \<Rightarrow> False
    | Some (c, u') \<Rightarrow> (c = OK \<or> c = ERROR) \<and> (c = OK \<longrightarrow> uri_inv u' d (Suc p))"
proof -
  obtain i j where i: "abs_path u = \<lparr>pc = At i, pl = int (j - i)\<rparr>" "plain d i j" "d ! j = CHR ''.''"
    "extension u = Ext_str \<lparr>pc = At (Suc j), pl = 0\<rparr>" "letters d (Suc j) p"
    using assms by (auto simp: uri_inv_def)
  then have jp: "Suc j < p" "int p - int (Suc j) = int (p - Suc j)" by (auto simp: letters_def)
  consider (query) "d ! p = CHR ''?''" | (letter) "alpha (d ! p)"
    | (other) "d ! p \<noteq> CHR ''?''" "\<not> alpha (d ! p)" by blast
  then show ?thesis
  proof cases
    case query
    let ?u = "u\<lparr>extension := Ext_str \<lparr>pc = At (Suc j), pl = int (p - Suc j)\<rparr>, u_state := URI_BEFORE_QUERY\<rparr>"
    have "parse_uri u d p = Some (OK, ?u)"
      using query assms(1) i jp class_alpha [of "d ! p"] by (auto simp: parse_uri_def Let_def ext_measure_def measure_to_def)
    moreover have "path_at d ?u (Suc p)" unfolding path_at_def
      using i by (intro disjI2 exI [of _ i] exI [of _ j] exI [of _ p]) simp
    ultimately show ?thesis by (simp add: uri_inv_def)
  next
    case letter
    then have "parse_uri u d p = Some (OK, u)" using assms(1) by (auto simp: parse_uri_def Let_def)
    then show ?thesis using assms(1) i letters_Suc [OF i(5) letter] by (simp add: uri_inv_def)
  next
    case other
    then show ?thesis using assms(1) by (auto simp: parse_uri_def Let_def)
  qed
qed

lemma parse_uri_inv:
  assumes "uri_inv u d p"
  shows "case parse_uri u d p of None \<Rightarrow> False
    | Some (c, u') \<Rightarrow> (c = OK \<or> c = ERROR) \<and> (c = OK \<longrightarrow> uri_inv u' d (Suc p))"
proof (cases "u_state u")
  case URI_ABS_PATH
  show ?thesis using parse_uri_ABS_PATH [OF URI_ABS_PATH assms] by (auto split: option.splits)
next
  case URI_EXTENSION
  show ?thesis by (rule parse_uri_EXTENSION [OF URI_EXTENSION assms])
next
  case URI_BEFORE_EXTENSION
  then show ?thesis using assms letters_first [of d p]
    by (auto simp: parse_uri_def Let_def uri_inv_def member_simps no_ext_def)
next
  case URI_SLASH_BEFORE_ABS_PATH
  then show ?thesis using assms plain_first [of d p]
    by (auto simp: parse_uri_def Let_def uri_inv_def member_simps no_path_def no_ext_def)
next
  case URI_BEFORE_QUERY
  then show ?thesis using assms
    by (auto simp: parse_uri_def Let_def uri_inv_def mark_def path_at_frame path_at_Suc)
next
  case URI_QUERY
  then show ?thesis using assms
    by (auto simp: parse_uri_def Let_def uri_inv_def mark_def path_at_frame path_at_Suc less_Suc_eq)
qed (use assms in \<open>auto simp: parse_uri_def Let_def uri_inv_def member_simps zero_uri_def no_path_def
      no_ext_def less_Suc_eq\<close>)

lemma close_uri_path:
  assumes "uri_inv u d p" "u_state u \<noteq> URI_BEGIN"
  shows "case close_uri u p of None \<Rightarrow> False | Some u' \<Rightarrow> path_at d u' p"
proof (cases "u_state u")
  case URI_ABS_PATH
  then obtain i where i: "extension u = Ext_str NULL_PSTR" "abs_path u = \<lparr>pc = At i, pl = 0\<rparr>" "plain d i p"
    using assms by (auto simp: uri_inv_def no_ext_def)
  then have "i < p" by (simp add: plain_def)
  then have "close_uri u p = Some (u\<lparr>abs_path := \<lparr>pc = At i, pl = int (p - i)\<rparr>\<rparr>)"
    using URI_ABS_PATH i by (simp add: close_uri_def measure_to_def)
  moreover have "path_at d (u\<lparr>abs_path := \<lparr>pc = At i, pl = int (p - i)\<rparr>\<rparr>) p"
    unfolding path_at_def no_ext_def using i by (intro disjI2 disjI1 exI [of _ i] exI [of _ p]) simp
  ultimately show ?thesis by simp
next
  case URI_EXTENSION
  then obtain i j where i: "abs_path u = \<lparr>pc = At i, pl = int (j - i)\<rparr>" "plain d i j" "d ! j = CHR ''.''"
    "extension u = Ext_str \<lparr>pc = At (Suc j), pl = 0\<rparr>" "letters d (Suc j) p"
    using assms by (auto simp: uri_inv_def)
  then have "Suc j < p" by (simp add: letters_def)
  then have "close_uri u p = Some (u\<lparr>extension := Ext_str \<lparr>pc = At (Suc j), pl = int (p - Suc j)\<rparr>\<rparr>)"
    using URI_EXTENSION i by (simp add: close_uri_def ext_measure_def measure_to_def)
  moreover have "path_at d (u\<lparr>extension := Ext_str \<lparr>pc = At (Suc j), pl = int (p - Suc j)\<rparr>\<rparr>) p"
    unfolding path_at_def using i by (intro disjI2 exI [of _ i] exI [of _ j] exI [of _ p]) simp
  ultimately show ?thesis by simp
next
  case URI_BEFORE_EXTENSION
  then obtain i j where i: "extension u = Ext_str NULL_PSTR" "abs_path u = \<lparr>pc = At i, pl = int (j - i)\<rparr>" "plain d i j" "p = Suc j"
    using assms by (auto simp: uri_inv_def no_ext_def)
  then have "path_at d u p"
    unfolding path_at_def no_ext_def by (intro disjI2 disjI1 exI [of _ i] exI [of _ j]) simp
  then show ?thesis using URI_BEFORE_EXTENSION by (simp add: close_uri_def)
next
  case URI_QUERY
  then show ?thesis using assms
    by (auto simp: close_uri_def uri_inv_def measure_to_def path_at_frame)
next
  case URI_BEFORE_QUERY
  then show ?thesis using assms by (simp add: close_uri_def uri_inv_def)
qed (use assms in \<open>auto simp: close_uri_def uri_inv_def port_end_def measure_to_def no_path_frame intro!: path_at_none\<close>)

end
