(* ===== verification/Request_Line.thy ===== *)
theory Request_Line
  imports Uri_Parser
begin

text \<open>
  \<open>parse_request_line\<close> of \<^verbatim>\<open>http/http_request.c\<close> and \<open>parse_request_method\<close> of
  \<^verbatim>\<open>http/http.c\<close>: the state machine over \<^verbatim>\<open>METHOD target HTTP/d.d CR LF\<close>.
\<close>

section \<open>The method\<close>

text \<open>\<open>parse_request_method(begin, end)\<close>: the bytes are compared only when the length fits.\<close>

definition parse_request_method :: "char list \<Rightarrow> cptr \<Rightarrow> nat \<Rightarrow> http_method option" where
  "parse_request_method d b e = do {
     n \<leftarrow> ptr_diff (At e) b;
     s \<leftarrow> bytes_at d b;
     get \<leftarrow> (if n = 3 then strneq id s (''GET'' @ [CHR 0x00]) 3 else Some False);
     if get then Some M_GET else do {
       post \<leftarrow> (if n = 4 then strneq id s (''POST'' @ [CHR 0x00]) 4 else Some False);
       if post then Some M_POST else do {
         opt \<leftarrow> (if n = 7 then strneq id s (''OPTIONS'' @ [CHR 0x00]) 7 else Some False);
         if opt then Some M_OPTIONS else Some M_INVALID_METHOD
       }
     }
   }"

section \<open>One byte\<close>

abbreviation go :: "'r \<Rightarrow> char list \<Rightarrow> (rc option \<times> 'r \<times> char list) option" where
  "go r d \<equiv> Some (None, r, d)"

abbreviation quit :: "rc \<Rightarrow> 'r \<Rightarrow> char list \<Rightarrow> (rc option \<times> 'r \<times> char list) option" where
  "quit c r d \<equiv> Some (Some c, r, d)"

text \<open>\<^verbatim>\<open>v * 10 + ch - '0'\<close>, stored in a \<^verbatim>\<open>uint16_t\<close>.\<close>

definition add_digit :: "16 word \<Rightarrow> char \<Rightarrow> 16 word" where
  "add_digit v ch = v * 10 + of_nat (code ch) - 48"

text \<open>\<^verbatim>\<open>expect x s\<close> is \<^verbatim>\<open>RETURN_ERR_ON(ch != x, INVALID_REQUEST); r->state = s\<close>.\<close>

definition expect :: "char \<Rightarrow> req_state \<Rightarrow> request stepper" where
  "expect x s r d p = (if d ! p \<noteq> x then quit INVALID_REQUEST r d else go (r\<lparr>r_state := s\<rparr>) d)"

definition step_uri :: "request stepper" where
  "step_uri r d p = do {
     (c, u) \<leftarrow> parse_uri (r_uri r) d p;
     if c \<noteq> OK then quit c (r\<lparr>r_uri := u\<rparr>) d else go (r\<lparr>r_uri := u, r_state := RQ_URI\<rparr>) d
   }"

definition request_line_step :: "request stepper" where
  "request_line_step r d p = (let ch = d ! p in
     case r_state r of
       RQ_BEGIN \<Rightarrow>
         if upper ch then go (r\<lparr>request_line := mark p (request_line r), r_state := RQ_METHOD\<rparr>) d
         else quit INVALID_REQUEST r d
     | RQ_METHOD \<Rightarrow>
         if upper ch then go r d
         else if ch = CHR '' '' then do {
           m \<leftarrow> parse_request_method d (pc (request_line r)) p;
           let r' = r\<lparr>r_method := m\<rparr>;
           if m = M_INVALID_METHOD then quit INVALID_REQUEST r' d
           else go (r'\<lparr>r_state := RQ_BEFORE_URI\<rparr>) d
         }
         else go r d
     | RQ_BEFORE_URI \<Rightarrow>
         if ch = TAB \<or> ch = CR \<or> ch = LF then quit INVALID_REQUEST r d
         else if ch = CHR '' '' then go r d
         else step_uri r d p
     | RQ_URI \<Rightarrow>
         if ch = TAB \<or> ch = CR \<or> ch = LF then quit INVALID_REQUEST r d
         else if ch = CHR '' '' then do {
           u \<leftarrow> close_uri (r_uri r) p;
           go (r\<lparr>r_uri := u, r_state := RQ_BEFORE_VERSION\<rparr>) d
         }
         else step_uri r d p
     | RQ_BEFORE_VERSION \<Rightarrow>
         if ch = CHR '' '' then go r d
         else if ch = CHR ''H'' then go (r\<lparr>r_state := RQ_VERSION_H\<rparr>) d
         else quit INVALID_REQUEST r d
     | RQ_VERSION_H \<Rightarrow> expect (CHR ''T'') RQ_VERSION_HT r d p
     | RQ_VERSION_HT \<Rightarrow> expect (CHR ''T'') RQ_VERSION_HTT r d p
     | RQ_VERSION_HTT \<Rightarrow> expect (CHR ''P'') RQ_VERSION_HTTP r d p
     | RQ_VERSION_HTTP \<Rightarrow> expect (CHR ''/'') RQ_VERSION_SLASH r d p
     | RQ_VERSION_SLASH \<Rightarrow>
         if digit ch then
           (let r' = r\<lparr>major := add_digit (major r) ch\<rparr> in
            if unat (major r') > 100 then quit INVALID_REQUEST r' d
            else go (r'\<lparr>r_state := RQ_VERSION_DOT\<rparr>) d)
         else quit INVALID_REQUEST r d
     | RQ_VERSION_MAJOR \<Rightarrow>
         if digit ch then
           (let r' = r\<lparr>major := add_digit (major r) ch\<rparr> in
            if unat (major r') > 100 then quit INVALID_REQUEST r' d else go r' d)
         else if ch = CHR ''.'' then go (r\<lparr>r_state := RQ_VERSION_DOT\<rparr>) d
         else quit INVALID_REQUEST r d
     | RQ_VERSION_DOT \<Rightarrow>
         if digit ch then quit INVALID_REQUEST r d
         else go (r\<lparr>r_state := RQ_VERSION_MINOR\<rparr>) d
     | RQ_VERSION_MINOR \<Rightarrow>
         if digit ch then
           (let r' = r\<lparr>minor := add_digit (minor r) ch\<rparr> in
            if unat (minor r') > 100 then quit INVALID_REQUEST r' d else go r' d)
         else if ch = CHR '' '' then go (r\<lparr>r_state := RQ_AFTER_VERSION\<rparr>) d
         else if ch = CR then go (r\<lparr>r_state := RQ_ALMOST_DONE\<rparr>) d
         else quit INVALID_REQUEST r d
     | RQ_AFTER_VERSION \<Rightarrow>
         if ch = CHR '' '' then go r d
         else if ch = CR then go (r\<lparr>r_state := RQ_ALMOST_DONE\<rparr>) d
         else quit INVALID_REQUEST r d
     | RQ_ALMOST_DONE \<Rightarrow>
         if ch \<noteq> LF then quit INVALID_REQUEST r d else quit OK r d
     | _ \<Rightarrow> quit INVALID_REQUEST r d)"

section \<open>The whole line\<close>

text \<open>After the label \<^verbatim>\<open>done\<close>: \<^verbatim>\<open>request_line.len = (int)(p - request_line.c)\<close>.\<close>

definition request_line_done :: "nat \<Rightarrow> request \<Rightarrow> request option" where
  "request_line_done p r = do {
     l \<leftarrow> measure_to p (request_line r);
     Some (r\<lparr>request_line := l, r_state := RQ_DONE\<rparr>)
   }"

definition parse_request_line :: "request \<Rightarrow> buffer \<Rightarrow> (rc \<times> request \<times> buffer) option" where
  "parse_request_line = parse_with request_line_step request_line_done"

section \<open>Looking no further than the current byte\<close>

lemma take_Suc_eq: "take (Suc p) d' = take (Suc p) d \<Longrightarrow> p < length d \<Longrightarrow> length d' = length d \<Longrightarrow> k \<le> p \<Longrightarrow> d' ! k = d ! k"
  by (metis le_imp_less_Suc nth_take)

lemma strneq_take:
  "n \<le> k \<Longrightarrow> n \<le> length as \<Longrightarrow> take k as = take k as' \<Longrightarrow> strneq f as bs n = strneq f as' bs n"
proof (induction f as bs n arbitrary: as' k rule: strneq.induct)
  case (2 f a as b bs n)
  then obtain k' where "k = Suc k'" by (cases k) auto
  with 2 show ?case by (cases as') auto
qed auto

lemma parse_request_method_local:
  assumes "p < length d" "length d' = length d" "take (Suc p) d' = take (Suc p) d"
  shows "parse_request_method d' b p = parse_request_method d b p"
proof (cases b)
  case (At i)
  have eq: "strneq id (drop i d') l n = strneq id (drop i d) l n" if "int p - int i = int n" for l n
    using that assms by (intro strneq_take [of n "Suc p - i"]) (auto simp: take_drop)
  show ?thesis using eq [of 3] eq [of 4] eq [of 7]
    unfolding At parse_request_method_def by (auto simp del: strneq.simps append.simps)
qed (simp_all add: parse_request_method_def)

lemma parse_uri_local: "d' ! p = d ! p \<Longrightarrow> parse_uri u d' p = parse_uri u d p"
  unfolding parse_uri_def by simp

lemma request_line_step_same_bytes: "request_line_step r d p = Some (q, r', x) \<Longrightarrow> x = d"
  by (auto simp: request_line_step_def expect_def step_uri_def Let_def bind_eq_Some_conv
      split: req_state.splits if_splits)

lemma request_line_step_local:
  assumes "p < length d" "length d' = length d" "take (Suc p) d' = take (Suc p) d"
  shows "request_line_step r d' p = map_option (\<lambda>(q, r', x). (q, r', d')) (request_line_step r d p)"
proof -
  have e: "d' ! p = d ! p" using take_Suc_eq [OF assms(3,1,2)] by simp
  note m = parse_request_method_local [OF assms] parse_uri_local [OF e]
  show ?thesis
    by (cases "r_state r"; cases "parse_request_method d (pc (request_line r)) p";
        cases "parse_uri (r_uri r) d p"; cases "close_uri (r_uri r) p")
      (simp_all add: request_line_step_def expect_def step_uri_def Let_def e m split_def)
qed

interpretation request_line: byte_machine request_line_step
proof (unfold_locales, goal_cases)
  case (1 p d d' r)
  have "overlay (Suc p) x d' = d'" if "request_line_step r d p = Some (q, r', x)" for q r' x
    using request_line_step_same_bytes [OF that] 1 by simp
  then show ?case using request_line_step_local [OF 1(1-3), of r]
    by (cases "request_line_step r d p") auto
next
  case (2 r d p q r' x)
  then show ?case using request_line_step_same_bytes by blast
next
  case (3 r d p q r' x)
  have "c \<noteq> AGAIN" if "parse_uri u d p = Some (c, u')" for u u' c
    using that by (auto simp: parse_uri_def Let_def bind_eq_Some_conv split: uri_state.splits if_splits)
  with 3 show ?case
    by (auto simp: request_line_step_def expect_def step_uri_def Let_def bind_eq_Some_conv
        split: req_state.splits if_splits)
qed

section \<open>The invariant\<close>

definition line_at :: "request \<Rightarrow> nat \<Rightarrow> bool" where
  "line_at r p \<longleftrightarrow> (\<exists>i<p. pc (request_line r) = At i)"

definition rl_inv :: "request \<Rightarrow> char list \<Rightarrow> nat \<Rightarrow> bool" where
  "rl_inv r d p \<longleftrightarrow>
     (case r_state r of
        RQ_BEGIN \<Rightarrow> r_uri r = zero_uri
      | RQ_METHOD \<Rightarrow> r_uri r = zero_uri \<and> line_at r p
      | RQ_BEFORE_URI \<Rightarrow> r_uri r = zero_uri \<and> line_at r p
      | RQ_URI \<Rightarrow> uri_inv (r_uri r) d p \<and> u_state (r_uri r) \<noteq> URI_BEGIN \<and> line_at r p
      | _ \<Rightarrow> path_at d (r_uri r) p \<and> line_at r p)"

lemma line_at_simps [simp]:
  "line_at (r\<lparr>r_state := s\<rparr>) p = line_at r p" "line_at (r\<lparr>r_uri := u\<rparr>) p = line_at r p"
  "line_at (r\<lparr>r_method := m\<rparr>) p = line_at r p" "line_at (r\<lparr>major := v\<rparr>) p = line_at r p"
  "line_at (r\<lparr>minor := v\<rparr>) p = line_at r p" "line_at r p \<Longrightarrow> line_at r (Suc p)"
  "line_at (r\<lparr>request_line := mark p (request_line r)\<rparr>) (Suc p)"
  by (auto simp: line_at_def mark_def)

lemma zero_uri_inv [simp]: "uri_inv zero_uri d p"
  by (simp add: uri_inv_def zero_uri_def)

lemma parse_uri_begun: "parse_uri u d p = Some (OK, u') \<Longrightarrow> u_state u' \<noteq> URI_BEGIN"
  by (auto simp: parse_uri_def Let_def bind_eq_Some_conv split: uri_state.splits if_splits)

lemma strneq_literal:
  assumes "n = length cs" "int p - int i = int n" "p \<le> length d" "\<forall>c \<in> set cs. code c \<noteq> 0"
  shows "strneq id (drop i d) (cs @ [CHR 0x00]) n = Some (segment d i p = cs)"
proof -
  have "strneq id (drop i d) (cs @ [CHR 0x00]) n = Some (take n (drop i d) = take n (cs @ [CHR 0x00]))"
    using assms by (intro strncmp_decides) auto
  moreover have "segment d i p = take n (drop i d)" using assms(2) by (simp add: segment_def nat_minus_as_int)
  ultimately show ?thesis using assms(1) by simp
qed

text \<open>The method is recognised by its whole spelling.\<close>

lemma parse_request_method_spec:
  assumes "i \<le> p" "p \<le> length d"
  shows "parse_request_method d (At i) p =
    Some (if segment d i p = ''GET'' then M_GET else if segment d i p = ''POST'' then M_POST
      else if segment d i p = ''OPTIONS'' then M_OPTIONS else M_INVALID_METHOD)"
proof -
  have l: "length (segment d i p) = p - i" using assms by simp
  have *: "(if int p - int i = int n then strneq id (drop i d) (cs @ [CHR 0x00]) n else Some False) =
      Some (segment d i p = cs)" if "n = length cs" "\<forall>c \<in> set cs. code c \<noteq> 0" for n cs
  proof (cases "int p - int i = int n")
    case True
    then show ?thesis using strneq_literal [OF that(1) True assms(2) that(2)] by simp
  next
    case False
    then have "segment d i p \<noteq> cs" using l that assms(1) by auto
    with False show ?thesis by simp
  qed
  show ?thesis
    using * [of 3 "''GET''"] * [of 4 "''POST''"] * [of 7 "''OPTIONS''"]
    unfolding parse_request_method_def by (simp add: code_def del: strneq.simps append.simps)
qed

lemma request_line_step_inv:
  assumes "rl_inv r d p" "p < length d"
  shows "\<exists>q r' d'. request_line_step r d p = Some (q, r', d') \<and> length d' = length d \<and>
    (q = None \<longrightarrow> rl_inv r' d' (Suc p)) \<and>
    (\<forall>c. q = Some c \<longrightarrow> c = OK \<longrightarrow> path_at d' (r_uri r') p \<and> line_at r' p)"
proof -
  have uri: "\<exists>c u. parse_uri (r_uri r) d p = Some (c, u) \<and> (c = OK \<longrightarrow> uri_inv u d (Suc p) \<and> u_state u \<noteq> URI_BEGIN)"
    if "uri_inv (r_uri r) d p"
    using parse_uri_inv [OF that] parse_uri_begun [of "r_uri r" d p] by (auto split: option.splits)
  have step: "\<exists>q r' d'. step_uri r d p = Some (q, r', d') \<and> length d' = length d \<and>
    (q = None \<longrightarrow> rl_inv r' d' (Suc p)) \<and> (\<forall>c. q = Some c \<longrightarrow> c = OK \<longrightarrow> path_at d' (r_uri r') p \<and> line_at r' p)"
    if "uri_inv (r_uri r) d p" "line_at r p"
    using uri [OF that(1)] that(2) by (auto simp: step_uri_def rl_inv_def)
  have close: "\<exists>u. close_uri (r_uri r) p = Some u \<and> path_at d u p"
    if "uri_inv (r_uri r) d p" "u_state (r_uri r) \<noteq> URI_BEGIN"
    using close_uri_path [OF that] by (auto split: option.splits)
  show ?thesis
  proof (cases "r_state r")
    case RQ_METHOD
    then obtain i where "i < p" "pc (request_line r) = At i" "r_uri r = zero_uri"
      using assms(1) by (auto simp: rl_inv_def line_at_def)
    then show ?thesis using RQ_METHOD assms parse_request_method_spec [of i p d]
      by (auto simp: request_line_step_def Let_def rl_inv_def line_at_def)
  next
    case RQ_BEFORE_URI
    then show ?thesis using assms step by (auto simp: request_line_step_def Let_def rl_inv_def)
  next
    case RQ_URI
    then show ?thesis using assms(1) step close
      by (fastforce simp: request_line_step_def Let_def rl_inv_def path_at_Suc)
  qed (use assms in \<open>auto simp: request_line_step_def expect_def Let_def rl_inv_def path_at_Suc\<close>)
qed

lemma request_line_done_ok:
  "line_at r p \<Longrightarrow> \<exists>i. i < p \<and> request_line_done p r =
     Some (r\<lparr>request_line := \<lparr>pc = At i, pl = int (p - i)\<rparr>, r_state := RQ_DONE\<rparr>)"
  by (cases "request_line r") (auto simp: line_at_def request_line_done_def measure_to_def of_nat_diff)

text \<open>
  The parser on a well-formed buffer: it always returns, with the buffer well-formed; if it
  wants more it has consumed everything, and if it accepts then the slices it has recorded
  lie before the read position, which follows a line feed.
\<close>

lemma parse_request_line_total:
  assumes "buffer_wf b" "rl_inv r (bdata b) (bbegin b)"
  obtains c r' b' where "parse_request_line r b = Some (c, r', b')" "buffer_wf b'"
    "bdata b' = bdata b" "bend b' = bend b"
    "c = AGAIN \<Longrightarrow> rl_inv r' (bdata b) (bbegin b') \<and> bbegin b' = bend b"
    "c = OK \<Longrightarrow> r_state r' = RQ_DONE \<and> bbegin b < bbegin b' \<and> path_at (bdata b) (r_uri r') (bbegin b' - 1)"
proof -
  let ?n = "bend b - bbegin b"
  have fit: "bbegin b + ?n \<le> length (bdata b)" using assms(1) by (auto simp: buffer_wf_def)
  have "\<exists>q r1 d1 p1. scan request_line_step r (bdata b) (bbegin b) ?n = Some (q, r1, d1, p1) \<and>
    length d1 = length (bdata b) \<and> (q = None \<longrightarrow> p1 = bbegin b + ?n \<and> rl_inv r1 d1 p1) \<and>
    (\<forall>c. q = Some c \<longrightarrow> p1 < bbegin b + ?n \<and> bbegin b \<le> p1 \<and>
       (c = OK \<longrightarrow> path_at d1 (r_uri r1) p1 \<and> line_at r1 p1))"
    by (rule scan_inv [where I = rl_inv, OF assms(2) fit request_line_step_inv])
  then obtain q r1 d1 p1 where s: "scan request_line_step r (bdata b) (bbegin b) ?n = Some (q, r1, d1, p1)"
    "length d1 = length (bdata b)" "q = None \<Longrightarrow> p1 = bbegin b + ?n \<and> rl_inv r1 d1 p1"
    "\<And>c. q = Some c \<Longrightarrow> p1 < bbegin b + ?n \<and> bbegin b \<le> p1 \<and>
       (c = OK \<longrightarrow> path_at d1 (r_uri r1) p1 \<and> line_at r1 p1)"
    by blast
  have d1: "d1 = bdata b"
  proof -
    have "d' = d" if "scan request_line_step r d p n = Some (q, r', d', p')" for r d p n q r' d' p'
      using that by (induction n arbitrary: r d p)
        (auto split: if_splits option.splits prod.splits dest: request_line_step_same_bytes)
    then show ?thesis using s(1) by blast
  qed
  have wf: "bbegin b \<le> bend b" "bend b \<le> limit" "length (bdata b) = limit"
    using assms(1) by (auto simp: buffer_wf_def)
  show thesis
  proof (cases q)
    case None
    then show thesis using that [of AGAIN r1 "b\<lparr>bdata := d1, bbegin := bend b\<rparr>"] s(1) s(3) [OF None] d1 wf
      by (auto simp add: parse_request_line_def parse_with_def buffer_wf_def)
  next
    case (Some c)
    show thesis
    proof (cases "c = OK")
      case True
      obtain i where "request_line_done p1 r1 = Some (r1\<lparr>request_line := \<lparr>pc = At i, pl = int (p1 - i)\<rparr>, r_state := RQ_DONE\<rparr>)"
        using request_line_done_ok s(4) [OF Some] True by blast
      then show thesis using that [of OK "r1\<lparr>request_line := \<lparr>pc = At i, pl = int (p1 - i)\<rparr>, r_state := RQ_DONE\<rparr>"
          "b\<lparr>bdata := d1, bbegin := p1 + 1\<rparr>"] s(1) s(4) [OF Some] True Some d1 wf
        by (simp add: parse_request_line_def parse_with_def buffer_wf_def)
    next
      case False
      have "c \<noteq> AGAIN" using request_line.scan_verdict [OF s(1)] Some by simp
      then show thesis using that [of c r1 "b\<lparr>bdata := d1\<rparr>"] s(1) Some False d1 wf
        by (cases c) (simp_all add: parse_request_line_def parse_with_def buffer_wf_def)
    qed
  qed
qed

end
