(* ===== verification/Request_Accept.thy ===== *)
theory Request_Accept
  imports Request_Line
begin

text \<open>
  Which request lines \<open>parse_request_line\<close> accepts, and what it extracts from them: the
  specification \<open>request_line_text\<close> spells out a request line, and the parser inverts it.
\<close>

section \<open>The specification\<close>

fun method_name :: "http_method \<Rightarrow> char list" where
  "method_name M_GET = ''GET''"
| "method_name M_POST = ''POST''"
| "method_name M_OPTIONS = ''OPTIONS''"
| "method_name M_INVALID_METHOD = []"

text \<open>
  The path: it starts with an allowed character; after that it may hold any byte that ends
  neither the path nor the target, a slash among them.
\<close>

definition path_text :: "char list \<Rightarrow> bool" where
  "path_text w \<longleftrightarrow> w \<noteq> [] \<and> allowed_in_abs_path (hd w) \<and>
     (\<forall>c \<in> set w. c \<noteq> CHR ''.'' \<and> c \<noteq> CHR ''?'' \<and> c \<noteq> CHR '' '' \<and> c \<noteq> TAB \<and> c \<noteq> CR \<and> c \<noteq> LF)"

definition ext_text :: "char list option \<Rightarrow> char list" where
  "ext_text e = (case e of None \<Rightarrow> [] | Some w \<Rightarrow> CHR ''.'' # w)"

definition ext_ok :: "char list option \<Rightarrow> bool" where
  "ext_ok e \<longleftrightarrow> (case e of None \<Rightarrow> True | Some w \<Rightarrow> w \<noteq> [] \<and> (\<forall>c \<in> set w. alpha c))"

definition request_line_text :: "http_method \<Rightarrow> char list \<Rightarrow> char list option \<Rightarrow> char \<Rightarrow> char \<Rightarrow> char list" where
  "request_line_text m path e a z =
     method_name m @ '' /'' @ path @ ext_text e @ '' HTTP/'' @ [a, CHR ''.'', z, CR, LF]"

text \<open>The request before its first byte.\<close>

definition fresh_request :: "request \<Rightarrow> bool" where
  "fresh_request r \<longleftrightarrow> r_state r = RQ_BEGIN \<and> r_uri r = zero_uri \<and> major r = 0 \<and> minor r = 0"

section \<open>The phases of a request line\<close>

lemma class_chars [simp]:
  "\<not> upper (CHR '' '')" "\<not> digit (CHR ''.'')" "\<not> alpha (CHR '' '')" "\<not> upper CR" "\<not> digit CR" "CR \<noteq> LF"
  "CR \<noteq> CHR '' ''" "LF \<noteq> CHR '' ''" "TAB \<noteq> CHR '' ''" "CHR '' '' \<noteq> CR" "CHR '' '' \<noteq> LF" "CHR '' '' \<noteq> TAB"
  "CHR ''/'' \<noteq> CR" "CHR ''/'' \<noteq> LF" "CHR ''/'' \<noteq> TAB" "CHR ''.'' \<noteq> CR" "CHR ''.'' \<noteq> LF" "CHR ''.'' \<noteq> TAB"
  by (simp_all add: upper_def digit_def alpha_def lower_def code_def CR_def LF_def TAB_def)

lemma method_runs:
  assumes "m \<noteq> M_INVALID_METHOD" "reads d p (method_name m @ '' '')" "r_state r = RQ_BEGIN"
  shows "runs request_line_step d r p
    (r\<lparr>request_line := mark p (request_line r), r_state := RQ_BEFORE_URI, r_method := m\<rparr>)
    (p + length (method_name m) + 1)"
proof -
  let ?r = "r\<lparr>request_line := mark p (request_line r), r_state := RQ_METHOD\<rparr>" and ?e = "p + length (method_name m)"
  have up: "c \<in> set (method_name m) \<Longrightarrow> upper c" for c by (cases m) (auto simp: upper_def code_def)
  have ne: "method_name m \<noteq> []" using assms(1) by (cases m) auto
  have rd: "reads d p (method_name m)" and sp: "?e < length d" "d ! ?e = CHR '' ''" using assms(2) by auto
  have each: "k < length d \<and> upper (d ! k)" if "p \<le> k" "k < ?e" for k
    using reads_in [OF rd that] up by auto
  have "runs request_line_step d r p ?r (Suc p)"
    using each [of p] ne assms(3) by (intro runs_one) (auto simp: request_line_step_def)
  also have "runs request_line_step d ?r (Suc p) ?r ?e"
  proof (rule runs_while)
    show "Suc p \<le> ?e" using ne by (cases "method_name m") auto
    show "?e \<le> length d" using sp by simp
  qed (use each in \<open>auto simp: request_line_step_def\<close>)
  also have "runs request_line_step d ?r ?e (?r\<lparr>r_state := RQ_BEFORE_URI, r_method := m\<rparr>) (Suc ?e)"
  proof -
    have seg: "segment d p ?e = method_name m" by (rule reads_segment [OF rd])
    have "parse_request_method d (At p) ?e = Some m"
      using parse_request_method_spec [of p ?e d] sp assms(1) unfolding seg by (cases m) auto
    then show ?thesis using sp assms(1) by (intro runs_one) (auto simp: request_line_step_def Let_def mark_def)
  qed
  finally show ?thesis by simp
qed

text \<open>The target, from the byte after the slash on, and the blank that ends it.\<close>

definition path_uri :: "nat \<Rightarrow> nat \<Rightarrow> uri" where
  "path_uri i j = zero_uri\<lparr>u_state := URI_ABS_PATH, abs_path := \<lparr>pc = At i, pl = int (j - i)\<rparr>\<rparr>"

definition ext_uri :: "nat \<Rightarrow> nat \<Rightarrow> nat \<Rightarrow> uri" where
  "ext_uri i j k = zero_uri\<lparr>u_state := URI_EXTENSION, abs_path := \<lparr>pc = At i, pl = int (j - i)\<rparr>,
     extension := Ext_str \<lparr>pc = At (Suc j), pl = int (k - Suc j)\<rparr>\<rparr>"

lemma uri_step:
  assumes "r_state r = RQ_URI \<or> r_state r = RQ_BEFORE_URI" "p < length d"
    and "d ! p \<noteq> TAB" "d ! p \<noteq> CR" "d ! p \<noteq> LF" "d ! p \<noteq> CHR '' ''" "parse_uri (r_uri r) d p = Some (OK, u)"
  shows "runs request_line_step d r p (r\<lparr>r_uri := u, r_state := RQ_URI\<rparr>) (Suc p)"
  using assms by (intro runs_one) (auto simp: request_line_step_def step_uri_def Let_def)

lemma path_runs:
  assumes "path_text w" "reads d p (CHR ''/'' # w)" "r_state r = RQ_BEFORE_URI" "r_uri r = zero_uri"
  shows "runs request_line_step d r p (r\<lparr>r_uri := path_uri (Suc p) (Suc p), r_state := RQ_URI\<rparr>) (Suc p + length w)"
proof -
  let ?i = "Suc p" and ?u = "path_uri (Suc p) (Suc p)"
  let ?e = "Suc p + length w" and ?r = "r\<lparr>r_uri := path_uri (Suc p) (Suc p), r_state := RQ_URI\<rparr>"
  obtain c w' where w: "w = c # w'" using assms(1) by (cases w) (auto simp: path_text_def)
  have rd: "reads d ?i w" and sl: "p < length d" "d ! p = CHR ''/''" using assms(2) by auto
  have each: "k < length d \<and> d ! k \<noteq> CHR ''.'' \<and> d ! k \<noteq> CHR ''?'' \<and> d ! k \<noteq> CHR '' '' \<and> d ! k \<noteq> TAB \<and>
      d ! k \<noteq> CR \<and> d ! k \<noteq> LF" if "?i \<le> k" "k < ?e" for k
    using reads_in [OF rd that] assms(1) by (auto simp: path_text_def)
  have first: "allowed_in_abs_path (d ! ?i)" "?i < ?e" using assms(1) rd w by (auto simp: path_text_def)
  have "runs request_line_step d r p (r\<lparr>r_uri := zero_uri\<lparr>u_state := URI_SLASH_BEFORE_ABS_PATH\<rparr>, r_state := RQ_URI\<rparr>) ?i"
    using assms(3,4) sl by (intro uri_step) (auto simp: parse_uri_def zero_uri_def)
  also have "runs request_line_step d (r\<lparr>r_uri := zero_uri\<lparr>u_state := URI_SLASH_BEFORE_ABS_PATH\<rparr>, r_state := RQ_URI\<rparr>) ?i ?r (Suc ?i)"
  proof -
    have "parse_uri (zero_uri\<lparr>u_state := URI_SLASH_BEFORE_ABS_PATH\<rparr>) d ?i = Some (OK, ?u)"
      using first by (simp add: parse_uri_def zero_uri_def path_uri_def mark_def NULL_PSTR_def)
    then show ?thesis using uri_step [of "r\<lparr>r_uri := zero_uri\<lparr>u_state := URI_SLASH_BEFORE_ABS_PATH\<rparr>, r_state := RQ_URI\<rparr>"
        ?i d ?u] each [of ?i] first(2) by simp
  qed
  also have "runs request_line_step d ?r (Suc ?i) ?r ?e"
  proof (rule runs_while)
    show "Suc ?i \<le> ?e" using w by simp
    show "?e \<le> length d" using reads_fit [OF rd] w by simp
    fix k assume k: "Suc ?i \<le> k" "k < ?e"
    have "parse_uri ?u d k = Some (OK, ?u)"
      using each [of k] k by (simp add: parse_uri_def zero_uri_def path_uri_def Let_def)
    then show "request_line_step ?r d k = Some (None, ?r, d)"
      using each [of k] k by (simp add: request_line_step_def step_uri_def Let_def)
  qed
  finally show ?thesis .
qed

lemma ext_runs:
  assumes "ext_ok e" "reads d p (ext_text e @ '' '')" "r_state r = RQ_URI" "r_uri r = path_uri i i" "i < p"
  shows "runs request_line_step d r p
    (r\<lparr>r_uri := (case e of None \<Rightarrow> path_uri i p | Some w \<Rightarrow> ext_uri i p (Suc p + length w)),
      r_state := RQ_BEFORE_VERSION\<rparr>) (Suc p + length (ext_text e))"
proof (cases e)
  case None
  have "close_uri (path_uri i i) p = Some (path_uri i p)"
    using assms(5) by (simp add: close_uri_def path_uri_def zero_uri_def measure_to_def of_nat_diff)
  then show ?thesis using None assms
    by (intro runs_one [THEN subst [where P = "\<lambda>q. runs _ _ _ _ _ q", rotated]])
      (auto simp: ext_text_def request_line_step_def)
next
  case (Some w)
  let ?j = "Suc p" and ?e = "Suc p + length w"
  let ?u1 = "path_uri i p\<lparr>u_state := URI_BEFORE_EXTENSION\<rparr>"
    and ?u2 = "zero_uri\<lparr>u_state := URI_EXTENSION, abs_path := \<lparr>pc = At i, pl = int (p - i)\<rparr>,
      extension := Ext_str \<lparr>pc = At (Suc p), pl = 0\<rparr>\<rparr>"
  have w: "w \<noteq> []" "\<forall>c \<in> set w. alpha c" using assms(1) Some by (auto simp: ext_ok_def)
  have rd: "reads d ?j w" and dot: "p < length d" "d ! p = CHR ''.''" and sp: "?e < length d" "d ! ?e = CHR '' ''"
    using assms(2) Some by (auto simp: ext_text_def)
  have each: "k < length d \<and> alpha (d ! k)" if "?j \<le> k" "k < ?e" for k
    using reads_in [OF rd that] w by auto
  have nd: "\<not> allowed_in_abs_path (CHR ''.'')" using allowed_not_dot by blast
  have "runs request_line_step d r p (r\<lparr>r_uri := ?u1, r_state := RQ_URI\<rparr>) ?j"
    using assms(3-5) dot nd by (intro uri_step)
      (auto simp: parse_uri_def path_uri_def zero_uri_def measure_to_def of_nat_diff)
  also have "runs request_line_step d (r\<lparr>r_uri := ?u1, r_state := RQ_URI\<rparr>) ?j (r\<lparr>r_uri := ?u2, r_state := RQ_URI\<rparr>) (Suc ?j)"
  proof -
    have "parse_uri ?u1 d ?j = Some (OK, ?u2)" using each [of ?j] w
      by (simp add: parse_uri_def path_uri_def zero_uri_def ext_mark_def mark_def NULL_PSTR_def)
    then show ?thesis using uri_step [of "r\<lparr>r_uri := ?u1, r_state := RQ_URI\<rparr>" ?j d ?u2] each [of ?j] w
        class_alpha [of "d ! ?j"] by simp
  qed
  also have "runs request_line_step d (r\<lparr>r_uri := ?u2, r_state := RQ_URI\<rparr>) (Suc ?j) (r\<lparr>r_uri := ?u2, r_state := RQ_URI\<rparr>) ?e"
  proof (rule runs_while)
    show "Suc ?j \<le> ?e" using w by (cases w) auto
    show "?e \<le> length d" using sp by simp
    fix k assume k: "Suc ?j \<le> k" "k < ?e"
    have "parse_uri ?u2 d k = Some (OK, ?u2)" using each [of k] k by (simp add: parse_uri_def zero_uri_def Let_def)
    then show "request_line_step (r\<lparr>r_uri := ?u2, r_state := RQ_URI\<rparr>) d k = Some (None, r\<lparr>r_uri := ?u2, r_state := RQ_URI\<rparr>, d)"
      using each [of k] k class_alpha [of "d ! k"] by (simp add: request_line_step_def step_uri_def Let_def)
  qed
  also have "runs request_line_step d (r\<lparr>r_uri := ?u2, r_state := RQ_URI\<rparr>) ?e
      (r\<lparr>r_uri := ext_uri i p ?e, r_state := RQ_BEFORE_VERSION\<rparr>) (Suc ?e)"
  proof -
    have "close_uri ?u2 ?e = Some (ext_uri i p ?e)"
      by (simp add: close_uri_def ext_uri_def zero_uri_def ext_measure_def measure_to_def)
    then show ?thesis using sp by (intro runs_one) (auto simp: request_line_step_def)
  qed
  finally show ?thesis using Some by (simp add: ext_text_def)
qed

text \<open>The version and the end of the line.\<close>

lemma add_digit_zero: "digit c \<Longrightarrow> unat (add_digit 0 c) = code c - 48"
proof -
  assume "digit c"
  then have "add_digit 0 c = of_nat (code c - 48)" "code c - 48 < 2 ^ 16"
    by (auto simp: add_digit_def digit_def of_nat_diff)
  then show ?thesis by (simp add: unat_of_nat)
qed

lemma version_runs:
  assumes "reads d p (''HTTP/'' @ [a, CHR ''.'', z, CR, LF])" "digit a" "digit z"
    and "r_state r = RQ_BEFORE_VERSION" "major r = 0" "minor r = 0"
  shows "runs request_line_step d r p
    (r\<lparr>major := add_digit 0 a, minor := add_digit 0 z, r_state := RQ_ALMOST_DONE\<rparr>) (p + 9)"
proof -
  note rd = assms(1)
  have digits: "unat (add_digit 0 a) \<le> 100" "unat (add_digit 0 z) \<le> 100"
    using assms(2,3) add_digit_zero [of a] add_digit_zero [of z] by (auto simp: digit_def)
  let ?s = "\<lambda>s. r\<lparr>r_state := s\<rparr>" and ?R = "request_line_step"
  have "runs ?R d r p (?s RQ_VERSION_H) (p + 1)"
    using rd assms(4) runs_one [of p d ?R r "?s RQ_VERSION_H"] by (simp add: request_line_step_def)
  also have "runs ?R d (?s RQ_VERSION_H) (p + 1) (?s RQ_VERSION_HT) (p + 2)"
    using rd runs_one [of "p + 1" d ?R "?s RQ_VERSION_H" "?s RQ_VERSION_HT"]
    by (simp add: request_line_step_def expect_def eval_nat_numeral)
  also have "runs ?R d (?s RQ_VERSION_HT) (p + 2) (?s RQ_VERSION_HTT) (p + 3)"
    using rd runs_one [of "p + 2" d ?R "?s RQ_VERSION_HT" "?s RQ_VERSION_HTT"]
    by (simp add: request_line_step_def expect_def eval_nat_numeral)
  also have "runs ?R d (?s RQ_VERSION_HTT) (p + 3) (?s RQ_VERSION_HTTP) (p + 4)"
    using rd runs_one [of "p + 3" d ?R "?s RQ_VERSION_HTT" "?s RQ_VERSION_HTTP"]
    by (simp add: request_line_step_def expect_def eval_nat_numeral)
  also have "runs ?R d (?s RQ_VERSION_HTTP) (p + 4) (?s RQ_VERSION_SLASH) (p + 5)"
    using rd runs_one [of "p + 4" d ?R "?s RQ_VERSION_HTTP" "?s RQ_VERSION_SLASH"]
    by (simp add: request_line_step_def expect_def eval_nat_numeral)
  also have "runs ?R d (?s RQ_VERSION_SLASH) (p + 5) (r\<lparr>major := add_digit 0 a, r_state := RQ_VERSION_DOT\<rparr>) (p + 6)"
    using rd assms(2,5) digits runs_one [of "p + 5" d ?R "?s RQ_VERSION_SLASH" "r\<lparr>major := add_digit 0 a, r_state := RQ_VERSION_DOT\<rparr>"]
    by (simp add: request_line_step_def Let_def eval_nat_numeral)
  also have "runs ?R d (r\<lparr>major := add_digit 0 a, r_state := RQ_VERSION_DOT\<rparr>) (p + 6)
      (r\<lparr>major := add_digit 0 a, r_state := RQ_VERSION_MINOR\<rparr>) (p + 7)"
    using rd runs_one [of "p + 6" d ?R "r\<lparr>major := add_digit 0 a, r_state := RQ_VERSION_DOT\<rparr>" "r\<lparr>major := add_digit 0 a, r_state := RQ_VERSION_MINOR\<rparr>"]
    by (simp add: request_line_step_def eval_nat_numeral)
  also have "runs ?R d (r\<lparr>major := add_digit 0 a, r_state := RQ_VERSION_MINOR\<rparr>) (p + 7)
      (r\<lparr>major := add_digit 0 a, minor := add_digit 0 z, r_state := RQ_VERSION_MINOR\<rparr>) (p + 8)"
    using rd assms(3,6) digits runs_one [of "p + 7" d ?R "r\<lparr>major := add_digit 0 a, r_state := RQ_VERSION_MINOR\<rparr>"
        "r\<lparr>major := add_digit 0 a, minor := add_digit 0 z, r_state := RQ_VERSION_MINOR\<rparr>"]
    by (simp add: request_line_step_def Let_def eval_nat_numeral)
  also have "runs ?R d (r\<lparr>major := add_digit 0 a, minor := add_digit 0 z, r_state := RQ_VERSION_MINOR\<rparr>) (p + 8)
      (r\<lparr>major := add_digit 0 a, minor := add_digit 0 z, r_state := RQ_ALMOST_DONE\<rparr>) (p + 9)"
    using rd runs_one [of "p + 8" d ?R "r\<lparr>major := add_digit 0 a, minor := add_digit 0 z, r_state := RQ_VERSION_MINOR\<rparr>"
        "r\<lparr>major := add_digit 0 a, minor := add_digit 0 z, r_state := RQ_ALMOST_DONE\<rparr>"]
    by (simp add: request_line_step_def eval_nat_numeral)
  finally show ?thesis .
qed

section \<open>The parser inverts the specification\<close>

lemma request_line_runs:
  assumes "m \<noteq> M_INVALID_METHOD" "path_text w" "ext_ok e" "digit a" "digit z" "fresh_request r"
    and "reads d p (request_line_text m w e a z)"
    and "i = p + length (method_name m) + 2" "j = i + length w" "k = j + length (ext_text e)"
  shows "runs request_line_step d r p
    (r\<lparr>request_line := mark p (request_line r), r_method := m,
       r_uri := (case e of None \<Rightarrow> path_uri i j | Some x \<Rightarrow> ext_uri i j k),
       major := add_digit 0 a, minor := add_digit 0 z, r_state := RQ_ALMOST_DONE\<rparr>) (k + 10)"
    "k + 10 < length d" "d ! (k + 10) = LF"
proof -
  have rd: "reads d p (method_name m @ '' '')" "reads d (i - 1) (CHR ''/'' # w)" "reads d j (ext_text e @ '' '')"
    "reads d (Suc k) (''HTTP/'' @ [a, CHR ''.'', z, CR, LF])"
    using assms(7-10) by (auto simp: request_line_text_def)
  then show "k + 10 < length d" "d ! (k + 10) = LF" by (auto simp: eval_nat_numeral)
  have i: "Suc (i - 1) = i" "p + length (method_name m) + 1 = i - 1" "i < j"
    using assms(2,8,9) by (auto simp: path_text_def)
  have fresh: "r_state r = RQ_BEGIN" "r_uri r = zero_uri" "major r = 0" "minor r = 0"
    using assms(6) by (auto simp: fresh_request_def)
  let ?r1 = "r\<lparr>request_line := mark p (request_line r), r_state := RQ_BEFORE_URI, r_method := m\<rparr>"
  let ?r2 = "?r1\<lparr>r_uri := path_uri i i, r_state := RQ_URI\<rparr>"
  let ?u = "case e of None \<Rightarrow> path_uri i j | Some x \<Rightarrow> ext_uri i j k"
  let ?r3 = "?r2\<lparr>r_uri := ?u, r_state := RQ_BEFORE_VERSION\<rparr>"
  have "runs request_line_step d r p ?r1 (i - 1)"
    using method_runs [OF assms(1) rd(1) fresh(1)] unfolding i .
  also have "runs request_line_step d ?r1 (i - 1) ?r2 j"
    using path_runs [OF assms(2) rd(2), of ?r1] fresh i assms(9) by simp
  also have "runs request_line_step d ?r2 j ?r3 (Suc k)"
    using ext_runs [OF assms(3) rd(3), of ?r2 i] i assms(10)
    by (cases e) (simp_all add: ext_text_def)
  also have "runs request_line_step d ?r3 (Suc k)
      (?r3\<lparr>major := add_digit 0 a, minor := add_digit 0 z, r_state := RQ_ALMOST_DONE\<rparr>) (Suc k + 9)"
    using fresh by (intro version_runs [OF rd(4) assms(4,5)]) simp_all
  finally show "runs request_line_step d r p
    (r\<lparr>request_line := mark p (request_line r), r_method := m, r_uri := ?u,
       major := add_digit 0 a, minor := add_digit 0 z, r_state := RQ_ALMOST_DONE\<rparr>) (k + 10)"
    by (simp add: eval_nat_numeral)
qed

definition ext_of :: "char list \<Rightarrow> extension_u \<Rightarrow> char list option" where
  "ext_of d x = (case x of Ext_str s \<Rightarrow> text_of d s | Ext_type t \<Rightarrow> None)"

lemma accept_request_line_exact:
  assumes "m \<noteq> M_INVALID_METHOD" "path_text w" "ext_ok e" "digit a" "digit z" "fresh_request r"
    and "buffer_wf b" "contents b = request_line_text m w e a z @ rest"
  shows "\<exists>l u b'. parse_request_line r b = Some (OK, r\<lparr>request_line := l, r_method := m, r_uri := u, major := add_digit 0 a,
      minor := add_digit 0 z, r_state := RQ_DONE\<rparr>, b') \<and> contents b' = rest \<and>
    text_of (bdata b) (abs_path u) = Some w \<and> ext_of (bdata b) (extension u) = e"
proof -
  let ?d = "bdata b" and ?p = "bbegin b"
  define i j k where ijk: "i = ?p + length (method_name m) + 2" "j = i + length w" "k = j + length (ext_text e)"
  have wf: "?p \<le> bend b" "bend b \<le> limit" "length ?d = limit" using assms(7) by (auto simp: buffer_wf_def)
  have rd: "reads ?d ?p (request_line_text m w e a z)"
    using assms(8) wf by (intro segment_reads [of "bend b"]) (auto simp: contents_def)
  note run = request_line_runs [OF assms(1-6) rd ijk]
  let ?u = "case e of None \<Rightarrow> path_uri i j | Some x \<Rightarrow> ext_uri i j k"
  let ?r = "r\<lparr>request_line := mark ?p (request_line r), r_method := m, r_uri := ?u,
       major := add_digit 0 a, minor := add_digit 0 z, r_state := RQ_ALMOST_DONE\<rparr>"
  have len: "length (request_line_text m w e a z) = k + 11 - ?p" "?p < k"
    using ijk by (simp_all add: request_line_text_def)
  have "length (contents b) = bend b - ?p" using wf by (simp add: contents_def)
  then have fits: "k + 11 \<le> bend b" using assms(8) len wf by simp
  have "request_line_step ?r ?d (k + 10) = Some (Some OK, ?r, ?d)"
    using run(3) by (simp add: request_line_step_def)
  then have sc: "scan request_line_step r ?d ?p (bend b - ?p) = Some (Some OK, ?r, ?d, k + 10)"
    using runs_stop [OF run(1) _ run(2)] fits by simp
  let ?r' = "?r\<lparr>request_line := \<lparr>pc = At ?p, pl = int (k + 10 - ?p)\<rparr>, r_state := RQ_DONE\<rparr>"
    and ?b' = "b\<lparr>bdata := ?d, bbegin := k + 10 + 1\<rparr>"
  have "request_line_done (k + 10) ?r = Some ?r'" using len(2)
    by (simp add: request_line_done_def measure_to_def mark_def of_nat_diff)
  then have "parse_request_line r b = Some (OK, ?r', ?b')"
    using sc by (simp add: parse_request_line_def parse_with_def)
  moreover have "contents ?b' = rest"
  proof -
    have "segment ?d ?p (k + 11) @ segment ?d (k + 11) (bend b) = request_line_text m w e a z @ rest"
      using segment_append [of ?p "k + 11" "bend b" ?d] fits len assms(8) by (simp add: contents_def)
    moreover have "length (segment ?d ?p (k + 11)) = length (request_line_text m w e a z)"
      using fits wf len by simp
    ultimately have "segment ?d (k + 11) (bend b) = rest" by (meson append_eq_append_conv)
    then show ?thesis by (simp add: contents_def add.commute)
  qed
  moreover have "text_of ?d (abs_path ?u) = Some w \<and> ext_of ?d (extension ?u) = e"
  proof -
    have rdw: "reads ?d i w" "reads ?d j (ext_text e)" using rd ijk by (auto simp: request_line_text_def)
    have "segment ?d i j = w" using reads_segment [OF rdw(1)] ijk by simp
    moreover have "e = Some x \<Longrightarrow> segment ?d (Suc j) k = x" for x
      using reads_segment [of ?d "Suc j" x] rdw(2) ijk by (simp add: ext_text_def)
    ultimately show ?thesis using ijk
      by (cases e) (auto simp: path_uri_def ext_uri_def text_of_def ext_of_def zero_uri_def NULL_PSTR_def ext_text_def)
  qed
  ultimately show ?thesis
    by (intro exI [of _ "\<lparr>pc = At ?p, pl = int (k + 10 - ?p)\<rparr>"] exI [of _ ?u] exI [of _ ?b']) simp
qed

lemma accept_request_line:
  assumes "m \<noteq> M_INVALID_METHOD" "path_text w" "ext_ok e" "digit a" "digit z" "fresh_request r"
    and "buffer_wf b" "contents b = request_line_text m w e a z @ rest"
  shows "\<exists>r' b'. parse_request_line r b = Some (OK, r', b') \<and> contents b' = rest \<and> r_state r' = RQ_DONE \<and>
    r_method r' = m \<and> unat (major r') = code a - 48 \<and> unat (minor r') = code z - 48 \<and>
    text_of (bdata b) (abs_path (r_uri r')) = Some w \<and> ext_of (bdata b) (extension (r_uri r')) = e"
  using accept_request_line_exact [OF assms] add_digit_zero assms(4,5) by fastforce

end
