(* ===== verification/Request_Uri.thy ===== *)
theory Request_Uri
  imports Request_Accept Hash_Table Http_Response
begin

text \<open>
  What \<^verbatim>\<open>http/http_request.c\<close> does with a parsed target: \<open>process_abs_path\<close> makes a C
  string of the path inside the receive buffer, \<open>process_extension\<close> classifies the extension,
  and \<open>request_process_uri\<close> decides between forwarding and serving a file. The main result is
  that no path leads out of the document root.
\<close>

section \<open>The code\<close>

definition is_ext :: "char list \<Rightarrow> pstr \<Rightarrow> char list \<Rightarrow> bool option" where
  "is_ext d s lit = do {
     bs \<leftarrow> bytes_at d (pc s);
     stringEq \<lparr>chars = bs, len = pl s\<rparr> (STRING lit)
   }"

definition process_extension :: "char list \<Rightarrow> request \<Rightarrow> request option" where
  "process_extension d r =
     (case extension (r_uri r) of
        Ext_type _ \<Rightarrow> None
      | Ext_str s \<Rightarrow> do {
          t \<leftarrow> (if pc s = Null then Some HTML else do {
            h \<leftarrow> is_ext d s ''html'';
            if h then Some HTML else do {
              x \<leftarrow> is_ext d s ''txt'';
              if x then Some TXT else do {
                j \<leftarrow> is_ext d s ''json'';
                Some (if j then JSON else UNKNOWN_EXTENSION)
              }
            }
          });
          Some (r\<lparr>r_uri := (r_uri r)\<lparr>extension := Ext_type t\<rparr>\<rparr>)
        })"

text \<open>The request, the buffer and the returned pointer. A store into a literal has no defined result.\<close>

definition process_abs_path :: "char list \<Rightarrow> request \<Rightarrow> (request \<times> char list \<times> cptr) option" where
  "process_abs_path d r =
     (case pc (abs_path (r_uri r)) of
        Null \<Rightarrow> Some (r\<lparr>r_uri := (r_uri r)\<lparr>abs_path := \<lparr>pc = Literal ''./'', pl = 2\<rparr>\<rparr>\<rparr>, d, Literal ''./'')
      | Literal _ \<Rightarrow> None
      | At i \<Rightarrow> do {
          s \<leftarrow> (case extension (r_uri r) of Ext_str s \<Rightarrow> Some s | Ext_type _ \<Rightarrow> None);
          let skip_len = pl (abs_path (r_uri r)) + (if pc s \<noteq> Null then pl s + 1 else 0);
          guard (0 \<le> skip_len);
          d' \<leftarrow> poke d (i + nat skip_len) [CHR 0x00];
          Some (r, d', At i)
        })"

text \<open>The C string at a pointer: the bytes before the first NUL, which must exist.\<close>

definition c_string :: "char list \<Rightarrow> cptr \<Rightarrow> char list option" where
  "c_string d p = do {
     bs \<leftarrow> bytes_at d p;
     if CHR 0x00 \<in> set bs then Some (takeWhile (\<lambda>c. c \<noteq> CHR 0x00) bs) else None
   }"

text \<open>
  The file system: opening a path below the root, opening the index file of a directory, and
  the two answers of \<^verbatim>\<open>fstat\<close>.
\<close>

record file_system =
  open_root :: "char list \<Rightarrow> int"
  open_index :: "int \<Rightarrow> int"
  is_dir :: "int \<Rightarrow> bool"
  size_of :: "int \<Rightarrow> int"

definition serve_file :: "file_system \<Rightarrow> char list \<Rightarrow> request \<Rightarrow> buffer \<Rightarrow> char list \<Rightarrow>
    (rc \<times> request \<times> buffer \<times> char list \<times> event_call list) option" where
  "serve_file fs after r sb d = do {
     (r1, d1, p) \<leftarrow> process_abs_path d r;
     path \<leftarrow> c_string d1 p;
     let fd = open_root fs path;
     if fd \<le> 0 then do {
       (_, r2, sb1, calls) \<leftarrow> construct_err after r1 sb 404;
       Some (ERROR, r2, sb1, d1, calls)
     } else if is_dir fs fd \<and> open_index fs fd \<le> 0 then do {
       (_, r2, sb1, calls) \<leftarrow> construct_err after r1 sb 403;
       Some (ERROR, r2, sb1, d1, calls)
     } else do {
       let fd' = (if is_dir fs fd then open_index fs fd else fd);
       Some (OK, r1\<lparr>resource_fd := fd', resource_len := size_of fs fd'\<rparr>, sb, d1, [])
     }
   }"

text \<open>
  \<open>forward\<close> stands for the branch of a proxied location: \<open>open_upstream_connection\<close> and
  \<open>try_connect_upstream\<close>, which belong to the upstream component.
\<close>

definition request_process_uri :: "file_system \<Rightarrow> char list \<Rightarrow> 'v hash \<Rightarrow> ('v \<Rightarrow> request \<Rightarrow> request option) \<Rightarrow>
    request \<Rightarrow> buffer \<Rightarrow> char list \<Rightarrow> (rc \<times> request \<times> buffer \<times> char list \<times> event_call list) option" where
  "request_process_uri fs after locations forward r sb d = do {
     let a = abs_path (r_uri r);
     guard (0 \<le> pl a);
     name \<leftarrow> (if pc a = Null then Some [] else bytes_at d (pc a));
     loc \<leftarrow> hash_find locations name (nat (pl a));
     (c, r1, sb1, d1, calls) \<leftarrow> (case loc of
        Some v \<Rightarrow> map_option (\<lambda>r'. (OK, r', sb, d, [])) (forward v r)
      | None \<Rightarrow> serve_file fs after r sb d);
     if c = ERROR then Some (ERROR, r1, sb1, d1, calls)
     else do {
       r2 \<leftarrow> process_extension d1 r1;
       let r3 = (if minor r2 = 1 then r2\<lparr>keep_alive := True\<rparr> else r2);
       Some (OK, r3, sb1, d1, calls)
     }
   }"

section \<open>Paths that stay below the root\<close>

fun components :: "char list \<Rightarrow> char list list" where
  "components [] = [[]]"
| "components (c # cs) =
     (if c = CHR ''/'' then [] # components cs
      else case components cs of [] \<Rightarrow> [[c]] | w # ws \<Rightarrow> (c # w) # ws)"

text \<open>A relative path none of whose components is \<^verbatim>\<open>..\<close>.\<close>

definition confined :: "char list \<Rightarrow> bool" where
  "confined p \<longleftrightarrow> (p \<noteq> [] \<longrightarrow> hd p \<noteq> CHR ''/'') \<and> ''..'' \<notin> set (components p)"

definition dots :: "char list \<Rightarrow> nat" where
  "dots p = length (filter (\<lambda>c. c = CHR ''.'') p)"

lemma dots_simps [simp]:
  "dots [] = 0" "dots (c # p) = (if c = CHR ''.'' then Suc (dots p) else dots p)"
  "dots (p @ q) = dots p + dots q"
  by (simp_all add: dots_def)

lemma dots_components: "w \<in> set (components p) \<Longrightarrow> dots w \<le> dots p"
proof (induction p arbitrary: w)
  case (Cons c p)
  then show ?case by (fastforce split: if_splits list.splits)
qed simp

lemma dots_takeWhile: "dots (takeWhile P p) \<le> dots p"
  by (induction p) auto

lemma dots_none: "\<forall>c \<in> set p. c \<noteq> CHR ''.'' \<Longrightarrow> dots p = 0"
  by (simp add: dots_def)

lemma confined_few_dots:
  assumes "dots p \<le> 1" "p \<noteq> [] \<longrightarrow> hd p \<noteq> CHR ''/''"
  shows "confined p"
  using assms dots_components [of "''..''" p] by (auto simp: confined_def)

text \<open>Cutting the buffer off at \<open>j\<close> leaves the bytes from \<open>i\<close> to \<open>j\<close>, up to a NUL among them.\<close>

lemma takeWhile_cut: "\<not> P x \<Longrightarrow> takeWhile P (w @ x # r) = takeWhile P w"
  by (induction w) auto

lemma c_string_cut:
  assumes "poke d j [CHR 0x00] = Some d'" "i \<le> j"
  shows "c_string d' (At i) = Some (takeWhile (\<lambda>c. c \<noteq> CHR 0x00) (segment d i j))"
proof -
  have d': "d' = take j d @ CHR 0x00 # drop (Suc j) d" and j: "j < length d"
    using assms(1) by (auto simp: poke_def split: if_splits)
  have "drop i d' = segment d i j @ CHR 0x00 # drop (Suc j) d"
    using assms(2) j by (simp add: d' segment_def drop_take)
  then show ?thesis by (simp add: c_string_def takeWhile_cut)
qed

lemma takeWhile_hd: "takeWhile P xs \<noteq> [] \<Longrightarrow> hd (takeWhile P xs) = hd xs"
  by (cases xs) auto

lemma cut_confined:
  assumes "poke d j [CHR 0x00] = Some d'" "i \<le> j" "dots (segment d i j) \<le> 1" "i < j \<longrightarrow> d ! i \<noteq> CHR ''/''"
  shows "\<exists>path. c_string d' (At i) = Some path \<and> confined path"
proof -
  let ?w = "segment d i j"
  have "j < length d" using assms(1) by (auto simp: poke_def split: if_splits)
  then have "hd ?w = d ! i" if "i < j" using that by (simp add: segment_map upt_conv_Cons)
  then have "takeWhile (\<lambda>c. c \<noteq> CHR 0x00) ?w \<noteq> [] \<longrightarrow> hd (takeWhile (\<lambda>c. c \<noteq> CHR 0x00) ?w) \<noteq> CHR ''/''"
    using takeWhile_hd [of "\<lambda>c. c \<noteq> CHR 0x00" ?w] assms(2,4) by (cases "i < j") auto
  moreover have "dots (takeWhile (\<lambda>c. c \<noteq> CHR 0x00) ?w) \<le> 1"
    using dots_takeWhile [of "\<lambda>c. c \<noteq> CHR 0x00" ?w] assms(3) by linarith
  ultimately show ?thesis using c_string_cut [OF assms(1,2)] confined_few_dots by blast
qed

lemma plain_dots: "plain d i j \<Longrightarrow> j \<le> length d \<Longrightarrow> dots (segment d i j) = 0"
  by (rule dots_none) (auto simp: set_segment plain_def)

lemma letters_dots: "letters d i j \<Longrightarrow> j \<le> length d \<Longrightarrow> dots (segment d i j) = 0"
  using class_alpha by (intro dots_none) (auto simp: set_segment letters_def)

section \<open>What is opened\<close>

text \<open>
  The path that the target spells: the current directory if there is none, otherwise the bytes of the path with those of
  the extension, up to a NUL among them.
\<close>

definition spelled :: "char list \<Rightarrow> uri \<Rightarrow> char list" where
  "spelled d u =
     (case pc (abs_path u) of
        At i \<Rightarrow> (let n = pl (abs_path u) + (case extension u of Ext_str s \<Rightarrow> if pc s = Null then 0 else pl s + 1 | Ext_type _ \<Rightarrow> 0)
          in takeWhile (\<lambda>c. c \<noteq> CHR 0x00) (segment d i (i + nat n)))
      | _ \<Rightarrow> ''./'')"

definition type_of :: "char list option \<Rightarrow> extension_t" where
  "type_of e = (case e of None \<Rightarrow> HTML
     | Some x \<Rightarrow> if x = ''html'' then HTML else if x = ''txt'' then TXT else if x = ''json'' then JSON else UNKNOWN_EXTENSION)"

lemma is_ext_text:
  assumes "pc s = At i" "pl s = int n" "i + n \<le> length d" "\<forall>c \<in> set lit. code c \<noteq> 0"
  shows "is_ext d s lit = Some (segment d i (i + n) = lit)"
proof -
  have "stringEq \<lparr>chars = drop i d, len = int n\<rparr> (STRING lit) = Some (take n (drop i d) = lit)"
    using stringEq_STRING [of "\<lparr>chars = drop i d, len = int n\<rparr>" n lit] assms(3,4) by simp
  then show ?thesis using assms(1,2) by (simp add: is_ext_def segment_def)
qed

lemma process_extension_text:
  assumes "extension (r_uri x) = Ext_str s" "s = NULL_PSTR \<and> e = None \<or>
      (\<exists>i n w. s = \<lparr>pc = At i, pl = int n\<rparr> \<and> i + n \<le> length d \<and> segment d i (i + n) = w \<and> e = Some w)"
  shows "process_extension d x = Some (x\<lparr>r_uri := (r_uri x)\<lparr>extension := Ext_type (type_of e)\<rparr>\<rparr>)"
proof -
  have lits: "\<forall>c \<in> set ''html''. code c \<noteq> 0" "\<forall>c \<in> set ''txt''. code c \<noteq> 0" "\<forall>c \<in> set ''json''. code c \<noteq> 0"
    by (simp_all add: code_def)
  consider (none) "s = NULL_PSTR" "e = None"
    | (ext) i n where "s = \<lparr>pc = At i, pl = int n\<rparr>" "i + n \<le> length d" "e = Some (segment d i (i + n))" using assms(2) by blast
  then show ?thesis
  proof cases
    case none
    then show ?thesis using assms(1) by (simp add: process_extension_def type_of_def NULL_PSTR_def)
  next
    case ext
    note is_ext_text [of s i n d, OF _ _ ext(2)]
    then have "is_ext d s ''html'' = Some (segment d i (i + n) = ''html'')" "is_ext d s ''txt'' = Some (segment d i (i + n) = ''txt'')"
      "is_ext d s ''json'' = Some (segment d i (i + n) = ''json'')" using ext(1) lits by simp_all
    then show ?thesis using assms(1) ext(1,3) by (simp add: process_extension_def type_of_def)
  qed
qed

text \<open>
  \<open>process_abs_path\<close> after a successful parse: it returns the path that is spelled, which is confined,
  the only byte it changes lies before the read position, and the extension can be read afterwards.
\<close>

lemma process_abs_path_safe:
  assumes "path_at d (r_uri r) p" "p < length d"
  shows "\<exists>r' d' q. process_abs_path d r = Some (r', d', q) \<and> c_string d' q = Some (spelled d (r_uri r)) \<and> confined (spelled d (r_uri r)) \<and>
    length d' = length d \<and> drop (Suc p) d' = drop (Suc p) d \<and> (\<exists>u. r' = r\<lparr>r_uri := u\<rparr>) \<and>
    (\<forall>x. r_uri x = r_uri r' \<longrightarrow> process_extension d' x =
      Some (x\<lparr>r_uri := (r_uri x)\<lparr>extension := Ext_type (type_of (ext_of d (extension (r_uri r))))\<rparr>\<rparr>))"
proof -
  have cut: "\<exists>d'. poke d k [CHR 0x00] = Some d' \<and> length d' = length d \<and> drop (Suc p) d' = drop (Suc p) d" if "k \<le> p" for k
    using that assms(2) by (auto simp: poke_def Suc_diff_le)
  have same: "\<exists>u. r = r\<lparr>r_uri := u\<rparr>" by (rule exI [of _ "r_uri r"]) simp
  consider (none) "no_path (r_uri r)"
    | (query) i where "abs_path (r_uri r) = \<lparr>pc = At i, pl = 0\<rparr>" "no_ext (r_uri r)" "i < p" "plain d i (Suc i)"
    | (path) i j where "abs_path (r_uri r) = \<lparr>pc = At i, pl = int (j - i)\<rparr>" "no_ext (r_uri r)" "j \<le> p" "plain d i j"
    | (ext) i j k where "abs_path (r_uri r) = \<lparr>pc = At i, pl = int (j - i)\<rparr>" "plain d i j" "d ! j = CHR ''.''"
        "extension (r_uri r) = Ext_str \<lparr>pc = At (Suc j), pl = int (k - Suc j)\<rparr>" "letters d (Suc j) k" "k \<le> p"
    using assms(1) unfolding path_at_def by blast
  then show ?thesis
  proof cases
    case none
    let ?u = "(r_uri r)\<lparr>abs_path := \<lparr>pc = Literal ''./'', pl = 2\<rparr>\<rparr>"
    have "process_abs_path d r = Some (r\<lparr>r_uri := ?u\<rparr>, d, Literal ''./'')" using none by (simp add: process_abs_path_def no_path_def NULL_PSTR_def)
    moreover have "c_string d (Literal ''./'') = Some ''./''" "confined ''./''" by (simp_all add: c_string_def confined_def)
    moreover have "spelled d (r_uri r) = ''./''" "ext_of d (extension (r_uri r)) = None"
      using none by (simp_all add: spelled_def no_path_def no_ext_def NULL_PSTR_def ext_of_def text_of_def)
    moreover have "process_extension d x = Some (x\<lparr>r_uri := (r_uri x)\<lparr>extension := Ext_type (type_of None)\<rparr>\<rparr>)" if "r_uri x = ?u" for x
      using process_extension_text [of x NULL_PSTR None d] that none by (simp add: no_path_def no_ext_def)
    ultimately show ?thesis by (intro exI [of _ "r\<lparr>r_uri := ?u\<rparr>"] exI [of _ d] exI [of _ "Literal ''./''"]) auto
  next
    case query
    obtain d' where d': "poke d i [CHR 0x00] = Some d'" "length d' = length d" "drop (Suc p) d' = drop (Suc p) d"
      using cut [of i] query by auto
    have sp: "spelled d (r_uri r) = takeWhile (\<lambda>c. c \<noteq> CHR 0x00) (segment d i i)" and e: "ext_of d (extension (r_uri r)) = None"
      using query by (simp_all add: spelled_def no_ext_def NULL_PSTR_def ext_of_def text_of_def)
    have "process_abs_path d r = Some (r, d', At i)" using query d'(1) by (simp add: process_abs_path_def no_ext_def NULL_PSTR_def)
    moreover have "confined (spelled d (r_uri r))" by (simp add: sp confined_def)
    moreover have "process_extension d' x = Some (x\<lparr>r_uri := (r_uri x)\<lparr>extension := Ext_type (type_of None)\<rparr>\<rparr>)" if "r_uri x = r_uri r" for x
      using process_extension_text [of x NULL_PSTR None d'] that query(2) by (simp add: no_ext_def)
    ultimately show ?thesis using d'(2,3) c_string_cut [OF d'(1), of i] sp e same
      by (intro exI [of _ r] exI [of _ d'] exI [of _ "At i"]) simp
  next
    case path
    have ij: "i < j" "d ! i \<noteq> CHR ''/''" using path(4) allowed_not_dot by (auto simp: plain_def)
    obtain d' where d': "poke d j [CHR 0x00] = Some d'" "length d' = length d" "drop (Suc p) d' = drop (Suc p) d"
      using cut [of j] path by auto
    have n: "i + nat (int j - int i) = j" using ij by linarith
    have sp: "spelled d (r_uri r) = takeWhile (\<lambda>c. c \<noteq> CHR 0x00) (segment d i j)" and e: "ext_of d (extension (r_uri r)) = None"
      using path n ij by (simp_all add: spelled_def no_ext_def NULL_PSTR_def ext_of_def text_of_def)
    have "c_string d' (At i) = Some (spelled d (r_uri r))" using c_string_cut [OF d'(1), of i] ij sp by simp
    moreover from this have "confined (spelled d (r_uri r))"
      using path ij cut_confined [OF d'(1), of i] plain_dots [of d i j] assms(2) by auto
    moreover have "process_abs_path d r = Some (r, d', At i)"
      using path(1,2) d'(1) n by (simp add: process_abs_path_def no_ext_def NULL_PSTR_def)
    moreover have "process_extension d' x = Some (x\<lparr>r_uri := (r_uri x)\<lparr>extension := Ext_type (type_of None)\<rparr>\<rparr>)" if "r_uri x = r_uri r" for x
      using process_extension_text [of x NULL_PSTR None d'] that path(2) by (simp add: no_ext_def)
    ultimately show ?thesis using d'(2,3) e same by (intro exI [of _ r] exI [of _ d'] exI [of _ "At i"]) simp
  next
    case ext
    have ij: "i < j" "d ! i \<noteq> CHR ''/''" "Suc j < k" using ext allowed_not_dot by (auto simp: plain_def letters_def)
    obtain d' where d': "poke d k [CHR 0x00] = Some d'" "length d' = length d" "drop (Suc p) d' = drop (Suc p) d"
      using cut [of k] ext by auto
    have n: "i + nat (int k - int i) = k" "i + nat (int j - int i + (int k - int (Suc j) + 1)) = k" using ij by linarith+
    define m where "m = k - Suc j"
    then have xm: "extension (r_uri r) = Ext_str \<lparr>pc = At (Suc j), pl = int m\<rparr>" "k = Suc j + m" using ext(4) ij by simp_all
    have sp: "spelled d (r_uri r) = takeWhile (\<lambda>c. c \<noteq> CHR 0x00) (segment d i k)"
      and e: "ext_of d (extension (r_uri r)) = Some (segment d (Suc j) k)"
      using ext n ij assms(2) xm by (simp_all add: spelled_def ext_of_def text_of_def of_nat_diff)
    have "segment d i k = segment d i j @ segment d j (Suc j) @ segment d (Suc j) k"
      using segment_append [of j "Suc j" k d] segment_append [of i j k d] ij by simp
    then have "dots (segment d i k) \<le> 1"
      using plain_dots [of d i j] letters_dots [of d "Suc j" k] ext ij assms(2) segment_snoc [of j j d] by simp
    moreover have str: "c_string d' (At i) = Some (spelled d (r_uri r))" using c_string_cut [OF d'(1), of i] ij sp by simp
    ultimately have "confined (spelled d (r_uri r))" using cut_confined [OF d'(1), of i] ij by auto
    moreover have "process_abs_path d r = Some (r, d', At i)"
      using ext(1,4) d'(1) ij(1,3) n by (simp add: process_abs_path_def of_nat_diff)
    moreover have "process_extension d' x = Some (x\<lparr>r_uri := (r_uri x)\<lparr>extension := Ext_type (type_of (Some (segment d (Suc j) k)))\<rparr>\<rparr>)"
      if "r_uri x = r_uri r" for x
    proof -
      have "segment d' (Suc j) k = segment d (Suc j) k" using poke_segment(1) [OF d'(1), of "Suc j"] ij by simp
      then show ?thesis
        using process_extension_text [of x "\<lparr>pc = At (Suc j), pl = int m\<rparr>" "Some (segment d (Suc j) k)" d'] that ext(6) xm assms(2) d'(2) by simp
    qed
    ultimately show ?thesis using str d'(2,3) e same by (intro exI [of _ r] exI [of _ d'] exI [of _ "At i"]) simp
  qed
qed

lemma path_slice:
  assumes "path_at d u p" "p < length d" "text_of d (abs_path u) = Some w"
  shows "\<exists>i. abs_path u = \<lparr>pc = At i, pl = int (length w)\<rparr> \<and> i + length w \<le> length d"
proof -
  have slice: ?thesis if "abs_path u = \<lparr>pc = At i, pl = int (j - i)\<rparr>" "i < j" "j \<le> p" for i j
  proof -
    have "i + nat (int (j - i)) = j" using that(2) by simp
    then have "w = segment d i j" using assms(3) that(1) by (simp add: text_of_def del: of_nat_diff)
    then have "length w = j - i" using that assms(2) by simp
    then show ?thesis using that assms(2) by auto
  qed
  consider "no_path u" | i where "abs_path u = \<lparr>pc = At i, pl = 0\<rparr>" "i < p"
    | i j where "abs_path u = \<lparr>pc = At i, pl = int (j - i)\<rparr>" "j \<le> p" "i < j"
    | i j k where "abs_path u = \<lparr>pc = At i, pl = int (j - i)\<rparr>" "i < j" "Suc j < k" "k \<le> p"
    using assms(1) unfolding path_at_def plain_def letters_def by blast
  then show ?thesis
  proof cases
    case 3
    then show ?thesis using slice by blast
  next
    case 4
    then show ?thesis using slice [of i j] by simp
  qed (use assms(2,3) in \<open>auto simp: no_path_def NULL_PSTR_def text_of_def\<close>)
qed

text \<open>The descriptor that is served for a path: that of the file, or that of the index file of the directory.\<close>

definition opened :: "file_system \<Rightarrow> char list \<Rightarrow> int" where
  "opened fs path = (let fd = open_root fs path in if fd > 0 \<and> is_dir fs fd then open_index fs fd else fd)"

text \<open>A request for a path below the root, from the parsed line on: exactly what it gets.\<close>

lemma serve_file_exact:
  assumes pa: "path_at d (r_uri r) p" "p < length d" and sb: "buffer_wf sb" "81 \<le> length after"
  shows "\<exists>u d'. length d' = length d \<and> drop (Suc p) d' = drop (Suc p) d \<and>
    (\<forall>x. r_uri x = u \<longrightarrow> process_extension d' x =
      Some (x\<lparr>r_uri := u\<lparr>extension := Ext_type (type_of (ext_of d (extension (r_uri r))))\<rparr>\<rparr>)) \<and>
    (let path = spelled d (r_uri r); fd = opened fs path; err = (if open_root fs path \<le> 0 then 404 else 403) in
      if fd > 0 then serve_file fs after r sb d = Some (OK, r\<lparr>r_uri := u, resource_fd := fd, resource_len := size_of fs fd\<rparr>, sb, d', [])
      else \<exists>page sb'. err_page err = Some page \<and> serve_file fs after r sb d = Some (ERROR, r\<lparr>r_uri := u, status := int err,
          response_done := True, keep_alive := False\<rparr>, sb', d', [Add_event_w, Del_event_r, Set_wev_handler_response]) \<and>
        buffer_wf sb' \<and> contents sb' = err_head (minor r) err (length err_page_tail + length page) @ err_body after page)"
proof -
  let ?t = "type_of (ext_of d (extension (r_uri r)))"
  obtain r1 u d' q where r1: "process_abs_path d r = Some (r1, d', q)" "r1 = r\<lparr>r_uri := u\<rparr>" "c_string d' q = Some (spelled d (r_uri r))"
    "length d' = length d" "drop (Suc p) d' = drop (Suc p) d"
    "\<forall>x. r_uri x = r_uri r1 \<longrightarrow> process_extension d' x = Some (x\<lparr>r_uri := (r_uri x)\<lparr>extension := Ext_type ?t\<rparr>\<rparr>)"
    using process_abs_path_safe [OF pa] by blast
  then have a: "process_abs_path d r = Some (r\<lparr>r_uri := u\<rparr>, d', q)" "c_string d' q = Some (spelled d (r_uri r))"
    "length d' = length d" "drop (Suc p) d' = drop (Suc p) d"
    "\<forall>x. r_uri x = u \<longrightarrow> process_extension d' x = Some (x\<lparr>r_uri := u\<lparr>extension := Ext_type ?t\<rparr>\<rparr>)" by simp_all
  have err: "\<exists>page sb'. err_page e = Some page \<and> construct_err after (r\<lparr>r_uri := u\<rparr>) sb e =
      Some (OK, r\<lparr>r_uri := u, status := int e, response_done := True, keep_alive := False\<rparr>, sb', [Add_event_w, Del_event_r, Set_wev_handler_response]) \<and>
      buffer_wf sb' \<and> contents sb' = err_head (minor r) e (length err_page_tail + length page) @ err_body after page" if "e = 404 \<or> e = 403" for e
    using construct_err_text [of e sb after "r\<lparr>r_uri := u\<rparr>"] sb that by (auto simp: handled_errors_def)
  let ?path = "spelled d (r_uri r)"
  consider "open_root fs ?path \<le> 0" | "0 < open_root fs ?path" "is_dir fs (open_root fs ?path)" "open_index fs (open_root fs ?path) \<le> 0"
    | "0 < opened fs ?path" "0 < open_root fs ?path" 
    by (cases "open_root fs ?path \<le> 0"; cases "is_dir fs (open_root fs ?path)"; cases "open_index fs (open_root fs ?path) \<le> 0")
      (simp_all add: opened_def Let_def)
  then show ?thesis
  proof cases
    case 1
    then have o: "\<not> opened fs ?path > 0" by (simp add: opened_def)
    obtain page sb' where e: "err_page 404 = Some page" "construct_err after (r\<lparr>r_uri := u\<rparr>) sb 404 =
        Some (OK, r\<lparr>r_uri := u, status := int 404, response_done := True, keep_alive := False\<rparr>, sb', [Add_event_w, Del_event_r, Set_wev_handler_response])"
      "buffer_wf sb'" "contents sb' = err_head (minor r) 404 (length err_page_tail + length page) @ err_body after page"
      using err [of 404] by blast
    then have "serve_file fs after r sb d = Some (ERROR, r\<lparr>r_uri := u, status := int 404, response_done := True, keep_alive := False\<rparr>, sb', d',
        [Add_event_w, Del_event_r, Set_wev_handler_response])" using a(1,2) 1 by (simp add: serve_file_def)
    with e(1,3,4) 1 o show ?thesis by (intro exI [of _ u] exI [of _ d'] conjI a(3-5)) (simp add: Let_def)
  next
    case 2
    then have o: "\<not> opened fs ?path > 0" by (simp add: opened_def)
    obtain page sb' where e: "err_page 403 = Some page" "construct_err after (r\<lparr>r_uri := u\<rparr>) sb 403 =
        Some (OK, r\<lparr>r_uri := u, status := int 403, response_done := True, keep_alive := False\<rparr>, sb', [Add_event_w, Del_event_r, Set_wev_handler_response])"
      "buffer_wf sb'" "contents sb' = err_head (minor r) 403 (length err_page_tail + length page) @ err_body after page"
      using err [of 403] by blast
    then have "serve_file fs after r sb d = Some (ERROR, r\<lparr>r_uri := u, status := int 403, response_done := True, keep_alive := False\<rparr>, sb', d',
        [Add_event_w, Del_event_r, Set_wev_handler_response])" using a(1,2) 2 by (simp add: serve_file_def)
    with e(1,3,4) 2 o show ?thesis by (intro exI [of _ u] exI [of _ d'] conjI a(3-5)) (simp add: Let_def)
  next
    case 3
    then have "serve_file fs after r sb d = Some (OK, r\<lparr>r_uri := u, resource_fd := opened fs ?path,
        resource_len := size_of fs (opened fs ?path)\<rparr>, sb, d', [])"
      using a(1,2) by (auto simp: serve_file_def opened_def Let_def)
    with 3 show ?thesis by (intro exI [of _ u] exI [of _ d'] conjI a(3-5)) (simp add: Let_def)
  qed
qed

section \<open>Properties\<close>

lemma fresh_rl_inv: "fresh_request r \<Longrightarrow> rl_inv r d p"
  by (simp add: fresh_request_def rl_inv_def)

lemma parsed_path_at:
  assumes "buffer_wf b" "rl_inv r (bdata b) (bbegin b)" "parse_request_line r b = Some (OK, r', b')"
  shows "path_at (bdata b') (r_uri r') (bbegin b' - 1)" "bbegin b' - 1 < length (bdata b')" "Suc (bbegin b' - 1) = bbegin b'"
proof -
  obtain c r1 b1 where p: "parse_request_line r b = Some (c, r1, b1)" "buffer_wf b1" "bdata b1 = bdata b"
    "c = OK \<Longrightarrow> r_state r1 = RQ_DONE \<and> bbegin b < bbegin b1 \<and> path_at (bdata b) (r_uri r1) (bbegin b1 - 1)"
    using parse_request_line_total [OF assms(1,2)] by metis
  with assms(3) have e: "c = OK" "r1 = r'" "b1 = b'" by simp_all
  show "path_at (bdata b') (r_uri r') (bbegin b' - 1)" using p(3,4) e by simp
  show "Suc (bbegin b' - 1) = bbegin b'" using p(4) e by simp
  then show "bbegin b' - 1 < length (bdata b')" using p(2) e by (simp add: buffer_wf_def)
qed

definition example_line :: "char list" where
  "example_line = request_line_text M_GET ''docs/a'' (Some ''html'') (CHR ''1'') (CHR ''1'')"

lemma fresh_zero: "fresh_request zero_request"
  by (simp add: fresh_request_def zero_request_def)

lemma example_parts:
  "path_text ''docs/a''" "ext_ok (Some ''html'')" "digit (CHR ''1'')" "length example_line = 27"
  by code_simp+

lemma example_received: "buffer_wf (received example_line)" "contents (received example_line) = example_line @ []"
  using received_wf [of example_line] example_parts(4) by (simp_all add: limit_def BUF_SIZE_def)

lemma example_parsed: "\<exists>r' b'. parse_request_line zero_request (received example_line) = Some (OK, r', b')"
  using accept_request_line [OF _ example_parts(1,2,3,3) fresh_zero example_received(1), of M_GET "[]"]
    example_received(2) by (auto simp: example_line_def)

text \<open>
  C23. No request leads out of the document root: whatever request line is accepted, the C
  string that \<open>process_abs_path\<close> hands to \<^verbatim>\<open>openat\<close> exists, is relative and has no component
  \<^verbatim>\<open>..\<close>, and the byte it overwrites to end it lies before the read position.
\<close>

theorem request_path_confined:
  assumes "buffer_wf b" "rl_inv r (bdata b) (bbegin b)" "parse_request_line r b = Some (OK, r', b')"
  shows "\<exists>r'' d q path. process_abs_path (bdata b') r' = Some (r'', d, q) \<and> c_string d q = Some path \<and>
    confined path \<and> drop (bbegin b') d = drop (bbegin b') (bdata b')"
  using process_abs_path_safe [OF parsed_path_at(1,2) [OF assms]] parsed_path_at(3) [OF assms] by metis

theorem request_path_confined_witness:
  "\<exists>r' b' r'' d q path. parse_request_line zero_request (received example_line) = Some (OK, r', b') \<and>
    process_abs_path (bdata b') r' = Some (r'', d, q) \<and> c_string d q = Some path \<and> confined path"
proof -
  obtain r' b' where p: "parse_request_line zero_request (received example_line) = Some (OK, r', b')"
    using example_parsed by blast
  show ?thesis using p request_path_confined [OF example_received(1) fresh_rl_inv [OF fresh_zero] p] by blast
qed

text \<open>
  C24. A request for no location of back ends gets a file below the document root or an error: the path that the
  accepted line spells is confined; if opening it below the root (or, if it is a directory, opening the index
  file in it) succeeds, the request gets exactly that descriptor, the length of that file and the type of its extension, and
  nothing is sent yet; otherwise the request is answered, completely, with the error 404 (or 403).
\<close>

theorem request_reads_root_only:
  assumes "buffer_wf b" "rl_inv r (bdata b) (bbegin b)" "parse_request_line r b = Some (OK, r', b')"
    and "(if pc (abs_path (r_uri r')) = Null then Some [] else bytes_at (bdata b') (pc (abs_path (r_uri r')))) = Some name"
    and "hash_find locations name (nat (pl (abs_path (r_uri r')))) = Some None" "buffer_wf sb" "81 \<le> length after"
  shows "\<exists>r2 sb' d calls. let path = spelled (bdata b') (r_uri r'); fd = opened fs path; err = (if open_root fs path \<le> 0 then 404 else 403) in
    confined path \<and> drop (bbegin b') d = drop (bbegin b') (bdata b') \<and>
    request_process_uri fs after locations forward r' sb (bdata b') = Some (if fd > 0 then OK else ERROR, r2, sb', d, calls) \<and>
    (if fd > 0 then resource_fd r2 = fd \<and> resource_len r2 = size_of fs fd \<and>
       extension (r_uri r2) = Ext_type (type_of (ext_of (bdata b') (extension (r_uri r')))) \<and>
       keep_alive r2 = (minor r' = 1 \<or> keep_alive r') \<and> response_done r2 = response_done r' \<and> sb' = sb \<and> calls = []
     else status r2 = int err \<and> response_done r2 \<and> \<not> keep_alive r2 \<and> resource_fd r2 = resource_fd r' \<and>
       calls = [Add_event_w, Del_event_r, Set_wev_handler_response] \<and> buffer_wf sb' \<and> (\<exists>page. err_page err = Some page \<and>
         contents sb' = err_head (minor r') err (length err_page_tail + length page) @ err_body after page))"
proof -
  note pa = parsed_path_at [OF assms(1-3)]
  let ?d = "bdata b'" and ?path = "spelled (bdata b') (r_uri r')"
  have conf: "confined ?path" using process_abs_path_safe [OF pa(1,2)] by blast
  have pl: "0 \<le> pl (abs_path (r_uri r'))" using pa(1) by (auto simp: path_at_def no_path_def NULL_PSTR_def)
  let ?t = "type_of (ext_of ?d (extension (r_uri r')))"
  obtain u d where x: "drop (bbegin b') d = drop (bbegin b') ?d"
    "\<forall>x. r_uri x = u \<longrightarrow> process_extension d x = Some (x\<lparr>r_uri := u\<lparr>extension := Ext_type ?t\<rparr>\<rparr>)" and
    s: "let path = ?path; fd = opened fs path; err = (if open_root fs path \<le> 0 then 404 else 403) in
      if fd > 0 then serve_file fs after r' sb ?d = Some (OK, r'\<lparr>r_uri := u, resource_fd := fd, resource_len := size_of fs fd\<rparr>, sb, d, [])
      else \<exists>page sb'. err_page err = Some page \<and> serve_file fs after r' sb ?d = Some (ERROR, r'\<lparr>r_uri := u, status := int err,
          response_done := True, keep_alive := False\<rparr>, sb', d, [Add_event_w, Del_event_r, Set_wev_handler_response]) \<and>
        buffer_wf sb' \<and> contents sb' = err_head (minor r') err (length err_page_tail + length page) @ err_body after page"
    using serve_file_exact [OF pa(1,2) assms(6,7), of fs] unfolding pa(3) by blast
  have run: "request_process_uri fs after locations forward r' sb ?d = Option.bind (serve_file fs after r' sb ?d) (\<lambda>(c, r1, sb1, d1, calls).
      if c = ERROR then Some (ERROR, r1, sb1, d1, calls)
      else Option.bind (process_extension d1 r1) (\<lambda>r2. Some (OK, if minor r2 = 1 then r2\<lparr>keep_alive := True\<rparr> else r2, sb1, d1, calls)))"
    using assms(4,5) pl unfolding request_process_uri_def Let_def by (simp add: split_beta)
  show ?thesis
  proof (cases "opened fs ?path > 0")
    case True
    then show ?thesis using s x run conf by (simp add: Let_def)
  next
    case False
    then show ?thesis using s x run conf by (fastforce simp: Let_def)
  qed
qed

theorem request_reads_root_only_witness:
  "\<exists>r' b' r2 sb' d calls. parse_request_line zero_request (received example_line) = Some (OK, r', b') \<and>
    request_process_uri \<lparr>open_root = (\<lambda>path. if path = ''docs/a.html'' then 3 else 7), open_index = (\<lambda>_. 4), is_dir = (\<lambda>_. True),
        size_of = (\<lambda>fd. 10 * fd)\<rparr> (replicate 81 (CHR 0x00)) \<lparr>h_buckets = [Some 0], h_size = 1, h_mem = [0 \<mapsto> end_slot]\<rparr>
        (\<lambda>(v :: nat) r. Some r) r' (received []) (bdata b') = Some (OK, r2, sb', d, calls) \<and>
    resource_fd r2 = 4 \<and> resource_len r2 = 40 \<and> keep_alive r2"
proof -
  obtain r' b' where p: "parse_request_line zero_request (received example_line) = Some (OK, r', b')" "unat (minor r') = 1"
    "text_of (bdata (received example_line)) (abs_path (r_uri r')) = Some ''docs/a''"
    using accept_request_line [OF _ example_parts(1,2,3,3) fresh_zero example_received(1), of M_GET "[]"]
      example_received(2) by (auto simp: example_line_def code_def)
  note inv = fresh_rl_inv [OF fresh_zero]
  have d: "bdata b' = bdata (received example_line)" using parse_request_line_total [OF example_received(1) inv] p(1) by fastforce
  obtain i where i: "abs_path (r_uri r') = \<lparr>pc = At i, pl = 6\<rparr>" "i + 6 \<le> length (bdata b')"
    using path_slice [OF parsed_path_at(1,2) [OF example_received(1) inv p(1)] p(3) [folded d]] by auto
  have m: "minor r' = 1" using p(2) by (simp add: word_unat_eq_iff)
  let ?fs = "\<lparr>open_root = (\<lambda>path. if path = ''docs/a.html'' then 3 else 7), open_index = (\<lambda>_. 4), is_dir = (\<lambda>_. True), size_of = (\<lambda>fd. 10 * fd)\<rparr>"
  let ?h = "\<lparr>h_buckets = [Some 0], h_size = 1, h_mem = [0 \<mapsto> end_slot]\<rparr> :: nat hash"
  have h: "hash_find ?h (drop i (bdata b')) (nat (pl (abs_path (r_uri r')))) = Some None"
    using i by (subst (1) hash_find_def) (simp add: find_slot.simps end_slot_def)
  have name: "(if pc (abs_path (r_uri r')) = Null then Some [] else bytes_at (bdata b') (pc (abs_path (r_uri r')))) = Some (drop i (bdata b'))"
    using i(1) by simp
  have w: "buffer_wf (received [])" "81 \<le> length (replicate 81 (CHR 0x00))" using received_buffer_wf [of "[]"] by simp_all
  have o: "opened ?fs path = 4" for path by (simp add: opened_def Let_def)
  show ?thesis
    using p(1) m request_reads_root_only [OF example_received(1) inv p(1) name h w, of ?fs "\<lambda>v r. Some r"]
    unfolding Let_def o by auto
qed

text \<open>
  C25. \<open>parse_request_line\<close> inverts the spelling of a request line: it accepts every line made of
  a known method, a path, an optional extension and a one-digit version, consumes exactly that
  line, and records the method, the version numbers, and slices that spell the path and the
  extension.
\<close>

theorem parse_inverts_request_line:
  assumes "m \<noteq> M_INVALID_METHOD" "path_text w" "ext_ok e" "digit a" "digit z" "fresh_request r"
    and "buffer_wf b" "contents b = request_line_text m w e a z @ rest"
  shows "\<exists>r' b'. parse_request_line r b = Some (OK, r', b') \<and> contents b' = rest \<and> r_state r' = RQ_DONE \<and>
    r_method r' = m \<and> unat (major r') = code a - 48 \<and> unat (minor r') = code z - 48 \<and>
    text_of (bdata b) (abs_path (r_uri r')) = Some w \<and> ext_of (bdata b) (extension (r_uri r')) = e"
  by (rule accept_request_line [OF assms])

theorem parse_inverts_request_line_witness:
  "\<exists>r' b'. parse_request_line zero_request (received example_line) = Some (OK, r', b') \<and> contents b' = [] \<and>
    r_method r' = M_GET \<and> unat (minor r') = 1 \<and>
    text_of (bdata (received example_line)) (abs_path (r_uri r')) = Some ''docs/a''"
  using parse_inverts_request_line [OF _ example_parts(1,2,3,3) fresh_zero example_received(1), of M_GET "[]"]
    example_received(2) by (auto simp: example_line_def code_def)

text \<open>
  C26. A request line may arrive in any number of pieces: feeding the pieces to
  \<open>parse_request_line\<close> as they come gives the return code, the request and the read position of
  parsing the whole text at once.
\<close>

theorem request_line_in_pieces:
  assumes "arrive b (concat bss) = Some b2" "bbegin b \<le> bend b" "bss \<noteq> []"
  shows "map_option view (feed parse_request_line r b bss) = map_option view (parse_request_line r b2)"
  unfolding parse_request_line_def by (rule request_line.feed_pieces [OF assms])

theorem request_line_in_pieces_witness:
  "map_option view (feed parse_request_line zero_request (received []) [''GET /a'', '' HTTP/1.1'' @ [CR], [LF]]) =
   map_option view (parse_request_line zero_request (the (arrive (received []) (''GET /a HTTP/1.1'' @ [CR, LF]))))"
  by (rule request_line_in_pieces) (simp_all add: received_def arrive_def poke_def limit_def BUF_SIZE_def)

text \<open>
  C27. \<open>parse_request_line\<close> is total on well-formed buffers: whatever bytes arrive, and at
  whatever point of the line parsing is resumed, it returns without a stray read, leaves the
  buffer well-formed and its bytes unchanged, asks for more only after consuming everything,
  and keeps the invariant that makes the next call safe.
\<close>

theorem parse_request_line_safe:
  assumes "buffer_wf b" "rl_inv r (bdata b) (bbegin b)"
  shows "\<exists>c r' b'. parse_request_line r b = Some (c, r', b') \<and> buffer_wf b' \<and> bdata b' = bdata b \<and> bend b' = bend b \<and>
    (c = AGAIN \<longrightarrow> rl_inv r' (bdata b') (bbegin b') \<and> bbegin b' = bend b') \<and>
    (c = OK \<longrightarrow> r_state r' = RQ_DONE \<and> bbegin b < bbegin b')"
  using parse_request_line_total [OF assms] by (metis (no_types))

theorem parse_request_line_safe_witness:
  "\<exists>c r' b'. parse_request_line zero_request (received ''GET /%'') = Some (c, r', b') \<and> buffer_wf b'"
  using parse_request_line_safe [of "received ''GET /%''" zero_request] received_wf [of "''GET /%''"] fresh_rl_inv [OF fresh_zero]
  by (auto simp: limit_def BUF_SIZE_def)

end
