(* ===== verification/Rb_Tree.thy ===== *)
theory Rb_Tree
  imports Prelude "HOL-Library.Multiset"
begin

text \<open>
  The red-black tree of \<^verbatim>\<open>base/rb_tree.c\<close>, with its nodes in an explicit memory: every node
  has parent and child pointers, and one sentinel node stands for all leaves and for the parent
  that a leaf has during a deletion. The two halves of the code that mirror each other are
  modelled once, for a side \<open>d\<close>: \<open>Lft\<close> gives the first half as it is written, \<open>Rgt\<close> the second.
\<close>

section \<open>Nodes and trees\<close>

datatype side = Lft | Rgt

fun opp :: "side \<Rightarrow> side" where
  "opp Lft = Rgt"
| "opp Rgt = Lft"

text \<open>The colour byte is 0 or 1; \<open>rb_color\<close> says that it is 1, which is red.\<close>

record rbnode =
  rb_key :: "32 word"
  rb_parent :: nat
  rb_left :: nat
  rb_right :: nat
  rb_color :: bool

fun kid :: "side \<Rightarrow> rbnode \<Rightarrow> nat" where
  "kid Lft n = rb_left n"
| "kid Rgt n = rb_right n"

fun set_kid :: "side \<Rightarrow> nat \<Rightarrow> rbnode \<Rightarrow> rbnode" where
  "set_kid Lft v n = n\<lparr>rb_left := v\<rparr>"
| "set_kid Rgt v n = n\<lparr>rb_right := v\<rparr>"

text \<open>The function pointer \<^verbatim>\<open>insert\<close> of a tree holds one of two functions.\<close>

datatype insert_fn = Insert_value | Insert_timer_value

record rbtree =
  rb_root :: nat
  sentinel :: nat
  insert_ptr :: insert_fn
  rb_mem :: "nat \<rightharpoonup> rbnode"

text \<open>The null pointer is no address of a node.\<close>

definition NULL_NODE :: nat where
  "NULL_NODE = 0"

section \<open>Reading and writing members\<close>

definition fld :: "(rbnode \<Rightarrow> 'a) \<Rightarrow> rbtree \<Rightarrow> nat \<Rightarrow> 'a option" where
  "fld f T a = map_option f (rb_mem T a)"

definition wr :: "(rbnode \<Rightarrow> rbnode) \<Rightarrow> nat \<Rightarrow> rbtree \<Rightarrow> rbtree option" where
  "wr f a T = map_option (\<lambda>n. T\<lparr>rb_mem := (rb_mem T)(a \<mapsto> f n)\<rparr>) (rb_mem T a)"

definition father :: "rbtree \<Rightarrow> nat \<Rightarrow> nat option" where
  "father T a = fld rb_parent T a"

definition grand_father :: "rbtree \<Rightarrow> nat \<Rightarrow> nat option" where
  "grand_father T a = Option.bind (father T a) (father T)"

definition rbt_is_red :: "rbtree \<Rightarrow> nat \<Rightarrow> bool option" where
  "rbt_is_red T a = fld rb_color T a"

definition rbt_black :: "nat \<Rightarrow> rbtree \<Rightarrow> rbtree option" where
  "rbt_black = wr (rb_color_update (\<lambda>_. False))"

definition rbt_red :: "nat \<Rightarrow> rbtree \<Rightarrow> rbtree option" where
  "rbt_red = wr (rb_color_update (\<lambda>_. True))"

definition rbt_copy_color :: "nat \<Rightarrow> nat \<Rightarrow> rbtree \<Rightarrow> rbtree option" where
  "rbt_copy_color a b T = do { c \<leftarrow> rbt_is_red T b; wr (rb_color_update (\<lambda>_. c)) a T }"

section \<open>Rotations\<close>

definition rotate :: "side \<Rightarrow> nat \<Rightarrow> rbtree \<Rightarrow> rbtree option" where
  "rotate d node T = do {
     temp \<leftarrow> fld (kid (opp d)) T node;
     b \<leftarrow> fld (kid d) T temp;
     T \<leftarrow> wr (set_kid (opp d) b) node T;
     b \<leftarrow> fld (kid d) T temp;
     T \<leftarrow> (if b \<noteq> sentinel T then wr (rb_parent_update (\<lambda>_. node)) b T else Some T);
     p \<leftarrow> father T node;
     T \<leftarrow> wr (rb_parent_update (\<lambda>_. p)) temp T;
     T \<leftarrow> (if node = rb_root T then Some (T\<lparr>rb_root := temp\<rparr>)
       else do {
         p \<leftarrow> father T node;
         c \<leftarrow> fld (kid d) T p;
         if node = c then wr (set_kid d temp) p T else wr (set_kid (opp d) temp) p T
       });
     T \<leftarrow> wr (set_kid d node) temp T;
     wr (rb_parent_update (\<lambda>_. temp)) node T
   }"

definition rbtree_left_rotate :: "nat \<Rightarrow> rbtree \<Rightarrow> rbtree option" where
  "rbtree_left_rotate = rotate Lft"

definition rbtree_right_rotate :: "nat \<Rightarrow> rbtree \<Rightarrow> rbtree option" where
  "rbtree_right_rotate = rotate Rgt"

section \<open>Insertion\<close>

text \<open>The descent: the last node, and the side of it on which the sentinel hangs.\<close>

partial_function (option) find_place :: "rbtree \<Rightarrow> nat \<Rightarrow> 32 word \<Rightarrow> (nat \<times> side) option" where
  "find_place T now key =
     Option.bind (fld rb_key T now) (\<lambda>k.
       let d = (if key < k then Lft else Rgt) in
       Option.bind (fld (kid d) T now) (\<lambda>c.
         if c = sentinel T then Some (now, d) else find_place T c key))"

definition rbtree_insert_value :: "nat \<Rightarrow> nat \<Rightarrow> rbtree \<Rightarrow> rbtree option" where
  "rbtree_insert_value now node T = do {
     key \<leftarrow> fld rb_key T node;
     (now, d) \<leftarrow> find_place T now key;
     T \<leftarrow> wr (set_kid d node) now T;
     T \<leftarrow> wr (rb_parent_update (\<lambda>_. now)) node T;
     T \<leftarrow> wr (set_kid Lft (sentinel T)) node T;
     T \<leftarrow> wr (set_kid Rgt (sentinel T)) node T;
     rbt_red node T
   }"

definition rbtree_insert_timer_value :: "nat \<Rightarrow> nat \<Rightarrow> rbtree \<Rightarrow> rbtree option" where
  "rbtree_insert_timer_value temp node T = do {
     key \<leftarrow> fld rb_key T node;
     (temp, d) \<leftarrow> find_place T temp key;
     T \<leftarrow> wr (set_kid d node) temp T;
     T \<leftarrow> wr (rb_parent_update (\<lambda>_. temp)) node T;
     T \<leftarrow> wr (set_kid Lft (sentinel T)) node T;
     T \<leftarrow> wr (set_kid Rgt (sentinel T)) node T;
     rbt_red node T
   }"

text \<open>The step marked \<^verbatim>\<open>case3\<close>: the uncle is black, and node and parent lie on the same side.\<close>

definition insert_case3 :: "side \<Rightarrow> nat \<Rightarrow> rbtree \<Rightarrow> (rbtree \<times> nat) option" where
  "insert_case3 d node T = do {
     p \<leftarrow> father T node;
     T \<leftarrow> rbt_black p T;
     g \<leftarrow> grand_father T node;
     T \<leftarrow> rbt_red g T;
     g \<leftarrow> grand_father T node;
     T \<leftarrow> rotate (opp d) g T;
     Some (T, node)
   }"

text \<open>One round of the loop that restores the colours, for a parent on side \<open>d\<close> of the grandparent.\<close>

definition insert_round :: "side \<Rightarrow> nat \<Rightarrow> rbtree \<Rightarrow> (rbtree \<times> nat) option" where
  "insert_round d node T = do {
     g \<leftarrow> grand_father T node;
     temp \<leftarrow> fld (kid (opp d)) T g;
     red \<leftarrow> rbt_is_red T temp;
     if red then do {
       p \<leftarrow> father T node;
       T \<leftarrow> rbt_black p T;
       T \<leftarrow> rbt_black temp T;
       g \<leftarrow> grand_father T node;
       T \<leftarrow> rbt_red g T;
       node \<leftarrow> grand_father T node;
       Some (T, node)
     } else do {
       p \<leftarrow> father T node;
       c \<leftarrow> fld (kid (opp d)) T p;
       (T, node) \<leftarrow> (if node = c then do { T \<leftarrow> rotate d p T; Some (T, p) } else Some (T, node));
       insert_case3 d node T
     }
   }"

definition side_of :: "nat \<Rightarrow> nat \<Rightarrow> rbtree \<Rightarrow> side option" where
  "side_of a p T = map_option (\<lambda>l. if a = l then Lft else Rgt) (fld (kid Lft) T p)"

partial_function (option) insert_loop :: "rbtree \<Rightarrow> nat \<Rightarrow> rbtree option" where
  "insert_loop T node =
     (if node = rb_root T then Some T
      else Option.bind (father T node) (\<lambda>p.
        Option.bind (rbt_is_red T p) (\<lambda>red.
          if \<not> red then Some T
          else Option.bind (grand_father T node) (\<lambda>g.
            Option.bind (side_of p g T) (\<lambda>d.
              Option.bind (insert_round d node T) (\<lambda>st. insert_loop (fst st) (snd st)))))))"

definition rbtree_insert :: "nat \<Rightarrow> rbtree \<Rightarrow> rbtree option" where
  "rbtree_insert node T =
     (if rb_root T = sentinel T then do {
        T \<leftarrow> wr (rb_parent_update (\<lambda>_. NULL_NODE)) node T;
        T \<leftarrow> wr (set_kid Lft (sentinel T)) node T;
        T \<leftarrow> wr (set_kid Rgt (sentinel T)) node T;
        T \<leftarrow> rbt_black node T;
        Some (T\<lparr>rb_root := node\<rparr>)
      } else do {
        T \<leftarrow> (case insert_ptr T of
            Insert_value \<Rightarrow> rbtree_insert_value (rb_root T) node T
          | Insert_timer_value \<Rightarrow> rbtree_insert_timer_value (rb_root T) node T);
        T \<leftarrow> insert_loop T node;
        rbt_black (rb_root T) T
      })"

section \<open>The least node\<close>

partial_function (option) rbtree_min :: "rbtree \<Rightarrow> nat \<Rightarrow> nat option" where
  "rbtree_min T node =
     Option.bind (fld (kid Lft) T node) (\<lambda>l.
       if l \<noteq> sentinel T then rbtree_min T l else Some node)"

section \<open>Deletion\<close>

text \<open>\<^verbatim>\<open>rbt_is_black(w->left) && rbt_is_black(w->right)\<close>\<close>

definition black_kids :: "rbtree \<Rightarrow> nat \<Rightarrow> bool option" where
  "black_kids T w = do {
     l \<leftarrow> fld (kid Lft) T w;
     rl \<leftarrow> rbt_is_red T l;
     if rl then Some False
     else do {
       r \<leftarrow> fld (kid Rgt) T w;
       rr \<leftarrow> rbt_is_red T r;
       Some (\<not> rr)
     }
   }"

text \<open>The step marked \<^verbatim>\<open>case D\<close>: the far child of the sibling \<open>w\<close> is red.\<close>

definition delete_case_d :: "side \<Rightarrow> nat \<Rightarrow> nat \<Rightarrow> rbtree \<Rightarrow> (rbtree \<times> nat) option" where
  "delete_case_d d temp w T = do {
     p \<leftarrow> father T temp;
     T \<leftarrow> rbt_copy_color w p T;
     p \<leftarrow> father T temp;
     T \<leftarrow> rbt_black p T;
     far \<leftarrow> fld (kid (opp d)) T w;
     T \<leftarrow> rbt_black far T;
     p \<leftarrow> father T temp;
     T \<leftarrow> rotate d p T;
     Some (T, rb_root T)
   }"

text \<open>The cases B, C and D, for a black sibling.\<close>

definition delete_cases :: "side \<Rightarrow> nat \<Rightarrow> nat \<Rightarrow> rbtree \<Rightarrow> (rbtree \<times> nat) option" where
  "delete_cases d temp w T = do {
     both \<leftarrow> black_kids T w;
     if both then do {
       T \<leftarrow> rbt_red w T;
       temp \<leftarrow> father T temp;
       Some (T, temp)
     } else do {
       far \<leftarrow> fld (kid (opp d)) T w;
       rf \<leftarrow> rbt_is_red T far;
       if \<not> rf then do {
         near \<leftarrow> fld (kid d) T w;
         T \<leftarrow> rbt_black near T;
         T \<leftarrow> rbt_red w T;
         T \<leftarrow> rotate (opp d) w T;
         p \<leftarrow> father T temp;
         w \<leftarrow> fld (kid (opp d)) T p;
         delete_case_d d temp w T
       } else delete_case_d d temp w T
     }
   }"

text \<open>One round of the loop after a deletion, for \<open>temp\<close> on side \<open>d\<close> of its parent.\<close>

definition delete_round :: "side \<Rightarrow> nat \<Rightarrow> rbtree \<Rightarrow> (rbtree \<times> nat) option" where
  "delete_round d temp T = do {
     p \<leftarrow> father T temp;
     w \<leftarrow> fld (kid (opp d)) T p;
     red \<leftarrow> rbt_is_red T w;
     if red then do {
       T \<leftarrow> rbt_black w T;
       p \<leftarrow> father T temp;
       T \<leftarrow> rbt_red p T;
       p \<leftarrow> father T temp;
       T \<leftarrow> rotate d p T;
       p \<leftarrow> father T temp;
       w \<leftarrow> fld (kid (opp d)) T p;
       delete_cases d temp w T
     } else delete_cases d temp w T
   }"

partial_function (option) delete_loop :: "rbtree \<Rightarrow> nat \<Rightarrow> (rbtree \<times> nat) option" where
  "delete_loop T temp =
     (if temp = rb_root T then Some (T, temp)
      else Option.bind (rbt_is_red T temp) (\<lambda>red.
        if red then Some (T, temp)
        else Option.bind (father T temp) (\<lambda>p.
          Option.bind (side_of temp p T) (\<lambda>d.
            Option.bind (delete_round d temp T) (\<lambda>st. delete_loop (fst st) (snd st))))))"

definition rbtree_fix_after_delete :: "rbtree \<Rightarrow> nat \<Rightarrow> rbtree option" where
  "rbtree_fix_after_delete T temp = do {
     (T, temp) \<leftarrow> delete_loop T temp;
     rbt_black temp T
   }"

text \<open>The node that takes the place of \<open>node\<close>, and the subtree that takes its place in turn.\<close>

definition find_subst :: "rbtree \<Rightarrow> nat \<Rightarrow> (nat \<times> nat) option" where
  "find_subst T node = do {
     l \<leftarrow> fld (kid Lft) T node;
     r \<leftarrow> fld (kid Rgt) T node;
     if l = sentinel T then Some (r, node)
     else if r = sentinel T then Some (l, node)
     else do {
       subst \<leftarrow> rbtree_min T r;
       sl \<leftarrow> fld (kid Lft) T subst;
       if sl \<noteq> sentinel T then Some (sl, subst)
       else do { sr \<leftarrow> fld (kid Rgt) T subst; Some (sr, subst) }
     }
   }"

text \<open>The lines marked \<^verbatim>\<open>DEBUG stuff\<close>.\<close>

definition clear_node :: "nat \<Rightarrow> rbtree \<Rightarrow> rbtree option" where
  "clear_node node T = do {
     T \<leftarrow> wr (set_kid Lft (sentinel T)) node T;
     T \<leftarrow> wr (set_kid Rgt (sentinel T)) node T;
     T \<leftarrow> wr (rb_parent_update (\<lambda>_. sentinel T)) node T;
     wr (rb_key_update (\<lambda>_. 0)) node T
   }"

text \<open>The child pointer of \<open>p\<close> that leads to \<open>old\<close> is set to \<open>new\<close>.\<close>

definition replace_child :: "nat \<Rightarrow> nat \<Rightarrow> nat \<Rightarrow> rbtree \<Rightarrow> rbtree option" where
  "replace_child p old new T = do {
     l \<leftarrow> fld (kid Lft) T p;
     if old = l then wr (set_kid Lft new) p T else wr (set_kid Rgt new) p T
   }"

text \<open>The part of the code that gives \<open>subst\<close> the place, the links and the colour of \<open>node\<close>.\<close>

definition take_place :: "nat \<Rightarrow> nat \<Rightarrow> rbtree \<Rightarrow> rbtree option" where
  "take_place node subst T = do {
     l \<leftarrow> fld (kid Lft) T node;
     T \<leftarrow> wr (set_kid Lft l) subst T;
     r \<leftarrow> fld (kid Rgt) T node;
     T \<leftarrow> wr (set_kid Rgt r) subst T;
     p \<leftarrow> father T node;
     T \<leftarrow> wr (rb_parent_update (\<lambda>_. p)) subst T;
     T \<leftarrow> rbt_copy_color subst node T;
     T \<leftarrow> (if node = rb_root T then Some (T\<lparr>rb_root := subst\<rparr>)
       else do { p \<leftarrow> father T node; replace_child p node subst T });
     l \<leftarrow> fld (kid Lft) T subst;
     T \<leftarrow> (if l \<noteq> sentinel T then wr (rb_parent_update (\<lambda>_. subst)) l T else Some T);
     r \<leftarrow> fld (kid Rgt) T subst;
     if r \<noteq> sentinel T then wr (rb_parent_update (\<lambda>_. subst)) r T else Some T
   }"

definition rbtree_delete :: "nat \<Rightarrow> rbtree \<Rightarrow> rbtree option" where
  "rbtree_delete node T = do {
     (temp, subst) \<leftarrow> find_subst T node;
     if subst = rb_root T then do {
       T \<leftarrow> rbt_black temp (T\<lparr>rb_root := temp\<rparr>);
       clear_node node T
     } else do {
       red \<leftarrow> rbt_is_red T subst;
       sp \<leftarrow> father T subst;
       T \<leftarrow> replace_child sp subst temp T;
       sp \<leftarrow> father T subst;
       T \<leftarrow> (if subst = node then wr (rb_parent_update (\<lambda>_. sp)) temp T
         else do {
           T \<leftarrow> wr (rb_parent_update (\<lambda>_. if sp = node then subst else sp)) temp T;
           take_place node subst T
         });
       T \<leftarrow> clear_node node T;
       if red then Some T else rbtree_fix_after_delete T temp
     }
   }"

end
