(* ===== verification/Rb_Shape.thy ===== *)
theory Rb_Shape
  imports Rb_Tree
begin

text \<open>
  What a memory of nodes stands for: a tree of nodes with their addresses, keys and colours.
  A place inside a tree is given by the list of frames on the way up to the root, so that an
  operation at that place is described without mentioning the rest of the tree.
\<close>

section \<open>Trees and places\<close>

datatype rbt = Leaf | Node rbt nat "32 word" bool rbt

fun mkn :: "side \<Rightarrow> nat \<Rightarrow> 32 word \<Rightarrow> bool \<Rightarrow> rbt \<Rightarrow> rbt \<Rightarrow> rbt" where
  "mkn Lft a k c x y = Node x a k c y"
| "mkn Rgt a k c x y = Node y a k c x"

text \<open>\<open>F d a k c sib\<close>: the place is the \<open>d\<close> child of node \<open>a\<close>, whose other child is \<open>sib\<close>.\<close>

datatype frame = F side nat "32 word" bool rbt

fun fill :: "frame \<Rightarrow> rbt \<Rightarrow> rbt" where
  "fill (F d a k c sib) t = mkn d a k c t sib"

fun plug :: "rbt \<Rightarrow> frame list \<Rightarrow> rbt" where
  "plug t [] = t"
| "plug t (f # fs) = plug (fill f t) fs"

fun entries :: "rbt \<Rightarrow> (32 word \<times> nat) list" where
  "entries Leaf = []"
| "entries (Node l a k c r) = entries l @ (k, a) # entries r"

fun before :: "frame list \<Rightarrow> (32 word \<times> nat) list" where
  "before [] = []"
| "before (F Lft a k c sib # fs) = before fs"
| "before (F Rgt a k c sib # fs) = before fs @ entries sib @ [(k, a)]"

fun after :: "frame list \<Rightarrow> (32 word \<times> nat) list" where
  "after [] = []"
| "after (F Lft a k c sib # fs) = (k, a) # entries sib @ after fs"
| "after (F Rgt a k c sib # fs) = after fs"

lemma entries_plug: "entries (plug t fs) = before fs @ entries t @ after fs"
proof (induction fs arbitrary: t)
  case (Cons f fs)
  obtain d a k c sib where "f = F d a k c sib" by (cases f)
  then show ?case by (cases d) (simp_all add: Cons.IH)
qed simp

lemma plug_append: "plug t (fs @ gs) = plug (plug t fs) gs"
  by (induction fs arbitrary: t) auto

section \<open>Addresses\<close>

definition adr :: "rbt \<Rightarrow> nat list" where
  "adr t = map snd (entries t)"

definition cadr :: "frame list \<Rightarrow> nat list" where
  "cadr fs = map snd (before fs @ after fs)"

lemma adr_simps [simp]:
  "adr Leaf = []" "adr (Node l a k c r) = adr l @ a # adr r"
  "cadr [] = []"
  by (simp_all add: adr_def cadr_def)

definition fresh :: "nat \<Rightarrow> rbt \<Rightarrow> bool" where
  "fresh a t \<longleftrightarrow> a \<notin> set (adr t)"

definition cfresh :: "nat \<Rightarrow> frame list \<Rightarrow> bool" where
  "cfresh a fs \<longleftrightarrow> a \<notin> set (cadr fs)"

lemma opp_opp [simp]: "opp (opp d) = d"
  by (cases d) auto

lemma opp_neq [simp]: "opp d \<noteq> d" "d \<noteq> opp d"
  by (cases d; simp)+

lemma mkn_opp [simp]: "mkn (opp d) a k c x y = mkn d a k c y x"
  by (cases d) auto

lemma fresh_simps [simp]:
  "fresh b Leaf" "fresh b (mkn d a k c x y) \<longleftrightarrow> b \<noteq> a \<and> fresh b x \<and> fresh b y"
  "fresh b (Node l a k c r) \<longleftrightarrow> b \<noteq> a \<and> fresh b l \<and> fresh b r"
  by (cases d; auto simp: fresh_def)+

lemma cfresh_simps [simp]:
  "cfresh b []" "cfresh b (F d a k c sib # fs) \<longleftrightarrow> b \<noteq> a \<and> fresh b sib \<and> cfresh b fs"
  by (cases d; auto simp: cfresh_def cadr_def fresh_def adr_def)+

lemma fresh_plug: "fresh b (plug t fs) \<longleftrightarrow> fresh b t \<and> cfresh b fs"
  by (auto simp: fresh_def cfresh_def adr_def cadr_def entries_plug)

text \<open>No address occurs twice.\<close>

definition apart :: "rbt \<Rightarrow> bool" where
  "apart t \<longleftrightarrow> distinct (adr t)"

definition disj :: "rbt \<Rightarrow> rbt \<Rightarrow> bool" where
  "disj x y \<longleftrightarrow> set (adr x) \<inter> set (adr y) = {}"

definition capart :: "rbt \<Rightarrow> frame list \<Rightarrow> bool" where
  "capart t fs \<longleftrightarrow> distinct (adr t) \<and> distinct (cadr fs) \<and> set (adr t) \<inter> set (cadr fs) = {}"

lemma apart_plug: "apart (plug t fs) \<longleftrightarrow> capart t fs"
  by (auto simp: apart_def capart_def adr_def cadr_def entries_plug)

lemma disj_simps [simp]:
  "disj Leaf y" "disj x Leaf"
  "disj (mkn d a k c x y) z \<longleftrightarrow> fresh a z \<and> disj x z \<and> disj y z"
  "disj z (mkn d a k c x y) \<longleftrightarrow> fresh a z \<and> disj z x \<and> disj z y"
  by (cases d; auto simp: disj_def fresh_def)+

lemma disj_Node [simp]:
  "disj (Node x a k c y) z \<longleftrightarrow> fresh a z \<and> disj x z \<and> disj y z"
  "disj z (Node x a k c y) \<longleftrightarrow> fresh a z \<and> disj z x \<and> disj z y"
  using disj_simps(3,4) [where d = Lft] by simp_all

lemma apart_simps [simp]:
  "apart Leaf"
  "apart (mkn d a k c x y) \<longleftrightarrow> apart x \<and> apart y \<and> disj x y \<and> fresh a x \<and> fresh a y"
  "apart (Node x a k c y) \<longleftrightarrow> apart x \<and> apart y \<and> disj x y \<and> fresh a x \<and> fresh a y"
  by (cases d; auto simp: apart_def disj_def fresh_def)+

section \<open>Memory\<close>

fun ptr :: "nat \<Rightarrow> rbt \<Rightarrow> nat" where
  "ptr s Leaf = s"
| "ptr s (Node l a k c r) = a"

lemma ptr_mkn [simp]: "ptr s (mkn d a k c x y) = a"
  by (cases d) auto

fun cell :: "side \<Rightarrow> 32 word \<Rightarrow> nat \<Rightarrow> nat \<Rightarrow> nat \<Rightarrow> bool \<Rightarrow> rbnode" where
  "cell Lft k p q1 q2 c = \<lparr>rb_key = k, rb_parent = p, rb_left = q1, rb_right = q2, rb_color = c\<rparr>"
| "cell Rgt k p q1 q2 c = \<lparr>rb_key = k, rb_parent = p, rb_left = q2, rb_right = q1, rb_color = c\<rparr>"

lemma cell_simps [simp]:
  "kid d (cell d k p q1 q2 c) = q1" "kid (opp d) (cell d k p q1 q2 c) = q2"
  "rb_key (cell d k p q1 q2 c) = k" "rb_parent (cell d k p q1 q2 c) = p" "rb_color (cell d k p q1 q2 c) = c"
  "set_kid d v (cell d k p q1 q2 c) = cell d k p v q2 c"
  "set_kid (opp d) v (cell d k p q1 q2 c) = cell d k p q1 v c"
  "rb_parent_update (\<lambda>_. v) (cell d k p q1 q2 c) = cell d k v q1 q2 c"
  "rb_color_update (\<lambda>_. b) (cell d k p q1 q2 c) = cell d k p q1 q2 b"
  by (cases d; simp)+

lemma kid_update [simp]:
  "kid d (rb_parent_update f n) = kid d n" "kid d (rb_color_update g n) = kid d n"
  by (cases d; simp)+

lemma cell_opp [simp]: "cell (opp d) k p q1 q2 c = cell d k p q2 q1 c"
  by (cases d) auto

fun shape :: "(nat \<rightharpoonup> rbnode) \<Rightarrow> nat \<Rightarrow> nat \<Rightarrow> rbt \<Rightarrow> bool" where
  "shape m s p Leaf = True"
| "shape m s p (Node l a k c r) =
     (m a = Some (cell Lft k p (ptr s l) (ptr s r) c) \<and> shape m s a l \<and> shape m s a r)"

lemma shape_mkn [simp]:
  "shape m s p (mkn d a k c x y) \<longleftrightarrow>
     m a = Some (cell d k p (ptr s x) (ptr s y) c) \<and> shape m s a x \<and> shape m s a y"
  by (cases d) auto

text \<open>The parent of a place; that of the root is \<open>tp\<close>, which the code never follows.\<close>

fun owner :: "nat \<Rightarrow> frame list \<Rightarrow> nat" where
  "owner tp [] = tp"
| "owner tp (F d a k c sib # fs) = a"

fun ctx :: "(nat \<rightharpoonup> rbnode) \<Rightarrow> nat \<Rightarrow> nat \<Rightarrow> nat \<Rightarrow> frame list \<Rightarrow> bool" where
  "ctx m s tp q [] = True"
| "ctx m s tp q (F d a k c sib # fs) =
     (m a = Some (cell d k (owner tp fs) q (ptr s sib) c) \<and> shape m s a sib \<and> ctx m s tp a fs)"

lemma shape_plug: "shape m s tp (plug t fs) \<longleftrightarrow> shape m s (owner tp fs) t \<and> ctx m s tp (ptr s t) fs"
proof (induction fs arbitrary: t)
  case (Cons f fs)
  obtain d a k c sib where "f = F d a k c sib" by (cases f)
  then show ?case by (auto simp: Cons.IH)
qed simp

lemma shape_cong: "(\<And>b. \<not> fresh b t \<Longrightarrow> m' b = m b) \<Longrightarrow> shape m' s p t = shape m s p t"
  by (induction t arbitrary: p) auto

lemma ctx_cong: "(\<And>b. \<not> cfresh b fs \<Longrightarrow> m' b = m b) \<Longrightarrow> ctx m' s tp q fs = ctx m s tp q fs"
proof (induction fs arbitrary: q)
  case (Cons f fs)
  obtain d a k c sib where f: "f = F d a k c sib" by (cases f)
  have "ctx m' s tp a fs = ctx m s tp a fs" using Cons.prems f by (intro Cons.IH) auto
  moreover have "shape m' s a sib = shape m s a sib" using Cons.prems f by (intro shape_cong) auto
  moreover have "m' a = m a" using Cons.prems f by auto
  ultimately show ?case by (simp add: f)
qed simp

lemma shape_upd [simp]: "fresh a t \<Longrightarrow> shape (m(a := v)) s p t = shape m s p t"
  by (rule shape_cong) auto

lemma ctx_upd [simp]: "cfresh a fs \<Longrightarrow> ctx (m(a := v)) s tp q fs = ctx m s tp q fs"
  by (rule ctx_cong) auto

fun top_ptr :: "nat \<Rightarrow> frame list \<Rightarrow> nat" where
  "top_ptr q [] = q"
| "top_ptr q (F d a k c sib # fs) = top_ptr a fs"

lemma ptr_plug: "ptr s (plug t fs) = top_ptr (ptr s t) fs"
proof (induction fs arbitrary: t)
  case (Cons f fs)
  obtain d a k c sib where "f = F d a k c sib" by (cases f)
  then show ?case by (simp add: Cons.IH)
qed simp

lemma top_ptr_in: "fs \<noteq> [] \<Longrightarrow> \<not> cfresh (top_ptr q fs) fs"
proof (induction fs arbitrary: q)
  case (Cons f fs)
  obtain d a k c sib where "f = F d a k c sib" by (cases f)
  with Cons show ?case by (cases fs) auto
qed simp

section \<open>The trees that a memory holds\<close>

definition rep :: "rbtree \<Rightarrow> nat \<Rightarrow> rbt \<Rightarrow> bool" where
  "rep T tp t \<longleftrightarrow> shape (rb_mem T) (sentinel T) tp t \<and> apart t \<and> fresh (sentinel T) t \<and>
     rb_root T = ptr (sentinel T) t \<and> (\<exists>n. rb_mem T (sentinel T) = Some n \<and> \<not> rb_color n)"

text \<open>The place \<open>fs\<close> of a tree, with the subtree \<open>t\<close>.\<close>

definition at :: "rbtree \<Rightarrow> nat \<Rightarrow> rbt \<Rightarrow> frame list \<Rightarrow> bool" where
  "at T tp t fs \<longleftrightarrow> rep T tp (plug t fs)"

fun cdisj :: "rbt \<Rightarrow> frame list \<Rightarrow> bool" where
  "cdisj t [] = True"
| "cdisj t (F d a k c sib # fs) = (fresh a t \<and> disj t sib \<and> cdisj t fs)"

fun cdist :: "frame list \<Rightarrow> bool" where
  "cdist [] = True"
| "cdist (F d a k c sib # fs) = (apart sib \<and> fresh a sib \<and> cfresh a fs \<and> cdisj sib fs \<and> cdist fs)"

lemma cdisj_iff: "cdisj t fs \<longleftrightarrow> set (adr t) \<inter> set (cadr fs) = {}"
proof (induction fs)
  case (Cons f fs)
  obtain d a k c sib where "f = F d a k c sib" by (cases f)
  with Cons show ?case by (cases d) (auto simp: disj_def fresh_def cadr_def adr_def)
qed simp

lemma cdist_iff: "cdist fs \<longleftrightarrow> distinct (cadr fs)"
proof (induction fs)
  case (Cons f fs)
  obtain d a k c sib where "f = F d a k c sib" by (cases f)
  with Cons show ?case
    by (cases d) (auto simp: cdisj_iff cfresh_def fresh_def apart_def cadr_def adr_def)
qed simp

lemma capart_iff: "capart t fs \<longleftrightarrow> apart t \<and> cdist fs \<and> cdisj t fs"
  by (auto simp: capart_def apart_def cdisj_iff cdist_iff)

lemma cdisj_mkn [simp]:
  "cdisj (mkn d a k c x y) fs \<longleftrightarrow> cfresh a fs \<and> cdisj x fs \<and> cdisj y fs" "cdisj Leaf fs"
  "cdisj (Node x a k c y) fs \<longleftrightarrow> cfresh a fs \<and> cdisj x fs \<and> cdisj y fs"
  by (cases d; auto simp: cdisj_iff cfresh_def)+

lemma at_iff:
  "at T tp t fs \<longleftrightarrow>
     shape (rb_mem T) (sentinel T) (owner tp fs) t \<and> ctx (rb_mem T) (sentinel T) tp (ptr (sentinel T) t) fs \<and>
     apart t \<and> cdist fs \<and> cdisj t fs \<and> fresh (sentinel T) t \<and> cfresh (sentinel T) fs \<and>
     rb_root T = top_ptr (ptr (sentinel T) t) fs \<and> (\<exists>n. rb_mem T (sentinel T) = Some n \<and> \<not> rb_color n)"
  by (auto simp: at_def rep_def shape_plug apart_plug capart_iff fresh_plug ptr_plug)

lemma at_fill: "at T tp t (f # fs) \<longleftrightarrow> at T tp (fill f t) fs"
  by (simp add: at_def)

section \<open>Reading at a place\<close>

fun red :: "rbt \<Rightarrow> bool" where
  "red Leaf = False"
| "red (Node l a k c r) = c"

lemma red_mkn [simp]: "red (mkn d a k c x y) = c"
  by (cases d) auto

lemma ptr_neq: "fresh a t \<Longrightarrow> a \<noteq> s \<Longrightarrow> ptr s t \<noteq> a \<and> a \<noteq> ptr s t"
  by (cases t) auto

lemma ptr_eq_sentinel: "fresh s t \<Longrightarrow> ptr s t = s \<longleftrightarrow> t = Leaf"
  by (cases t) auto

lemma at_fresh: "at T tp t fs \<Longrightarrow> fresh (sentinel T) t \<and> cfresh (sentinel T) fs"
  by (simp add: at_iff)

lemma at_node:
  "at T tp (mkn d a k c x y) fs \<Longrightarrow>
     rb_mem T a = Some (cell d k (owner tp fs) (ptr (sentinel T) x) (ptr (sentinel T) y) c)"
  by (simp add: at_iff)

lemma at_reads:
  assumes "at T tp (mkn d a k c x y) fs"
  shows "fld (kid d) T a = Some (ptr (sentinel T) x)" "fld (kid (opp d)) T a = Some (ptr (sentinel T) y)"
    "father T a = Some (owner tp fs)" "rbt_is_red T a = Some c" "fld rb_key T a = Some k"
  using at_node [OF assms] by (simp_all add: fld_def father_def rbt_is_red_def)

lemma at_red: "at T tp t fs \<Longrightarrow> rbt_is_red T (ptr (sentinel T) t) = Some (red t)"
  by (cases t) (auto simp: at_iff rbt_is_red_def fld_def)

text \<open>The nodes outside the tree, and the sentinel, are left alone.\<close>

definition keeps :: "rbt \<Rightarrow> rbtree \<Rightarrow> rbtree \<Rightarrow> bool" where
  "keeps t T T' \<longleftrightarrow> sentinel T' = sentinel T \<and> insert_ptr T' = insert_ptr T \<and>
     (\<forall>b. fresh b t \<longrightarrow> rb_mem T' b = rb_mem T b)"

lemma keeps_refl [simp]: "keeps t T T"
  by (simp add: keeps_def)

lemma keeps_trans: "keeps t T T1 \<Longrightarrow> keeps t' T1 T2 \<Longrightarrow> (\<And>b. fresh b t \<Longrightarrow> fresh b t') \<Longrightarrow> keeps t T T2"
  by (simp add: keeps_def)

section \<open>Changing colours and rotating\<close>

lemma recolor:
  assumes "at T tp (mkn d a k c x y) fs"
  shows "\<exists>T'. wr (rb_color_update (\<lambda>_. c')) a T = Some T' \<and> at T' tp (mkn d a k c' x y) fs \<and>
    keeps (plug (mkn d a k c x y) fs) T T'"
  using assms at_node [OF assms] by (auto simp: wr_def at_iff keeps_def fresh_plug)

lemma rotate_at:
  assumes "at T tp (mkn d x kx cx A (mkn d y ky cy B C)) fs"
  shows "\<exists>T'. rotate d x T = Some T' \<and> at T' tp (mkn d y ky cy (mkn d x kx cx A B) C) fs \<and>
    keeps (plug (mkn d x kx cx A (mkn d y ky cy B C)) fs) T T'"
proof -
  let ?s = "sentinel T"
  have x: "rb_mem T x = Some (cell d kx (owner tp fs) (ptr ?s A) y cx)" and
    y: "rb_mem T y = Some (cell d ky x (ptr ?s B) (ptr ?s C) cy)"
    using assms by (simp_all add: at_iff)
  have neq: "x \<noteq> y" "y \<noteq> x" "x \<noteq> ?s" "y \<noteq> ?s" using assms by (auto simp: at_iff)
  have fresh: "fresh x A" "fresh x B" "fresh x C" "fresh y A" "fresh y B" "fresh y C" "cfresh x fs" "cfresh y fs"
    using assms by (auto simp: at_iff)
  show ?thesis
  proof (cases fs)
    case Nil
    then show ?thesis using assms neq fresh x y
      by (cases B) (auto simp: rotate_def fld_def father_def wr_def at_iff keeps_def fresh_plug ptr_neq)
  next
    case (Cons f gs)
    obtain e p k c sib where f: "f = F e p k c sib" by (cases f)
    have p: "rb_mem T p = Some (cell e k (owner tp gs) x (ptr ?s sib) c)" using assms Cons f by (simp add: at_iff)
    have root: "x \<noteq> rb_root T"
      using assms Cons f top_ptr_in [of fs x] by (auto simp: at_iff)
    have pn: "p \<noteq> x" "p \<noteq> y" "p \<noteq> ?s" "x \<noteq> p" "y \<noteq> p" "fresh x sib" "fresh p A" "fresh p B" "fresh p C" "fresh y sib"
      using assms Cons f by (auto simp: at_iff)
    have "e = d \<or> e = opp d" by (cases e; cases d) auto
    then show ?thesis
    proof
      assume "e = d"
      then show ?thesis using assms neq fresh x y p root pn
        by (cases B) (auto simp: Cons f rotate_def fld_def father_def wr_def at_iff keeps_def fresh_plug ptr_neq)
    next
      assume "e = opp d"
      then show ?thesis using assms neq fresh x y p root pn
        by (cases B) (auto simp: Cons f rotate_def fld_def father_def wr_def at_iff keeps_def fresh_plug ptr_neq)
    qed
  qed
qed

end
