(* ===== verification/Rb_Insert.thy ===== *)
theory Rb_Insert
  imports Rb_Shape
begin

text \<open>
  Insertion into the red-black tree: the search for the place, the linking of the node, and the
  loop that restores the colours. The result is again a red-black tree, with the new node after
  all nodes of the same key.
\<close>

section \<open>The red-black properties\<close>

fun bh :: "rbt \<Rightarrow> nat" where
  "bh Leaf = 0"
| "bh (Node l a k c r) = bh l + (if c then 0 else 1)"

fun invh :: "rbt \<Rightarrow> bool" where
  "invh Leaf = True"
| "invh (Node l a k c r) = (invh l \<and> invh r \<and> bh l = bh r)"

fun invc :: "rbt \<Rightarrow> bool" where
  "invc Leaf = True"
| "invc (Node l a k c r) = (invc l \<and> invc r \<and> (c \<longrightarrow> \<not> red l \<and> \<not> red r))"

definition red_black :: "rbt \<Rightarrow> bool" where
  "red_black t \<longleftrightarrow> invc t \<and> invh t \<and> \<not> red t"

fun blacken :: "rbt \<Rightarrow> rbt" where
  "blacken Leaf = Leaf"
| "blacken (Node l a k c r) = Node l a k False r"

lemma mkn_props [simp]:
  "invh (mkn d a k c x y) \<longleftrightarrow> invh x \<and> invh y \<and> bh x = bh y"
  "invc (mkn d a k c x y) \<longleftrightarrow> invc x \<and> invc y \<and> (c \<longrightarrow> \<not> red x \<and> \<not> red y)"
  "blacken (mkn d a k c x y) = mkn d a k False x y"
  by (cases d; auto)+

lemma bh_mkn: "bh x = bh y \<Longrightarrow> bh (mkn d a k c x y) = bh x + (if c then 0 else 1)"
  by (cases d) auto

lemma blacken_props [simp]:
  "entries (blacken t) = entries t" "invh (blacken t) = invh t" "ptr s (blacken t) = ptr s t" "\<not> red (blacken t)"
  "fresh b (blacken t) = fresh b t"
  by (cases t; simp)+

lemma invc_blacken: "invc t \<Longrightarrow> invc (blacken t)"
  by (cases t) auto

text \<open>What the frames demand of the subtree at the place.\<close>

fun hole :: "frame list \<Rightarrow> nat \<Rightarrow> bool" where
  "hole [] n = True"
| "hole (F d a k c sib # fs) n = (invh sib \<and> bh sib = n \<and> hole fs (n + (if c then 0 else 1)))"

fun cok :: "frame list \<Rightarrow> bool \<Rightarrow> bool" where
  "cok [] r = (\<not> r)"
| "cok (F d a k c sib # fs) r = (invc sib \<and> (c \<longrightarrow> \<not> r \<and> \<not> red sib) \<and> cok fs c)"

lemma cok_red:
  assumes "cok fs True"
  shows "\<exists>d g kg u gs. fs = F d g kg False u # gs"
proof (cases fs)
  case (Cons f gs)
  then show ?thesis using assms by (cases f) auto
qed (use assms in simp)

lemma invh_plug: "invh (plug t fs) \<longleftrightarrow> invh t \<and> hole fs (bh t)"
proof (induction fs arbitrary: t)
  case (Cons f fs)
  obtain d a k c sib where "f = F d a k c sib" by (cases f)
  then show ?case by (auto simp: Cons.IH bh_mkn)
qed simp

lemma invc_plug: "invc (plug t fs) \<and> \<not> red (plug t fs) \<longleftrightarrow> invc t \<and> cok fs (red t)"
proof (induction fs arbitrary: t)
  case (Cons f fs)
  obtain d a k c sib where "f = F d a k c sib" by (cases f)
  then show ?case by (auto simp: Cons.IH)
qed simp

lemma red_black_plug: "red_black (plug t fs) \<longleftrightarrow> invc t \<and> cok fs (red t) \<and> invh t \<and> hole fs (bh t)"
  using invc_plug [of t fs] by (auto simp: red_black_def invh_plug)

section \<open>Reads along the way up\<close>

lemma at_father:
  "at T tp t fs \<Longrightarrow> t \<noteq> Leaf \<Longrightarrow> father T (ptr (sentinel T) t) = Some (owner tp fs)"
  by (cases t) (auto simp: at_iff father_def fld_def)

lemma at_frame:
  assumes "at T tp t (F d p k c sib # fs)"
  shows "fld (kid d) T p = Some (ptr (sentinel T) t)" "fld (kid (opp d)) T p = Some (ptr (sentinel T) sib)"
    "rbt_is_red T p = Some c" "father T p = Some (owner tp fs)"
  using at_reads [of T tp d p k c t sib fs] assms by (simp_all add: at_fill)

lemma at_grand:
  assumes "at T tp t (F e p kp cp sib # fs)" "t \<noteq> Leaf"
  shows "grand_father T (ptr (sentinel T) t) = Some (owner tp fs)"
  using at_father [OF assms] at_frame(4) [OF assms(1)] by (simp add: grand_father_def)

lemma at_sibling: "at T tp t (F d a k c sib # fs) \<longleftrightarrow> at T tp sib (F (opp d) a k c t # fs)"
  by (simp add: at_fill)

lemma at_kid_eq:
  assumes "at T tp t (F d p k c sib # fs)" "t \<noteq> Leaf"
  shows "ptr (sentinel T) t \<noteq> ptr (sentinel T) sib"
proof -
  have "fresh (ptr (sentinel T) t) sib" "ptr (sentinel T) t \<noteq> sentinel T"
    using assms by (cases t; auto simp: at_iff)+
  then show ?thesis using ptr_neq by metis
qed

lemma at_side:
  assumes "at T tp t (F d p k c sib # fs)" "t \<noteq> Leaf"
  shows "side_of (ptr (sentinel T) t) p T = Some d"
  using at_frame(1,2) [OF assms(1)] at_kid_eq [OF assms]
  by (cases d) (auto simp: side_of_def)

lemma at_not_root:
  assumes "at T tp t (f # fs)" "t \<noteq> Leaf"
  shows "ptr (sentinel T) t \<noteq> rb_root T"
proof -
  have "cfresh (ptr (sentinel T) t) (f # fs)" using assms by (cases t) (auto simp: at_iff)
  moreover have "rb_root T = top_ptr (ptr (sentinel T) t) (f # fs)" using assms(1) by (simp add: at_iff)
  ultimately show ?thesis using top_ptr_in [of "f # fs" "ptr (sentinel T) t"] by auto
qed

section \<open>One round of the loop\<close>

lemma round_red_uncle:
  assumes at: "at T tp n (F e p kp True sib # F d g kg False u # fs)" "n \<noteq> Leaf" "red u"
  shows "\<exists>T'. insert_round d (ptr (sentinel T) n) T = Some (T', g) \<and>
    at T' tp (mkn d g kg True (mkn e p kp False n sib) (blacken u)) fs \<and>
    keeps (plug n (F e p kp True sib # F d g kg False u # fs)) T T'"
proof -
  let ?s = "sentinel T" and ?w = "plug n (F e p kp True sib # F d g kg False u # fs)"
  obtain ul ua uk ur where u: "u = Node ul ua uk True ur" using at(3) by (cases u) auto
  obtain T1 where 1: "wr (rb_color_update (\<lambda>_. False)) p T = Some T1"
    "at T1 tp (mkn e p kp False n sib) (F d g kg False u # fs)" "keeps ?w T T1"
    using recolor [of T tp e p kp True n sib "F d g kg False u # fs" False] at(1) by (auto simp: at_fill)
  have s1: "sentinel T1 = ?s" using 1(3) by (simp add: keeps_def)
  have "at T1 tp u (F (opp d) g kg False (mkn e p kp False n sib) # fs)"
    using 1(2) at_sibling by metis
  then obtain T2 where 2: "wr (rb_color_update (\<lambda>_. False)) ua T1 = Some T2"
    "at T2 tp (blacken u) (F (opp d) g kg False (mkn e p kp False n sib) # fs)"
    "keeps (plug u (F (opp d) g kg False (mkn e p kp False n sib) # fs)) T1 T2"
    using recolor [of T1 tp Lft ua uk True ul ur "F (opp d) g kg False (mkn e p kp False n sib) # fs" False] u
    by auto
  have s2: "sentinel T2 = ?s" using 2(3) s1 by (simp add: keeps_def)
  have at2: "at T2 tp (mkn e p kp False n sib) (F d g kg False (blacken u) # fs)"
    using 2(2) at_sibling [of T2 tp "blacken u" "opp d"] by simp
  obtain T3 where 3: "wr (rb_color_update (\<lambda>_. True)) g T2 = Some T3"
    "at T3 tp (mkn d g kg True (mkn e p kp False n sib) (blacken u)) fs"
    "keeps (plug (mkn e p kp False n sib) (F d g kg False (blacken u) # fs)) T2 T3"
    using recolor [of T2 tp d g kg False "mkn e p kp False n sib" "blacken u" fs True] at2 by (auto simp: at_fill)
  have s3: "sentinel T3 = ?s" using 3(3) s2 by (simp add: keeps_def)
  have n2: "at T2 tp n (F e p kp False sib # F d g kg False (blacken u) # fs)" using at2 by (simp add: at_fill)
  have n3: "at T3 tp n (F e p kp False sib # F d g kg True (blacken u) # fs)" using 3(2) by (simp add: at_fill)
  have up: "at T tp (mkn e p kp True n sib) (F d g kg False u # fs)" using at(1) by (simp add: at_fill)
  have uT: "at T tp u (F (opp d) g kg False (mkn e p kp True n sib) # fs)" using up at_sibling by metis
  have run: "insert_round d (ptr ?s n) T = Some (T3, g)"
    using at_grand [OF at(1,2)] at_frame(2) [OF up] at_red [OF uT] u at_father [OF at(1,2)] 1(1) 2(1) 3(1)
      at_grand [OF n2 at(2)] at_grand [OF n3 at(2)] s2 s3
    by (simp add: insert_round_def rbt_black_def rbt_red_def)
  have "keeps ?w T T3"
    by (rule keeps_trans [OF keeps_trans [OF 1(3) 2(3)] 3(3)])
      (auto simp: fresh_plug)
  with run 3(2) show ?thesis by blast
qed

lemma case3:
  assumes at: "at T tp n (F d p kp True sib # F d g kg False u # fs)" "n \<noteq> Leaf"
  shows "\<exists>T'. insert_case3 d (ptr (sentinel T) n) T = Some (T', ptr (sentinel T) n) \<and>
    at T' tp n (F d p kp False (mkn d g kg True sib u) # fs) \<and>
    keeps (plug n (F d p kp True sib # F d g kg False u # fs)) T T'"
proof -
  let ?s = "sentinel T" and ?w = "plug n (F d p kp True sib # F d g kg False u # fs)"
  obtain T1 where 1: "wr (rb_color_update (\<lambda>_. False)) p T = Some T1"
    "at T1 tp (mkn d p kp False n sib) (F d g kg False u # fs)" "keeps ?w T T1"
    using recolor [of T tp d p kp True n sib "F d g kg False u # fs" False] at(1) by (auto simp: at_fill)
  have s1: "sentinel T1 = ?s" using 1(3) by (simp add: keeps_def)
  have n1: "at T1 tp n (F d p kp False sib # F d g kg False u # fs)" using 1(2) by (simp add: at_fill)
  obtain T2 where 2: "wr (rb_color_update (\<lambda>_. True)) g T1 = Some T2"
    "at T2 tp (mkn d g kg True (mkn d p kp False n sib) u) fs" "keeps ?w T1 T2"
    using recolor [of T1 tp d g kg False "mkn d p kp False n sib" u fs True] 1(2)
    by (auto simp: at_fill keeps_def fresh_plug)
  have s2: "sentinel T2 = ?s" using 2(3) s1 by (simp add: keeps_def)
  have n2: "at T2 tp n (F d p kp False sib # F d g kg True u # fs)" using 2(2) by (simp add: at_fill)
  obtain T3 where 3: "rotate (opp d) g T2 = Some T3"
    "at T3 tp (mkn d p kp False n (mkn d g kg True sib u)) fs" "keeps ?w T2 T3"
    using rotate_at [of T2 tp "opp d" g kg True u p kp False sib n fs] 2(2) by (auto simp: keeps_def fresh_plug)
  have "insert_case3 d (ptr ?s n) T = Some (T3, ptr ?s n)"
    using at_father [OF at] 1(1) 2(1) 3(1) at_grand [OF n1 at(2)] at_grand [OF n2 at(2)] s1 s2
    by (simp add: insert_case3_def rbt_black_def rbt_red_def)
  moreover have "keeps ?w T T3" using 1(3) 2(3) 3(3) by (simp add: keeps_def)
  ultimately show ?thesis using 3(2) by (auto simp: at_fill)
qed

text \<open>The new top is black; what hangs below it on side \<open>d\<close> is the node to go on with.\<close>

lemma round_black_uncle:
  assumes at: "at T tp (mkn d a ka True nl nr) (F e p kp True sib # F d g kg False u # fs)" "\<not> red u"
  shows "\<exists>T' x b kb y. insert_round d a T = Some (T', ptr (sentinel T) x) \<and> x \<noteq> Leaf \<and>
    at T' tp x (F d b kb False y # fs) \<and>
    keeps (plug (mkn d a ka True nl nr) (F e p kp True sib # F d g kg False u # fs)) T T' \<and>
    entries (mkn d b kb False x y) = entries (fill (F d g kg False u) (fill (F e p kp True sib) (mkn d a ka True nl nr))) \<and>
    (\<forall>h. invc nl \<and> invc nr \<and> invc sib \<and> invc u \<and> \<not> red nl \<and> \<not> red nr \<and> \<not> red sib \<and>
       invh nl \<and> invh nr \<and> invh sib \<and> invh u \<and> bh nl = h \<and> bh nr = h \<and> bh sib = h \<and> bh u = h \<longrightarrow>
       invc (mkn d b kb False x y) \<and> invh (mkn d b kb False x y) \<and> bh (mkn d b kb False x y) = Suc h)"
proof -
  let ?s = "sentinel T" and ?n = "mkn d a ka True nl nr"
  let ?w = "plug ?n (F e p kp True sib # F d g kg False u # fs)"
  have ne: "?n \<noteq> Leaf" by (cases d) auto
  have up: "at T tp (mkn e p kp True ?n sib) (F d g kg False u # fs)" using at(1) by (simp add: at_fill)
  have "at T tp u (F (opp d) g kg False (mkn e p kp True ?n sib) # fs)" using up at_sibling by metis
  note reads = at_grand [OF at(1) ne] at_frame(2) [OF up] at_red [OF this] at_father [OF at(1) ne]
  have "e = d \<or> e = opp d" by (cases e; cases d) auto
  then show ?thesis
  proof
    assume e: "e = d"
    have "a \<noteq> ptr ?s sib" using at_kid_eq [OF at(1) ne] by simp
    then have run: "insert_round d a T = insert_case3 d a T"
      using reads at(2) at_frame(2) [OF at(1)] e by (simp add: insert_round_def)
    from case3 [OF at(1) [unfolded e] ne] obtain T' where T': "insert_case3 d a T = Some (T', a)"
      "at T' tp ?n (F d p kp False (mkn d g kg True sib u) # fs)" "keeps ?w T T'" by (auto simp: e)
    have ent: "entries (mkn d p kp False ?n (mkn d g kg True sib u)) = entries (fill (F d g kg False u) (fill (F e p kp True sib) ?n))"
      using e by (cases d) auto
    show ?thesis
      by (rule exI [of _ T'], rule exI [of _ ?n], rule exI [of _ p], rule exI [of _ kp], rule exI [of _ "mkn d g kg True sib u"])
        (use run T' ne ent at(2) in \<open>simp add: bh_mkn\<close>)
  next
    assume e: "e = opp d"
    have "at T tp (mkn d p kp True sib ?n) (F d g kg False u # fs)" using up e by simp
    from rotate_at [OF this] obtain T1 where 1: "rotate d p T = Some T1"
      "at T1 tp (mkn d a ka True (mkn d p kp True sib nl) nr) (F d g kg False u # fs)" "keeps ?w T T1"
      using e by (auto simp: keeps_def fresh_plug)
    let ?m = "mkn d p kp True sib nl"
    have m: "at T1 tp ?m (F d a ka True nr # F d g kg False u # fs)" "?m \<noteq> Leaf"
      using 1(2) by (simp add: at_fill) (cases d; simp)
    have s1: "sentinel T1 = ?s" using 1(3) by (simp add: keeps_def)
    have "fld (kid (opp d)) T p = Some a" using at_frame(1) [OF at(1)] e by simp
    then have run: "insert_round d a T = insert_case3 d p T1"
      using reads at(2) 1(1) by (simp add: insert_round_def)
    have k: "keeps ?w T T'" if "keeps (plug ?m (F d a ka True nr # F d g kg False u # fs)) T1 T'" for T'
      by (rule keeps_trans [OF 1(3) that]) (auto simp: fresh_plug)
    from case3 [OF m] obtain T' where T': "insert_case3 d p T1 = Some (T', p)"
      "at T' tp ?m (F d a ka False (mkn d g kg True nr u) # fs)" "keeps ?w T T'" using k s1 by auto
    have ent: "entries (mkn d a ka False ?m (mkn d g kg True nr u)) = entries (fill (F d g kg False u) (fill (F e p kp True sib) ?n))"
      using e by (cases d) auto
    show ?thesis
      by (rule exI [of _ T'], rule exI [of _ ?m], rule exI [of _ a], rule exI [of _ ka], rule exI [of _ "mkn d g kg True nr u"])
        (use run T' m(2) ent at(2) in \<open>simp add: bh_mkn\<close>)
  qed
qed

section \<open>The whole loop\<close>

lemma mkn_any_side: "\<exists>x' y'. mkn d a k c x y = mkn e a k c x' y' \<and> {x', y'} = {x, y}"
  by (cases d; cases e) auto

lemma loop_stops_below_black:
  assumes "at T tp x (F d b kb False y # fs)" "x \<noteq> Leaf"
  shows "insert_loop T (ptr (sentinel T) x) = Some T"
  using at_father [OF assms] at_frame(3) [OF assms(1)] by (simp add: insert_loop.simps)

lemma loop_goes_on:
  assumes at: "at T tp n (F e p kp True sib # F d g kg cg u # fs)" "n \<noteq> Leaf"
    and "insert_round d (ptr (sentinel T) n) T = Some (T1, m)"
  shows "insert_loop T (ptr (sentinel T) n) = insert_loop T1 m"
proof -
  have up: "at T tp (mkn e p kp True n sib) (F d g kg cg u # fs)" using at(1) by (simp add: at_fill)
  have "side_of p g T = Some d" using at_side [OF up] by (cases e) auto
  then show ?thesis
    using at_not_root [OF at] at_father [OF at] at_frame(3) [OF at(1)] at_grand [OF at] assms(3)
    by (subst insert_loop.simps) simp
qed

text \<open>The memory \<open>T'\<close> holds the nodes of \<open>w\<close> in order, in a tree that is red-black up to its root.\<close>

definition balanced :: "rbt \<Rightarrow> nat \<Rightarrow> rbtree \<Rightarrow> rbtree \<Rightarrow> bool" where
  "balanced w tp T T' \<longleftrightarrow> (\<exists>t. rep T' tp t \<and> entries t = entries w \<and> invh t \<and> invc t) \<and> keeps w T T'"

lemma balancedI: "rep T' tp t \<Longrightarrow> entries t = entries w \<Longrightarrow> invh t \<Longrightarrow> invc t \<Longrightarrow> keeps w T T' \<Longrightarrow> balanced w tp T T'"
  unfolding balanced_def by blast

lemma balanced_trans:
  assumes "keeps w T T1" "balanced w' tp T1 T2" "entries w' = entries w"
  shows "balanced w tp T T2"
proof -
  have "fresh b w' \<longleftrightarrow> fresh b w" for b using assms(3) by (simp add: fresh_def adr_def)
  then show ?thesis using assms keeps_trans [OF assms(1), of w' T2] by (auto simp: balanced_def)
qed

lemma loop_black_uncle:
  assumes at: "at T tp (mkn e' a ka True nl nr) (F e p kp True sib # F d g kg False u # fs)" "\<not> red u"
    and inv: "invc nl" "invc nr" "invc sib" "invc u" "\<not> red nl" "\<not> red nr" "\<not> red sib" "invh nl" "invh nr" "invh sib" "invh u"
    and bhs: "bh nr = bh nl" "bh sib = bh nl" "bh u = bh nl" "hole fs (Suc (bh nl))" "cok fs False"
  shows "\<exists>T'. insert_loop T a = Some T' \<and>
    balanced (plug (mkn e' a ka True nl nr) (F e p kp True sib # F d g kg False u # fs)) tp T T'"
proof -
  let ?n = "mkn e' a ka True nl nr" and ?fs = "F e p kp True sib # F d g kg False u # fs"
  have ne: "?n \<noteq> Leaf" by (cases e') auto
  obtain nl' nr' where n: "?n = mkn d a ka True nl' nr'" "{nl', nr'} = {nl, nr}"
    using mkn_any_side by metis
  from round_black_uncle [OF at(1) [unfolded n(1)] at(2)] obtain T' x b kb y where
    1: "insert_round d a T = Some (T', ptr (sentinel T) x)" "x \<noteq> Leaf" "at T' tp x (F d b kb False y # fs)"
    "keeps (plug ?n ?fs) T T'"
    "entries (mkn d b kb False x y) = entries (fill (F d g kg False u) (fill (F e p kp True sib) ?n))"
    and pure: "\<forall>h. invc nl' \<and> invc nr' \<and> invc sib \<and> invc u \<and> \<not> red nl' \<and> \<not> red nr' \<and> \<not> red sib \<and>
       invh nl' \<and> invh nr' \<and> invh sib \<and> invh u \<and> bh nl' = h \<and> bh nr' = h \<and> bh sib = h \<and> bh u = h \<longrightarrow>
       invc (mkn d b kb False x y) \<and> invh (mkn d b kb False x y) \<and> bh (mkn d b kb False x y) = Suc h"
    unfolding n(1) [symmetric] by blast
  have "invc (mkn d b kb False x y) \<and> invh (mkn d b kb False x y) \<and> bh (mkn d b kb False x y) = Suc (bh nl)"
    using pure n(2) inv bhs by (auto simp: doubleton_eq_iff)
  then have "red_black (plug (mkn d b kb False x y) fs)"
    unfolding red_black_plug using bhs by simp
  moreover have "insert_loop T a = Some T'"
    using loop_goes_on [OF at(1) ne, of T' "ptr (sentinel T) x"] 1(1) loop_stops_below_black [OF 1(3,2)] 1(4)
    by (simp add: keeps_def)
  moreover have "rep T' tp (plug (mkn d b kb False x y) fs)" using 1(3) by (simp add: at_def)
  moreover have "entries (plug (mkn d b kb False x y) fs) = entries (plug ?n ?fs)"
    unfolding entries_plug plug.simps 1(5) ..
  ultimately show ?thesis using 1(4) balancedI by (metis red_black_def)
qed

lemma insert_loop_ok:
  assumes "at T tp (mkn d a ka True nl nr) fs" "invc (mkn d a ka True nl nr)" "invh (mkn d a ka True nl nr)"
    "hole fs (bh nl)" "cok fs False"
  shows "\<exists>T'. insert_loop T a = Some T' \<and> balanced (plug (mkn d a ka True nl nr) fs) tp T T'"
  using assms
proof (induction "length fs" arbitrary: T d a ka nl nr fs rule: less_induct)
  case less
  let ?n = "mkn d a ka True nl nr"
  note at = less.prems(1)
  have ne: "?n \<noteq> Leaf" by (cases d) auto
  consider "fs = []" | e p kp sib gs where "fs = F e p kp False sib # gs"
    | e p kp sib d' g kg u hs where "fs = F e p kp True sib # F d' g kg False u # hs"
  proof (cases fs)
    case (Cons f gs)
    obtain e p kp c sib where f: "f = F e p kp c sib" by (cases f)
    show thesis
    proof (cases c)
      case True
      then have "cok gs True" using less.prems(5) Cons f by simp
      then obtain d' g kg u hs where "gs = F d' g kg False u # hs" using cok_red by blast
      then show thesis using that(3) Cons f True by simp
    qed (use that(2) Cons f in simp)
  qed
  then show ?case
  proof cases
    case 1
    have "insert_loop T a = Some T" using at 1 by (simp add: insert_loop.simps at_iff)
    moreover have "balanced ?n tp T T" by (rule balancedI [of T tp ?n]) (use at less.prems(2,3) 1 in \<open>auto simp: at_def\<close>)
    ultimately show ?thesis using 1 by simp
  next
    case (2 e p kp sib gs)
    have "insert_loop T a = Some T" using loop_stops_below_black [OF at [unfolded 2] ne] by simp
    moreover have "red_black (plug ?n fs)" unfolding red_black_plug using less.prems 2 by (auto simp: bh_mkn)
    ultimately show ?thesis using at balancedI [of T tp "plug ?n fs"] by (auto simp: red_black_def at_def)
  next
    case (3 e p kp sib d' g kg u hs)
    note at' = at [unfolded 3]
    show ?thesis
    proof (cases "red u")
      case False
      show ?thesis unfolding 3 by (rule loop_black_uncle [OF at' False]) (use less.prems(2-) 3 in auto)
    next
      case True
      let ?m = "mkn d' g kg True (mkn e p kp False ?n sib) (blacken u)"
      from round_red_uncle [OF at' ne True] obtain T1 where 1: "insert_round d' a T = Some (T1, g)"
        "at T1 tp ?m hs" "keeps (plug ?n fs) T T1" using 3 by auto
      have bu: "bh (blacken u) = Suc (bh nl)" using True less.prems(4) 3 by (cases u) auto
      have "\<exists>T'. insert_loop T1 g = Some T' \<and> balanced (plug ?m hs) tp T1 T'"
        by (rule less.hyps [OF _ 1(2)]) (use 3 bu less.prems(2-) in \<open>simp_all add: bh_mkn invc_blacken\<close>)
      then obtain T' where 2: "insert_loop T1 g = Some T'" "balanced (plug ?m hs) tp T1 T'" by blast
      have "insert_loop T a = Some T'" using loop_goes_on [OF at' ne, of T1 g] 1(1) 2(1) by simp
      moreover have "entries (plug ?m hs) = entries (plug ?n fs)"
        unfolding 3 by (cases d'; cases e) (simp_all add: entries_plug)
      ultimately show ?thesis using balanced_trans [OF 1(3) 2(2)] by blast
    qed
  qed
qed

section \<open>Finding the place\<close>

text \<open>Nodes of equal keys keep the order in which they came.\<close>

definition put_entry :: "32 word \<Rightarrow> nat \<Rightarrow> (32 word \<times> nat) list \<Rightarrow> (32 word \<times> nat) list" where
  "put_entry k a xs = takeWhile (\<lambda>e. fst e \<le> k) xs @ (k, a) # dropWhile (\<lambda>e. fst e \<le> k) xs"

lemma put_entry_between:
  assumes "\<forall>e \<in> set xs. fst e \<le> k" "\<forall>e \<in> set ys. k < fst e"
  shows "put_entry k a (xs @ ys) = xs @ (k, a) # ys"
proof -
  have "takeWhile (\<lambda>e. fst e \<le> k) ys = []" "dropWhile (\<lambda>e. fst e \<le> k) ys = ys"
    using assms(2) by (cases ys; auto)+
  then show ?thesis using assms(1) by (simp add: put_entry_def)
qed

lemma put_entry_set: "set (put_entry k a xs) = insert (k, a) (set xs)"
proof -
  have "set xs = set (takeWhile (\<lambda>e. fst e \<le> k) xs) \<union> set (dropWhile (\<lambda>e. fst e \<le> k) xs)"
    by (metis set_append takeWhile_dropWhile_id)
  then show ?thesis by (auto simp: put_entry_def)
qed

definition bounds :: "32 word \<Rightarrow> frame list \<Rightarrow> bool" where
  "bounds key fs \<longleftrightarrow> (\<forall>e \<in> set (before fs). fst e \<le> key) \<and> (\<forall>e \<in> set (after fs). key < fst e)"

lemma find_place_ok:
  assumes "at T tp t fs" "t \<noteq> Leaf" "sorted (map fst (entries t))" "bounds key fs"
  shows "\<exists>d a k c sib gs. find_place T (ptr (sentinel T) t) key = Some (a, d) \<and>
    plug t fs = plug Leaf (F d a k c sib # gs) \<and> bounds key (F d a k c sib # gs)"
  using assms
proof (induction t arbitrary: fs)
  case (Node l a k c r)
  let ?s = "sentinel T"
  have at: "at T tp (mkn Lft a k c l r) fs" using Node.prems(1) by simp
  have reads: "fld rb_key T a = Some k" "fld (kid Lft) T a = Some (ptr ?s l)" "fld (kid Rgt) T a = Some (ptr ?s r)"
    using at_reads(5,1,2) [OF at] by simp_all
  have leaf: "ptr ?s l = ?s \<longleftrightarrow> l = Leaf" "ptr ?s r = ?s \<longleftrightarrow> r = Leaf"
    using at_fresh [OF at] by (auto simp: ptr_eq_sentinel)
  have srt: "sorted (map fst (entries l))" "sorted (map fst (entries r))"
    "\<forall>e \<in> set (entries l). fst e \<le> k" "\<forall>e \<in> set (entries r). k \<le> fst e"
    using Node.prems(3) by (auto simp: sorted_append)
  show ?case
  proof (cases "key < k")
    case True
    have b: "bounds key (F Lft a k c r # fs)" using Node.prems(4) True srt(4) by (auto simp: bounds_def)
    show ?thesis
    proof (cases "l = Leaf")
      case False
      have "at T tp l (F Lft a k c r # fs)" using at by (simp add: at_fill)
      from Node.IH(1) [OF this False srt(1) b] show ?thesis
        using reads leaf False True by (subst find_place.simps) (simp add: Let_def)
    qed (use reads leaf True b in \<open>subst find_place.simps, force simp: Let_def\<close>)
  next
    case False
    have b: "bounds key (F Rgt a k c l # fs)" using Node.prems(4) False srt(3) by (fastforce simp: bounds_def)
    show ?thesis
    proof (cases "r = Leaf")
      case nl: False
      have "at T tp r (F Rgt a k c l # fs)" using at by (simp add: at_fill)
      from Node.IH(2) [OF this nl srt(2) b] show ?thesis
        using reads leaf nl False by (subst find_place.simps) (simp add: Let_def)
    qed (use reads leaf False b in \<open>subst find_place.simps, force simp: Let_def\<close>)
  qed
qed simp

section \<open>Linking and inserting\<close>

lemma insert_value_same: "rbtree_insert_timer_value = rbtree_insert_value"
  by (intro ext) (simp add: rbtree_insert_value_def rbtree_insert_timer_value_def)

lemma link_ok:
  assumes at: "at T tp Leaf (F d p kp c sib # gs)" and place: "find_place T q (rb_key nd) = Some (p, d)"
    and n: "rb_mem T n = Some nd" "fresh n (plug Leaf (F d p kp c sib # gs))" "n \<noteq> sentinel T"
  shows "\<exists>T'. rbtree_insert_value q n T = Some T' \<and>
    at T' tp (mkn Lft n (rb_key nd) True Leaf Leaf) (F d p kp c sib # gs) \<and>
    keeps (plug (mkn Lft n (rb_key nd) True Leaf Leaf) (F d p kp c sib # gs)) T T'"
proof -
  have new: "nd\<lparr>rb_parent := p, rb_left := sentinel T, rb_right := sentinel T, rb_color := True\<rparr> =
      cell Lft (rb_key nd) p (sentinel T) (sentinel T) True" by simp
  have p: "rb_mem T p = Some (cell d kp (owner tp gs) (sentinel T) (ptr (sentinel T) sib) c)" "p \<noteq> n"
    using at n(2) by (auto simp: at_iff fresh_plug)
  show ?thesis
    using at place n p new
    by (simp add: rbtree_insert_value_def fld_def wr_def rbt_red_def at_iff keeps_def fresh_plug)
qed

text \<open>The tree is empty, or holds the nodes \<open>xs\<close> in this order, as a red-black tree.\<close>

definition rb_tree :: "rbtree \<Rightarrow> (32 word \<times> nat) list \<Rightarrow> bool" where
  "rb_tree T xs \<longleftrightarrow> (\<exists>tp t. rep T tp t \<and> red_black t \<and> entries t = xs \<and> sorted (map fst xs))"

lemma sorted_put_entry: "sorted (map fst xs) \<Longrightarrow> sorted (map fst (put_entry k a xs))"
proof -
  assume s: "sorted (map fst xs)"
  have le: "\<forall>e \<in> set (takeWhile (\<lambda>e. fst e \<le> k) xs). fst e \<le> k" by (auto dest: set_takeWhileD)
  have ge: "\<forall>e \<in> set (dropWhile (\<lambda>e. fst e \<le> k) xs). k \<le> fst e"
  proof (cases "dropWhile (\<lambda>e. fst e \<le> k) xs")
    case Nil
    show ?thesis unfolding Nil by simp
  next
    case (Cons y ys)
    then have y: "\<not> fst y \<le> k" using hd_dropWhile [of "\<lambda>e. fst e \<le> k" xs] by simp
    have "sorted (map fst (y # ys))" using s Cons by (metis sorted_append map_append takeWhile_dropWhile_id)
    then show ?thesis using Cons y by auto
  qed
  have "sorted (map fst (takeWhile (\<lambda>e. fst e \<le> k) xs) @ map fst (dropWhile (\<lambda>e. fst e \<le> k) xs))"
    using s by (metis map_append takeWhile_dropWhile_id)
  then show ?thesis using le ge by (fastforce simp: put_entry_def sorted_append)
qed

lemma insert_empty:
  assumes "rep T tp Leaf" "rb_mem T n = Some nd" "n \<noteq> sentinel T"
  shows "\<exists>T'. rbtree_insert n T = Some T' \<and> rep T' NULL_NODE (mkn Lft n (rb_key nd) False Leaf Leaf) \<and>
    keeps (mkn Lft n (rb_key nd) False Leaf Leaf) T T'"
  using assms by (simp add: rbtree_insert_def wr_def rbt_black_def rep_def keeps_def)

lemma blacken_root:
  assumes "rep T tp t" "t \<noteq> Leaf"
  shows "\<exists>T'. rbt_black (rb_root T) T = Some T' \<and> rep T' tp (blacken t) \<and> keeps t T T'"
proof -
  obtain l a k c r where t: "t = mkn Lft a k c l r" using assms(2) by (cases t) auto
  then have "at T tp (mkn Lft a k c l r) []" "rb_root T = a" using assms(1) by (simp_all add: at_def rep_def)
  from recolor [OF this(1), of False] this(2) show ?thesis by (auto simp: rbt_black_def at_def t)
qed

lemma rbtree_insert_ok:
  assumes tree: "rb_tree T xs" and n: "rb_mem T n = Some nd" "n \<notin> snd ` set xs" "n \<noteq> sentinel T"
  shows "\<exists>T'. rbtree_insert n T = Some T' \<and> rb_tree T' (put_entry (rb_key nd) n xs) \<and>
    sentinel T' = sentinel T \<and> insert_ptr T' = insert_ptr T \<and>
    (\<forall>b. b \<noteq> n \<and> b \<notin> snd ` set xs \<longrightarrow> rb_mem T' b = rb_mem T b)"
proof -
  obtain tp t where t: "rep T tp t" "red_black t" "entries t = xs" "sorted (map fst xs)"
    using tree by (auto simp: rb_tree_def)
  show ?thesis
  proof (cases "t = Leaf")
    case True
    from insert_empty [of T tp n nd] obtain T' where "rbtree_insert n T = Some T'"
      "rep T' NULL_NODE (mkn Lft n (rb_key nd) False Leaf Leaf)" "keeps (mkn Lft n (rb_key nd) False Leaf Leaf) T T'"
      using t(1) n True by blast
    then show ?thesis using t(3) True by (auto simp: rb_tree_def red_black_def keeps_def put_entry_def
      intro!: exI [of _ NULL_NODE] exI [of _ "Node Leaf n (rb_key nd) False Leaf"])
  next
    case False
    have root: "rb_root T = ptr (sentinel T) t" "rb_root T \<noteq> sentinel T"
      using t(1) False by (auto simp: rep_def ptr_eq_sentinel)
    have "at T tp t []" "bounds (rb_key nd) []" using t(1) by (auto simp: at_def bounds_def)
    from find_place_ok [OF this(1) False _ this(2)] obtain d p kp c sib gs where
      place: "find_place T (rb_root T) (rb_key nd) = Some (p, d)" "t = plug Leaf (F d p kp c sib # gs)"
        "bounds (rb_key nd) (F d p kp c sib # gs)" using t(3,4) root(1) by auto
    have fr: "fresh n t" using n(2) t(3) by (auto simp: fresh_def adr_def)
    let ?n = "mkn Lft n (rb_key nd) True Leaf Leaf" and ?fs = "F d p kp c sib # gs"
    have at0: "at T tp Leaf ?fs" using t(1) place(2) by (simp add: at_def)
    from link_ok [OF at0 place(1) n(1)] obtain T1 where
      1: "rbtree_insert_value (rb_root T) n T = Some T1" "at T1 tp ?n ?fs" "keeps (plug ?n ?fs) T T1"
      using fr n(3) place(2) by auto
    have "cok ?fs False" "hole ?fs 0" using t(2) place(2) red_black_plug [of Leaf ?fs] by auto
    then obtain T2 where 2: "insert_loop T1 n = Some T2" "balanced (plug ?n ?fs) tp T1 T2"
      using insert_loop_ok [OF 1(2)] by auto
    obtain t2 where t2: "rep T2 tp t2" "entries t2 = entries (plug ?n ?fs)" "invh t2" "invc t2"
      and k2: "keeps (plug ?n ?fs) T1 T2" using 2(2) by (auto simp: balanced_def)
    have "entries (plug ?n ?fs) \<noteq> []" unfolding entries_plug by simp
    then have "t2 \<noteq> Leaf" using t2(2) by auto
    then obtain T3 where 3: "rbt_black (rb_root T2) T2 = Some T3" "rep T3 tp (blacken t2)" "keeps t2 T2 T3"
      using blacken_root [OF t2(1)] by blast
    have run: "rbtree_insert n T = Some T3"
      using root(2) 1(1) 2(1) 3(1) insert_value_same by (simp add: rbtree_insert_def split: insert_fn.split)
    have xs: "xs = before ?fs @ after ?fs" using t(3) place(2) entries_plug [of Leaf ?fs] by simp
    have "entries t2 = before ?fs @ (rb_key nd, n) # after ?fs" unfolding t2(2) entries_plug by simp
    also have "\<dots> = put_entry (rb_key nd) n xs"
      unfolding xs using put_entry_between place(3) by (simp add: bounds_def)
    finally have ent: "entries (blacken t2) = put_entry (rb_key nd) n xs" by simp
    have tree': "rb_tree T3 (put_entry (rb_key nd) n xs)"
      unfolding rb_tree_def using 3(2) t2(3,4) ent sorted_put_entry [OF t(4)]
      by (intro exI [of _ tp] exI [of _ "blacken t2"]) (simp add: red_black_def invc_blacken)
    have "keeps (plug ?n ?fs) T T3"
      by (rule keeps_trans [OF keeps_trans [OF 1(3) k2] 3(3)]) (simp_all add: fresh_def adr_def t2(2))
    moreover have "fresh b (plug ?n ?fs)" if "b \<noteq> n" "b \<notin> snd ` set xs" for b
      unfolding fresh_def adr_def entries_plug using that xs by (simp add: image_Un)
    ultimately show ?thesis using run tree' by (auto simp: keeps_def)
  qed
qed

end
