(* ===== verification/Rb_Delete.thy ===== *)
theory Rb_Delete
  imports Rb_Insert
begin

text \<open>
  Deletion from the red-black tree: the node goes, or its successor takes its place, and the
  loop restores the equal number of black nodes on all paths.
\<close>

section \<open>The least node\<close>

lemma rbtree_min_ok:
  assumes "at T tp t fs" "t \<noteq> Leaf"
  shows "\<exists>ls a k c r. rbtree_min T (ptr (sentinel T) t) = Some a \<and> t = plug (Node Leaf a k c r) ls \<and> before ls = []"
  using assms
proof (induction t arbitrary: fs)
  case (Node l a k c r)
  have at: "at T tp (mkn Lft a k c l r) fs" using Node.prems(1) by simp
  have reads: "fld (kid Lft) T a = Some (ptr (sentinel T) l)" using at_reads(1) [OF at] .
  have leaf: "ptr (sentinel T) l = sentinel T \<longleftrightarrow> l = Leaf" using at_fresh [OF at] by (auto simp: ptr_eq_sentinel)
  show ?case
  proof (cases "l = Leaf")
    case True
    then show ?thesis using reads by (subst rbtree_min.simps) (auto intro!: exI [of _ "[]"])
  next
    case False
    have "at T tp l (F Lft a k c r # fs)" using at by (simp add: at_fill)
    from Node.IH(1) [OF this False] obtain ls b kb cb rb where
      ls: "rbtree_min T (ptr (sentinel T) l) = Some b" "l = plug (Node Leaf b kb cb rb) ls" "before ls = []" by blast
    have "before (ls @ [F Lft a k c r]) = []"
    proof -
      have "before (xs @ [F Lft a k c r]) = before xs" for xs
        by (induction xs rule: before.induct) auto
      then show ?thesis using ls(3) by simp
    qed
    moreover have "rbtree_min T a = Some b" using reads leaf False ls(1) by (subst rbtree_min.simps) simp
    moreover have "Node l a k c r = plug (Node Leaf b kb cb rb) (ls @ [F Lft a k c r])"
      unfolding plug_append ls(2) [symmetric] by simp
    ultimately show ?thesis by (metis ptr.simps(2))
  qed
qed simp

section \<open>The parent of a place\<close>

text \<open>The parent pointer of the subtree at a place; for a leaf it is kept in the sentinel.\<close>

definition up :: "rbtree \<Rightarrow> rbt \<Rightarrow> nat \<Rightarrow> bool" where
  "up T t p \<longleftrightarrow> father T (ptr (sentinel T) t) = Some p"

lemma up_keeps:
  assumes "up T t p" "keeps w T T'" "fresh (sentinel T) w" "at T' tp t (F d p k c sib # fs)"
  shows "up T' t p"
proof (cases t)
  case Leaf
  then show ?thesis using assms(1-3) by (simp add: up_def keeps_def father_def fld_def)
next
  case (Node l a ka ca r)
  then show ?thesis using at_father [OF assms(4)] by (simp add: up_def)
qed

lemma at_whole_fresh: "at T tp t fs \<Longrightarrow> fresh (sentinel T) (plug t fs)"
  by (simp add: at_fresh fresh_plug)

section \<open>Case D\<close>

lemma case_d:
  assumes at: "at T tp t (F d p kp cp (mkn d a ka ca x (mkn d b kb cb y z)) # fs)" and up: "up T t p"
  shows "\<exists>T'. delete_case_d d (ptr (sentinel T) t) a T = Some (T', rb_root T') \<and>
    at T' tp (mkn d a ka cp (mkn d p kp False t x) (mkn d b kb False y z)) fs \<and>
    keeps (plug t (F d p kp cp (mkn d a ka ca x (mkn d b kb cb y z)) # fs)) T T'"
proof -
  let ?s = "sentinel T" and ?w = "plug t (F d p kp cp (mkn d a ka ca x (mkn d b kb cb y z)) # fs)"
  have fs: "fresh ?s ?w" by (rule at_whole_fresh [OF at])
  have "at T tp (mkn d a ka ca x (mkn d b kb cb y z)) (F (opp d) p kp cp t # fs)"
    using at at_sibling by metis
  from recolor [OF this, of cp] obtain T1 where 1: "wr (rb_color_update (\<lambda>_. cp)) a T = Some T1"
    "at T1 tp (mkn d a ka cp x (mkn d b kb cb y z)) (F (opp d) p kp cp t # fs)" "keeps ?w T T1"
    by (auto simp: keeps_def fresh_plug)
  have s1: "sentinel T1 = ?s" using 1(3) by (simp add: keeps_def)
  have t1: "at T1 tp t (F d p kp cp (mkn d a ka cp x (mkn d b kb cb y z)) # fs)"
    using 1(2) at_sibling [of T1 tp _ "opp d"] by simp
  have u1: "up T1 t p" by (rule up_keeps [OF up 1(3) fs t1])
  have "at T1 tp (mkn d p kp cp t (mkn d a ka cp x (mkn d b kb cb y z))) fs" using t1 by (simp add: at_fill)
  from recolor [OF this, of False] obtain T2 where 2: "wr (rb_color_update (\<lambda>_. False)) p T1 = Some T2"
    "at T2 tp (mkn d p kp False t (mkn d a ka cp x (mkn d b kb cb y z))) fs" "keeps ?w T1 T2"
    by (auto simp: keeps_def fresh_plug)
  have s2: "sentinel T2 = ?s" using 2(3) s1 by (simp add: keeps_def)
  have b2: "at T2 tp (mkn d b kb cb y z) (F (opp d) a ka cp x # F (opp d) p kp False t # fs)"
    using 2(2) by (simp add: at_fill)
  have w2: "at T2 tp (mkn d a ka cp x (mkn d b kb cb y z)) (F (opp d) p kp False t # fs)"
    using 2(2) by (simp add: at_fill)
  have far: "fld (kid (opp d)) T2 a = Some b" using at_reads(2) [OF w2] by simp
  from recolor [OF b2, of False] obtain T3 where 3: "wr (rb_color_update (\<lambda>_. False)) b T2 = Some T3"
    "at T3 tp (mkn d b kb False y z) (F (opp d) a ka cp x # F (opp d) p kp False t # fs)" "keeps ?w T2 T3"
    by (auto simp: keeps_def fresh_plug)
  have s3: "sentinel T3 = ?s" using 3(3) s2 by (simp add: keeps_def)
  have whole3: "at T3 tp (mkn d p kp False t (mkn d a ka cp x (mkn d b kb False y z))) fs"
    using 3(2) by (simp add: at_fill)
  have k3: "keeps ?w T T3" using 1(3) 2(3) 3(3) by (simp add: keeps_def)
  have t3: "at T3 tp t (F d p kp False (mkn d a ka cp x (mkn d b kb False y z)) # fs)"
    using whole3 by (simp add: at_fill)
  have u3: "up T3 t p" by (rule up_keeps [OF up k3 fs t3])
  from rotate_at [OF whole3] obtain T4 where 4: "rotate d p T3 = Some T4"
    "at T4 tp (mkn d a ka cp (mkn d p kp False t x) (mkn d b kb False y z)) fs" "keeps ?w T3 T4"
    by (auto simp: keeps_def fresh_plug)
  have "delete_case_d d (ptr ?s t) a T = Some (T4, rb_root T4)"
    using up u1 u3 at_frame(3) [OF at] 1(1) 2(1) far 3(1) 4(1) s1 s3
    by (simp add: delete_case_d_def rbt_copy_color_def rbt_black_def up_def)
  moreover have "keeps ?w T T4" using k3 4(3) by (simp add: keeps_def)
  ultimately show ?thesis using 4(2) by blast
qed

section \<open>Cases B and C\<close>

lemma node_as_mkn: "t = Node l b k c r \<Longrightarrow> \<exists>x y. t = mkn d b k c x y"
  by (cases d) auto

lemma red_as_mkn: "red t \<Longrightarrow> \<exists>b k x y. t = mkn d b k True x y"
  by (cases t) (use node_as_mkn in \<open>simp, metis red.simps(2)\<close>)+

lemma black_as_mkn: "\<not> red t \<Longrightarrow> t = Leaf \<or> (\<exists>b k x y. t = mkn d b k False x y)"
  by (cases t) (use node_as_mkn in \<open>simp, metis red.simps(2)\<close>)+

lemma at_color:
  assumes "at T tp x (F d p k c sib # fs)"
  shows "rbt_is_red T (ptr (sentinel T) x) = Some (red x)" "rbt_is_red T (ptr (sentinel T) sib) = Some (red sib)"
  using at_red [OF assms] at_red [of T tp sib "F (opp d) p k c x # fs"] assms at_sibling by blast+

lemma black_kids_ok:
  assumes "at T tp (mkn d a ka ca x y) fs"
  shows "black_kids T a = Some (\<not> red x \<and> \<not> red y)"
proof -
  obtain l r where t: "mkn d a ka ca x y = mkn Lft a ka ca l r" "{l, r} = {x, y}" using mkn_any_side by metis
  have at: "at T tp (mkn Lft a ka ca l r) fs" using assms t by simp
  have "at T tp l (F Lft a ka ca r # fs)" using at by (simp add: at_fill)
  note at_color [OF this]
  then show ?thesis using at_reads(1,2) [OF at] t(2) by (auto simp: black_kids_def doubleton_eq_iff)
qed

lemma case_b:
  assumes at: "at T tp t (F d p kp cp (mkn d a ka False x y) # fs)" and up: "up T t p" and "\<not> red x" "\<not> red y"
  shows "\<exists>T'. delete_cases d (ptr (sentinel T) t) a T = Some (T', p) \<and>
    at T' tp (mkn d p kp cp t (mkn d a ka True x y)) fs \<and>
    keeps (plug t (F d p kp cp (mkn d a ka False x y) # fs)) T T'"
proof -
  let ?w = "plug t (F d p kp cp (mkn d a ka False x y) # fs)"
  have w: "at T tp (mkn d a ka False x y) (F (opp d) p kp cp t # fs)" using at at_sibling by metis
  from recolor [OF w, of True] obtain T1 where 1: "wr (rb_color_update (\<lambda>_. True)) a T = Some T1"
    "at T1 tp (mkn d a ka True x y) (F (opp d) p kp cp t # fs)" "keeps ?w T T1"
    by (auto simp: keeps_def fresh_plug)
  have t1: "at T1 tp t (F d p kp cp (mkn d a ka True x y) # fs)" using 1(2) at_sibling [of T1 tp _ "opp d"] by simp
  have "up T1 t p" by (rule up_keeps [OF up 1(3) at_whole_fresh [OF at] t1])
  moreover have "sentinel T1 = sentinel T" using 1(3) by (simp add: keeps_def)
  ultimately have "delete_cases d (ptr (sentinel T) t) a T = Some (T1, p)"
    using black_kids_ok [OF w] assms(3,4) 1(1) by (simp add: delete_cases_def rbt_red_def up_def)
  with 1(3) t1 show ?thesis by (auto simp: at_fill)
qed

lemma case_far_red:
  assumes at: "at T tp t (F d p kp cp (mkn d a ka False x y) # fs)" and up: "up T t p" and "red y"
  shows "\<exists>T'. delete_cases d (ptr (sentinel T) t) a T = Some (T', rb_root T') \<and>
    at T' tp (mkn d a ka cp (mkn d p kp False t x) (blacken y)) fs \<and>
    keeps (plug t (F d p kp cp (mkn d a ka False x y) # fs)) T T'"
proof -
  obtain b kb y1 y2 where y: "y = mkn d b kb True y1 y2"
    using red_as_mkn [OF assms(3)] by blast
  have w: "at T tp (mkn d a ka False x y) (F (opp d) p kp cp t # fs)" using at at_sibling by metis
  then have "at T tp y (F (opp d) a ka False x # F (opp d) p kp cp t # fs)" by (simp add: at_fill)
  then have "delete_cases d (ptr (sentinel T) t) a T = delete_case_d d (ptr (sentinel T) t) a T"
    using black_kids_ok [OF w] at_reads(2) [OF w] at_red assms(3) by (auto simp: delete_cases_def)
  then show ?thesis using case_d [OF at [unfolded y] up] y by auto
qed

lemma case_near_red:
  assumes at: "at T tp t (F d p kp cp (mkn d a ka False (mkn d b kb True x1 x2) y) # fs)" and up: "up T t p" and "\<not> red y"
  shows "\<exists>T'. delete_cases d (ptr (sentinel T) t) a T = Some (T', rb_root T') \<and>
    at T' tp (mkn d b kb cp (mkn d p kp False t x1) (mkn d a ka False x2 y)) fs \<and>
    keeps (plug t (F d p kp cp (mkn d a ka False (mkn d b kb True x1 x2) y) # fs)) T T'"
proof -
  let ?s = "sentinel T" and ?w = "plug t (F d p kp cp (mkn d a ka False (mkn d b kb True x1 x2) y) # fs)"
  have fs: "fresh ?s ?w" by (rule at_whole_fresh [OF at])
  have w: "at T tp (mkn d a ka False (mkn d b kb True x1 x2) y) (F (opp d) p kp cp t # fs)"
    using at at_sibling by metis
  then have "at T tp y (F (opp d) a ka False (mkn d b kb True x1 x2) # F (opp d) p kp cp t # fs)" by (simp add: at_fill)
  note reads = black_kids_ok [OF w] at_reads(1,2) [OF w] at_red [OF this]
  have "at T tp (mkn d b kb True x1 x2) (F d a ka False y # F (opp d) p kp cp t # fs)" using w by (simp add: at_fill)
  from recolor [OF this, of False] obtain T1 where 1: "wr (rb_color_update (\<lambda>_. False)) b T = Some T1"
    "at T1 tp (mkn d b kb False x1 x2) (F d a ka False y # F (opp d) p kp cp t # fs)" "keeps ?w T T1"
    by (auto simp: keeps_def fresh_plug)
  have "at T1 tp (mkn d a ka False (mkn d b kb False x1 x2) y) (F (opp d) p kp cp t # fs)"
    using 1(2) by (simp add: at_fill)
  from recolor [OF this, of True] obtain T2 where 2: "wr (rb_color_update (\<lambda>_. True)) a T1 = Some T2"
    "at T2 tp (mkn d a ka True (mkn d b kb False x1 x2) y) (F (opp d) p kp cp t # fs)" "keeps ?w T1 T2"
    by (auto simp: keeps_def fresh_plug)
  have "at T2 tp (mkn (opp d) a ka True y (mkn (opp d) b kb False x2 x1)) (F (opp d) p kp cp t # fs)"
    using 2(2) by simp
  from rotate_at [OF this] obtain T3 where 3: "rotate (opp d) a T2 = Some T3"
    "at T3 tp (mkn d b kb False x1 (mkn d a ka True x2 y)) (F (opp d) p kp cp t # fs)" "keeps ?w T2 T3"
    by (auto simp: keeps_def fresh_plug)
  have k3: "keeps ?w T T3" and s3: "sentinel T3 = ?s" using 1(3) 2(3) 3(3) by (simp_all add: keeps_def)
  have t3: "at T3 tp t (F d p kp cp (mkn d b kb False x1 (mkn d a ka True x2 y)) # fs)"
    using 3(2) at_sibling [of T3 tp _ "opp d"] by simp
  have u3: "up T3 t p" by (rule up_keeps [OF up k3 fs t3])
  have "delete_cases d (ptr ?s t) a T = delete_case_d d (ptr ?s t) b T3"
    using reads assms(3) 1(1) 2(1) 3(1) u3 at_frame(2) [OF t3] s3
    by (simp add: delete_cases_def rbt_black_def rbt_red_def up_def)
  moreover obtain T4 where 4: "delete_case_d d (ptr ?s t) b T3 = Some (T4, rb_root T4)"
    "at T4 tp (mkn d b kb cp (mkn d p kp False t x1) (mkn d a ka False x2 y)) fs"
    "keeps (plug t (F d p kp cp (mkn d b kb False x1 (mkn d a ka True x2 y)) # fs)) T3 T4"
    using case_d [OF t3 u3] s3 by auto
  moreover have "keeps ?w T T4" by (rule keeps_trans [OF k3 4(3)]) (simp add: fresh_plug)
  ultimately show ?thesis by auto
qed

section \<open>One round\<close>

text \<open>What holds while the subtree at the place lacks one black node.\<close>

definition lacking :: "rbt \<Rightarrow> frame list \<Rightarrow> bool" where
  "lacking t fs \<longleftrightarrow> invc (blacken t) \<and> invh t \<and> hole fs (Suc (bh t)) \<and> cok fs False"

text \<open>How a round ends: with everything repaired, or one step further up, or at a red node.\<close>

definition repaired :: "rbt \<Rightarrow> nat \<Rightarrow> rbtree \<Rightarrow> rbtree \<Rightarrow> bool" where
  "repaired w tp T T' \<longleftrightarrow> (\<exists>t. rep T' tp t \<and> entries t = entries w \<and> red_black t) \<and> keeps w T T'"

definition climbed :: "rbt \<Rightarrow> nat \<Rightarrow> nat \<Rightarrow> rbtree \<Rightarrow> rbtree \<Rightarrow> nat \<Rightarrow> bool" where
  "climbed w n tp T T' m \<longleftrightarrow> (\<exists>t fs. at T' tp t fs \<and> m = ptr (sentinel T') t \<and> t \<noteq> Leaf \<and> lacking t fs \<and>
     entries (plug t fs) = entries w \<and> (red t \<or> length fs < n)) \<and> keeps w T T'"

lemma cok_False: "cok fs r \<Longrightarrow> cok fs False"
  by (cases fs) (auto elim: cok.elims)

lemma mkn_not_Leaf [simp]: "mkn d a k c x y \<noteq> Leaf"
  by (cases d) auto

lemma cases_ok:
  assumes at: "at T tp t (F d p kp cp w # fs)" and up: "up T t p"
    and inv: "lacking t (F d p kp cp w # fs)" "\<not> red t" "\<not> red w"
  shows "\<exists>T' m. delete_cases d (ptr (sentinel T) t) (ptr (sentinel T) w) T = Some (T', m) \<and>
    (m = rb_root T' \<and> repaired (plug t (F d p kp cp w # fs)) tp T T' \<or>
     m = p \<and> (\<exists>a ka x y. at T' tp (mkn d p kp cp t (mkn d a ka True x y)) fs \<and>
        lacking (mkn d p kp cp t (mkn d a ka True x y)) fs \<and> w = mkn d a ka False x y) \<and>
      keeps (plug t (F d p kp cp w # fs)) T T')"
proof -
  let ?W = "plug t (F d p kp cp w # fs)"
  have "bh w = Suc (bh t)" using inv(1) by (auto simp: lacking_def)
  then obtain a ka x y where w: "w = mkn d a ka False x y"
    using black_as_mkn [OF inv(3), of d] by auto
  have t: "invc t" using inv(1,2) by (cases t) (auto simp: lacking_def)
  note facts = inv(1) [unfolded lacking_def w] t inv(2) bh_mkn
  show ?thesis
  proof (cases "red y")
    case True
    obtain b kb y1 y2 where y: "y = mkn d b kb True y1 y2"
      using red_as_mkn [OF True] by blast
    from case_far_red [OF at [unfolded w] up True] obtain T' where
      T': "delete_cases d (ptr (sentinel T) t) a T = Some (T', rb_root T')"
        "at T' tp (mkn d a ka cp (mkn d p kp False t x) (blacken y)) fs" "keeps ?W T T'" unfolding w by blast
    have "red_black (plug (mkn d a ka cp (mkn d p kp False t x) (blacken y)) fs)"
      unfolding red_black_plug using facts y by auto
    moreover have "entries (plug (mkn d a ka cp (mkn d p kp False t x) (blacken y)) fs) = entries ?W"
      unfolding w y entries_plug by (cases d) (simp_all add: entries_plug)
    ultimately have "repaired ?W tp T T'" using T' by (auto simp: repaired_def at_def)
    then show ?thesis using T'(1) w by auto
  next
    case ny: False
    show ?thesis
    proof (cases "red x")
      case True
      obtain b kb x1 x2 where x: "x = mkn d b kb True x1 x2"
        using red_as_mkn [OF True] by blast
      from case_near_red [OF at [unfolded w x] up ny] obtain T' where
        T': "delete_cases d (ptr (sentinel T) t) a T = Some (T', rb_root T')"
          "at T' tp (mkn d b kb cp (mkn d p kp False t x1) (mkn d a ka False x2 y)) fs" "keeps ?W T T'"
        unfolding w x by blast
      have "red_black (plug (mkn d b kb cp (mkn d p kp False t x1) (mkn d a ka False x2 y)) fs)"
        unfolding red_black_plug using facts x by auto
      moreover have "entries (plug (mkn d b kb cp (mkn d p kp False t x1) (mkn d a ka False x2 y)) fs) = entries ?W"
        unfolding w x entries_plug by (cases d) (simp_all add: entries_plug)
      ultimately have "repaired ?W tp T T'" using T' by (auto simp: repaired_def at_def)
      then show ?thesis using T'(1) w by auto
    next
      case False
      from case_b [OF at [unfolded w] up False ny] obtain T' where
        T': "delete_cases d (ptr (sentinel T) t) a T = Some (T', p)"
          "at T' tp (mkn d p kp cp t (mkn d a ka True x y)) fs" "keeps ?W T T'" unfolding w by blast
      have "lacking (mkn d p kp cp t (mkn d a ka True x y)) fs"
        unfolding lacking_def using facts False ny cok_False by auto
      then show ?thesis using T' w by auto
    qed
  qed
qed

lemma repaired_trans:
  "keeps w T T1 \<Longrightarrow> repaired w' tp T1 T2 \<Longrightarrow> entries w' = entries w \<Longrightarrow> repaired w tp T T2"
  using keeps_trans [of w T T1 w' T2] by (fastforce simp: repaired_def fresh_def adr_def)

lemma round_black_sibling:
  assumes at: "at T tp t (F d p kp cp w # fs)" and up: "up T t p"
    and inv: "lacking t (F d p kp cp w # fs)" "\<not> red t" "\<not> red w"
  shows "\<exists>T' m. delete_round d (ptr (sentinel T) t) T = Some (T', m) \<and>
    (m = rb_root T' \<and> repaired (plug t (F d p kp cp w # fs)) tp T T' \<or>
     climbed (plug t (F d p kp cp w # fs)) (Suc (length fs)) tp T T' m)"
proof -
  from cases_ok [OF assms] obtain T' m where
    1: "delete_cases d (ptr (sentinel T) t) (ptr (sentinel T) w) T = Some (T', m)"
    and 2: "m = rb_root T' \<and> repaired (plug t (F d p kp cp w # fs)) tp T T' \<or>
     m = p \<and> (\<exists>a ka x y. at T' tp (mkn d p kp cp t (mkn d a ka True x y)) fs \<and>
        lacking (mkn d p kp cp t (mkn d a ka True x y)) fs \<and> w = mkn d a ka False x y) \<and>
      keeps (plug t (F d p kp cp w # fs)) T T'" by blast
  have "delete_round d (ptr (sentinel T) t) T = Some (T', m)"
    using up at_frame(2) [OF at] at_color(2) [OF at] inv(3) 1 by (simp add: delete_round_def up_def)
  moreover have "climbed (plug t (F d p kp cp w # fs)) (Suc (length fs)) tp T T' p"
    if h: "at T' tp (mkn d p kp cp t (mkn d a ka True x y)) fs" "lacking (mkn d p kp cp t (mkn d a ka True x y)) fs"
      "w = mkn d a ka False x y" "keeps (plug t (F d p kp cp w # fs)) T T'" for a ka x y
  proof -
    have "entries (plug (mkn d p kp cp t (mkn d a ka True x y)) fs) = entries (plug t (F d p kp cp w # fs))"
      unfolding h(3) by (cases d) (simp_all add: entries_plug)
    then show ?thesis unfolding climbed_def using h(1,2,4)
      by (intro conjI exI [of _ "mkn d p kp cp t (mkn d a ka True x y)"] exI [of _ fs]) auto
  qed
  ultimately show ?thesis using 2 by metis
qed

text \<open>A red sibling: after the rotation the parent is red and the sibling is black.\<close>

lemma red_sibling:
  assumes at: "at T tp t (F d p kp cp (mkn d a ka True x y) # fs)" and up: "up T t p"
  shows "\<exists>T'. delete_round d (ptr (sentinel T) t) T = delete_cases d (ptr (sentinel T) t) (ptr (sentinel T) x) T' \<and>
    at T' tp t (F d p kp True x # F d a ka False y # fs) \<and> up T' t p \<and> sentinel T' = sentinel T \<and>
    keeps (plug t (F d p kp cp (mkn d a ka True x y) # fs)) T T'"
proof -
  let ?s = "sentinel T" and ?w = "plug t (F d p kp cp (mkn d a ka True x y) # fs)"
  have fs: "fresh ?s ?w" by (rule at_whole_fresh [OF at])
  have "at T tp (mkn d a ka True x y) (F (opp d) p kp cp t # fs)" using at at_sibling by metis
  from recolor [OF this, of False] obtain T1 where 1: "wr (rb_color_update (\<lambda>_. False)) a T = Some T1"
    "at T1 tp (mkn d a ka False x y) (F (opp d) p kp cp t # fs)" "keeps ?w T T1"
    by (auto simp: keeps_def fresh_plug)
  have t1: "at T1 tp t (F d p kp cp (mkn d a ka False x y) # fs)" using 1(2) at_sibling [of T1 tp _ "opp d"] by simp
  have u1: "up T1 t p" by (rule up_keeps [OF up 1(3) fs t1])
  have "at T1 tp (mkn d p kp cp t (mkn d a ka False x y)) fs" using t1 by (simp add: at_fill)
  from recolor [OF this, of True] obtain T2 where 2: "wr (rb_color_update (\<lambda>_. True)) p T1 = Some T2"
    "at T2 tp (mkn d p kp True t (mkn d a ka False x y)) fs" "keeps ?w T1 T2"
    by (auto simp: keeps_def fresh_plug)
  have k2: "keeps ?w T T2" using 1(3) 2(3) by (simp add: keeps_def)
  have t2: "at T2 tp t (F d p kp True (mkn d a ka False x y) # fs)" using 2(2) by (simp add: at_fill)
  have u2: "up T2 t p" by (rule up_keeps [OF up k2 fs t2])
  from rotate_at [OF 2(2)] obtain T3 where 3: "rotate d p T2 = Some T3"
    "at T3 tp (mkn d a ka False (mkn d p kp True t x) y) fs" "keeps ?w T2 T3"
    by (auto simp: keeps_def fresh_plug)
  have k3: "keeps ?w T T3" and s3: "sentinel T1 = ?s" "sentinel T2 = ?s" "sentinel T3 = ?s"
    using k2 1(3) 3(3) by (simp_all add: keeps_def)
  have t3: "at T3 tp t (F d p kp True x # F d a ka False y # fs)" using 3(2) by (simp add: at_fill)
  have u3: "up T3 t p" by (rule up_keeps [OF up k3 fs t3])
  have "delete_round d (ptr ?s t) T = delete_cases d (ptr ?s t) (ptr ?s x) T3"
    using up u1 u2 u3 at_frame(2) [OF at] at_color(2) [OF at] 1(1) 2(1) 3(1) at_frame(2) [OF t3] s3
    by (simp add: delete_round_def up_def rbt_black_def rbt_red_def)
  then show ?thesis using t3 u3 k3 s3 by blast
qed

lemma round_red_sibling:
  assumes at: "at T tp t (F d p kp cp (mkn d a ka True x y) # fs)" and up: "up T t p"
    and inv: "lacking t (F d p kp cp (mkn d a ka True x y) # fs)" "\<not> red t"
  shows "\<exists>T' m. delete_round d (ptr (sentinel T) t) T = Some (T', m) \<and>
    (m = rb_root T' \<and> repaired (plug t (F d p kp cp (mkn d a ka True x y) # fs)) tp T T' \<or>
     climbed (plug t (F d p kp cp (mkn d a ka True x y) # fs)) (Suc (length fs)) tp T T' m)"
proof -
  let ?w = "plug t (F d p kp cp (mkn d a ka True x y) # fs)" and ?fs = "F d a ka False y # fs"
  from red_sibling [OF at up] obtain T1 where
    1: "delete_round d (ptr (sentinel T) t) T = delete_cases d (ptr (sentinel T) t) (ptr (sentinel T) x) T1"
      "at T1 tp t (F d p kp True x # ?fs)" "up T1 t p" "sentinel T1 = sentinel T" "keeps ?w T T1" by blast
  have inv1: "lacking t (F d p kp True x # ?fs)" "\<not> red x"
    using inv(1) by (auto simp: lacking_def bh_mkn intro: cok_False)
  have ent: "entries (plug t (F d p kp True x # ?fs)) = entries ?w" by (cases d) (simp_all add: entries_plug)
  from cases_ok [OF 1(2,3) inv1(1) inv(2) inv1(2)] obtain T2 m where
    2: "delete_cases d (ptr (sentinel T1) t) (ptr (sentinel T1) x) T1 = Some (T2, m)"
    and 3: "m = rb_root T2 \<and> repaired (plug t (F d p kp True x # ?fs)) tp T1 T2 \<or>
     m = p \<and> (\<exists>b kb v w. at T2 tp (mkn d p kp True t (mkn d b kb True v w)) ?fs \<and>
        lacking (mkn d p kp True t (mkn d b kb True v w)) ?fs \<and> x = mkn d b kb False v w) \<and>
      keeps (plug t (F d p kp True x # ?fs)) T1 T2" by blast
  have "climbed ?w (Suc (length fs)) tp T T2 p"
    if h: "at T2 tp (mkn d p kp True t (mkn d b kb True v w)) ?fs"
      "lacking (mkn d p kp True t (mkn d b kb True v w)) ?fs" "x = mkn d b kb False v w"
      "keeps (plug t (F d p kp True x # ?fs)) T1 T2" for b kb v w
  proof -
    have "entries (plug (mkn d p kp True t (mkn d b kb True v w)) ?fs) = entries ?w"
      unfolding h(3) by (cases d) (simp_all add: entries_plug)
    moreover have "keeps ?w T T2" by (rule keeps_trans [OF 1(5) h(4)]) (simp add: fresh_plug)
    ultimately show ?thesis unfolding climbed_def using h(1,2)
      by (intro conjI exI [of _ "mkn d p kp True t (mkn d b kb True v w)"] exI [of _ ?fs]) auto
  qed
  moreover have "repaired ?w tp T T2" if "repaired (plug t (F d p kp True x # ?fs)) tp T1 T2"
    by (rule repaired_trans [OF 1(5) that ent])
  ultimately show ?thesis using 1(1,4) 2 3 by metis
qed

section \<open>The loop\<close>

lemma delete_loop_root: "delete_loop T (rb_root T) = Some (T, rb_root T)"
  by (simp add: delete_loop.simps)

lemma at_side_lacking:
  assumes "at T tp t (F d p kp cp w # fs)" "lacking t (F d p kp cp w # fs)"
  shows "side_of (ptr (sentinel T) t) p T = Some d"
proof -
  have "w \<noteq> Leaf" using assms(2) by (auto simp: lacking_def)
  moreover have "at T tp w (F (opp d) p kp cp t # fs)" using assms(1) at_sibling by metis
  ultimately have "ptr (sentinel T) w \<noteq> ptr (sentinel T) t" using at_kid_eq by blast
  then show ?thesis using at_frame(1,2) [OF assms(1)] by (cases d) (auto simp: side_of_def)
qed

lemma at_root_iff:
  assumes "at T tp t fs" "lacking t fs"
  shows "ptr (sentinel T) t = rb_root T \<longleftrightarrow> fs = []"
proof (cases fs)
  case (Cons f gs)
  have "ptr (sentinel T) t \<noteq> rb_root T"
  proof (cases t)
    case Leaf
    have "cfresh (sentinel T) fs" using at_fresh [OF assms(1)] by simp
    moreover have "rb_root T = top_ptr (ptr (sentinel T) t) fs" using assms(1) by (simp add: at_iff)
    ultimately show ?thesis using Leaf top_ptr_in [of fs] Cons by (metis list.discI ptr.simps(1))
  qed (use at_not_root assms(1) Cons in blast)
  with Cons show ?thesis by simp
qed (use assms(1) in \<open>simp add: at_iff\<close>)

lemma blacken_at:
  assumes "at T tp t fs" "t \<noteq> Leaf"
  shows "\<exists>T'. rbt_black (ptr (sentinel T) t) T = Some T' \<and> at T' tp (blacken t) fs \<and> keeps (plug t fs) T T'"
proof -
  obtain l a k c r where "t = mkn Lft a k c l r" using assms(2) by (cases t) auto
  with recolor [of T tp Lft a k c l r fs False] assms(1) show ?thesis by (auto simp: rbt_black_def)
qed

lemma fix_at_end:
  assumes "at T tp t fs" "t \<noteq> Leaf" "lacking t fs" "fs = [] \<or> red t"
  shows "\<exists>T'. rbtree_fix_after_delete T (ptr (sentinel T) t) = Some T' \<and> repaired (plug t fs) tp T T'"
proof -
  from blacken_at [OF assms(1,2)] obtain T' where T': "rbt_black (ptr (sentinel T) t) T = Some T'"
    "at T' tp (blacken t) fs" "keeps (plug t fs) T T'" by blast
  have "fs = [] \<or> bh (blacken t) = Suc (bh t)" using assms(4) by (cases t) auto
  then have "red_black (plug (blacken t) fs)"
    unfolding red_black_plug using assms(3) by (auto simp: lacking_def)
  moreover have "entries (plug (blacken t) fs) = entries (plug t fs)" by (simp add: entries_plug)
  moreover have "delete_loop T (ptr (sentinel T) t) = Some (T, ptr (sentinel T) t)"
    using at_root_iff [OF assms(1,3)] at_red [OF assms(1)] assms(4) by (subst delete_loop.simps) auto
  ultimately show ?thesis using T' by (auto simp: rbtree_fix_after_delete_def repaired_def at_def)
qed

lemma fix_round:
  assumes "at T tp t fs" "lacking t fs" "fs = [] \<longrightarrow> t \<noteq> Leaf" "\<forall>d p k c sib gs. fs = F d p k c sib # gs \<longrightarrow> up T t p"
  shows "red t \<or> fs = [] \<or> (\<exists>T1 m. delete_loop T (ptr (sentinel T) t) = delete_loop T1 m \<and>
    (m = rb_root T1 \<and> repaired (plug t fs) tp T T1 \<or> climbed (plug t fs) (length fs) tp T T1 m))"
proof (cases "red t \<or> fs = []")
  case False
  then obtain d p k c w gs where fs: "fs = F d p k c w # gs" by (metis frame.exhaust list.exhaust)
  have up: "up T t p" using assms(4) fs by blast
  note at = assms(1) [unfolded fs] and inv = assms(2) [unfolded fs]
  have "w \<noteq> Leaf" using inv by (auto simp: lacking_def)
  then have "\<not> red w \<or> (\<exists>a ka x y. w = mkn d a ka True x y)" using red_as_mkn by blast
  then obtain T1 m where 1: "delete_round d (ptr (sentinel T) t) T = Some (T1, m)"
    "m = rb_root T1 \<and> repaired (plug t fs) tp T T1 \<or> climbed (plug t fs) (length fs) tp T T1 m"
    using round_black_sibling [OF at up inv] round_red_sibling [OF _ up] at inv False fs by fastforce
  have "ptr (sentinel T) t \<noteq> rb_root T" using at_root_iff [OF assms(1,2)] fs by simp
  then have "delete_loop T (ptr (sentinel T) t) = delete_loop T1 m"
    using at_color(1) [OF at] False up at_side_lacking [OF at inv] 1(1)
    by (subst delete_loop.simps) (simp add: up_def)
  with 1(2) show ?thesis by blast
qed auto

lemma repaired_root_black:
  assumes "repaired w tp T0 T" "w \<noteq> Leaf"
  shows "\<exists>T'. rbt_black (rb_root T) T = Some T' \<and> repaired w tp T0 T'"
proof -
  obtain t where t: "rep T tp t" "entries t = entries w" "red_black t" "keeps w T0 T"
    using assms(1) by (auto simp: repaired_def)
  have "t \<noteq> Leaf" using t(2) assms(2) by (cases w) auto
  from blacken_root [OF t(1) this] obtain T' where
    T': "rbt_black (rb_root T) T = Some T'" "rep T' tp (blacken t)" "keeps t T T'" by blast
  have "keeps w T0 T'" by (rule keeps_trans [OF t(4) T'(3)]) (simp add: fresh_def adr_def t(2))
  moreover have "red_black (blacken t)" using t(3) by (simp add: red_black_def invc_blacken)
  ultimately show ?thesis using T'(1,2) t(2) unfolding repaired_def by (metis blacken_props(1))
qed

lemma plug_Leaf: "plug t fs = Leaf \<longleftrightarrow> t = Leaf \<and> fs = []"
proof (induction fs arbitrary: t)
  case (Cons f fs)
  obtain d a k c sib where "f = F d a k c sib" by (cases f)
  then show ?case by (simp add: Cons.IH)
qed simp

lemma fix_after_delete_ok:
  assumes "at T tp t fs" "lacking t fs" "fs = [] \<longrightarrow> t \<noteq> Leaf" "\<forall>d p k c sib gs. fs = F d p k c sib # gs \<longrightarrow> up T t p"
  shows "\<exists>T'. rbtree_fix_after_delete T (ptr (sentinel T) t) = Some T' \<and> repaired (plug t fs) tp T T'"
  using assms
proof (induction "length fs" arbitrary: T t fs rule: less_induct)
  case less
  from fix_round [OF less.prems] consider "red t" | "fs = []"
    | T1 m where "fs \<noteq> []" "delete_loop T (ptr (sentinel T) t) = delete_loop T1 m"
      "m = rb_root T1 \<and> repaired (plug t fs) tp T T1 \<or> climbed (plug t fs) (length fs) tp T T1 m" by blast
  then show ?case
  proof cases
    case 1
    then have "t \<noteq> Leaf" by auto
    with 1 show ?thesis using fix_at_end [OF less.prems(1) _ less.prems(2)] by simp
  next
    case 2
    with less.prems(3) show ?thesis using fix_at_end [OF less.prems(1) _ less.prems(2)] by simp
  next
    case 3
    have run: "rbtree_fix_after_delete T (ptr (sentinel T) t) = rbtree_fix_after_delete T1 m"
      by (simp add: rbtree_fix_after_delete_def 3(2))
    from 3(3) show ?thesis
    proof
      assume "m = rb_root T1 \<and> repaired (plug t fs) tp T T1"
      then show ?thesis unfolding run using repaired_root_black [of "plug t fs" tp T T1] 3(1)
        by (simp add: rbtree_fix_after_delete_def delete_loop_root plug_Leaf)
    next
      assume "climbed (plug t fs) (length fs) tp T T1 m"
      then obtain t' fs' where c: "at T1 tp t' fs'" "m = ptr (sentinel T1) t'" "t' \<noteq> Leaf" "lacking t' fs'"
        "entries (plug t' fs') = entries (plug t fs)" "red t' \<or> length fs' < length fs" "keeps (plug t fs) T T1"
        by (auto simp: climbed_def)
      have "\<forall>d p k c sib gs. fs' = F d p k c sib # gs \<longrightarrow> up T1 t' p"
        using at_father [OF c(1,3)] by (simp add: up_def)
      then have "\<exists>T'. rbtree_fix_after_delete T1 m = Some T' \<and> repaired (plug t' fs') tp T1 T'"
        using fix_at_end [OF c(1,3,4)] less.hyps [OF _ c(1,4)] c(2,3,6) by blast
      then show ?thesis using run repaired_trans [OF c(7)] c(5) by metis
    qed
  qed
qed

end
