(* ===== verification/Rb_Remove.thy ===== *)
theory Rb_Remove
  imports Rb_Delete
begin

text \<open>
  \<open>rbtree_delete\<close> as a whole: a node with at most one child is unlinked; a node with two children
  gives its place to its successor, which is unlinked first.
\<close>

section \<open>Unlinking a node with one child\<close>

lemma unlink:
  assumes at: "at T tp (mkn e x k c y Leaf) (F d p kp cp sib # gs)"
  shows "\<exists>T1 T2. replace_child p x (ptr (sentinel T) y) T = Some T1 \<and> father T1 x = Some p \<and>
    wr (rb_parent_update (\<lambda>_. p')) (ptr (sentinel T) y) T1 = Some T2 \<and>
    sentinel T1 = sentinel T \<and> sentinel T2 = sentinel T \<and> insert_ptr T2 = insert_ptr T \<and> rb_root T2 = rb_root T \<and>
    shape (rb_mem T2) (sentinel T) p' y \<and> ctx (rb_mem T2) (sentinel T) tp (ptr (sentinel T) y) (F d p kp cp sib # gs) \<and>
    rb_mem T2 x = rb_mem T x \<and> (\<exists>n. rb_mem T2 (sentinel T) = Some n \<and> \<not> rb_color n) \<and> up T2 y p' \<and>
    (\<forall>g. fld (kid g) T2 (sentinel T) = fld (kid g) T (sentinel T)) \<and>
    (\<forall>b. fresh b (plug (mkn e x k c y Leaf) (F d p kp cp sib # gs)) \<and> b \<noteq> sentinel T \<longrightarrow> rb_mem T2 b = rb_mem T b)"
proof -
  let ?s = "sentinel T"
  have p: "rb_mem T p = Some (cell d kp (owner tp gs) x (ptr ?s sib) cp)" and
    x: "rb_mem T x = Some (cell e k p (ptr ?s y) ?s c)"
    using at by (simp_all add: at_iff)
  have ne: "x \<noteq> p" "p \<noteq> x" "x \<noteq> ?s" "p \<noteq> ?s" "fresh x y" "fresh p y" "fresh x sib" "cfresh x gs" "cfresh p gs"
    "fresh p sib" "ptr ?s sib \<noteq> x" "x \<noteq> ptr ?s sib" "disj y sib" "cdisj y gs"
    using at ptr_neq by (auto simp: at_iff)
  obtain n where n: "rb_mem T ?s = Some n" "\<not> rb_color n" using at by (auto simp: at_iff)
  have rest: "shape (rb_mem T) ?s x y" "shape (rb_mem T) ?s p sib" "ctx (rb_mem T) ?s tp p gs" "apart y"
    "fresh ?s y" "fresh ?s sib" "cfresh ?s gs"
    using at by (auto simp: at_iff)
  show ?thesis
  proof (cases y)
    case Leaf
    then show ?thesis using p x ne n rest
      by (cases d) (auto simp: replace_child_def fld_def father_def wr_def up_def fresh_plug)
  next
    case (Node yl ya yk yc yr)
    then show ?thesis using p x ne n rest
      by (cases d) (auto simp: replace_child_def fld_def father_def wr_def up_def fresh_plug)
  qed
qed

section \<open>Taking the place of a node\<close>

lemma take_place_ok:
  assumes n: "rb_mem T n = Some (cell Lft k (owner tp fs) (ptr (sentinel T) l) (ptr (sentinel T) r) c)"
    and sub: "shape (rb_mem T) (sentinel T) n l" "shape (rb_mem T) (sentinel T) q r"
    "ctx (rb_mem T) (sentinel T) tp n fs" "rb_root T = top_ptr n fs"
    and black: "\<exists>b. rb_mem T (sentinel T) = Some b \<and> \<not> rb_color b"
    and dist: "apart (mkn Lft n k c l r)" "cdist fs" "cdisj (mkn Lft n k c l r) fs"
    "fresh (sentinel T) (mkn Lft n k c l r)" "cfresh (sentinel T) fs"
    and sn: "rb_mem T sn = Some nd" "rb_key nd = sk" "sn \<noteq> sentinel T" "fresh sn (mkn Lft n k c l r)" "cfresh sn fs"
  shows "\<exists>T'. take_place n sn T = Some T' \<and> at T' tp (mkn Lft sn sk c l r) fs \<and> sentinel T' = sentinel T \<and>
    insert_ptr T' = insert_ptr T \<and>
    (\<forall>b. fresh b (mkn Lft n k c l r) \<and> cfresh b fs \<and> b \<noteq> sn \<or> b = n \<longrightarrow> rb_mem T' b = rb_mem T b)"
proof -
  have new: "nd\<lparr>rb_left := ptr (sentinel T) l, rb_right := ptr (sentinel T) r, rb_parent := owner tp fs, rb_color := c\<rparr> =
      cell Lft sk (owner tp fs) (ptr (sentinel T) l) (ptr (sentinel T) r) c" using sn(2) by simp
  have kids: "ptr (sentinel T) l = sentinel T \<longleftrightarrow> l = Leaf" "ptr (sentinel T) r = sentinel T \<longleftrightarrow> r = Leaf"
    using dist(4) by (simp_all add: ptr_eq_sentinel)
  show ?thesis
  proof (cases fs)
    case Nil
    then show ?thesis using n sub black dist sn new kids
      by (cases l; cases r)
        (auto simp: take_place_def rbt_copy_color_def rbt_is_red_def fld_def father_def wr_def at_iff)
  next
    case (Cons f gs)
    obtain d p kp cp sib where f: "f = F d p kp cp sib" by (cases f)
    have root: "n \<noteq> rb_root T"
    proof -
      have "cfresh n fs" using dist(3) by simp
      then show ?thesis using sub(4) Cons top_ptr_in [of fs n] by auto
    qed
    have p: "rb_mem T p = Some (cell d kp (owner tp gs) n (ptr (sentinel T) sib) cp)"
      "shape (rb_mem T) (sentinel T) p sib" "ctx (rb_mem T) (sentinel T) tp p gs"
      using sub(3) Cons f by simp_all
    have ne: "p \<noteq> n" "n \<noteq> p" "p \<noteq> sn" "sn \<noteq> p" "n \<noteq> sn" "sn \<noteq> n" "n \<noteq> sentinel T" "p \<noteq> sentinel T"
      "fresh n sib" "fresh p sib" "cfresh p gs" "cfresh n gs" "fresh sn sib" "cfresh sn gs"
      "fresh p l" "fresh p r" "fresh n l" "fresh n r" "fresh sn l" "fresh sn r" "fresh (sentinel T) sib" "cfresh (sentinel T) gs"
      using dist sn Cons f by auto
    have sib: "ptr (sentinel T) sib \<noteq> n" "n \<noteq> ptr (sentinel T) sib" using ptr_neq ne by metis+
    have dist': "apart l" "apart r" "disj l r" "apart sib" "cdisj sib gs" "cdist gs" "disj l sib" "disj r sib" "cdisj l gs" "cdisj r gs"
      "fresh (sentinel T) l" "fresh (sentinel T) r"
      using dist Cons f by auto
    note run = take_place_def rbt_copy_color_def rbt_is_red_def replace_child_def fld_def father_def wr_def
    have root': "rb_root T = top_ptr p gs" using sub(4) Cons f by simp
    show ?thesis
    proof (cases d)
      case Lft
      show ?thesis
        using n sub(1,2) black p ne sib dist' root root' sn(1,3) new kids Lft
        by (cases l; cases r) (auto simp: run at_iff Cons f)
    next
      case Rgt
      show ?thesis
        using n sub(1,2) black p ne sib dist' root root' sn(1,3) new kids Rgt
        by (cases l; cases r) (auto simp: run at_iff Cons f)
    qed
  qed
qed

section \<open>Places and entries\<close>

lemma hole_swap: "hole (ls @ F d a k c sib # fs) m = hole (ls @ F d b k' c sib # fs) m"
proof (induction ls arbitrary: m)
  case (Cons f ls)
  obtain e x kx cx s where "f = F e x kx cx s" by (cases f)
  then show ?case by (simp add: Cons.IH)
qed simp

lemma cok_swap: "cok (ls @ F d a k c sib # fs) r = cok (ls @ F d b k' c sib # fs) r"
proof (induction ls arbitrary: r)
  case (Cons f ls)
  obtain e x kx cx s where "f = F e x kx cx s" by (cases f)
  then show ?case by (simp add: Cons.IH)
qed simp

lemma before_append: "before (xs @ ys) = before ys @ before xs" "after (xs @ ys) = after xs @ after ys"
  by (induction xs rule: before.induct) auto

lemma entries_distinct: "apart t \<longleftrightarrow> distinct (map snd (entries t))"
  by (simp add: apart_def adr_def)

lemma unlink_entry:
  assumes "distinct (map snd (xs @ (k, n) # ys))"
  shows "filter (\<lambda>e. snd e \<noteq> n) (xs @ (k, n) # ys) = xs @ ys"
proof -
  have "\<forall>e \<in> set xs \<union> set ys. snd e \<noteq> n" using assms by force
  then have "filter (\<lambda>e. snd e \<noteq> n) xs = xs" "filter (\<lambda>e. snd e \<noteq> n) ys = ys" by (auto simp: filter_id_conv)
  then show ?thesis by simp
qed

lemma locate: "n \<in> snd ` set (entries t) \<Longrightarrow> \<exists>fs l k c r. t = plug (Node l n k c r) fs"
proof (induction t)
  case (Node l a k c r)
  consider "n \<in> snd ` set (entries l)" | "n = a" | "n \<in> snd ` set (entries r)" using Node.prems by auto
  then show ?case
  proof cases
    case 1
    then obtain fs l' k' c' r' where "l = plug (Node l' n k' c' r') fs" using Node.IH(1) by blast
    then have "Node l a k c r = plug (Node l' n k' c' r') (fs @ [F Lft a k c r])" by (simp add: plug_append)
    then show ?thesis by blast
  next
    case 2
    then have "Node l a k c r = plug (Node l n k c r) []" by simp
    then show ?thesis by blast
  next
    case 3
    then obtain fs l' k' c' r' where "r = plug (Node l' n k' c' r') fs" using Node.IH(2) by blast
    then have "Node l a k c r = plug (Node l' n k' c' r') (fs @ [F Rgt a k c l])" by (simp add: plug_append)
    then show ?thesis by blast
  qed
qed simp

lemma rep_cong:
  assumes "sentinel T' = sentinel T" "rb_root T' = rb_root T"
    "\<And>b. \<not> fresh b t \<or> b = sentinel T \<Longrightarrow> rb_mem T' b = rb_mem T b"
  shows "rep T' tp t = rep T tp t"
proof -
  have "shape (rb_mem T') (sentinel T) tp t = shape (rb_mem T) (sentinel T) tp t"
    using assms(3) by (intro shape_cong) blast
  then show ?thesis using assms by (simp add: rep_def)
qed

text \<open>A node that has been taken out of the tree points to the sentinel and has key 0.\<close>

definition cleared :: "rbtree \<Rightarrow> nat \<Rightarrow> bool" where
  "cleared T n \<longleftrightarrow> (\<exists>c. rb_mem T n = Some \<lparr>rb_key = 0, rb_parent = sentinel T, rb_left = sentinel T,
     rb_right = sentinel T, rb_color = c\<rparr>)"

lemma clear_node_ok:
  assumes "rb_mem T n \<noteq> None"
  shows "\<exists>T'. clear_node n T = Some T' \<and> sentinel T' = sentinel T \<and> rb_root T' = rb_root T \<and>
    insert_ptr T' = insert_ptr T \<and> (\<forall>b. b \<noteq> n \<longrightarrow> rb_mem T' b = rb_mem T b) \<and> cleared T' n"
proof -
  obtain nd where nd: "rb_mem T n = Some nd" using assms by auto
  have "\<exists>c. nd\<lparr>rb_left := sentinel T, rb_right := sentinel T, rb_parent := sentinel T, rb_key := 0\<rparr> =
      \<lparr>rb_key = 0, rb_parent = sentinel T, rb_left = sentinel T, rb_right = sentinel T, rb_color = c\<rparr>"
    by (rule exI [of _ "rb_color nd"]) simp
  then show ?thesis using nd by (auto simp: clear_node_def wr_def cleared_def)
qed

section \<open>The end of a deletion\<close>

lemma finish:
  assumes at: "at T tp y (F d p kp cp sib # gs)" and up: "up T y p"
    and n: "rb_mem T n \<noteq> None" "fresh n (plug y (F d p kp cp sib # gs))" "n \<noteq> sentinel T"
    and inv: "if c then red_black (plug y (F d p kp cp sib # gs)) else lacking y (F d p kp cp sib # gs)"
  shows "\<exists>T1 T'. clear_node n T = Some T1 \<and> sentinel T1 = sentinel T \<and>
    (if c then Some T1 else rbtree_fix_after_delete T1 (ptr (sentinel T) y)) = Some T' \<and>
    (\<exists>t. rep T' tp t \<and> red_black t \<and> entries t = entries (plug y (F d p kp cp sib # gs))) \<and>
    sentinel T' = sentinel T \<and> insert_ptr T' = insert_ptr T \<and> cleared T' n \<and>
    (\<forall>b. fresh b (plug y (F d p kp cp sib # gs)) \<and> b \<noteq> n \<longrightarrow> rb_mem T' b = rb_mem T b)"
proof -
  let ?w = "plug y (F d p kp cp sib # gs)"
  obtain T1 where 1: "clear_node n T = Some T1" "sentinel T1 = sentinel T" "rb_root T1 = rb_root T"
    "insert_ptr T1 = insert_ptr T" "\<forall>b. b \<noteq> n \<longrightarrow> rb_mem T1 b = rb_mem T b" "cleared T1 n"
    using clear_node_ok [OF n(1)] by blast
  have rep1: "rep T1 tp ?w"
    using rep_cong [of T1 T ?w tp] 1(2,3,5) n(2,3) at unfolding at_def by metis
  then have at1: "at T1 tp y (F d p kp cp sib # gs)" by (simp add: at_def)
  have "fresh n y" using n(2) fresh_plug by blast
  then have "ptr (sentinel T) y \<noteq> n" using n(3) by (cases y) auto
  then have up1: "up T1 y p" using up 1(2,5) by (simp add: up_def father_def fld_def)
  show ?thesis
  proof (cases c)
    case True
    then show ?thesis using 1 rep1 inv by auto
  next
    case False
    obtain T' where T': "rbtree_fix_after_delete T1 (ptr (sentinel T1) y) = Some T'" "repaired ?w tp T1 T'"
      using fix_after_delete_ok [OF at1] inv False up1 by auto
    then have k: "keeps ?w T1 T'" by (simp add: repaired_def)
    show ?thesis
      by (rule exI [of _ T1], rule exI [of _ T'])
        (use T' 1 n(2) False k in \<open>auto simp: repaired_def keeps_def cleared_def simp del: plug.simps\<close>)
  qed
qed

section \<open>A node with at most one child\<close>

text \<open>\<open>removed xs w n T T'\<close>: the memory \<open>T'\<close> holds the nodes \<open>xs\<close>, and outside the old tree \<open>w\<close>
  only the sentinel has changed.\<close>

definition removed :: "(32 word \<times> nat) list \<Rightarrow> rbt \<Rightarrow> nat \<Rightarrow> rbtree \<Rightarrow> rbtree \<Rightarrow> bool" where
  "removed xs w n T T' \<longleftrightarrow> (\<exists>tp t. rep T' tp t \<and> red_black t \<and> entries t = xs) \<and>
     sentinel T' = sentinel T \<and> insert_ptr T' = insert_ptr T \<and> cleared T' n \<and>
     (\<forall>g. fld (kid g) T' (sentinel T) = fld (kid g) T (sentinel T)) \<and>
     (\<forall>b. fresh b w \<and> b \<noteq> sentinel T \<longrightarrow> rb_mem T' b = rb_mem T b)"

lemma delete_root:
  assumes at: "at T tp (mkn e n k c y Leaf) []" and subst: "find_subst T n = Some (ptr (sentinel T) y, n)"
    and rb: "red_black (mkn e n k c y Leaf)"
  shows "\<exists>T'. rbtree_delete n T = Some T' \<and> removed (entries y) (mkn e n k c y Leaf) n T T'"
proof -
  let ?s = "sentinel T" and ?T = "T\<lparr>rb_root := ptr (sentinel T) y\<rparr>"
  have root: "rb_root T = n" "n \<noteq> ?s" "fresh n y" using at by (auto simp: at_iff)
  have repy: "rep ?T n y" using at by (auto simp: at_iff rep_def)
  obtain T1 where 1: "rbt_black (ptr ?s y) ?T = Some T1" "rep T1 n (blacken y)" "sentinel T1 = ?s"
    "insert_ptr T1 = insert_ptr T" "\<forall>b. fresh b y \<and> b \<noteq> ?s \<longrightarrow> rb_mem T1 b = rb_mem T b"
    "\<forall>g. fld (kid g) T1 ?s = fld (kid g) T ?s"
  proof (cases "y = Leaf")
    case True
    with repy that show thesis by (auto simp: rbt_black_def wr_def rep_def fld_def)
  next
    case False
    from blacken_root [OF repy False] that at show thesis by (auto simp: keeps_def fld_def at_iff)
  qed
  have n1: "rb_mem T1 n \<noteq> None" using 1(5) root(2,3) at by (auto simp: at_iff)
  obtain T2 where 2: "clear_node n T1 = Some T2" "sentinel T2 = ?s" "rb_root T2 = rb_root T1"
    "insert_ptr T2 = insert_ptr T" "\<forall>b. b \<noteq> n \<longrightarrow> rb_mem T2 b = rb_mem T1 b" "cleared T2 n"
    using clear_node_ok [OF n1] 1(3,4) by auto
  have "rep T2 n (blacken y)"
    using rep_cong [of T2 T1 "blacken y" n] 2 1(2,3) root(2,3) by (metis blacken_props(5))
  moreover have "red_black (blacken y)" using rb by (auto simp: red_black_def invc_blacken)
  ultimately have "\<exists>tp t. rep T2 tp t \<and> red_black t \<and> entries t = entries y"
    by (intro exI [of _ n] exI [of _ "blacken y"]) simp
  moreover have "rbtree_delete n T = Some T2" using subst root(1) 1(1) 2(1) by (simp add: rbtree_delete_def)
  moreover have "\<forall>g. fld (kid g) T2 ?s = fld (kid g) T ?s" using 1(6) 2(5) root(2) by (auto simp: fld_def)
  ultimately show ?thesis using 2 1(5) unfolding removed_def by auto
qed

lemma delete_single:
  assumes at: "at T tp (mkn e n k c y Leaf) (F d p kp cp sib # gs)"
    and subst: "find_subst T n = Some (ptr (sentinel T) y, n)"
    and rb: "red_black (plug (mkn e n k c y Leaf) (F d p kp cp sib # gs))"
  shows "\<exists>T'. rbtree_delete n T = Some T' \<and>
    removed (entries (plug y (F d p kp cp sib # gs))) (plug (mkn e n k c y Leaf) (F d p kp cp sib # gs)) n T T'"
proof -
  let ?s = "sentinel T" and ?fs = "F d p kp cp sib # gs"
  let ?w = "plug (mkn e n k c y Leaf) ?fs"
  obtain T1 T2 where u: "replace_child p n (ptr ?s y) T = Some T1" "father T1 n = Some p"
    "wr (rb_parent_update (\<lambda>_. p)) (ptr ?s y) T1 = Some T2" "sentinel T1 = ?s" "sentinel T2 = ?s" "insert_ptr T2 = insert_ptr T"
    "rb_root T2 = rb_root T" "shape (rb_mem T2) ?s p y" "ctx (rb_mem T2) ?s tp (ptr ?s y) ?fs"
    "rb_mem T2 n = rb_mem T n" "\<exists>n. rb_mem T2 ?s = Some n \<and> \<not> rb_color n" "up T2 y p"
    "\<forall>g. fld (kid g) T2 ?s = fld (kid g) T ?s" "\<forall>b. fresh b ?w \<and> b \<noteq> ?s \<longrightarrow> rb_mem T2 b = rb_mem T b"
    using unlink [OF at, of p] by blast
  have at2: "at T2 tp y ?fs"
    using at u(5-9,11) by (auto simp: at_iff)
  have n: "rb_mem T2 n \<noteq> None" "n \<noteq> ?s" "fresh n (plug y ?fs)"
    using u(10) at by (auto simp: at_iff fresh_plug simp del: plug.simps)
  have inv: "if c then red_black (plug y ?fs) else lacking y ?fs"
    using rb unfolding red_black_plug lacking_def by (auto simp: bh_mkn invc_blacken intro: cok_False)
  from finish [OF at2 u(12) n(1,3) _ inv, unfolded u(5), OF n(2)] obtain T3 T' where
    f: "clear_node n T2 = Some T3" "sentinel T3 = ?s"
      "(if c then Some T3 else rbtree_fix_after_delete T3 (ptr ?s y)) = Some T'"
      "\<exists>t. rep T' tp t \<and> red_black t \<and> entries t = entries (plug y ?fs)"
      "sentinel T' = ?s" "insert_ptr T' = insert_ptr T2" "cleared T' n"
      "\<forall>b. fresh b (plug y ?fs) \<and> b \<noteq> n \<longrightarrow> rb_mem T' b = rb_mem T2 b" by blast
  have "rbtree_delete n T = Some T'"
    using subst at_not_root [OF at mkn_not_Leaf] at_reads(3,4) [OF at] u(1-3) f(1,3)
    by (simp add: rbtree_delete_def)
  moreover have sub: "fresh b (plug y ?fs)" "b \<noteq> n" if "fresh b ?w" for b using that by (auto simp: fresh_plug simp del: plug.simps)
  moreover have "\<forall>g. fld (kid g) T' ?s = fld (kid g) T ?s"
    using f(8) u(13) sub [OF at_whole_fresh [OF at]] by (auto simp: fld_def simp del: plug.simps)
  ultimately show ?thesis using f(4-8) u(6,14) unfolding removed_def by metis
qed


section \<open>A node with two children\<close>

text \<open>Taking the successor's node out of the tree leaves everything apart, and the node fresh.\<close>

lemma successor_out:
  assumes "apart (plug (mkn e sn sk sc y Leaf) gs)"
  shows "apart (plug y gs)" "fresh sn (plug y gs)"
proof -
  have "apart (plug (mkn e sn sk sc y Leaf) gs) \<longleftrightarrow> apart (plug y gs) \<and> fresh sn (plug y gs)"
    unfolding apart_plug capart_iff fresh_plug by auto
  with assms show "apart (plug y gs)" "fresh sn (plug y gs)" by auto
qed

lemma owner_append: "ls \<noteq> [] \<Longrightarrow> owner tp (ls @ gs) = owner tp ls"
  by (cases ls) (auto elim: owner.elims, metis frame.exhaust owner.simps(2))

lemma cfresh_append: "cfresh a (xs @ ys) \<longleftrightarrow> cfresh a xs \<and> cfresh a ys"
  by (auto simp: cfresh_def cadr_def before_append)

lemma unlink_successor:
  assumes at: "at T tp (mkn Rgt sn sk sc sr Leaf) (F d p kp cp sib # gs)"
    and frames: "F d p kp cp sib # gs = ls @ F Rgt n k c l # fs"
  shows "\<exists>T1 T2 T3. replace_child p sn (ptr (sentinel T) sr) T = Some T1 \<and> father T1 sn = Some p \<and>
    wr (rb_parent_update (\<lambda>_. if p = n then sn else p)) (ptr (sentinel T) sr) T1 = Some T2 \<and>
    take_place n sn T2 = Some T3 \<and> at T3 tp sr (ls @ F Rgt sn sk c l # fs) \<and>
    up T3 sr (owner tp (ls @ F Rgt sn sk c l # fs)) \<and>
    sentinel T1 = sentinel T \<and> sentinel T3 = sentinel T \<and> insert_ptr T3 = insert_ptr T \<and> rb_mem T3 n \<noteq> None \<and>
    (\<forall>g. fld (kid g) T3 (sentinel T) = fld (kid g) T (sentinel T)) \<and>
    (\<forall>b. fresh b (plug (mkn Rgt sn sk sc sr Leaf) (F d p kp cp sib # gs)) \<and> b \<noteq> sentinel T \<longrightarrow> rb_mem T3 b = rb_mem T b)"
proof -
  let ?s = "sentinel T" and ?p' = "if p = n then sn else p" and ?r = "plug sr ls"
  obtain T1 T2 where u: "replace_child p sn (ptr ?s sr) T = Some T1" "father T1 sn = Some p"
    "wr (rb_parent_update (\<lambda>_. ?p')) (ptr ?s sr) T1 = Some T2" "sentinel T1 = ?s" "sentinel T2 = ?s" "insert_ptr T2 = insert_ptr T"
    "rb_root T2 = rb_root T" "shape (rb_mem T2) ?s ?p' sr" "ctx (rb_mem T2) ?s tp (ptr ?s sr) (F d p kp cp sib # gs)"
    "rb_mem T2 sn = rb_mem T sn" "\<exists>n. rb_mem T2 ?s = Some n \<and> \<not> rb_color n" "up T2 sr ?p'"
    "\<forall>g. fld (kid g) T2 ?s = fld (kid g) T ?s" "\<forall>b. fresh b (plug (mkn Rgt sn sk sc sr Leaf) (F d p kp cp sib # gs)) \<and> b \<noteq> ?s \<longrightarrow> rb_mem T2 b = rb_mem T b"
    using unlink [OF at, of ?p'] by blast
  have w: "apart (plug (mkn Rgt sn sk sc sr Leaf) (ls @ F Rgt n k c l # fs))"
    "fresh ?s (plug (mkn Rgt sn sk sc sr Leaf) (ls @ F Rgt n k c l # fs))"
    using at unfolding frames at_def rep_def by auto
  note out = successor_out [OF w(1)]
  have split: "plug sr (ls @ F Rgt n k c l # fs) = plug (mkn Lft n k c l ?r) fs" by (simp add: plug_append)
  have dist: "apart (mkn Lft n k c l ?r)" "cdist fs" "cdisj (mkn Lft n k c l ?r) fs"
    using out(1) unfolding split apart_plug capart_iff by auto
  have sn: "fresh sn (mkn Lft n k c l ?r)" "cfresh sn fs" using out(2) unfolding split fresh_plug by auto
  have s: "fresh ?s (mkn Lft n k c l ?r)" "cfresh ?s fs" "sn \<noteq> ?s"
    using w(2) unfolding plug_append by (auto simp: fresh_plug)
  have "rb_root T = top_ptr n fs"
  proof -
    have "rb_root T = ptr ?s (plug (mkn Rgt sn sk sc sr Leaf) (ls @ F Rgt n k c l # fs))"
      using at unfolding frames at_def rep_def by auto
    also have "\<dots> = top_ptr n fs" by (simp add: plug_append ptr_plug)
    finally show ?thesis .
  qed
  then have root: "rb_root T2 = top_ptr n fs" using u(7) by simp
  obtain nd where nd: "rb_mem T2 sn = Some nd" "rb_key nd = sk" using u(10) at_node [OF at] by auto
  have first: "?p' = owner tp (ls @ F Rgt sn sk c l # fs)" "ls \<noteq> [] \<longrightarrow> ?p' = p"
  proof -
    have pn: "p \<noteq> n" if "ls \<noteq> []"
    proof -
      have "gs = tl ls @ F Rgt n k c l # fs" using frames that by (cases ls) auto
      moreover have "cfresh p gs" using at by (auto simp: at_iff)
      ultimately show ?thesis by (auto simp: cfresh_append)
    qed
    have own: "p = owner tp (ls @ F Rgt n k c l # fs)" unfolding frames [symmetric] by simp
    show "?p' = owner tp (ls @ F Rgt sn sk c l # fs)"
    proof (cases "ls = []")
      case False
      with own pn show ?thesis by (simp add: owner_append)
    qed (use own in simp)
    show "ls \<noteq> [] \<longrightarrow> ?p' = p" using pn by auto
  qed
  have parts: "rb_mem T2 n = Some (cell Lft k (owner tp fs) (ptr ?s l) (ptr ?s ?r) c) \<and>
    shape (rb_mem T2) ?s n l \<and> (\<exists>q. shape (rb_mem T2) ?s q ?r) \<and> ctx (rb_mem T2) ?s tp n fs"
  proof (cases ls)
    case Nil
    then show ?thesis using u(8,9) frames by auto
  next
    case (Cons f fs')
    have "shape (rb_mem T2) ?s tp (plug sr (F d p kp cp sib # gs))"
      unfolding shape_plug using u(8,9) first(2) Cons by simp
    then have "shape (rb_mem T2) ?s tp (plug (mkn Lft n k c l ?r) fs)" unfolding frames split .
    then show ?thesis unfolding shape_plug [of _ _ _ "mkn Lft n k c l ?r"] by auto
  qed
  then obtain q where q: "shape (rb_mem T2) ?s q ?r" by blast
  obtain T3 where T3: "take_place n sn T2 = Some T3" "at T3 tp (mkn Lft sn sk c l ?r) fs" "sentinel T3 = ?s"
    "insert_ptr T3 = insert_ptr T2"
    "\<forall>b. fresh b (mkn Lft n k c l ?r) \<and> cfresh b fs \<and> b \<noteq> sn \<or> b = n \<longrightarrow> rb_mem T3 b = rb_mem T2 b"
    using take_place_ok [of T2 n k tp fs l ?r c q sn nd sk] parts q root u(5,11) dist s nd sn by auto
  have at3: "at T3 tp sr (ls @ F Rgt sn sk c l # fs)" using T3(2) by (simp add: at_def plug_append)
  have up3: "up T3 sr (owner tp (ls @ F Rgt sn sk c l # fs))"
  proof (cases sr)
    case Leaf
    then have "father T3 ?s = father T2 ?s" using T3(5) s by (simp add: father_def fld_def)
    then show ?thesis using u(5,12) T3(3) Leaf first(1) by (simp add: up_def)
  next
    case Node
    then have "sr \<noteq> Leaf" by simp
    from at_father [OF at3 this] show ?thesis by (simp add: up_def)
  qed
  have "rb_mem T3 b = rb_mem T b"
    if "fresh b (plug (mkn Rgt sn sk sc sr Leaf) (F d p kp cp sib # gs))" "b \<noteq> ?s" for b
  proof -
    have "fresh b (mkn Lft n k c l ?r)" "cfresh b fs" "b \<noteq> sn"
      using that(1) unfolding frames plug_append by (auto simp: fresh_plug)
    then show ?thesis using T3(5) u(14) that by auto
  qed
  moreover have "rb_mem T3 n \<noteq> None" using T3(5) parts by auto
  moreover have "\<forall>g. fld (kid g) T3 ?s = fld (kid g) T ?s" using T3(5) u(13) s by (auto simp: fld_def)
  ultimately show ?thesis using u(1-6) T3(1,3,4) at3 up3 by auto
qed

lemma delete_double:
  assumes at: "at T tp (mkn Rgt sn sk sc sr Leaf) (F d p kp cp sib # gs)"
    and frames: "F d p kp cp sib # gs = ls @ F Rgt n k c l # fs" and ls: "before ls = []"
    and subst: "find_subst T n = Some (ptr (sentinel T) sr, sn)"
    and rb: "red_black (plug (mkn Rgt sn sk sc sr Leaf) (F d p kp cp sib # gs))"
  shows "\<exists>T'. rbtree_delete n T = Some T' \<and>
    removed (entries (plug sr (ls @ F Rgt sn sk c l # fs))) (plug (mkn Rgt sn sk sc sr Leaf) (F d p kp cp sib # gs)) n T T'"
proof -
  let ?s = "sentinel T" and ?w = "plug (mkn Rgt sn sk sc sr Leaf) (F d p kp cp sib # gs)"
    and ?fs = "ls @ F Rgt sn sk c l # fs"
  obtain T1 T2 T3 where u: "replace_child p sn (ptr ?s sr) T = Some T1" "father T1 sn = Some p"
    "wr (rb_parent_update (\<lambda>_. if p = n then sn else p)) (ptr ?s sr) T1 = Some T2"
    "take_place n sn T2 = Some T3" "at T3 tp sr ?fs" "up T3 sr (owner tp ?fs)"
    "sentinel T1 = ?s" "sentinel T3 = ?s" "insert_ptr T3 = insert_ptr T" "rb_mem T3 n \<noteq> None"
    "\<forall>g. fld (kid g) T3 ?s = fld (kid g) T ?s" "\<forall>b. fresh b ?w \<and> b \<noteq> ?s \<longrightarrow> rb_mem T3 b = rb_mem T b"
    using unlink_successor [OF at frames] by blast
  obtain e q kq cq sq hs where f: "?fs = F e q kq cq sq # hs"
    by (cases ?fs) (auto, metis frame.exhaust)
  have w: "apart ?w" "fresh ?s ?w" using at unfolding at_def rep_def by auto
  have dist: "distinct (map snd (before fs @ entries l @ (k, n) # (sk, sn) # entries sr @ after ls @ after fs))"
    using w(1) unfolding entries_distinct frames entries_plug before_append ls by simp
  have n: "fresh n (plug sr ?fs)" "n \<noteq> ?s" "n \<noteq> sn"
    using dist w(2) unfolding fresh_def adr_def frames entries_plug before_append ls by auto
  have sub: "fresh b (plug sr ?fs) \<and> b \<noteq> n" if "fresh b ?w" for b
    using that unfolding frames fresh_plug cfresh_append by auto
  have inv: "if sc then red_black (plug sr ?fs) else lacking sr ?fs"
    using rb unfolding frames red_black_plug lacking_def hole_swap [of ls Rgt n k c l fs _ sn sk]
      cok_swap [of ls Rgt n k c l fs _ sn sk]
    by (auto simp: bh_mkn invc_blacken intro: cok_False)
  from finish [OF u(5) [unfolded f] _ u(10)] obtain T4 T' where
    F: "clear_node n T3 = Some T4" "(if sc then Some T4 else rbtree_fix_after_delete T4 (ptr ?s sr)) = Some T'"
      "\<exists>t. rep T' tp t \<and> red_black t \<and> entries t = entries (plug sr ?fs)"
      "sentinel T' = ?s" "insert_ptr T' = insert_ptr T3" "cleared T' n"
      "\<forall>b. fresh b (plug sr ?fs) \<and> b \<noteq> n \<longrightarrow> rb_mem T' b = rb_mem T3 b"
    using u(6,8) n(1,2) inv unfolding f owner.simps by metis
  have "rbtree_delete n T = Some T'"
    using subst at_not_root [OF at mkn_not_Leaf] at_reads(3,4) [OF at] u(1-4) F(1,2) n(3)
    by (auto simp: rbtree_delete_def)
  moreover have "\<forall>g. fld (kid g) T' ?s = fld (kid g) T ?s"
    using F(7) u(11) sub [OF w(2)] by (auto simp: fld_def)
  ultimately show ?thesis using F(3-7) u(9,12) sub unfolding removed_def by metis
qed

section \<open>Deleting any node\<close>

lemma find_subst_cases:
  assumes "at T tp (mkn Lft n k c l r) fs"
  obtains e y where "mkn Lft n k c l r = mkn e n k c y Leaf" "find_subst T n = Some (ptr (sentinel T) y, n)"
  | ls sn sk sc sr where "r = plug (mkn Rgt sn sk sc sr Leaf) ls" "before ls = []"
    "find_subst T n = Some (ptr (sentinel T) sr, sn)"
proof -
  have reads: "fld (kid Lft) T n = Some (ptr (sentinel T) l)" "fld (kid Rgt) T n = Some (ptr (sentinel T) r)"
    using at_reads(1,2) [OF assms] by simp_all
  have leaf: "ptr (sentinel T) l = sentinel T \<longleftrightarrow> l = Leaf" "ptr (sentinel T) r = sentinel T \<longleftrightarrow> r = Leaf"
    using at_fresh [OF assms] by (auto simp: ptr_eq_sentinel)
  consider "l = Leaf" | "l \<noteq> Leaf" "r = Leaf" | "l \<noteq> Leaf" "r \<noteq> Leaf" by blast
  then show thesis
  proof cases
    case 1
    then show thesis using that(1) [of Rgt r] reads leaf by (simp add: find_subst_def)
  next
    case 2
    then show thesis using that(1) [of Lft l] reads leaf by (simp add: find_subst_def)
  next
    case 3
    have at: "at T tp r (F Rgt n k c l # fs)" using assms by (simp add: at_fill)
    from rbtree_min_ok [OF this 3(2)] obtain ls sn sk sc sr where
      m: "rbtree_min T (ptr (sentinel T) r) = Some sn" "r = plug (mkn Rgt sn sk sc sr Leaf) ls" "before ls = []"
      by auto
    have "at T tp (mkn Rgt sn sk sc sr Leaf) (ls @ F Rgt n k c l # fs)"
      using at m(2) by (simp add: at_def plug_append)
    note at_reads(1,2) [OF this]
    then have "find_subst T n = Some (ptr (sentinel T) sr, sn)"
      using reads leaf 3 m(1) by (simp add: find_subst_def)
    with m(2,3) show thesis by (rule that(2))
  qed
qed

lemma rbtree_delete_ok:
  assumes tree: "rb_tree T xs" and n: "n \<in> snd ` set xs"
  shows "\<exists>T'. rbtree_delete n T = Some T' \<and> rb_tree T' (filter (\<lambda>e. snd e \<noteq> n) xs) \<and>
    sentinel T' = sentinel T \<and> insert_ptr T' = insert_ptr T \<and> cleared T' n \<and>
    (\<forall>g. fld (kid g) T' (sentinel T) = fld (kid g) T (sentinel T)) \<and>
    (\<forall>b. b \<noteq> sentinel T \<and> b \<notin> snd ` set xs \<longrightarrow> rb_mem T' b = rb_mem T b)"
proof -
  obtain tp t where t: "rep T tp t" "red_black t" "entries t = xs" "sorted (map fst xs)"
    using tree by (auto simp: rb_tree_def)
  obtain fs l k c r where w: "t = plug (mkn Lft n k c l r) fs" using locate n t(3) by fastforce
  have at: "at T tp (mkn Lft n k c l r) fs" using t(1) w by (simp add: at_def)
  have dist: "distinct (map snd xs)" using t(1,3) by (simp add: rep_def entries_distinct)
  have "\<exists>T'. rbtree_delete n T = Some T' \<and> removed (filter (\<lambda>e. snd e \<noteq> n) xs) t n T T'"
    using at
  proof (cases rule: find_subst_cases)
    case (1 e y)
    have "xs = before fs @ entries (mkn e n k c y Leaf) @ after fs" using t(3) w 1(1) entries_plug by metis
    then obtain as bs where "xs = as @ (k, n) # bs" "before fs @ entries y @ after fs = as @ bs"
    proof (cases e)
      case Lft
      with \<open>xs = _\<close> show thesis by (intro that [of "before fs @ entries y" "after fs"]) auto
    next
      case Rgt
      with \<open>xs = _\<close> show thesis by (intro that [of "before fs" "entries y @ after fs"]) auto
    qed
    with dist have "filter (\<lambda>e. snd e \<noteq> n) xs = before fs @ entries y @ after fs"
      using unlink_entry by metis
    then have ent: "filter (\<lambda>e. snd e \<noteq> n) xs = entries (plug y fs)" by (simp add: entries_plug)
    note at' = at [unfolded 1(1)]
    show ?thesis
    proof (cases fs)
      case Nil
      then show ?thesis using delete_root [of T tp e n k c y] at' 1 ent w t(2) by simp
    next
      case (Cons f gs)
      obtain d p kp cp sib where f: "f = F d p kp cp sib" by (cases f)
      note fs = Cons [unfolded f]
      show ?thesis
        using delete_single [OF at' [unfolded fs] 1(2)] t(2) unfolding ent unfolding w 1(1) fs by blast
    qed
  next
    case (2 ls sn sk sc sr)
    have t': "t = plug (mkn Rgt sn sk sc sr Leaf) (ls @ F Rgt n k c l # fs)" unfolding w 2(1) by (simp add: plug_append)
    obtain d p kp cp sib gs where f: "ls @ F Rgt n k c l # fs = F d p kp cp sib # gs"
      by (cases ls) (auto, metis frame.exhaust)
    have "xs = (before fs @ entries l) @ (k, n) # ((sk, sn) # entries sr @ after ls @ after fs)"
      using t(3) unfolding t' entries_plug before_append 2(2) by simp
    with dist have "filter (\<lambda>e. snd e \<noteq> n) xs = (before fs @ entries l) @ ((sk, sn) # entries sr @ after ls @ after fs)"
      using unlink_entry by metis
    then have "filter (\<lambda>e. snd e \<noteq> n) xs = entries (plug sr (ls @ F Rgt sn sk c l # fs))"
      unfolding entries_plug before_append 2(2) by simp
    then show ?thesis
      using delete_double [OF _ f [symmetric] 2(2,3)] t(1,2) unfolding t' f at_def by metis
  qed
  then obtain T' where T': "rbtree_delete n T = Some T'" "removed (filter (\<lambda>e. snd e \<noteq> n) xs) t n T T'" by blast
  moreover have "sorted (map fst (filter (\<lambda>e. snd e \<noteq> n) xs))" using t(4) by (rule sorted_filter)
  moreover have "fresh b t \<longleftrightarrow> b \<notin> snd ` set xs" for b using t(3) by (simp add: fresh_def adr_def)
  ultimately show ?thesis by (auto simp: removed_def rb_tree_def)
qed

end
