(* ===== verification/Timer_Event.thy ===== *)
theory Timer_Event
  imports Rb_Remove Common_Util
begin

text \<open>
  The timers of \<^verbatim>\<open>event/timer_event.c\<close>. Every event has a node of the red-black tree inside it,
  so that events and nodes have the same addresses. The queue of timers is described by the list
  of its keys and events in the order of the tree.
\<close>

lemma filter_absent: "n \<notin> snd ` set xs \<Longrightarrow> filter (\<lambda>e. snd e \<noteq> n) xs = xs"
  by (induction xs) auto

section \<open>A queue in the order of its keys\<close>

locale sorted_queue =
  fixes holds :: "'q \<Rightarrow> (32 word \<times> nat) list \<Rightarrow> bool"
    and outside :: "'q \<Rightarrow> nat \<Rightarrow> 32 word \<Rightarrow> bool"
    and put_node :: "nat \<Rightarrow> 'q \<Rightarrow> 'q option"
    and take_node :: "nat \<Rightarrow> 'q \<Rightarrow> 'q option"
    and least :: "'q \<Rightarrow> nat option"
  assumes in_order: "holds q xs \<Longrightarrow> sorted (map fst xs) \<and> distinct (map snd xs)"
    and put_holds: "holds q xs \<Longrightarrow> outside q n k \<Longrightarrow> n \<notin> snd ` set xs \<Longrightarrow>
      \<exists>q'. put_node n q = Some q' \<and> holds q' (put_entry k n xs)"
    and take_holds: "holds q xs \<Longrightarrow> n \<in> snd ` set xs \<Longrightarrow>
      \<exists>q'. take_node n q = Some q' \<and> holds q' (filter (\<lambda>e. snd e \<noteq> n) xs)"
    and least_holds: "holds q (x # xs) \<Longrightarrow> least q = Some (snd x)"
begin

lemma pop:
  assumes "holds q (x # xs)"
  shows "\<exists>q'. Option.bind (least q) (\<lambda>n. take_node n q) = Some q' \<and> holds q' xs"
proof -
  have "snd x \<notin> snd ` set xs" using in_order [OF assms] by simp
  then have "filter (\<lambda>e. snd e \<noteq> snd x) (x # xs) = xs" by (simp add: filter_absent)
  then show ?thesis using take_holds [OF assms, of "snd x"] least_holds [OF assms] by simp
qed

lemma first_is_due: "holds q (x # xs) \<Longrightarrow> \<forall>y \<in> set xs. fst x \<le> fst y"
  using in_order by fastforce

lemma put_then_take:
  assumes "holds q xs" "outside q n k" "n \<notin> snd ` set xs"
  shows "\<exists>q' q''. put_node n q = Some q' \<and> take_node n q' = Some q'' \<and> holds q'' xs"
proof -
  obtain q' where q': "put_node n q = Some q'" "holds q' (put_entry k n xs)" using put_holds [OF assms] by blast
  moreover have "n \<in> snd ` set (put_entry k n xs)" by (force simp: put_entry_set)
  moreover have "filter (\<lambda>e. snd e \<noteq> n) (put_entry k n xs) = xs"
  proof -
    have "n \<notin> snd ` set (takeWhile (\<lambda>e. fst e \<le> k) xs)" "n \<notin> snd ` set (dropWhile (\<lambda>e. fst e \<le> k) xs)"
      using assms(3) by (auto dest: set_takeWhileD set_dropWhileD)
    then show ?thesis by (simp add: put_entry_def filter_absent)
  qed
  ultimately show ?thesis using take_holds by metis
qed

end

lemma rb_tree_distinct: "rb_tree T xs \<Longrightarrow> distinct (map snd xs)"
  by (auto simp: rb_tree_def rep_def entries_distinct)

lemma rb_tree_least:
  assumes "rb_tree T (x # xs)"
  shows "rbtree_min T (rb_root T) = Some (snd x)"
proof -
  obtain tp t where t: "rep T tp t" "entries t = x # xs" using assms by (auto simp: rb_tree_def)
  have ne: "t \<noteq> Leaf" using t(2) by auto
  have "at T tp t []" "rb_root T = ptr (sentinel T) t" using t(1) by (simp_all add: at_def rep_def)
  then obtain ls a k c r where m: "rbtree_min T (rb_root T) = Some a" "t = plug (Node Leaf a k c r) ls" "before ls = []"
    using rbtree_min_ok [OF _ ne] by metis
  then have "entries t = (k, a) # entries r @ after ls" by (simp add: entries_plug)
  then have "x = (k, a)" using t(2) by simp
  with m(1) show ?thesis by simp
qed

interpretation timer_tree: sorted_queue rb_tree "\<lambda>T n k. \<exists>nd. rb_mem T n = Some nd \<and> rb_key nd = k \<and> n \<noteq> sentinel T"
    rbtree_insert rbtree_delete "\<lambda>T. rbtree_min T (rb_root T)"
proof (unfold_locales, goal_cases)
  case (1 q xs)
  then show ?case using rb_tree_distinct by (auto simp: rb_tree_def)
next
  case (2 q xs n k)
  then show ?case using rbtree_insert_ok by blast
next
  case (3 q xs n)
  then show ?case using rbtree_delete_ok by blast
next
  case (4 q x xs)
  then show ?case by (rule rb_tree_least)
qed

section \<open>What the tree says about its nodes\<close>

lemma rb_tree_empty: "rb_tree T xs \<Longrightarrow> rb_root T = sentinel T \<longleftrightarrow> xs = []"
proof -
  assume "rb_tree T xs"
  then obtain tp t where t: "rep T tp t" "entries t = xs" by (auto simp: rb_tree_def)
  have "rb_root T = sentinel T \<longleftrightarrow> t = Leaf" using t(1) by (auto simp: rep_def ptr_eq_sentinel)
  also have "\<dots> \<longleftrightarrow> xs = []" using t(2) by (cases t) auto
  finally show ?thesis .
qed

lemma rb_tree_node:
  assumes "rb_tree T xs" "(k, n) \<in> set xs"
  shows "fld rb_key T n = Some k" "n \<noteq> sentinel T"
proof -
  obtain tp t where t: "rep T tp t" "entries t = xs" using assms(1) by (auto simp: rb_tree_def)
  have "\<exists>fs l c r. t = plug (Node l n k c r) fs" if "(k, n) \<in> set (entries t)" for t
    using that
  proof (induction t)
    case (Node l a k' c r)
    consider "(k, n) \<in> set (entries l)" | "n = a" "k = k'" | "(k, n) \<in> set (entries r)" using Node.prems by auto
    then show ?case
    proof cases
      case 1
      from Node.IH(1) [OF 1] show ?thesis by (metis fill.simps mkn.simps(1) plug.simps plug_append)
    next
      case 2
      then show ?thesis by (metis plug.simps(1))
    next
      case 3
      from Node.IH(2) [OF 3] show ?thesis by (metis fill.simps mkn.simps(2) plug.simps plug_append)
    qed
  qed simp
  then obtain fs l c r where "t = plug (Node l n k c r) fs" using assms(2) t(2) by blast
  then have at: "at T tp (mkn Lft n k c l r) fs" using t(1) by (simp add: at_def)
  show "fld rb_key T n = Some k" by (rule at_reads(5) [OF at])
  show "n \<noteq> sentinel T" using at_fresh [OF at] by auto
qed

text \<open>The sentinel has been initialised with pointers to itself, which are never changed.\<close>

definition looped :: "rbtree \<Rightarrow> bool" where
  "looped T \<longleftrightarrow> (\<forall>g. fld (kid g) T (sentinel T) = Some (sentinel T))"

text \<open>Deleting a node a second time does nothing: the code walks round the sentinel.\<close>

lemma fix_at_sentinel:
  assumes "rb_mem T (sentinel T) = Some ns" "\<not> rb_color ns" "rb_left ns = sentinel T" "rb_right ns = sentinel T"
    "rb_parent ns = sentinel T"
  shows "\<exists>T' ns'. rbtree_fix_after_delete T (sentinel T) = Some T' \<and> sentinel T' = sentinel T \<and> rb_root T' = rb_root T \<and>
    insert_ptr T' = insert_ptr T \<and> rb_mem T' = (rb_mem T)(sentinel T \<mapsto> ns') \<and> \<not> rb_color ns' \<and>
    rb_left ns' = sentinel T \<and> rb_right ns' = sentinel T"
proof (cases "sentinel T = rb_root T")
  case True
  then have "delete_loop T (sentinel T) = Some (T, sentinel T)" by (simp add: delete_loop.simps)
  then show ?thesis using assms
    by (simp add: rbtree_fix_after_delete_def rbt_black_def wr_def)
      (rule exI [of _ "ns\<lparr>rb_color := False\<rparr>"], simp)
next
  case False
  let ?T = "T\<lparr>rb_mem := (rb_mem T)(sentinel T \<mapsto> ns\<lparr>rb_color := True\<rparr>)\<rparr>"
  have "delete_round Lft (sentinel T) T = Some (?T, sentinel T)"
    using assms by (simp add: delete_round_def delete_cases_def black_kids_def father_def fld_def rbt_is_red_def rbt_red_def wr_def)
  moreover have "delete_loop ?T (sentinel T) = Some (?T, sentinel T)"
    using False by (subst delete_loop.simps) (simp add: rbt_is_red_def fld_def)
  moreover have "side_of (sentinel T) (sentinel T) T = Some Lft" using assms by (simp add: side_of_def fld_def)
  ultimately have "delete_loop T (sentinel T) = Some (?T, sentinel T)"
    using False assms by (subst delete_loop.simps) (simp add: rbt_is_red_def fld_def father_def)
  then show ?thesis using assms
    by (simp add: rbtree_fix_after_delete_def rbt_black_def wr_def)
      (rule exI [of _ "ns\<lparr>rb_color := False\<rparr>"], simp)
qed

lemma delete_again:
  assumes tree: "rb_tree T xs" and n: "cleared T n" "n \<noteq> sentinel T" "n \<notin> snd ` set xs" and loop: "looped T"
  shows "\<exists>T'. rbtree_delete n T = Some T' \<and> rb_tree T' xs \<and> sentinel T' = sentinel T \<and> insert_ptr T' = insert_ptr T \<and>
    cleared T' n \<and> looped T' \<and> (\<forall>b. b \<noteq> sentinel T \<longrightarrow> rb_mem T' b = rb_mem T b)"
proof -
  let ?s = "sentinel T"
  obtain c where c: "rb_mem T n = Some \<lparr>rb_key = 0, rb_parent = ?s, rb_left = ?s, rb_right = ?s, rb_color = c\<rparr>"
    using n(1) by (auto simp: cleared_def)
  obtain tp t where t: "rep T tp t" "red_black t" "entries t = xs" "sorted (map fst xs)"
    using tree by (auto simp: rb_tree_def)
  obtain ns where ns: "rb_mem T ?s = Some ns" "\<not> rb_color ns" "rb_left ns = ?s" "rb_right ns = ?s"
    using t(1) loop by (auto simp: rep_def looped_def fld_def)
      (metis kid.simps option.inject)
  have root: "n \<noteq> rb_root T" using t(1,3) n(2,3) by (cases t) (auto simp: rep_def)
  let ?T = "T\<lparr>rb_mem := (rb_mem T)(?s \<mapsto> ns\<lparr>rb_right := ?s, rb_parent := ?s\<rparr>, n \<mapsto>
    \<lparr>rb_key = 0, rb_parent = ?s, rb_left = ?s, rb_right = ?s, rb_color = c\<rparr>)\<rparr>"
  have del: "rbtree_delete n T = (if c then Some ?T else rbtree_fix_after_delete ?T ?s)"
    using c ns n(2) root
    by (simp add: rbtree_delete_def find_subst_def rbt_is_red_def replace_child_def clear_node_def father_def fld_def wr_def
        fun_upd_twist)
  have "\<exists>T' ns'. rbtree_delete n T = Some T' \<and> sentinel T' = ?s \<and> rb_root T' = rb_root T \<and> insert_ptr T' = insert_ptr T \<and>
    rb_mem T' = (rb_mem T)(n \<mapsto> \<lparr>rb_key = 0, rb_parent = ?s, rb_left = ?s, rb_right = ?s, rb_color = c\<rparr>, ?s \<mapsto> ns') \<and>
    \<not> rb_color ns' \<and> rb_left ns' = ?s \<and> rb_right ns' = ?s"
  proof (cases c)
    case True
    then show ?thesis using del ns n(2)
      by (simp add: fun_upd_twist)
        (rule exI [of _ "ns\<lparr>rb_right := ?s, rb_parent := ?s\<rparr>"], simp add: fun_upd_twist)
  next
    case False
    then show ?thesis using del fix_at_sentinel [of ?T] ns n(2) by (simp add: fun_upd_twist)
  qed
  then obtain T' ns' where T': "rbtree_delete n T = Some T'" "sentinel T' = ?s" "rb_root T' = rb_root T" "insert_ptr T' = insert_ptr T"
    "rb_mem T' = (rb_mem T)(n \<mapsto> \<lparr>rb_key = 0, rb_parent = ?s, rb_left = ?s, rb_right = ?s, rb_color = c\<rparr>, ?s \<mapsto> ns')"
    "\<not> rb_color ns'" "rb_left ns' = ?s" "rb_right ns' = ?s" by blast
  have "rep T' tp t"
  proof -
    have "fresh n t" using n(3) t(3) by (simp add: fresh_def adr_def)
    then show ?thesis using t(1) T'(2,3,5,6) by (simp add: rep_def)
  qed
  moreover have "looped T'" unfolding looped_def
  proof
    fix g
    show "fld (kid g) T' (sentinel T') = Some (sentinel T')" using T'(2,5,7,8) by (cases g) (simp_all add: fld_def)
  qed
  moreover have "rb_mem T' b = rb_mem T b" if "b \<noteq> ?s" for b using that T'(5) c by simp
  moreover have "cleared T' n" using T'(2,5) n(2) by (simp add: cleared_def)
  ultimately show ?thesis using t(2-4) T'(1,2,4) unfolding rb_tree_def by blast
qed

section \<open>Events\<close>

record 'h event =
  ev_handler :: "'h option"
  ev_active :: bool
  timer_set :: bool
  timedout :: bool

record 'h timers =
  tm_tree :: rbtree
  tm_events :: "nat \<rightharpoonup> 'h event"
  current_msec :: "32 word"

definition TIMER_LAZY_DELAY :: int where
  "TIMER_LAZY_DELAY = 300"

definition TIMER_INFINITE :: "32 word" where
  "TIMER_INFINITE = - 1"

definition set_event :: "('h event \<Rightarrow> 'h event) \<Rightarrow> nat \<Rightarrow> 'h timers \<Rightarrow> 'h timers option" where
  "set_event f ev S = map_option (\<lambda>e. S\<lparr>tm_events := (tm_events S)(ev \<mapsto> f e)\<rparr>) (tm_events S ev)"

text \<open>\<open>s\<close> is the address of \<^verbatim>\<open>event_timer_sentinel\<close>.\<close>

definition event_timer_init :: "nat \<Rightarrow> 'h timers \<Rightarrow> rc \<times> 'h timers" where
  "event_timer_init s S =
     (OK, S\<lparr>tm_tree := (tm_tree S)\<lparr>rb_root := s, sentinel := s, insert_ptr := Insert_timer_value\<rparr>\<rparr>)"

definition event_del_timer :: "nat \<Rightarrow> 'h timers \<Rightarrow> 'h timers option" where
  "event_del_timer ev S = do {
     T \<leftarrow> rbtree_delete ev (tm_tree S);
     set_event (\<lambda>e. e\<lparr>timer_set := False, timedout := False\<rparr>) ev (S\<lparr>tm_tree := T\<rparr>)
   }"

text \<open>The end of \<open>event_add_timer\<close>.\<close>

definition arm_timer :: "nat \<Rightarrow> 32 word \<Rightarrow> 'h timers \<Rightarrow> 'h timers option" where
  "arm_timer ev key S = do {
     T \<leftarrow> wr (rb_key_update (\<lambda>_. key)) ev (tm_tree S);
     T \<leftarrow> rbtree_insert ev T;
     set_event (\<lambda>e. e\<lparr>timer_set := True\<rparr>) ev (S\<lparr>tm_tree := T\<rparr>)
   }"

definition event_add_timer :: "nat \<Rightarrow> 32 word \<Rightarrow> 'h timers \<Rightarrow> 'h timers option" where
  "event_add_timer ev timer S = do {
     let key = current_msec S + timer;
     e \<leftarrow> tm_events S ev;
     if timer_set e then do {
       k \<leftarrow> fld rb_key (tm_tree S) ev;
       let diff = key - k;
       if sint (p_abs diff) < TIMER_LAZY_DELAY then Some S
       else do {
         S \<leftarrow> event_del_timer ev S;
         arm_timer ev key S
       }
     } else arm_timer ev key S
   }"

definition event_find_timer :: "'h timers \<Rightarrow> 32 word option" where
  "event_find_timer S =
     (if rb_root (tm_tree S) = sentinel (tm_tree S) then Some TIMER_INFINITE
      else do {
        node \<leftarrow> rbtree_min (tm_tree S) (rb_root (tm_tree S));
        k \<leftarrow> fld rb_key (tm_tree S) node;
        let timer = k - current_msec S;
        Some (if sint timer > 0 then timer else 0)
      })"

text \<open>\<^verbatim>\<open>timer_after(cur_msec, key)\<close>: the difference read as a signed number.\<close>

definition is_expired :: "32 word \<Rightarrow> 32 word \<Rightarrow> bool" where
  "is_expired key cur \<longleftrightarrow> sint (key - cur) < 0"

text \<open>
  \<open>call h ev\<close> is the call of the handler \<open>h\<close> of the event \<open>ev\<close>; it may change the timers and
  the rest of the program's state, \<open>w\<close>.
\<close>

partial_function (option) event_expire_timers ::
    "('h \<Rightarrow> nat \<Rightarrow> 'h timers \<times> 'w \<Rightarrow> ('h timers \<times> 'w) option) \<Rightarrow> 'h timers \<times> 'w \<Rightarrow> ('h timers \<times> 'w) option" where
  "event_expire_timers call st =
     (let S = fst st; T = tm_tree S in
      if rb_root T = sentinel T then Some st
      else Option.bind (rbtree_min T (rb_root T)) (\<lambda>node.
        Option.bind (fld rb_key T node) (\<lambda>k.
          if is_expired k (current_msec S)
          then Option.bind (rbtree_delete node T) (\<lambda>T'.
            Option.bind (set_event (\<lambda>e. e\<lparr>timedout := True\<rparr>) node (S\<lparr>tm_tree := T'\<rparr>)) (\<lambda>S'.
              Option.bind (tm_events S' node) (\<lambda>e.
                Option.bind (ev_handler e) (\<lambda>h.
                  Option.bind (call h node (S', snd st)) (\<lambda>st'. event_expire_timers call st')))))
          else Some st)))"

section \<open>The invariant\<close>

text \<open>
  The timers in the tree belong to known events whose flag is set. An event whose timer has
  expired keeps the flag although its node has left the tree; the node is then cleared.
\<close>

definition event_ok :: "rbtree \<Rightarrow> (32 word \<times> nat) list \<Rightarrow> nat \<Rightarrow> bool \<Rightarrow> bool" where
  "event_ok T xs ev flag \<longleftrightarrow> ev \<noteq> sentinel T \<and> rb_mem T ev \<noteq> None \<and> (ev \<in> snd ` set xs \<longrightarrow> flag) \<and>
     (flag \<and> ev \<notin> snd ` set xs \<longrightarrow> cleared T ev)"

definition tm_inv :: "'h timers \<Rightarrow> (32 word \<times> nat) list \<Rightarrow> bool" where
  "tm_inv S xs \<longleftrightarrow> rb_tree (tm_tree S) xs \<and> looped (tm_tree S) \<and> snd ` set xs \<subseteq> dom (tm_events S) \<and>
     (\<forall>ev e. tm_events S ev = Some e \<longrightarrow> event_ok (tm_tree S) xs ev (timer_set e))"

lemma event_ok_frame:
  assumes "event_ok T xs b e" "sentinel T' = sentinel T" "rb_mem T' b = rb_mem T b" "b \<in> snd ` set ys \<longleftrightarrow> b \<in> snd ` set xs"
  shows "event_ok T' ys b e"
  using assms by (auto simp: event_ok_def cleared_def)

lemma tree_nodes_stay:
  assumes "rb_tree T xs" "b \<in> snd ` set xs"
  shows "b \<noteq> sentinel T \<and> rb_mem T b \<noteq> None"
  using assms rb_tree_node [OF assms(1)] by (force simp: fld_def)

lemma insert_looped:
  assumes "rb_tree T xs" "looped T" "\<forall>b. b \<noteq> n \<and> b \<notin> snd ` set xs \<longrightarrow> rb_mem T' b = rb_mem T b"
    "sentinel T' = sentinel T" "n \<noteq> sentinel T"
  shows "looped T'"
proof -
  have "sentinel T \<notin> snd ` set xs" using tree_nodes_stay [OF assms(1)] by blast
  then show ?thesis using assms by (simp add: looped_def fld_def)
qed

lemma insert_keeps_others:
  assumes "rb_tree T xs" "rb_mem T n = Some nd" "n \<notin> snd ` set xs" "n \<noteq> sentinel T"
  shows "\<exists>T'. rbtree_insert n T = Some T' \<and> rb_tree T' (put_entry (rb_key nd) n xs) \<and> sentinel T' = sentinel T \<and>
    (looped T \<longrightarrow> looped T') \<and>
    (\<forall>b e. b \<noteq> n \<longrightarrow> event_ok T xs b e \<longrightarrow> event_ok T' (put_entry (rb_key nd) n xs) b e) \<and>
    event_ok T' (put_entry (rb_key nd) n xs) n True"
proof -
  let ?ys = "put_entry (rb_key nd) n xs"
  obtain T' where T': "rbtree_insert n T = Some T'" "rb_tree T' ?ys" "sentinel T' = sentinel T"
    "\<forall>b. b \<noteq> n \<and> b \<notin> snd ` set xs \<longrightarrow> rb_mem T' b = rb_mem T b"
    using rbtree_insert_ok [OF assms] by blast
  have mem: "b \<in> snd ` set ?ys \<longleftrightarrow> b = n \<or> b \<in> snd ` set xs" for b by (simp add: put_entry_set)
  have "event_ok T' ?ys b e" if "b \<noteq> n" "event_ok T xs b e" for b e
  proof (cases "b \<in> snd ` set xs")
    case True
    then show ?thesis using that tree_nodes_stay [OF T'(2), of b] mem by (auto simp: event_ok_def)
  next
    case False
    then show ?thesis using that(1) T'(4) mem by (intro event_ok_frame [OF that(2) T'(3)]) auto
  qed
  moreover have "event_ok T' ?ys n True"
    using tree_nodes_stay [OF T'(2), of n] mem by (auto simp: event_ok_def)
  ultimately show ?thesis using T'(1-3) insert_looped [OF assms(1) _ T'(4,3) assms(4)]
    by (intro exI [of _ T'] conjI impI allI) assumption+
qed

text \<open>Deleting a timer, whether it still is in the tree or has expired.\<close>

lemma delete_keeps_others:
  assumes "rb_tree T xs" "looped T" "event_ok T xs n True"
  shows "\<exists>T'. rbtree_delete n T = Some T' \<and> rb_tree T' (filter (\<lambda>e. snd e \<noteq> n) xs) \<and> sentinel T' = sentinel T \<and> looped T' \<and>
    cleared T' n \<and> (\<forall>b e. b \<noteq> n \<longrightarrow> event_ok T xs b e \<longrightarrow> event_ok T' (filter (\<lambda>e. snd e \<noteq> n) xs) b e)"
proof -
  let ?ys = "filter (\<lambda>e. snd e \<noteq> n) xs"
  have mem: "b \<in> snd ` set ?ys \<longleftrightarrow> b \<noteq> n \<and> b \<in> snd ` set xs" for b by force
  obtain T' where T': "rbtree_delete n T = Some T'" "rb_tree T' ?ys" "sentinel T' = sentinel T" "looped T'" "cleared T' n"
    "\<forall>b. b \<noteq> sentinel T \<and> b \<notin> snd ` set xs \<longrightarrow> rb_mem T' b = rb_mem T b"
  proof (cases "n \<in> snd ` set xs")
    case True
    from rbtree_delete_ok [OF assms(1) True] that assms(2) show thesis by (auto simp: looped_def)
  next
    case False
    have "cleared T n" "n \<noteq> sentinel T" using assms(3) False by (auto simp: event_ok_def)
    from delete_again [OF assms(1) this False assms(2)] that False show thesis by (auto simp: filter_absent)
  qed
  have "event_ok T' ?ys b e" if "b \<noteq> n" "event_ok T xs b e" for b e
  proof (cases "b \<in> snd ` set xs")
    case True
    then show ?thesis using that tree_nodes_stay [OF T'(2), of b] mem by (auto simp: event_ok_def)
  next
    case False
    moreover have "b \<noteq> sentinel T" using that(2) by (simp add: event_ok_def)
    ultimately show ?thesis using that(1) T'(6) mem by (intro event_ok_frame [OF that(2) T'(3)]) auto
  qed
  then show ?thesis using T'(1-5) by (intro exI [of _ T'] conjI impI allI) assumption+
qed

section \<open>The operations\<close>

lemma tm_invD: "tm_inv S xs \<Longrightarrow> tm_events S ev = Some e \<Longrightarrow> event_ok (tm_tree S) xs ev (timer_set e)"
  by (simp add: tm_inv_def)

lemma del_timer_ok:
  assumes inv: "tm_inv S xs" and e: "tm_events S ev = Some e" "timer_set e"
  shows "\<exists>S'. event_del_timer ev S = Some S' \<and> tm_inv S' (filter (\<lambda>e. snd e \<noteq> ev) xs) \<and>
    tm_events S' = (tm_events S)(ev \<mapsto> e\<lparr>timer_set := False, timedout := False\<rparr>) \<and> current_msec S' = current_msec S \<and>
    sentinel (tm_tree S') = sentinel (tm_tree S) \<and> rb_mem (tm_tree S') ev \<noteq> None"
proof -
  let ?ys = "filter (\<lambda>e. snd e \<noteq> ev) xs"
  have T: "rb_tree (tm_tree S) xs" "looped (tm_tree S)" using inv by (auto simp: tm_inv_def)
  obtain T' where T': "rbtree_delete ev (tm_tree S) = Some T'" "rb_tree T' ?ys" "sentinel T' = sentinel (tm_tree S)" "looped T'"
    "cleared T' ev" "\<forall>b e. b \<noteq> ev \<longrightarrow> event_ok (tm_tree S) xs b e \<longrightarrow> event_ok T' ?ys b e"
    using delete_keeps_others [OF T, of ev] tm_invD [OF inv e(1)] e(2) by auto
  have ok: "event_ok T' ?ys ev False"
    using T'(3,5) tm_invD [OF inv e(1)] by (auto simp: event_ok_def cleared_def)
  have "tm_inv (S\<lparr>tm_tree := T', tm_events := (tm_events S)(ev \<mapsto> e\<lparr>timer_set := False, timedout := False\<rparr>)\<rparr>) ?ys"
    using inv T'(2,4,6) ok by (auto simp: tm_inv_def)
  then show ?thesis using T'(1,3,5) e(1) by (simp add: event_del_timer_def set_event_def cleared_def) auto
qed

lemma arm_timer_ok:
  assumes inv: "tm_inv S xs" and e: "tm_events S ev = Some e" "ev \<notin> snd ` set xs"
  shows "\<exists>S'. arm_timer ev key S = Some S' \<and> tm_inv S' (put_entry key ev xs) \<and>
    tm_events S' = (tm_events S)(ev \<mapsto> e\<lparr>timer_set := True\<rparr>) \<and> current_msec S' = current_msec S \<and>
    sentinel (tm_tree S') = sentinel (tm_tree S)"
proof -
  let ?T = "tm_tree S"
  obtain nd where nd: "rb_mem ?T ev = Some nd" and ns: "ev \<noteq> sentinel ?T"
    using tm_invD [OF inv e(1)] by (auto simp: event_ok_def)
  let ?T1 = "?T\<lparr>rb_mem := (rb_mem ?T)(ev \<mapsto> nd\<lparr>rb_key := key\<rparr>)\<rparr>"
  have w: "wr (rb_key_update (\<lambda>_. key)) ev ?T = Some ?T1" using nd by (simp add: wr_def)
  obtain tp t where t: "rep ?T tp t" "red_black t" "entries t = xs" "sorted (map fst xs)"
    using inv by (auto simp: tm_inv_def rb_tree_def)
  have "fresh ev t" using e(2) t(3) by (simp add: fresh_def adr_def)
  then have "rep ?T1 tp t" using t(1) ns by (simp add: rep_def)
  then have tree1: "rb_tree ?T1 xs" using t(2-4) by (auto simp: rb_tree_def)
  have l1: "looped ?T1" using inv ns by (auto simp: tm_inv_def looped_def fld_def)
  obtain T' where T': "rbtree_insert ev ?T1 = Some T'" "rb_tree T' (put_entry key ev xs)" "sentinel T' = sentinel ?T" "looped T'"
    "\<forall>b e. b \<noteq> ev \<longrightarrow> event_ok ?T1 xs b e \<longrightarrow> event_ok T' (put_entry key ev xs) b e"
    "event_ok T' (put_entry key ev xs) ev True"
    using insert_keeps_others [OF tree1, of ev "nd\<lparr>rb_key := key\<rparr>"] e(2) ns l1 by auto
  have "event_ok ?T1 xs b (timer_set e)" if "tm_events S b = Some e" "b \<noteq> ev" for b e
    using event_ok_frame [OF tm_invD [OF inv that(1)], of ?T1 xs] that(2) by simp
  then have "tm_inv (S\<lparr>tm_tree := T', tm_events := (tm_events S)(ev \<mapsto> e\<lparr>timer_set := True\<rparr>)\<rparr>) (put_entry key ev xs)"
    using inv T'(2,4-6) e(1) by (auto simp: tm_inv_def put_entry_set)
  then show ?thesis using w T'(1,3) e(1) by (simp add: arm_timer_def set_event_def)
qed

section \<open>The queue the operations implement\<close>

text \<open>The key of an event's node: that of its entry, and 0 after the timer has expired.\<close>

definition key_of :: "(32 word \<times> nat) list \<Rightarrow> nat \<Rightarrow> 32 word" where
  "key_of xs ev = (case filter (\<lambda>e. snd e = ev) xs of [] \<Rightarrow> 0 | x # _ \<Rightarrow> fst x)"

definition near :: "32 word \<Rightarrow> 32 word \<Rightarrow> bool" where
  "near k k' \<longleftrightarrow> sint (p_abs (k - k')) < TIMER_LAZY_DELAY"

definition rearm :: "bool \<Rightarrow> 32 word \<Rightarrow> nat \<Rightarrow> (32 word \<times> nat) list \<Rightarrow> (32 word \<times> nat) list" where
  "rearm flag key ev xs =
     (if flag \<and> near key (key_of xs ev) then xs else put_entry key ev (filter (\<lambda>e. snd e \<noteq> ev) xs))"

lemma key_of_entry:
  assumes "distinct (map snd xs)" "(k, ev) \<in> set xs"
  shows "key_of xs ev = k"
  proof -
  have "filter (\<lambda>e. snd e = ev) xs = [(k, ev)]"
    using assms by (induction xs) (force simp: filter_empty_conv)+
  then show ?thesis by (simp add: key_of_def)
qed

lemma node_key:
  assumes inv: "tm_inv S xs" and e: "tm_events S ev = Some e" "timer_set e"
  shows "fld rb_key (tm_tree S) ev = Some (key_of xs ev)"
proof (cases "ev \<in> snd ` set xs")
  case True
  then obtain k where k: "(k, ev) \<in> set xs" by force
  have "rb_tree (tm_tree S) xs" using inv by (simp add: tm_inv_def)
  from rb_tree_node [OF this k] key_of_entry [OF rb_tree_distinct [OF this] k] show ?thesis by simp
next
  case False
  then have "cleared (tm_tree S) ev" using tm_invD [OF inv e(1)] e(2) by (simp add: event_ok_def)
  moreover have "filter (\<lambda>e. snd e = ev) xs = []" using False by (auto simp: filter_empty_conv)
  ultimately show ?thesis by (auto simp: cleared_def fld_def key_of_def)
qed

lemma add_timer_ok:
  assumes inv: "tm_inv S xs" and e: "tm_events S ev = Some e"
  shows "\<exists>S'. event_add_timer ev d S = Some S' \<and>
    tm_inv S' (rearm (timer_set e) (current_msec S + d) ev xs) \<and> current_msec S' = current_msec S \<and>
    sentinel (tm_tree S') = sentinel (tm_tree S) \<and> (\<forall>b. b \<noteq> ev \<longrightarrow> tm_events S' b = tm_events S b) \<and>
    (\<exists>e'. tm_events S' ev = Some e' \<and> timer_set e' \<and> ev_handler e' = ev_handler e \<and> ev_active e' = ev_active e)"
proof (cases "timer_set e")
  case False
  then have "ev \<notin> snd ` set xs" using tm_invD [OF inv e] by (auto simp: event_ok_def)
  from arm_timer_ok [OF inv e this] filter_absent [OF this] show ?thesis using e False
    by (simp add: event_add_timer_def rearm_def) fastforce
next
  case True
  note k = node_key [OF inv e True]
  show ?thesis
  proof (cases "near (current_msec S + d) (key_of xs ev)")
    case near: True
    then show ?thesis using e True k inv by (simp add: event_add_timer_def rearm_def near_def)
  next
    case far: False
    let ?ys = "filter (\<lambda>e. snd e \<noteq> ev) xs"
    from del_timer_ok [OF inv e True] obtain S1 where S1: "event_del_timer ev S = Some S1" "tm_inv S1 ?ys"
      "tm_events S1 = (tm_events S)(ev \<mapsto> e\<lparr>timer_set := False, timedout := False\<rparr>)" "current_msec S1 = current_msec S"
      "sentinel (tm_tree S1) = sentinel (tm_tree S)" by blast
    have "tm_events S1 ev = Some (e\<lparr>timer_set := False, timedout := False\<rparr>)" "ev \<notin> snd ` set ?ys" using S1(3) by auto
    from arm_timer_ok [OF S1(2) this, of "current_msec S + d"] obtain S2 where S2: "arm_timer ev (current_msec S + d) S1 = Some S2"
      "tm_inv S2 (put_entry (current_msec S + d) ev ?ys)" "current_msec S2 = current_msec S1"
      "tm_events S2 = (tm_events S1)(ev \<mapsto> e\<lparr>timer_set := False, timedout := False, timer_set := True\<rparr>)"
      "sentinel (tm_tree S2) = sentinel (tm_tree S1)" by blast
    have "event_add_timer ev d S = Some S2" using e True k far S1(1) S2(1) by (simp add: event_add_timer_def near_def)
    then show ?thesis using S1(3-5) S2(2-5) True far by (simp add: rearm_def)
  qed
qed

text \<open>What \<open>event_find_timer\<close> returns.\<close>

definition wait_time :: "32 word \<Rightarrow> (32 word \<times> nat) list \<Rightarrow> 32 word" where
  "wait_time now xs =
     (case xs of [] \<Rightarrow> TIMER_INFINITE | x # _ \<Rightarrow> if sint (fst x - now) > 0 then fst x - now else 0)"

lemma find_timer_ok:
  assumes "tm_inv S xs"
  shows "event_find_timer S = Some (wait_time (current_msec S) xs)"
proof -
  have t: "rb_tree (tm_tree S) xs" using assms by (simp add: tm_inv_def)
  show ?thesis
  proof (cases xs)
    case Nil
    then show ?thesis using rb_tree_empty [OF t] by (simp add: event_find_timer_def wait_time_def)
  next
    case (Cons x ys)
    then have "fld rb_key (tm_tree S) (snd x) = Some (fst x)" using rb_tree_node(1) [OF t, of "fst x" "snd x"] by simp
    then show ?thesis using rb_tree_empty [OF t] rb_tree_least [OF t [unfolded Cons]] Cons
      by (simp add: event_find_timer_def wait_time_def Let_def)
  qed
qed

text \<open>The keys of the tree lie within half the range of \<^verbatim>\<open>msec_t\<close> of the time.\<close>

definition no_wrap :: "32 word \<Rightarrow> (32 word \<times> nat) list \<Rightarrow> bool" where
  "no_wrap now xs \<longleftrightarrow> (\<forall>x \<in> set xs. \<bar>uint (fst x) - uint now\<bar> < 2 ^ 31)"

lemma sint_minus:
  fixes a b :: "32 word"
  assumes "\<bar>uint a - uint b\<bar> < 2 ^ 31"
  shows "sint (a - b) = uint a - uint b"
proof -
  have "a - b = word_of_int (uint a - uint b)" by (simp add: wi_hom_sub [symmetric])
  then have "sint (a - b) = signed_take_bit 31 (uint a - uint b)" by (simp only: signed_of_int) simp
  also have "\<dots> = uint a - uint b" using assms by (intro signed_take_bit_int_eq_self) auto
  finally show ?thesis .
qed

text \<open>Without a wrap the wait is the least time that a timer still has to run.\<close>

definition time_left :: "32 word \<Rightarrow> 32 word \<times> nat \<Rightarrow> int" where
  "time_left now x = max 0 (uint (fst x) - uint now)"

lemma wait_time_least:
  assumes "sorted (map fst xs)" "no_wrap now xs" "xs \<noteq> []"
  shows "uint (wait_time now xs) = Min (time_left now ` set xs)"
proof -
  obtain x ys where xs: "xs = x # ys" using assms(3) by (cases xs) auto
  have "time_left now x \<le> time_left now y" if "y \<in> set xs" for y
    using assms(1) that xs by (auto simp: time_left_def word_le_def)
  then have "Min (time_left now ` set xs) = time_left now x" using xs by (intro Min_eqI) auto
  moreover have d: "sint (fst x - now) = uint (fst x) - uint now" using assms(2) xs by (intro sint_minus) (simp add: no_wrap_def)
  moreover have "uint (fst x - now) = uint (fst x) - uint now" if "sint (fst x - now) > 0"
    using that d by (simp add: uint_sub_lem [symmetric])
  ultimately show ?thesis using xs by (simp add: wait_time_def time_left_def)
qed

section \<open>Expiring the timers\<close>

abbreviation expired :: "32 word \<Rightarrow> (32 word \<times> nat) list \<Rightarrow> (32 word \<times> nat) list" where
  "expired now xs \<equiv> filter (\<lambda>e. is_expired (fst e) now) xs"

text \<open>
  What the handlers of the timers promise: called for an event whose timer has expired, with
  its node out of the tree and its flag \<^verbatim>\<open>timedout\<close> set, a handler returns, keeps the
  invariant \<open>good\<close> of the program's state and adds no timer that is due already.
\<close>

locale timeout_handlers =
  fixes call :: "'h \<Rightarrow> nat \<Rightarrow> 'h timers \<times> 'w \<Rightarrow> ('h timers \<times> 'w) option"
    and good :: "'h timers \<times> 'w \<Rightarrow> (32 word \<times> nat) list \<Rightarrow> bool"
  assumes good_inv: "good st xs \<Longrightarrow> tm_inv (fst st) xs"
    and good_handler: "good st xs \<Longrightarrow> (k, ev) \<in> set xs \<Longrightarrow>
      \<exists>e h. tm_events (fst st) ev = Some e \<and> ev_handler e = Some h"
    and handler_ok: "good (S, w) ((k, ev) # xs) \<Longrightarrow> tm_events S ev = Some e \<Longrightarrow> ev_handler e = Some h \<Longrightarrow>
      is_expired k (current_msec S) \<Longrightarrow>
      rbtree_delete ev (tm_tree S) = Some T \<Longrightarrow>
      tm_inv (S\<lparr>tm_tree := T, tm_events := (tm_events S)(ev \<mapsto> e\<lparr>timedout := True\<rparr>)\<rparr>) xs \<Longrightarrow>
      \<exists>S' w' ys. call h ev (S\<lparr>tm_tree := T, tm_events := (tm_events S)(ev \<mapsto> e\<lparr>timedout := True\<rparr>)\<rparr>, w) = Some (S', w') \<and>
        good (S', w') ys \<and> current_msec S' = current_msec S \<and>
        length (expired (current_msec S) ys) \<le> length (expired (current_msec S) xs)"
begin

lemma expire_stops:
  "good st xs \<Longrightarrow> xs = [] \<or> \<not> is_expired (fst (hd xs)) (current_msec (fst st)) \<Longrightarrow> event_expire_timers call st = Some st"
proof -
  assume g: "good st xs" and "xs = [] \<or> \<not> is_expired (fst (hd xs)) (current_msec (fst st))"
  have t: "rb_tree (tm_tree (fst st)) xs" using good_inv [OF g] by (simp add: tm_inv_def)
  show ?thesis
  proof (cases xs)
    case Nil
    then show ?thesis using rb_tree_empty [OF t] by (subst event_expire_timers.simps) (simp add: Let_def)
  next
    case (Cons x ys)
    then have "fld rb_key (tm_tree (fst st)) (snd x) = Some (fst x)" using rb_tree_node(1) [OF t, of "fst x" "snd x"] by simp
    then show ?thesis using rb_tree_empty [OF t] rb_tree_least [OF t [unfolded Cons]] Cons \<open>xs = [] \<or> _\<close>
      by (subst event_expire_timers.simps) (simp add: Let_def)
  qed
qed

lemma expire_round:
  assumes g: "good st ((k, ev) # xs)" and k: "is_expired k (current_msec (fst st))"
  shows "\<exists>st' ys. event_expire_timers call st = event_expire_timers call st' \<and> good st' ys \<and>
    current_msec (fst st') = current_msec (fst st) \<and>
    length (expired (current_msec (fst st)) ys) \<le> length (expired (current_msec (fst st)) xs)"
proof -
  obtain S w where st: "st = (S, w)" by (cases st)
  have inv: "tm_inv S ((k, ev) # xs)" using good_inv [OF g] st by simp
  then have t: "rb_tree (tm_tree S) ((k, ev) # xs)" "looped (tm_tree S)" by (auto simp: tm_inv_def)
  have dist: "filter (\<lambda>e. snd e \<noteq> ev) ((k, ev) # xs) = xs" using rb_tree_distinct [OF t(1)] by (simp add: filter_absent)
  obtain e h where e: "tm_events S ev = Some e" "ev_handler e = Some h" using good_handler [OF g, of k ev] st by auto
  have ok: "event_ok (tm_tree S) ((k, ev) # xs) ev True" using tm_invD [OF inv e(1)] by (auto simp: event_ok_def)
  from delete_keeps_others [OF t ok] dist obtain T where T: "rbtree_delete ev (tm_tree S) = Some T" "rb_tree T xs"
    "sentinel T = sentinel (tm_tree S)" "looped T" "cleared T ev"
    "\<forall>b f. b \<noteq> ev \<longrightarrow> event_ok (tm_tree S) ((k, ev) # xs) b f \<longrightarrow> event_ok T xs b f" by auto
  let ?S = "S\<lparr>tm_tree := T, tm_events := (tm_events S)(ev \<mapsto> e\<lparr>timedout := True\<rparr>)\<rparr>"
  have "ev \<notin> snd ` set xs" using rb_tree_distinct [OF t(1)] by simp
  then have "event_ok T xs ev (timer_set e)" using T(3,5) ok by (auto simp: event_ok_def cleared_def)
  then have inv': "tm_inv ?S xs" using inv T(2,4,6) by (auto simp: tm_inv_def)
  obtain S' w' ys where c: "call h ev (?S, w) = Some (S', w')" "good (S', w') ys" "current_msec S' = current_msec S"
    "length (expired (current_msec S) ys) \<le> length (expired (current_msec S) xs)"
    using handler_ok [OF g [unfolded st] e _ T(1) inv'] k st by auto
  have "event_expire_timers call st = event_expire_timers call (S', w')"
    using rb_tree_empty [OF t(1)] rb_tree_least [OF t(1)] rb_tree_node(1) [OF t(1), of k ev] k T(1) e c(1) st
    by (subst event_expire_timers.simps) (simp add: Let_def set_event_def)
  then show ?thesis using c(2-4) st by (intro exI [of _ "(S', w')"] exI [of _ ys]) simp
qed

text \<open>The loop ends, and then nothing at the head of the queue is due.\<close>

lemma expire_ok:
  "good st xs \<Longrightarrow> \<exists>st' ys. event_expire_timers call st = Some st' \<and> good st' ys \<and>
    current_msec (fst st') = current_msec (fst st) \<and> (ys = [] \<or> \<not> is_expired (fst (hd ys)) (current_msec (fst st)))"
proof (induction "length (expired (current_msec (fst st)) xs)" arbitrary: st xs rule: less_induct)
  case less
  show ?case
  proof (cases "xs = [] \<or> \<not> is_expired (fst (hd xs)) (current_msec (fst st))")
    case True
    then show ?thesis using expire_stops [OF less.prems] less.prems by blast
  next
    case False
    then obtain k ev zs where xs: "xs = (k, ev) # zs" "is_expired k (current_msec (fst st))" by (cases xs) auto
    obtain st1 ys where r: "event_expire_timers call st = event_expire_timers call st1" "good st1 ys"
      "current_msec (fst st1) = current_msec (fst st)"
      "length (expired (current_msec (fst st)) ys) \<le> length (expired (current_msec (fst st)) zs)"
      using expire_round [OF less.prems [unfolded xs(1)] xs(2)] by blast
    have "length (expired (current_msec (fst st1)) ys) < length (expired (current_msec (fst st)) xs)" using r(3,4) xs by simp
    from less.hyps [OF this r(2)] show ?thesis using r(1,3) by simp
  qed
qed

end

text \<open>Without a wrap nothing that is due is left in the queue at all.\<close>

lemma none_due:
  assumes "sorted (map fst ys)" "no_wrap now ys" "ys = [] \<or> \<not> is_expired (fst (hd ys)) now"
  shows "expired now ys = []"
proof (cases ys)
  case (Cons x zs)
  have "\<not> is_expired (fst y) now" if "y \<in> set ys" for y
  proof -
    have "sint (fst y - now) = uint (fst y) - uint now" "sint (fst x - now) = uint (fst x) - uint now"
      using assms(2) that Cons by (auto simp: no_wrap_def intro!: sint_minus)
    moreover have "uint (fst x) \<le> uint (fst y)" using assms(1) that Cons by (auto simp: word_le_def)
    ultimately show ?thesis using assms(3) Cons by (simp add: is_expired_def)
  qed
  then show ?thesis by (simp add: filter_empty_conv)
qed simp

end
