(* ===== verification/Timer_Queue.thy ===== *)
theory Timer_Queue
  imports Timer_Event Complex_Main
begin

text \<open>
  What the red-black tree and the timers promise their callers: the tree is a queue in the order
  of its keys, no path of it is longer than twice the logarithm of its size, and the operations of
  the timers are those of that queue. The last section has two histories in which the timers do
  not do what they are for.
\<close>

section \<open>The depth of a tree\<close>

fun depth :: "rbt \<Rightarrow> nat" where
  "depth Leaf = 0"
| "depth (Node l a k c r) = Suc (max (depth l) (depth r))"

definition shallow :: "rbtree \<Rightarrow> nat \<Rightarrow> bool" where
  "shallow T n \<longleftrightarrow> (\<exists>tp t. rep T tp t \<and> length (entries t) = n \<and> real (depth t) \<le> 2 * log 2 (real (n + 1)))"

lemma size_bh: "invh t \<Longrightarrow> 2 ^ bh t \<le> length (entries t) + 1"
  by (induction t) auto

lemma depth_bh: "invc t \<Longrightarrow> invh t \<Longrightarrow> depth t \<le> 2 * bh t + (if red t then 1 else 0)"
  by (induction t) (fastforce split: if_splits)+

lemma red_black_depth:
  assumes "red_black t"
  shows "real (depth t) \<le> 2 * log 2 (real (length (entries t) + 1))"
proof -
  have "depth t \<le> 2 * bh t" using assms depth_bh [of t] by (simp add: red_black_def)
  moreover have "real (bh t) \<le> log 2 (real (length (entries t) + 1))"
  proof (rule le_log_of_power)
    have "(2::nat) ^ bh t \<le> length (entries t) + 1" using assms size_bh by (simp add: red_black_def)
    then show "2 ^ bh t \<le> real (length (entries t) + 1)" by (metis of_nat_le_iff of_nat_numeral of_nat_power)
  qed simp
  ultimately show ?thesis by linarith
qed

lemma rb_tree_shallow: "rb_tree T xs \<Longrightarrow> shallow T (length xs)"
  using red_black_depth by (auto simp: rb_tree_def shallow_def)

lemma length_put_entry [simp]: "length (put_entry k n xs) = Suc (length xs)"
proof -
  have "length (takeWhile (\<lambda>e. fst e \<le> k) xs) + length (dropWhile (\<lambda>e. fst e \<le> k) xs) = length xs"
    by (simp only: length_append [symmetric] takeWhile_dropWhile_id)
  then show ?thesis by (simp add: put_entry_def)
qed

section \<open>Three timers\<close>

definition example_tree :: rbtree where
  "example_tree = \<lparr>rb_root = 2, sentinel = 1, insert_ptr = Insert_timer_value, rb_mem = [
     1 \<mapsto> \<lparr>rb_key = 0, rb_parent = 1, rb_left = 1, rb_right = 1, rb_color = False\<rparr>,
     2 \<mapsto> \<lparr>rb_key = 500, rb_parent = 1, rb_left = 1, rb_right = 3, rb_color = False\<rparr>,
     3 \<mapsto> \<lparr>rb_key = 900, rb_parent = 2, rb_left = 1, rb_right = 1, rb_color = True\<rparr>,
     4 \<mapsto> \<lparr>rb_key = 700, rb_parent = 0, rb_left = 0, rb_right = 0, rb_color = False\<rparr>]\<rparr>"

definition example_timers :: "unit timers" where
  "example_timers = \<lparr>tm_tree = example_tree, tm_events = [
     2 \<mapsto> \<lparr>ev_handler = Some (), ev_active = True, timer_set = True, timedout = False\<rparr>,
     3 \<mapsto> \<lparr>ev_handler = Some (), ev_active = True, timer_set = True, timedout = False\<rparr>,
     4 \<mapsto> \<lparr>ev_handler = Some (), ev_active = True, timer_set = False, timedout = False\<rparr>], current_msec = 400\<rparr>"

lemma example_rb_tree: "rb_tree example_tree [(500, 2), (900, 3)]"
proof -
  let ?t = "Node Leaf 2 500 False (Node Leaf 3 900 True Leaf)"
  have "rep example_tree 1 ?t" by (simp add: rep_def example_tree_def apart_def fresh_def adr_def)
  moreover have "red_black ?t" by (simp add: red_black_def)
  ultimately show ?thesis unfolding rb_tree_def by (intro exI [of _ 1] exI [of _ ?t]) simp
qed

lemma example_looped: "looped example_tree"
  unfolding looped_def
proof
  show "fld (kid g) example_tree (sentinel example_tree) = Some (sentinel example_tree)" for g
    by (cases g) (simp_all add: fld_def example_tree_def)
qed

lemma example_inv: "tm_inv example_timers [(500, 2), (900, 3)]"
  using example_rb_tree example_looped
  by (auto simp: tm_inv_def example_timers_def event_ok_def) (simp_all add: example_tree_def)

lemma example_tree_reads [simp]:
  "rb_mem example_tree 4 = Some \<lparr>rb_key = 700, rb_parent = 0, rb_left = 0, rb_right = 0, rb_color = False\<rparr>"
  "sentinel example_tree = 1"
  by (simp_all add: example_tree_def)

lemma example_timers_reads [simp]:
  "tm_events example_timers 2 = Some \<lparr>ev_handler = Some (), ev_active = True, timer_set = True, timedout = False\<rparr>"
  "current_msec example_timers = 400"
  by (simp_all add: example_timers_def)

section \<open>The tree as a queue\<close>

text \<open>C13. Inserting a node into the pointer tree puts its entry into the queue, behind the entries with the same key,
  and leaves a red-black tree, no path of which is longer than twice the logarithm of its size.\<close>

theorem rbtree_insert_refines:
  assumes "rb_tree T xs" "rb_mem T n = Some nd" "n \<notin> snd ` set xs" "n \<noteq> sentinel T"
  shows "\<exists>T'. rbtree_insert n T = Some T' \<and> rb_tree T' (put_entry (rb_key nd) n xs) \<and> shallow T' (length xs + 1)"
  using rbtree_insert_ok [OF assms] rb_tree_shallow by fastforce

theorem rbtree_insert_refines_witness:
  "\<exists>T'. rbtree_insert 4 example_tree = Some T' \<and> rb_tree T' [(500, 2), (700, 4), (900, 3)] \<and> shallow T' 3"
  using rbtree_insert_refines [OF example_rb_tree example_tree_reads(1)] by (simp add: put_entry_def numeral_3_eq_3)

text \<open>C14. Deleting a node of the pointer tree takes its entry, and no other, out of the queue, leaves a
  red-black tree and clears the node; deleting the cleared node once more changes nothing.\<close>

theorem rbtree_delete_refines:
  assumes "rb_tree T xs" "n \<in> snd ` set xs" "looped T"
  shows "\<exists>T' T''. rbtree_delete n T = Some T' \<and> rb_tree T' (filter (\<lambda>e. snd e \<noteq> n) xs) \<and> shallow T' (length xs - 1) \<and>
    cleared T' n \<and> rbtree_delete n T' = Some T'' \<and> rb_tree T'' (filter (\<lambda>e. snd e \<noteq> n) xs)"
proof -
  let ?ys = "filter (\<lambda>e. snd e \<noteq> n) xs"
  have flag: "event_ok T xs n True" using tree_nodes_stay [OF assms(1,2)] assms(2) by (simp add: event_ok_def)
  obtain T' where T': "rbtree_delete n T = Some T'" "rb_tree T' ?ys" "sentinel T' = sentinel T" "looped T'" "cleared T' n"
    using delete_keeps_others [OF assms(1,3) flag] by blast
  have "n \<noteq> sentinel T'" "n \<notin> snd ` set ?ys" using T'(3) flag by (auto simp: event_ok_def)
  from delete_again [OF T'(2,5) this T'(4)] obtain T'' where "rbtree_delete n T' = Some T''" "rb_tree T'' ?ys" by blast
  moreover have "length ?ys = length xs - 1"
  proof -
    have "distinct (map snd xs)" by (rule rb_tree_distinct [OF assms(1)])
    then show ?thesis using assms(2)
    proof (induction xs)
      case (Cons x xs)
      then show ?case by (cases "snd x = n"; cases xs) (auto simp: filter_absent)
    qed simp
  qed
  ultimately show ?thesis using T' rb_tree_shallow [OF T'(2)] by auto
qed

theorem rbtree_delete_refines_witness:
  "\<exists>T' T''. rbtree_delete 2 example_tree = Some T' \<and> rb_tree T' [(900, 3)] \<and> shallow T' 1 \<and> cleared T' 2 \<and>
    rbtree_delete 2 T' = Some T'' \<and> rb_tree T'' [(900, 3)]"
  using rbtree_delete_refines [OF example_rb_tree, of 2] example_looped by simp

section \<open>The timers as a queue\<close>

text \<open>C15. Arming a timer always succeeds. The queue changes as \<open>rearm\<close> says: an armed timer that is to move
  by less than 300 ms stays, any other gets the new key and loses its old entry. The flag of the event is then
  set, and no other event changes.\<close>

theorem event_add_timer_refines:
  assumes "tm_inv S xs" "tm_events S ev = Some e"
  shows "\<exists>S' e'. event_add_timer ev d S = Some S' \<and> tm_inv S' (rearm (timer_set e) (current_msec S + d) ev xs) \<and>
    tm_events S' ev = Some e' \<and> timer_set e' \<and> (\<forall>b. b \<noteq> ev \<longrightarrow> tm_events S' b = tm_events S b)"
  using add_timer_ok [OF assms] by blast

theorem event_add_timer_refines_witness:
  "\<exists>S' e'. event_add_timer 2 1000 example_timers = Some S' \<and> tm_inv S' [(900, 3), (1400, 2)] \<and>
    tm_events S' 2 = Some e' \<and> timer_set e' \<and> tm_events S' 4 = tm_events example_timers 4"
proof -
  have "rearm True (400 + 1000) 2 [(500, 2), (900, 3)] = [(900, 3), (1400, 2)]" 
    by (simp add: rearm_def near_def key_of_def p_abs_def TIMER_LAZY_DELAY_def put_entry_def)
  then show ?thesis
    using event_add_timer_refines [OF example_inv example_timers_reads(1), of 1000] by fastforce
qed

text \<open>C16. What \<open>event_find_timer\<close> answers: without a timer \<^verbatim>\<open>TIMER_INFINITE\<close>, and otherwise, as long as no
  key is half the range of \<^verbatim>\<open>msec_t\<close> away from the time, exactly the least time that a timer still has to run.
  (The event loop asks for it only when \<^verbatim>\<open>timer_resolution\<close> is 0; with the setting of the program, 500, it waits
  without a limit and is woken by the alarm.)\<close>

theorem event_find_timer_waits:
  assumes "tm_inv S xs" "no_wrap (current_msec S) xs"
  shows "\<exists>w. event_find_timer S = Some w \<and>
    (if xs = [] then w = TIMER_INFINITE else uint w = Min (time_left (current_msec S) ` set xs))"
proof (cases "xs = []")
  case True
  then show ?thesis using find_timer_ok [OF assms(1)] by (simp add: wait_time_def)
next
  case False
  then show ?thesis using find_timer_ok [OF assms(1)] wait_time_least [OF _ assms(2)] assms(1) by (auto simp: tm_inv_def rb_tree_def)
qed

theorem event_find_timer_waits_witness:
  "\<exists>w. event_find_timer example_timers = Some w \<and> uint w = 100"
  using event_find_timer_waits [OF example_inv] by (simp add: no_wrap_def time_left_def)

section \<open>Timers that are late or lost\<close>

definition idle_timers :: "32 word \<Rightarrow> unit timers" where
  "idle_timers now = \<lparr>tm_tree = \<lparr>rb_root = 1, sentinel = 1, insert_ptr = Insert_timer_value, rb_mem = [
     1 \<mapsto> \<lparr>rb_key = 0, rb_parent = 1, rb_left = 1, rb_right = 1, rb_color = False\<rparr>,
     2 \<mapsto> \<lparr>rb_key = 0, rb_parent = 0, rb_left = 0, rb_right = 0, rb_color = False\<rparr>,
     3 \<mapsto> \<lparr>rb_key = 0, rb_parent = 0, rb_left = 0, rb_right = 0, rb_color = False\<rparr>]\<rparr>,
   tm_events = [
     2 \<mapsto> \<lparr>ev_handler = Some (), ev_active = True, timer_set = False, timedout = False\<rparr>,
     3 \<mapsto> \<lparr>ev_handler = Some (), ev_active = True, timer_set = False, timedout = False\<rparr>], current_msec = now\<rparr>"

lemma idle_inv: "tm_inv (idle_timers now) []"
proof -
  let ?T = "tm_tree (idle_timers now)"
  have "rep ?T 1 Leaf" by (simp add: rep_def idle_timers_def apart_def fresh_def adr_def)
  then have "rb_tree ?T []" unfolding rb_tree_def by (intro exI [of _ 1] exI [of _ Leaf]) (simp add: red_black_def)
  moreover have "looped ?T"
    unfolding looped_def
  proof
    show "fld (kid g) ?T (sentinel ?T) = Some (sentinel ?T)" for g by (cases g) (simp_all add: fld_def idle_timers_def)
  qed
  moreover have "\<not> timer_set e \<and> ev \<noteq> 1 \<and> rb_mem ?T ev \<noteq> None" if "tm_events (idle_timers now) ev = Some e" for ev e
    using that by (auto simp: idle_timers_def split: if_splits)
  moreover have "sentinel ?T = 1" by (simp add: idle_timers_def)
  ultimately show ?thesis unfolding tm_inv_def event_ok_def by simp
qed

text \<open>
  The keys are times modulo $2^{32}$ and the tree compares them as they are. Shortly before the time
  wraps, a timer of 16 ms is armed and then one of 37 ms; the key of the second has wrapped, the
  loop sleeps for 37 ms and the first timer is late.
\<close>

lemma timer_late_at_wrap:
  "\<exists>S1 S2. event_add_timer 2 16 (idle_timers 0xFFFFFFE0) = Some S1 \<and> event_add_timer 3 37 S1 = Some S2 \<and>
    tm_inv S2 [(5, 3), (0xFFFFFFF0, 2)] \<and> event_find_timer S2 = Some 37 \<and> 0xFFFFFFF0 - current_msec S2 = 16"
proof -
  let ?e = "\<lparr>ev_handler = Some (), ev_active = True, timer_set = False, timedout = False\<rparr>"
  have ev: "tm_events (idle_timers 0xFFFFFFE0) 2 = Some ?e" "tm_events (idle_timers 0xFFFFFFE0) 3 = Some ?e"
    "current_msec (idle_timers 0xFFFFFFE0) = 0xFFFFFFE0" by (simp_all add: idle_timers_def)
  from add_timer_ok [OF idle_inv ev(1), of 16] obtain S1 where S1: "event_add_timer 2 16 (idle_timers 0xFFFFFFE0) = Some S1"
    "tm_inv S1 [(0xFFFFFFF0, 2)]" "tm_events S1 3 = Some ?e" "current_msec S1 = 0xFFFFFFE0"
    using ev(2,3) by (auto simp: rearm_def put_entry_def)
  have k: "(4294967301 :: 32 word) = 5" by simp
  from add_timer_ok [OF S1(2,3), of 37] obtain S2 where S2: "event_add_timer 3 37 S1 = Some S2"
    "tm_inv S2 [(5, 3), (0xFFFFFFF0, 2)]" "current_msec S2 = 0xFFFFFFE0"
    using S1(4) by (auto simp: rearm_def put_entry_def k)
  have "event_find_timer S2 = Some 37" using find_timer_ok [OF S2(2)] S2(3) by (simp add: wait_time_def)
  then show ?thesis using S1(1) S2 by simp
qed

text \<open>
  An event whose timer has expired keeps its flag, and its node the key 0. A new timer that ends
  within 300 ms of the time 0 then is taken for a small change of an armed timer, and is not set.
\<close>

lemma timer_lost_at_zero:
  assumes "tm_inv S xs" "tm_events S ev = Some e" "timer_set e" "ev \<notin> snd ` set xs" "near (current_msec S + d) 0"
  shows "event_add_timer ev d S = Some S"
proof -
  have "key_of xs ev = 0" using assms(4) by (force simp: key_of_def split: list.splits dest: filter_eq_ConsD)
  then show ?thesis using node_key [OF assms(1-3)] assms(2,3,5) by (simp add: event_add_timer_def near_def)
qed

end
