(* ===== verification/Round_Robin.thy ===== *)
theory Round_Robin
  imports Common_Util "HOL-Library.Signed_Division"
begin

text \<open>
  The weighted round robin of \<^verbatim>\<open>module/upstream_server_module.c\<close>: the servers of a domain, the
  choice of one of them, the book-keeping after a connection, and the loop that tries servers.
  A pointer to a server is its index in the array of its domain.
\<close>

section \<open>Servers and domains\<close>

text \<open>The members \<^verbatim>\<open>pass\<close>, \<^verbatim>\<open>path\<close> and \<^verbatim>\<open>root\<close> of \<^verbatim>\<open>location_t\<close> are set and read nowhere.\<close>

record location =
  loc_host :: str
  loc_port :: "16 word"
  loc_weight :: int
  loc_max_fails :: int
  loc_fail_timedout :: "32 word"

datatype conn_state = UPSTREAM_CONN_FAIL | UPSTREAM_CONN_SUC

record server =
  weight :: int
  effective_weight :: int
  current_weight :: int
  status_changed :: bool
  fails :: int
  max_fails :: int
  us_state :: conn_state
  last_failed :: "32 word"
  fail_timeout :: "32 word"
  location_of :: location

datatype chash_state = IDLE | MODIFIED | INIT_DONE

text \<open>A virtual node is a hash code and a server; \<open>c_room\<close> is the number of nodes the block has room for.\<close>

record chash_cycle =
  c_nodes :: "(32 word \<times> nat) list"
  c_room :: nat

record domain =
  domain_name :: str
  servers :: "server list"
  tried :: "64 word list"
  init_state :: chash_state
  cycle_of :: "chash_cycle option"

section \<open>The conditions on a server\<close>

definition in_fail_time :: "32 word \<Rightarrow> server \<Rightarrow> bool" where
  "in_fail_time now s \<longleftrightarrow> sint (now - last_failed s) \<le> sint (fail_timeout s)"

definition is_server_down :: "32 word \<Rightarrow> server \<Rightarrow> bool" where
  "is_server_down now s \<longleftrightarrow> max_fails s \<noteq> 0 \<and> fails s \<ge> max_fails s \<and> in_fail_time now s"

section \<open>init_before_round\<close>

text \<open>The search for the domain; its result is one past the end if there is no such domain.\<close>

fun find_domain :: "str \<Rightarrow> domain list \<Rightarrow> nat option" where
  "find_domain target [] = Some 0"
| "find_domain target (d # ds) = do {
     eq \<leftarrow> stringEq target (domain_name d);
     if eq then Some 0 else map_option Suc (find_domain target ds)
   }"

text \<open>The loop that looks for servers that have served their time.\<close>

definition refresh :: "32 word \<Rightarrow> server \<Rightarrow> bool \<times> server" where
  "refresh now s =
     (let late = fails s \<ge> max_fails s \<and> \<not> in_fail_time now s in
      (late, (if late then s\<lparr>fails := 0\<rparr> else s)\<lparr>us_state := UPSTREAM_CONN_SUC\<rparr>))"

definition refresh_all :: "32 word \<Rightarrow> domain \<Rightarrow> domain" where
  "refresh_all now d =
     d\<lparr>servers := map (snd \<circ> refresh now) (servers d),
       init_state := (if \<exists>s \<in> set (servers d). fst (refresh now s) then MODIFIED else init_state d)\<rparr>"

text \<open>
  What the request keeps: \<^verbatim>\<open>cur_server_domain\<close> and \<^verbatim>\<open>upstream_tries\<close>. \<open>block n\<close> is what
  \<^verbatim>\<open>pMalloc(r->pool, n * sizeof(uintptr_t))\<close> returns: the words that lie in the block, or
  \<open>None\<close> for the null pointer. The servers that are prepared are those of the first domain
  of the array, unless the search has been made.
\<close>

definition init_before_round ::
    "32 word \<Rightarrow> (nat \<Rightarrow> 64 word list option) \<Rightarrow> str option \<Rightarrow> nat option \<Rightarrow> domain list \<Rightarrow> (rc \<times> nat option \<times> domain list) option" where
  "init_before_round now block target cur doms = do {
     (at, cur) \<leftarrow> (case cur of
         None \<Rightarrow> do {
           name \<leftarrow> target;
           i \<leftarrow> find_domain name doms;
           Some (i, Some i)
         }
       | Some i \<Rightarrow> Some (0, Some i));
     guard (at < length doms);
     let d = doms ! at; ip_num = length (servers d) in
     if ip_num \<le> 64 then Some (OK, cur, doms[at := refresh_all now (d\<lparr>tried := [0]\<rparr>)])
     else (case block ((ip_num + 63) div 64) of
         None \<Rightarrow> Some (ERROR, cur, doms[at := d\<lparr>tried := []\<rparr>])
       | Some ws \<Rightarrow> Some (OK, cur, doms[at := refresh_all now (d\<lparr>tried := ws\<rparr>)]))
   }"

section \<open>get_server_by_round_once\<close>

text \<open>
  \<^verbatim>\<open>(uintptr_t)(1 << i % 64)\<close>: the 1 is an \<^verbatim>\<open>int\<close>, so that the shift is defined for less
  than 31 bits.
\<close>

definition tried_bit :: "nat \<Rightarrow> 64 word option" where
  "tried_bit i = (if i mod 64 < 31 then Some (push_bit (i mod 64) 1) else None)"

definition word_at :: "64 word list \<Rightarrow> nat \<Rightarrow> 64 word option" where
  "word_at ws n = (if n < length ws then Some (ws ! n) else None)"

record scan =
  sc_servers :: "server list"
  sc_total :: int
  sc_best :: "nat option"
  sc_n :: nat
  sc_m :: "64 word"

text \<open>The body of the loop, for the server \<open>i\<close>.\<close>

definition round_visit :: "32 word \<Rightarrow> 64 word list \<Rightarrow> nat \<Rightarrow> scan \<Rightarrow> scan option" where
  "round_visit now ws i sc = do {
     let n = i div 64;
     m \<leftarrow> tried_bit i;
     let sc = sc\<lparr>sc_n := n, sc_m := m\<rparr>;
     w \<leftarrow> word_at ws n;
     let s = sc_servers sc ! i;
     if w AND m \<noteq> 0 then Some sc
     else if is_server_down now s then Some sc
     else do {
       let s' = s\<lparr>current_weight := current_weight s + effective_weight s,
         effective_weight := (if effective_weight s < weight s then effective_weight s + 1 else effective_weight s)\<rparr>;
       let ss = (sc_servers sc)[i := s'];
       let better = (case sc_best sc of None \<Rightarrow> True | Some b \<Rightarrow> current_weight s' > current_weight (ss ! b));
       Some (sc\<lparr>sc_servers := ss, sc_total := sc_total sc + effective_weight s,
         sc_best := (if better then Some i else sc_best sc)\<rparr>)
     }
   }"

fun round_loop :: "32 word \<Rightarrow> 64 word list \<Rightarrow> nat list \<Rightarrow> scan \<Rightarrow> scan option" where
  "round_loop now ws [] sc = Some sc"
| "round_loop now ws (i # js) sc = Option.bind (round_visit now ws i sc) (round_loop now ws js)"

text \<open>
  \<^verbatim>\<open>tried[n] |= m\<close> comes after the loop: \<open>n\<close> and \<open>m\<close> are those of the last server, not
  those of the chosen one.
\<close>

definition get_server_by_round_once :: "32 word \<Rightarrow> domain \<Rightarrow> (nat option \<times> domain) option" where
  "get_server_by_round_once now d = do {
     sc \<leftarrow> round_loop now (tried d) [0..<length (servers d)]
       \<lparr>sc_servers = servers d, sc_total = 0, sc_best = None, sc_n = 0, sc_m = 0\<rparr>;
     let d = d\<lparr>servers := sc_servers sc\<rparr>;
     case sc_best sc of
       None \<Rightarrow> Some (None, d)
     | Some b \<Rightarrow> do {
         w \<leftarrow> word_at (tried d) (sc_n sc);
         let best = servers d ! b;
         Some (Some b, d\<lparr>tried := (tried d)[sc_n sc := w OR sc_m sc],
           servers := (servers d)[b := best\<lparr>current_weight := current_weight best - sc_total sc\<rparr>]\<rparr>)
       }
   }"

section \<open>free_server_after_round_select\<close>

definition free_server_after_round_select :: "32 word \<Rightarrow> server \<Rightarrow> server" where
  "free_server_after_round_select now us =
     (if us_state us = UPSTREAM_CONN_FAIL then
        (let us = us\<lparr>fails := fails us + 1, last_failed := now\<rparr>;
             us = (if max_fails us \<noteq> 0
               then us\<lparr>effective_weight := effective_weight us - weight us sdiv max_fails us\<rparr> else us) in
         if effective_weight us < 0 then us\<lparr>effective_weight := 0\<rparr> else us)
      else if \<not> in_fail_time now us then us\<lparr>fails := 0\<rparr> else us)"

section \<open>get_server_by_round\<close>

text \<open>
  \<open>connect i b us w\<close> is \<^verbatim>\<open>try_connect(r, us)\<close> and \<open>give_up w\<close> is \<^verbatim>\<open>construct_err(r, r->connection, 502)\<close>;
  \<open>w\<close> is the rest of the state. The domain the loop works on is that of the request.
\<close>

partial_function (option) try_servers ::
    "(nat \<Rightarrow> server \<Rightarrow> 'w \<Rightarrow> (rc \<times> 'w) option) \<Rightarrow> 32 word \<Rightarrow> domain \<Rightarrow> nat \<Rightarrow> 'w \<Rightarrow> (domain \<times> nat \<times> bool \<times> 'w) option" where
  "try_servers connect now d tries w =
     (if tries < length (servers d) then
        Option.bind (get_server_by_round_once now d) (\<lambda>(us, d).
          case us of
            None \<Rightarrow> try_servers connect now d (tries + 1) w
          | Some b \<Rightarrow> Option.bind (connect b (servers d ! b) w) (\<lambda>(err, w).
              if err = OK \<or> err = AGAIN then Some (d, tries + 1, True, w)
              else
                try_servers connect now
                  (d\<lparr>servers := (servers d)[b := free_server_after_round_select now ((servers d ! b)\<lparr>us_state := UPSTREAM_CONN_FAIL\<rparr>)]\<rparr>)
                  (tries + 1) w))
      else Some (d, tries, False, w))"

definition get_server_by_round ::
    "(nat \<Rightarrow> nat \<Rightarrow> server \<Rightarrow> 'w \<Rightarrow> (rc \<times> 'w) option) \<Rightarrow> ('w \<Rightarrow> 'w option) \<Rightarrow> 32 word \<Rightarrow> (nat \<Rightarrow> 64 word list option) \<Rightarrow> str option \<Rightarrow>
     nat option \<Rightarrow> nat \<Rightarrow> domain list \<Rightarrow> 'w \<Rightarrow> (nat option \<times> nat \<times> domain list \<times> 'w) option" where
  "get_server_by_round connect give_up now block target cur tries doms w = do {
     (err, cur, doms) \<leftarrow> init_before_round now block target cur doms;
     if err \<noteq> OK then Some (cur, tries, doms, w)
     else do {
       i \<leftarrow> cur;
       guard (i < length doms);
       (d, tries, found, w) \<leftarrow> try_servers (connect i) now (doms ! i) tries w;
       let doms = doms[i := d];
       if found then Some (cur, tries, doms, w)
       else do {
         w \<leftarrow> (if tries \<ge> length (servers d) then give_up w else Some w);
         Some (cur, tries, doms, w)
       }
     }
   }"

section \<open>One selection\<close>

definition eligible :: "32 word \<Rightarrow> 64 word \<Rightarrow> server list \<Rightarrow> nat \<Rightarrow> bool" where
  "eligible now w ss i \<longleftrightarrow> i < length ss \<and> \<not> bit w i \<and> \<not> is_server_down now (ss ! i)"

definition bump :: "server \<Rightarrow> server" where
  "bump s = s\<lparr>current_weight := current_weight s + effective_weight s,
     effective_weight := (if effective_weight s < weight s then effective_weight s + 1 else effective_weight s)\<rparr>"

definition bumped :: "32 word \<Rightarrow> 64 word \<Rightarrow> server list \<Rightarrow> server list" where
  "bumped now w ss = map (\<lambda>i. if eligible now w ss i then bump (ss ! i) else ss ! i) [0..<length ss]"

definition share :: "32 word \<Rightarrow> 64 word \<Rightarrow> server list \<Rightarrow> nat \<Rightarrow> int" where
  "share now w ss k = (\<Sum>i | i < k \<and> eligible now w ss i. effective_weight (ss ! i))"

text \<open>The first of the eligible servers below \<open>k\<close> with the greatest weight, if there is one.\<close>

definition leads :: "32 word \<Rightarrow> 64 word \<Rightarrow> server list \<Rightarrow> nat \<Rightarrow> nat \<Rightarrow> bool" where
  "leads now w ss k b \<longleftrightarrow> b < k \<and> eligible now w ss b \<and>
     (\<forall>j<k. eligible now w ss j \<longrightarrow> current_weight (bump (ss ! j)) \<le> current_weight (bump (ss ! b)) \<and>
       (j < b \<longrightarrow> current_weight (bump (ss ! j)) < current_weight (bump (ss ! b))))"

definition best_upto :: "32 word \<Rightarrow> 64 word \<Rightarrow> server list \<Rightarrow> nat \<Rightarrow> nat option \<Rightarrow> bool" where
  "best_upto now w ss k x = (case x of None \<Rightarrow> \<forall>j<k. \<not> eligible now w ss j | Some b \<Rightarrow> leads now w ss k b)"

lemma length_bumped [simp]: "length (bumped now w ss) = length ss"
  by (simp add: bumped_def)

lemma bumped_nth [simp]:
  "i < length ss \<Longrightarrow> bumped now w ss ! i = (if eligible now w ss i then bump (ss ! i) else ss ! i)"
  by (simp add: bumped_def)

lemma tried_bit_eq: "i < 31 \<Longrightarrow> tried_bit i = Some (2 ^ i)"
  by (simp add: tried_bit_def push_bit_eq_mult)

lemma round_loop_append: "round_loop now ws (is @ js) sc = Option.bind (round_loop now ws is sc) (round_loop now ws js)"
  by (induction "is" arbitrary: sc) (simp_all add: Option.bind_assoc split: Option.bind_split)

lemma round_loop_Nil [simp]: "round_loop now ws [] = Some"
  by (simp add: fun_eq_iff)

lemma round_loop_ok:
  assumes "length ss \<le> 31" "k \<le> length ss"
  shows "\<exists>sc. round_loop now [w] [0..<k] \<lparr>sc_servers = ss, sc_total = 0, sc_best = None, sc_n = 0, sc_m = 0\<rparr> = Some sc \<and>
    sc_servers sc = take k (bumped now w ss) @ drop k ss \<and> sc_total sc = share now w ss k \<and>
    best_upto now w ss k (sc_best sc) \<and> sc_n sc = 0 \<and> (0 < k \<longrightarrow> sc_m sc = push_bit (k - 1) 1)"
  using assms(2)
proof (induction k)
  case 0
  then show ?case by (simp add: share_def best_upto_def)
next
  case (Suc k)
  then obtain sc where sc: "round_loop now [w] [0..<k] \<lparr>sc_servers = ss, sc_total = 0, sc_best = None, sc_n = 0, sc_m = 0\<rparr> = Some sc"
    "sc_servers sc = take k (bumped now w ss) @ drop k ss" "sc_total sc = share now w ss k"
    "best_upto now w ss k (sc_best sc)" "sc_n sc = 0" by auto
  have k: "k < 31" "k < length ss" "k mod 64 = k" "k div 64 = 0" using Suc.prems assms(1) by auto
  have cur: "sc_servers sc ! k = ss ! k" using sc(2) k by (simp add: nth_append)
  have run: "round_loop now [w] [0..<Suc k] \<lparr>sc_servers = ss, sc_total = 0, sc_best = None, sc_n = 0, sc_m = 0\<rparr> =
    round_visit now [w] k sc" using sc(1) by (simp add: round_loop_append)
  have upd: "(sc_servers sc)[k := x] = take k (bumped now w ss) @ x # drop (Suc k) ss" for x
    using sc(2) k by (simp add: list_update_append Cons_nth_drop_Suc [symmetric])
  have tk: "take (Suc k) (bumped now w ss) = take k (bumped now w ss) @ [bumped now w ss ! k]"
    using k by (simp add: take_Suc_conv_app_nth)
  have sh: "{i. i < Suc k \<and> eligible now w ss i} =
      (if eligible now w ss k then insert k {i. i < k \<and> eligible now w ss i} else {i. i < k \<and> eligible now w ss i})"
    by (auto simp: less_Suc_eq)
  show ?case
  proof (cases "eligible now w ss k")
    case False
    then have "round_visit now [w] k sc = Some (sc\<lparr>sc_n := 0, sc_m := push_bit k 1\<rparr>)"
      using k cur by (auto simp: round_visit_def tried_bit_eq and_exp_eq_0_iff_not_bit word_at_def eligible_def Let_def)
    then show ?thesis using run sc(2-4) False k tk sh
      by (auto simp: share_def best_upto_def leads_def Cons_nth_drop_Suc less_Suc_eq split: option.splits)
  next
    case True
    let ?x = "bump (ss ! k)"
    have bk: "current_weight ((take k (bumped now w ss) @ ?x # drop (Suc k) ss) ! b) = current_weight (bump (ss ! b))"
      if "sc_best sc = Some b" for b
      using that sc(4) k by (auto simp: best_upto_def leads_def nth_append)
    let ?b = "if case sc_best sc of None \<Rightarrow> True | Some b \<Rightarrow> current_weight ?x > current_weight (bump (ss ! b)) then Some k else sc_best sc"
    have "round_visit now [w] k sc = Some (sc\<lparr>sc_n := 0, sc_m := push_bit k 1,
        sc_servers := take k (bumped now w ss) @ ?x # drop (Suc k) ss, sc_total := sc_total sc + effective_weight (ss ! k),
        sc_best := ?b\<rparr>)"
      using True k cur bk upd
      by (auto simp: round_visit_def tried_bit_eq and_exp_eq_0_iff_not_bit word_at_def eligible_def Let_def bump_def split: option.splits)
    moreover have "best_upto now w ss (Suc k) ?b"
      using sc(4) True by (auto simp: best_upto_def leads_def less_Suc_eq split: option.splits)
    moreover have "share now w ss (Suc k) = share now w ss k + effective_weight (ss ! k)"
      using True by (simp add: share_def sh)
    ultimately show ?thesis using run sc(3) True k tk by simp
  qed
qed

text \<open>What one selection does, for a domain whose marks fit the first half of a word.\<close>

lemma once_ok:
  assumes "length (servers d) \<le> 31" "tried d = [w]"
  shows "\<exists>x d'. get_server_by_round_once now d = Some (x, d') \<and>
    best_upto now w (servers d) (length (servers d)) x \<and>
    d' = d\<lparr>servers := (case x of None \<Rightarrow> servers d | Some b \<Rightarrow>
        (bumped now w (servers d))[b := (bump (servers d ! b))\<lparr>current_weight :=
          current_weight (bump (servers d ! b)) - share now w (servers d) (length (servers d))\<rparr>]),
      tried := (case x of None \<Rightarrow> [w] | Some b \<Rightarrow> [w OR push_bit (length (servers d) - 1) 1])\<rparr>"
proof -
  let ?ss = "servers d"
  obtain sc where sc: "round_loop now [w] [0..<length ?ss] \<lparr>sc_servers = ?ss, sc_total = 0, sc_best = None, sc_n = 0, sc_m = 0\<rparr> = Some sc"
    "sc_servers sc = bumped now w ?ss" "sc_total sc = share now w ?ss (length ?ss)"
    "best_upto now w ?ss (length ?ss) (sc_best sc)" "sc_n sc = 0" "0 < length ?ss \<longrightarrow> sc_m sc = push_bit (length ?ss - 1) 1"
    using round_loop_ok [OF assms(1), of "length ?ss" now w] by auto
  show ?thesis
  proof (cases "sc_best sc")
    case None
    then have "bumped now w ?ss = ?ss" using sc(4) by (intro nth_equalityI) (auto simp: best_upto_def)
    then show ?thesis using None sc assms(2) by (simp add: get_server_by_round_once_def)
  next
    case (Some b)
    then have "b < length ?ss" "eligible now w ?ss b" using sc(4) by (auto simp: best_upto_def leads_def)
    then show ?thesis using Some sc assms(2) by (auto simp: get_server_by_round_once_def word_at_def Let_def)
  qed
qed

section \<open>The invariant of a server\<close>

definition server_ok :: "server \<Rightarrow> bool" where
  "server_ok s \<longleftrightarrow> 0 < weight s \<and> 0 \<le> effective_weight s \<and> effective_weight s \<le> weight s \<and> 0 \<le> fails s \<and> 0 \<le> max_fails s"

lemma bump_ok: "server_ok s \<Longrightarrow> server_ok (bump s)"
  by (auto simp: server_ok_def bump_def)

lemma refresh_ok: "server_ok s \<Longrightarrow> server_ok (snd (refresh now s))"
  by (auto simp: server_ok_def refresh_def Let_def)

lemma sdiv_nonneg: "0 \<le> a \<Longrightarrow> 0 < b \<Longrightarrow> 0 \<le> a sdiv (b::int)"
  by (auto simp: signed_divide_int_def sgn_if pos_imp_zdiv_nonneg_iff)

lemma free_server_ok: "server_ok s \<Longrightarrow> server_ok (free_server_after_round_select now s)"
  using sdiv_nonneg [of "weight s" "max_fails s"]
  by (auto simp: server_ok_def free_server_after_round_select_def Let_def)

section \<open>The share of every server\<close>

text \<open>
  A domain none of whose servers has failed: the effective weights are the weights. A request that
  finds its server at once prepares the domain and makes one selection.
\<close>

definition healthy :: "server \<Rightarrow> bool" where
  "healthy s \<longleftrightarrow> server_ok s \<and> effective_weight s = weight s \<and> fails s = 0 \<and> 0 < max_fails s \<and> us_state s = UPSTREAM_CONN_SUC"

text \<open>At start-up the state of the connection is not set; the first request sets it.\<close>

definition unfailed :: "server \<Rightarrow> bool" where
  "unfailed s \<longleftrightarrow> server_ok s \<and> effective_weight s = weight s \<and> fails s = 0 \<and> 0 < max_fails s"

definition pick :: "(nat \<Rightarrow> 64 word list option) \<Rightarrow> str \<Rightarrow> 32 word \<Rightarrow> domain list \<Rightarrow> (nat option \<times> domain list) option" where
  "pick block target now doms = do {
     (err, cur, doms) \<leftarrow> init_before_round now block (Some target) None doms;
     guard (err = OK);
     i \<leftarrow> cur;
     (b, d) \<leftarrow> get_server_by_round_once now (doms ! i);
     Some (b, doms[i := d])
   }"

fun picks :: "(nat \<Rightarrow> 64 word list option) \<Rightarrow> str \<Rightarrow> 32 word list \<Rightarrow> domain list \<Rightarrow> (nat option list \<times> domain list) option" where
  "picks block target [] doms = Some ([], doms)"
| "picks block target (now # nows) doms = do {
     (b, doms) \<leftarrow> pick block target now doms;
     (bs, doms) \<leftarrow> picks block target nows doms;
     Some (b # bs, doms)
   }"

text \<open>The weights after the choices \<open>bs\<close>: \<open>total\<close> is the sum of all weights.\<close>

definition total_weight :: "server list \<Rightarrow> int" where
  "total_weight ss = (\<Sum>j<length ss. weight (ss ! j))"

definition after_picks :: "server list \<Rightarrow> nat option list \<Rightarrow> server list" where
  "after_picks ss bs = map (\<lambda>j. (ss ! j)\<lparr>current_weight := current_weight (ss ! j) +
     int (length bs) * weight (ss ! j) - total_weight ss * int (count_list bs (Some j))\<rparr>) [0..<length ss]"

lemma after_picks_nth [simp]:
  "j < length ss \<Longrightarrow> after_picks ss bs ! j = (ss ! j)\<lparr>current_weight := current_weight (ss ! j) +
     int (length bs) * weight (ss ! j) - total_weight ss * int (count_list bs (Some j))\<rparr>"
  "length (after_picks ss bs) = length ss"
  by (simp_all add: after_picks_def)

lemma healthy_up: "healthy s \<Longrightarrow> \<not> is_server_down now s" and healthy_refresh: "healthy s \<Longrightarrow> refresh now s = (False, s)"
  by (auto simp: healthy_def is_server_down_def refresh_def)

text \<open>The next choice while no server has failed: the first server with the greatest sum of current weight and
  weight.\<close>

definition next_server :: "server list \<Rightarrow> nat option" where
  "next_server ss = find (\<lambda>b. \<forall>j<length ss. current_weight (ss ! j) + weight (ss ! j) \<le> current_weight (ss ! b) + weight (ss ! b)) [0..<length ss]"

lemma next_server_eq:
  assumes "b < length ss" "\<forall>j<length ss. current_weight (ss ! j) + weight (ss ! j) \<le> current_weight (ss ! b) + weight (ss ! b) \<and>
    (j < b \<longrightarrow> current_weight (ss ! j) + weight (ss ! j) < current_weight (ss ! b) + weight (ss ! b))"
  shows "next_server ss = Some b"
  unfolding next_server_def find_Some_iff using assms by (intro exI [of _ b]) (auto simp: not_le intro!: exI [of _ b])

lemma next_server_Some:
  assumes "next_server ss = Some b"
  shows "b < length ss" "\<forall>j<length ss. current_weight (ss ! j) + weight (ss ! j) \<le> current_weight (ss ! b) + weight (ss ! b)"
  using assms by (auto simp: next_server_def find_Some_iff)

text \<open>The next \<open>n\<close> choices.\<close>

fun choices :: "server list \<Rightarrow> nat \<Rightarrow> nat option list" where
  "choices ss 0 = []"
| "choices ss (Suc n) = next_server ss # choices (after_picks ss [next_server ss]) n"

lemma length_choices [simp]: "length (choices ss n) = n"
  by (induction n arbitrary: ss) simp_all

lemma after_picks_Nil [simp]: "after_picks ss [] = ss"
  by (intro nth_equalityI) simp_all

lemma after_picks_compose:
  "after_picks (after_picks ss as) bs = after_picks ss (as @ bs)"
  by (intro nth_equalityI) (simp_all add: total_weight_def algebra_simps)

lemma choices_append: "choices ss (m + n) = choices ss m @ choices (after_picks ss (choices ss m)) n"
  by (induction m arbitrary: ss) (simp_all add: after_picks_compose)

text \<open>One choice; its server had the greatest weight.\<close>

lemma once_healthy:
  assumes sd: "servers d = ss" "tried d = [0]" and ss: "0 < length ss" "length ss \<le> 31" "\<forall>s \<in> set ss. healthy s"
  shows "\<exists>b d'. get_server_by_round_once now d = Some (Some b, d') \<and> next_server ss = Some b \<and>
    servers d' = after_picks ss [Some b] \<and> domain_name d' = domain_name d"
proof -
  have el: "eligible now 0 ss j \<longleftrightarrow> j < length ss" for j using ss(3) by (auto simp: eligible_def healthy_up)
  have bu: "bump (ss ! j) = (ss ! j)\<lparr>current_weight := current_weight (ss ! j) + weight (ss ! j)\<rparr>" if "j < length ss" for j
    using ss(3) that nth_mem [OF that] by (auto simp: bump_def healthy_def)
  have ew: "effective_weight (ss ! j) = weight (ss ! j)" if "j < length ss" for j
    using ss(3) nth_mem [OF that] by (auto simp: healthy_def)
  have "share now 0 ss (length ss) = (\<Sum>j | j < length ss. weight (ss ! j))"
    unfolding share_def using el ew by (intro sum.cong) auto
  then have sh: "share now 0 ss (length ss) = total_weight ss" by (simp add: total_weight_def lessThan_def)
  obtain x d' where x: "get_server_by_round_once now d = Some (x, d')" "best_upto now 0 ss (length ss) x"
    "d' = d\<lparr>servers := (case x of None \<Rightarrow> ss | Some b \<Rightarrow> (bumped now 0 ss)[b := (bump (ss ! b))\<lparr>current_weight :=
          current_weight (bump (ss ! b)) - share now 0 ss (length ss)\<rparr>]),
      tried := (case x of None \<Rightarrow> [0] | Some b \<Rightarrow> [0 OR push_bit (length ss - 1) 1])\<rparr>"
    using once_ok [of d 0 now, unfolded sd] ss(2) by auto
  obtain b where b: "x = Some b" using x(2) el ss(1) by (cases x) (auto simp: best_upto_def)
  have lead: "b < length ss" "\<forall>j<length ss. current_weight (bump (ss ! j)) \<le> current_weight (bump (ss ! b)) \<and>
      (j < b \<longrightarrow> current_weight (bump (ss ! j)) < current_weight (bump (ss ! b)))"
    using x(2) b el by (auto simp: best_upto_def leads_def)
  have "next_server ss = Some b" using lead bu by (intro next_server_eq) auto
  moreover have "servers d' = after_picks ss [Some b]"
    using x(3) b lead(1) bu sh by (intro nth_equalityI) (auto simp: el nth_list_update)
  moreover have "domain_name d' = domain_name d" using x(3) by simp
  ultimately show ?thesis using x(1) b by blast
qed

lemma pick_healthy:
  assumes dom: "find_domain target doms = Some i" "i < length doms"
    and ss: "servers (doms ! i) = ss" "0 < length ss" "length ss \<le> 31" "\<forall>s \<in> set ss. healthy s"
  shows "\<exists>b d. next_server ss = Some b \<and> pick block target now doms = Some (Some b, doms[i := d]) \<and> domain_name d = domain_name (doms ! i) \<and>
    servers d = after_picks ss [Some b]"
proof -
  let ?d = "(doms ! i)\<lparr>tried := [0]\<rparr>"
  have "map (snd \<circ> refresh now) ss = ss" using ss(4) by (intro map_idI) (simp add: healthy_refresh)
  then have ref: "refresh_all now ?d = ?d"
    using ss(1,4) by (simp add: refresh_all_def healthy_refresh)
  have init: "init_before_round now block (Some target) None doms = Some (OK, Some i, doms[i := ?d])"
    using dom ss ref by (simp add: init_before_round_def Let_def)
  obtain b d where "get_server_by_round_once now ?d = Some (Some b, d)" "next_server ss = Some b"
    "servers d = after_picks ss [Some b]" "domain_name d = domain_name ?d"
    using once_healthy [of ?d ss now] ss by auto
  then show ?thesis using init dom(2) by (intro exI [of _ b] exI [of _ d]) (simp add: pick_def)
qed

lemma first_pick:
  assumes "find_domain target doms = Some i" "i < length doms" "servers (doms ! i) = ss" "\<forall>s \<in> set ss. unfailed s" "length ss \<le> 31"
    "find_domain target (doms[i := (doms ! i)\<lparr>servers := map (us_state_update (\<lambda>_. UPSTREAM_CONN_SUC)) ss\<rparr>]) = Some i"
  shows "pick block target now doms =
    pick block target now (doms[i := (doms ! i)\<lparr>servers := map (us_state_update (\<lambda>_. UPSTREAM_CONN_SUC)) ss\<rparr>])"
proof -
  have r: "refresh now s = (False, s\<lparr>us_state := UPSTREAM_CONN_SUC\<rparr>)" if "s \<in> set ss" for s
    using that assms(4) by (auto simp: unfailed_def refresh_def)
  have r2: "refresh now (s\<lparr>us_state := UPSTREAM_CONN_SUC\<rparr>) = (False, s\<lparr>us_state := UPSTREAM_CONN_SUC\<rparr>)" if "s \<in> set ss" for s
    using that assms(4) by (auto simp: unfailed_def refresh_def)
  have m: "map (snd \<circ> refresh now) ss = map (us_state_update (\<lambda>_. UPSTREAM_CONN_SUC)) ss"
    "map (snd \<circ> refresh now) (map (us_state_update (\<lambda>_. UPSTREAM_CONN_SUC)) ss) = map (us_state_update (\<lambda>_. UPSTREAM_CONN_SUC)) ss"
    using r r2 by simp_all
  have "refresh_all now ((doms ! i)\<lparr>tried := [0]\<rparr>) =
    refresh_all now ((doms ! i)\<lparr>servers := map (us_state_update (\<lambda>_. UPSTREAM_CONN_SUC)) ss, tried := [0]\<rparr>)"
    using assms(3) r r2 by (simp add: refresh_all_def m)
  then have "init_before_round now block (Some target) None doms =
    init_before_round now block (Some target) None (doms[i := (doms ! i)\<lparr>servers := map (us_state_update (\<lambda>_. UPSTREAM_CONN_SUC)) ss\<rparr>])"
    using assms by (simp add: init_before_round_def Let_def)
  then show ?thesis by (simp add: pick_def)
qed

lemma healthy_after [simp]: "\<forall>s \<in> set ss. healthy s \<Longrightarrow> \<forall>s \<in> set (after_picks ss bs). healthy s"
  using nth_mem by (fastforce simp: after_picks_def healthy_def server_ok_def)

lemma count_sum:
  fixes n :: nat
  shows "\<forall>b \<in> set bs. \<exists>j<n. b = Some j \<Longrightarrow> (\<Sum>j<n. int (count_list bs (Some j))) = int (length bs)"
proof (induction bs)
  case (Cons b bs)
  then obtain j where j: "j < n" "b = Some j" by auto
  have "(\<Sum>k<n. int (count_list (b # bs) (Some k))) = (\<Sum>k<n. int (count_list bs (Some k)) + (if k = j then 1 else 0))"
    using j by (intro sum.cong) auto
  moreover have "(\<Sum>k<n. if k = j then 1 else (0 :: int)) = 1" using j by simp
  ultimately show ?case using Cons by (simp add: sum.distrib del: count_list.simps)
qed simp

text \<open>No weight ever falls below the negative of the total.\<close>

definition bounded_below :: "server list \<Rightarrow> bool" where
  "bounded_below ss \<longleftrightarrow> (\<Sum>j<length ss. current_weight (ss ! j)) = 0 \<and> (\<forall>j<length ss. - total_weight ss < current_weight (ss ! j))"

lemma bounded_step:
  assumes "bounded_below ss" "b < length ss" "\<forall>j<length ss. 0 < weight (ss ! j)"
    "\<forall>j<length ss. current_weight (ss ! j) + weight (ss ! j) \<le> current_weight (ss ! b) + weight (ss ! b)"
  shows "bounded_below (after_picks ss [Some b])"
proof -
  let ?n = "length ss" and ?W = "total_weight ss"
  have W: "total_weight (after_picks ss [Some b]) = ?W" by (simp add: total_weight_def)
  have cw: "current_weight (after_picks ss [Some b] ! j) = current_weight (ss ! j) + weight (ss ! j) - (if j = b then ?W else 0)"
    if "j < ?n" for j using that by simp
  have tot: "(\<Sum>j<?n. current_weight (ss ! j) + weight (ss ! j)) = ?W"
    using assms(1) by (simp add: sum.distrib bounded_below_def total_weight_def)
  have "0 < ?W" unfolding total_weight_def using assms(2,3) by (intro sum_pos) auto
  have pos: "0 < current_weight (ss ! b) + weight (ss ! b)"
  proof (rule ccontr)
    assume "\<not> ?thesis"
    then have "(\<Sum>j<?n. current_weight (ss ! j) + weight (ss ! j)) \<le> 0" using assms(4) by (intro sum_nonpos) force
    then show False using tot \<open>0 < ?W\<close> by simp
  qed
  have "(\<Sum>j<?n. current_weight (after_picks ss [Some b] ! j)) =
      (\<Sum>j<?n. current_weight (ss ! j) + weight (ss ! j)) - (\<Sum>j<?n. if j = b then ?W else 0)"
    unfolding sum_subtractf [symmetric] using cw by (intro sum.cong) auto
  then have "(\<Sum>j<?n. current_weight (after_picks ss [Some b] ! j)) = 0" using tot assms(2) by simp
  moreover have "- ?W < current_weight (after_picks ss [Some b] ! j)" if "j < ?n" for j
  proof -
    have "- ?W < current_weight (ss ! j)" "0 < weight (ss ! j)" using assms(1,3) that by (auto simp: bounded_below_def)
    then show ?thesis using cw [OF that] pos by auto
  qed
  ultimately show ?thesis using W by (simp add: bounded_below_def)
qed

lemma find_domain_name: "find_domain target doms = Some i \<Longrightarrow> i < length doms \<Longrightarrow> domain_name d = domain_name (doms ! i) \<Longrightarrow>
  find_domain target (doms[i := d]) = Some i"
proof (induction doms arbitrary: i)
  case (Cons e doms)
  then show ?case by (cases "stringEq target (domain_name e)"; cases i) (auto split: if_splits)
qed simp

lemma picks_healthy:
  assumes "find_domain target doms = Some i" "i < length doms" "servers (doms ! i) = ss" "0 < length ss" "length ss \<le> 31"
    "\<forall>s \<in> set ss. healthy s" "bounded_below ss"
  shows "\<exists>d. picks block target nows doms = Some (choices ss (length nows), doms[i := d]) \<and>
    (\<forall>b \<in> set (choices ss (length nows)). \<exists>j<length ss. b = Some j) \<and> servers d = after_picks ss (choices ss (length nows)) \<and>
    bounded_below (after_picks ss (choices ss (length nows)))"
  using assms
proof (induction nows arbitrary: doms ss)
  case Nil
  then show ?case by (intro exI [of _ "doms ! i"]) auto
next
  case (Cons now nows)
  obtain b d where b: "next_server ss = Some b" "pick block target now doms = Some (Some b, doms[i := d])"
    "domain_name d = domain_name (doms ! i)" "servers d = after_picks ss [Some b]"
    using pick_healthy [OF Cons.prems(1-6)] by blast
  note lead = next_server_Some [OF b(1)]
  let ?doms = "doms[i := d]" and ?ss = "after_picks ss [Some b]"
  have w: "\<forall>j<length ss. 0 < weight (ss ! j)" using Cons.prems(6) by (auto simp: healthy_def server_ok_def)
  have bb: "bounded_below ?ss" by (rule bounded_step [OF Cons.prems(7) lead(1) w lead(2)])
  have f: "find_domain target ?doms = Some i" by (rule find_domain_name [OF Cons.prems(1,2) b(3)])
  obtain d' where r: "picks block target nows ?doms = Some (choices ?ss (length nows), ?doms[i := d'])"
    "\<forall>b \<in> set (choices ?ss (length nows)). \<exists>j<length ss. b = Some j" "servers d' = after_picks ?ss (choices ?ss (length nows))"
    "bounded_below (after_picks ?ss (choices ?ss (length nows)))"
    using Cons.IH [OF f _ _ _ _ _ bb] Cons.prems(2-6) b(4) by auto
  have "picks block target (now # nows) doms = Some (choices ss (length (now # nows)), doms[i := d'])" using b(1,2) r(1) by simp
  then show ?case using r(2-4) b(1) lead(1) by (intro exI [of _ d']) (auto simp: after_picks_compose)
qed

text \<open>After as many requests as the weights add up to, every server has had its share exactly.\<close>

lemma full_round:
  assumes "bounded_below (after_picks ss bs)" "length bs = nat (total_weight ss)" "\<forall>b \<in> set bs. \<exists>j<length ss. b = Some j"
    "\<forall>j<length ss. current_weight (ss ! j) = 0 \<and> 0 < weight (ss ! j)" "j < length ss"
  shows "int (count_list bs (Some j)) = weight (ss ! j)"
proof -
  let ?n = "length ss" and ?W = "total_weight ss" and ?c = "\<lambda>j. int (count_list bs (Some j))"
  have "0 < ?W" unfolding total_weight_def using assms(4,5) by (intro sum_pos) auto
  then have len: "int (length bs) = ?W" using assms(2) by simp
  have le: "?c k \<le> weight (ss ! k)" if "k < ?n" for k
  proof -
    have "- ?W < ?W * weight (ss ! k) - ?W * ?c k"
      using assms(1,4) that len by (auto simp: bounded_below_def total_weight_def)
    then have "?W * ?c k < ?W * (weight (ss ! k) + 1)" by (simp add: algebra_simps)
    then show ?thesis using \<open>0 < ?W\<close> by simp
  qed
  have "(\<Sum>k<?n. weight (ss ! k) - ?c k) = 0"
    using count_sum [OF assms(3)] len by (simp add: sum_subtractf total_weight_def)
  moreover have "\<forall>k \<in> {..<?n}. 0 \<le> weight (ss ! k) - ?c k" using le by auto
  ultimately have "\<forall>k \<in> {..<?n}. weight (ss ! k) - ?c k = 0" by (subst (asm) sum_nonneg_eq_0_iff) auto
  then show ?thesis using assms(5) by force
qed

lemma after_full_round:
  assumes "length bs = nat (total_weight ss)" "0 < total_weight ss" "\<forall>j<length ss. int (count_list bs (Some j)) = weight (ss ! j)"
  shows "after_picks ss bs = ss"
  using assms by (intro nth_equalityI) simp_all

section \<open>The loop over the servers\<close>

text \<open>
  An attempt to connect: the server's index, the server as it was then, and the answer. \<open>run_attempts\<close>
  makes the attempts of a list again, one after the other, each with the answer of the list.
\<close>

type_synonym attempt = "nat \<times> server \<times> rc"

definition succeeded :: "attempt \<Rightarrow> bool" where
  "succeeded a \<longleftrightarrow> snd (snd a) \<in> {OK, AGAIN}"

fun run_attempts :: "(nat \<Rightarrow> server \<Rightarrow> 'w \<Rightarrow> (rc \<times> 'w) option) \<Rightarrow> attempt list \<Rightarrow> 'w \<Rightarrow> 'w option" where
  "run_attempts connect [] w = Some w"
| "run_attempts connect (a # as) w = do {
     (err, w) \<leftarrow> connect (fst a) (fst (snd a)) w;
     guard (err = snd (snd a));
     run_attempts connect as w
   }"

text \<open>The server of an attempt is one of the domain and was not down.\<close>

definition attempt_ok :: "32 word \<Rightarrow> server list \<Rightarrow> attempt \<Rightarrow> bool" where
  "attempt_ok now ss a \<longleftrightarrow> fst a < length ss \<and> location_of (fst (snd a)) = location_of (ss ! fst a) \<and> \<not> is_server_down now (fst (snd a))"

lemma attempt_ok_cong: "map location_of ss = map location_of ss' \<Longrightarrow> attempt_ok now ss a = attempt_ok now ss' a"
  unfolding attempt_ok_def by (metis length_map nth_map)

definition small_domain :: "domain \<Rightarrow> nat \<Rightarrow> bool" where
  "small_domain d n \<longleftrightarrow> length (servers d) = n \<and> n \<le> 31 \<and> length (tried d) = 1 \<and> (\<forall>s \<in> set (servers d). server_ok s)"

lemma all_nth_ok: "\<forall>s \<in> set ss. server_ok s \<Longrightarrow> i < length ss \<Longrightarrow> server_ok (ss ! i)"
  by simp

lemma update_ok: "\<forall>s \<in> set ss. server_ok s \<Longrightarrow> server_ok x \<Longrightarrow> \<forall>s \<in> set (ss[i := x]). server_ok s"
  using set_update_subset_insert [of ss i x] by blast

lemma bumped_ok: "\<forall>s \<in> set ss. server_ok s \<Longrightarrow> \<forall>s \<in> set (bumped now w ss). server_ok s"
  by (auto simp: bumped_def bump_ok)

lemma bump_location [simp]: "location_of (bump s) = location_of s"
  by (simp add: bump_def)

lemma bumped_locations: "map location_of (bumped now w ss) = map location_of ss"
  by (intro nth_equalityI) auto

lemma down_bump [simp]: "is_server_down now ((bump s)\<lparr>current_weight := c\<rparr>) = is_server_down now s"
  by (simp add: is_server_down_def in_fail_time_def bump_def)

lemma once_small:
  assumes "small_domain d n"
  shows "\<exists>x d'. get_server_by_round_once now d = Some (x, d') \<and> small_domain d' n \<and>
    map location_of (servers d') = map location_of (servers d) \<and>
    (case x of None \<Rightarrow> \<forall>j<n. \<not> eligible now (hd (tried d)) (servers d) j
     | Some b \<Rightarrow> attempt_ok now (servers d) (b, servers d' ! b, err))"
proof -
  obtain w where w: "tried d = [w]" using assms by (auto simp: small_domain_def length_Suc_conv)
  have ss: "length (servers d) = n" "n \<le> 31" "\<forall>s \<in> set (servers d). server_ok s" using assms by (auto simp: small_domain_def)
  obtain x d' where x: "get_server_by_round_once now d = Some (x, d')" "best_upto now w (servers d) (length (servers d)) x"
    "servers d' = (case x of None \<Rightarrow> servers d | Some b \<Rightarrow>
        (bumped now w (servers d))[b := (bump (servers d ! b))\<lparr>current_weight :=
          current_weight (bump (servers d ! b)) - share now w (servers d) (length (servers d))\<rparr>])"
    "tried d' = (case x of None \<Rightarrow> [w] | Some b \<Rightarrow> [w OR push_bit (length (servers d) - 1) 1])"
    using once_ok [of d w now] w ss(1,2) by (auto split: option.splits)
  show ?thesis
  proof (cases x)
    case None
    then show ?thesis using x ss w by (simp add: small_domain_def best_upto_def)
  next
    case (Some b)
    then have b: "b < n" "eligible now w (servers d) b" using x(2) ss(1) by (auto simp: best_upto_def leads_def)
    then have "server_ok (bump (servers d ! b))" using ss by (simp add: bump_ok)
    then have "server_ok ((bump (servers d ! b))\<lparr>current_weight := c\<rparr>)" for c by (simp add: server_ok_def)
    then have "\<forall>s \<in> set (servers d'). server_ok s"
      unfolding x(3) Some option.case by (intro update_ok [OF bumped_ok [OF ss(3)]])
    moreover have "length (servers d') = n" "length (tried d') = 1" using x(3,4) Some ss(1) by simp_all
    ultimately have "small_domain d' n" using ss(2) by (simp add: small_domain_def)
    moreover have "map location_of (servers d') = map location_of (servers d)"
      using x(3) Some b(1) ss(1) by (simp add: map_update bumped_locations) (metis length_map list_update_id nth_map)
    moreover have "attempt_ok now (servers d) (b, servers d' ! b, err)"
      using x(3) Some b ss(1) by (simp add: attempt_ok_def eligible_def)
    ultimately show ?thesis using x(1) Some by simp
  qed
qed

lemma mark_failed_ok:
  assumes "small_domain d n" "b < n"
  shows "small_domain (d\<lparr>servers := (servers d)[b := free_server_after_round_select now ((servers d ! b)\<lparr>us_state := UPSTREAM_CONN_FAIL\<rparr>)]\<rparr>) n"
    "map location_of ((servers d)[b := free_server_after_round_select now ((servers d ! b)\<lparr>us_state := UPSTREAM_CONN_FAIL\<rparr>)]) =
      map location_of (servers d)"
proof -
  have ss: "b < length (servers d)" "\<forall>s \<in> set (servers d). server_ok s" using assms by (auto simp: small_domain_def)
  then have "server_ok ((servers d ! b)\<lparr>us_state := UPSTREAM_CONN_FAIL\<rparr>)" using all_nth_ok by (simp add: server_ok_def)
  then have "\<forall>s \<in> set ((servers d)[b := free_server_after_round_select now ((servers d ! b)\<lparr>us_state := UPSTREAM_CONN_FAIL\<rparr>)]). server_ok s"
    by (intro update_ok [OF ss(2)] free_server_ok)
  then show "small_domain (d\<lparr>servers := (servers d)[b := free_server_after_round_select now ((servers d ! b)\<lparr>us_state := UPSTREAM_CONN_FAIL\<rparr>)]\<rparr>) n"
    using assms(1) by (simp add: small_domain_def)
  have "location_of (free_server_after_round_select now ((servers d ! b)\<lparr>us_state := UPSTREAM_CONN_FAIL\<rparr>)) = map location_of (servers d) ! b"
    using ss(1) by (simp add: free_server_after_round_select_def Let_def)
  then show "map location_of ((servers d)[b := free_server_after_round_select now ((servers d ! b)\<lparr>us_state := UPSTREAM_CONN_FAIL\<rparr>)]) =
      map location_of (servers d)" by (simp add: map_update)
qed

text \<open>The loop, with the list of its attempts.\<close>

lemma try_servers_ok:
  assumes "small_domain d n" "P w" "\<forall>b us w. P w \<longrightarrow> (\<exists>err w'. connect b us w = Some (err, w') \<and> P w')"
  shows "\<exists>as d' tries' w'. try_servers connect now d tries w = Some (d', tries', as \<noteq> [] \<and> succeeded (last as), w') \<and> small_domain d' n \<and>
    run_attempts connect as w = Some w' \<and> length as \<le> n - tries \<and> (\<forall>a \<in> set as. attempt_ok now (servers d) a) \<and>
    (\<forall>a \<in> set (butlast as). \<not> succeeded a) \<and> (as = [] \<and> tries < n \<longrightarrow> (\<forall>j<n. \<not> eligible now (hd (tried d)) (servers d) j)) \<and>
    (if as \<noteq> [] \<and> succeeded (last as) then tries' \<le> n else n \<le> tries') \<and> P w'"
  using assms(1,2)
proof (induction "n - tries" arbitrary: d tries w rule: less_induct)
  case less
  have len: "length (servers d) = n" using less.prems by (simp add: small_domain_def)
  show ?case
  proof (cases "tries < n")
    case False
    then show ?thesis using len less.prems by (subst try_servers.simps) (intro exI [of _ "[]"] exI [of _ d] exI [of _ tries] exI [of _ w], simp)
  next
    case True
    obtain x d1 where x: "get_server_by_round_once now d = Some (x, d1)" "small_domain d1 n" "map location_of (servers d1) = map location_of (servers d)"
      "case x of None \<Rightarrow> \<forall>j<n. \<not> eligible now (hd (tried d)) (servers d) j | Some b \<Rightarrow> attempt_ok now (servers d) (b, servers d1 ! b, OK)"
      using once_small [OF less.prems(1)] by blast
    have dec: "n - (tries + 1) < n - tries" using True by simp
    note cong = attempt_ok_cong [OF x(3)]
    show ?thesis
    proof (cases x)
      case None
      have "try_servers connect now d tries w = try_servers connect now d1 (tries + 1) w"
        using True len x(1) None by (subst try_servers.simps) simp
      moreover have "\<forall>j<n. \<not> eligible now (hd (tried d)) (servers d) j" using x(4) None by simp
      moreover obtain as d' tries' w' where r: "try_servers connect now d1 (tries + 1) w = Some (d', tries', as \<noteq> [] \<and> succeeded (last as), w')"
        "small_domain d' n" "run_attempts connect as w = Some w'" "length as \<le> n - (tries + 1)" "\<forall>a \<in> set as. attempt_ok now (servers d) a"
        "\<forall>a \<in> set (butlast as). \<not> succeeded a" "if as \<noteq> [] \<and> succeeded (last as) then tries' \<le> n else n \<le> tries'" "P w'"
        using less.hyps [OF dec x(2) less.prems(2)] unfolding cong by metis
      moreover have "length as \<le> n - tries" using r(4) by simp
      ultimately show ?thesis
        by (intro exI [of _ as] exI [of _ d'] exI [of _ tries'] exI [of _ w']) simp
    next
      case (Some b)
      obtain err w1 where c: "connect b (servers d1 ! b) w = Some (err, w1)" and P: "P w1"
        using assms(3) less.prems(2) by blast
      let ?a = "(b, servers d1 ! b, err)"
      have a: "attempt_ok now (servers d) ?a" using x(4) Some by (simp add: attempt_ok_def)
      have b: "b < n" using a len by (simp add: attempt_ok_def)
      show ?thesis
      proof (cases "succeeded ?a")
        case ok: True
        then have "try_servers connect now d tries w = Some (d1, tries + 1, True, w1)"
          using True len x(1) Some c by (subst try_servers.simps) (auto simp: succeeded_def)
        then show ?thesis using x(2) True P ok a c
          by (intro exI [of _ "[?a]"] exI [of _ d1] exI [of _ "tries + 1"] exI [of _ w1]) simp
      next
        case failed: False
        let ?d2 = "d1\<lparr>servers := (servers d1)[b := free_server_after_round_select now ((servers d1 ! b)\<lparr>us_state := UPSTREAM_CONN_FAIL\<rparr>)]\<rparr>"
        note f = mark_failed_ok [OF x(2) b, of now]
        have "try_servers connect now d tries w = try_servers connect now ?d2 (tries + 1) w1"
          using True len x(1) Some c failed by (subst try_servers.simps) (auto simp: succeeded_def)
        moreover have "attempt_ok now (servers ?d2) = attempt_ok now (servers d)" using f(2) x(3) by (intro ext attempt_ok_cong) simp
        ultimately obtain as d' tries' w' where r: "try_servers connect now d tries w = Some (d', tries', as \<noteq> [] \<and> succeeded (last as), w')"
          "small_domain d' n" "run_attempts connect as w1 = Some w'" "length as \<le> n - (tries + 1)" "\<forall>a \<in> set as. attempt_ok now (servers d) a"
          "\<forall>a \<in> set (butlast as). \<not> succeeded a" "if as \<noteq> [] \<and> succeeded (last as) then tries' \<le> n else n \<le> tries'" "P w'"
          using less.hyps [OF dec f(1) P] by metis
        have e: "(?a # as \<noteq> [] \<and> succeeded (last (?a # as))) = (as \<noteq> [] \<and> succeeded (last as))"
          and bl: "\<forall>x \<in> set (butlast (?a # as)). \<not> succeeded x" using failed r(6) by (cases as; simp)+
        have "run_attempts connect (?a # as) w = Some w'" "length (?a # as) \<le> n - tries" "\<forall>x \<in> set (?a # as). attempt_ok now (servers d) x"
          using c r(3-5) a True by simp_all
        then show ?thesis using r(1,2,7,8) bl e
          by (intro exI [of _ "?a # as"] exI [of _ d'] exI [of _ tries'] exI [of _ w']) (simp only: e, blast)
      qed
    qed
  qed
qed

lemma init_ok:
  assumes "find_domain target doms = Some i" "i < length doms" "length (servers (doms ! i)) \<le> 31"
    "\<forall>s \<in> set (servers (doms ! i)). server_ok s"
  shows "\<exists>d. init_before_round now block (Some target) None doms = Some (OK, Some i, doms[i := d]) \<and>
    small_domain d (length (servers (doms ! i))) \<and> map location_of (servers d) = map location_of (servers (doms ! i)) \<and>
    (\<forall>j<length (servers (doms ! i)). eligible now (hd (tried d)) (servers d) j \<longleftrightarrow> \<not> is_server_down now (servers (doms ! i) ! j))"
proof -
  let ?d = "refresh_all now ((doms ! i)\<lparr>tried := [0]\<rparr>)"
  have "init_before_round now block (Some target) None doms = Some (OK, Some i, doms[i := ?d])"
    using assms(1-3) by (simp add: init_before_round_def Let_def)
  moreover have "small_domain ?d (length (servers (doms ! i)))"
    using assms(3,4) by (auto simp: small_domain_def refresh_all_def refresh_ok)
  moreover have "map location_of (servers ?d) = map location_of (servers (doms ! i))" by (simp add: refresh_all_def refresh_def Let_def)
  moreover have "is_server_down now (snd (refresh now s)) = is_server_down now s" if "server_ok s" for s
    using that by (auto simp: is_server_down_def refresh_def Let_def in_fail_time_def server_ok_def)
  then have "\<forall>j<length (servers (doms ! i)). eligible now (hd (tried ?d)) (servers ?d) j \<longleftrightarrow> \<not> is_server_down now (servers (doms ! i) ! j)"
    using assms(4) by (simp add: eligible_def refresh_all_def)
  ultimately show ?thesis by blast
qed

section \<open>Properties\<close>

text \<open>C19. One selection of a domain with at most 31 servers: it answers null only if every server is down or
  marked as tried, and otherwise a server that is neither, with the greatest sum of current and effective weight,
  the first of several. The mark that is set is that of the last server of the array.\<close>

theorem get_server_by_round_once_selects:
  assumes "length (servers d) \<le> 31" "tried d = [w]"
  shows "\<exists>x d'. get_server_by_round_once now d = Some (x, d') \<and>
    (case x of
      None \<Rightarrow> d' = d \<and> (\<forall>j<length (servers d). \<not> eligible now w (servers d) j)
    | Some b \<Rightarrow> leads now w (servers d) (length (servers d)) b \<and> tried d' = [w OR push_bit (length (servers d) - 1) 1] \<and>
        current_weight (servers d' ! b) = current_weight (servers d ! b) + effective_weight (servers d ! b) -
          (\<Sum>j | j < length (servers d) \<and> eligible now w (servers d) j. effective_weight (servers d ! j)))"
proof -
  obtain x d' where x: "get_server_by_round_once now d = Some (x, d')" "best_upto now w (servers d) (length (servers d)) x"
    "d' = d\<lparr>servers := (case x of None \<Rightarrow> servers d | Some b \<Rightarrow>
        (bumped now w (servers d))[b := (bump (servers d ! b))\<lparr>current_weight :=
          current_weight (bump (servers d ! b)) - share now w (servers d) (length (servers d))\<rparr>]),
      tried := (case x of None \<Rightarrow> [w] | Some b \<Rightarrow> [w OR push_bit (length (servers d) - 1) 1])\<rparr>"
    using once_ok [OF assms, of now] by blast
  have "b < length (servers d)" if "x = Some b" for b using x(2) that by (auto simp: best_upto_def leads_def)
  then show ?thesis using x assms(2) by (auto simp: best_upto_def share_def bump_def split: option.splits)
qed

definition example_server :: "int \<Rightarrow> int \<Rightarrow> 16 word \<Rightarrow> server" where
  "example_server w c port = \<lparr>weight = w, effective_weight = w, current_weight = c, status_changed = False, fails = 0, max_fails = 1,
     us_state = UPSTREAM_CONN_SUC, last_failed = 0, fail_timeout = 10000,
     location_of = \<lparr>loc_host = STRING ''127.0.0.1'', loc_port = port, loc_weight = w, loc_max_fails = 1, loc_fail_timedout = 10000\<rparr>\<rparr>"

definition example_domain :: domain where
  "example_domain = \<lparr>domain_name = STRING ''a'', servers = [example_server 2 0 3010, example_server 1 0 3011],
     tried = [0], init_state = IDLE, cycle_of = None\<rparr>"

lemma example_healthy: "\<forall>s \<in> set (servers example_domain). healthy s"
  by (simp add: example_domain_def example_server_def healthy_def server_ok_def)

lemma example_find: "find_domain (STRING ''a'') [example_domain] = Some 0"
  by (simp add: example_domain_def stringEq_STRING) (simp add: STRING_def stringEq_def code_def)

theorem get_server_by_round_once_selects_witness:
  "\<exists>d'. get_server_by_round_once 0 example_domain = Some (Some 0, d') \<and> tried d' = [2] \<and> current_weight (servers d' ! 0) = - 1"
proof -
  have el: "eligible 0 0 (servers example_domain) j \<longleftrightarrow> j < 2" for j
    by (auto simp: eligible_def example_domain_def less_Suc_eq numeral_2_eq_2 example_server_def is_server_down_def)
  have ss: "servers example_domain = [example_server 2 0 3010, example_server 1 0 3011]" "tried example_domain = [0]"
    by (simp_all add: example_domain_def)
  have len: "length (servers example_domain) = 2" by (simp add: ss)
  have c: "0 OR push_bit (2 - 1) 1 = (2 :: 64 word)" by simp
  have two: "{j. j < 2} = {0, 1 :: nat}" "{j. j < Suc (Suc 0)} = {0, 1 :: nat}" by auto
  obtain x d' where x: "get_server_by_round_once 0 example_domain = Some (x, d')"
    "case x of
      None \<Rightarrow> d' = example_domain \<and> (\<forall>j<2. \<not> eligible 0 0 (servers example_domain) j)
    | Some b \<Rightarrow> leads 0 0 (servers example_domain) 2 b \<and> tried d' = [2] \<and>
        current_weight (servers d' ! b) = current_weight (servers example_domain ! b) + effective_weight (servers example_domain ! b) -
          (\<Sum>j | j < 2 \<and> eligible 0 0 (servers example_domain) j. effective_weight (servers example_domain ! j))"
    using get_server_by_round_once_selects [of example_domain 0 0, unfolded len c] ss by auto
  then obtain b where b: "x = Some b" using el [of 0] by (cases x) auto
  then have l: "leads 0 0 (servers example_domain) 2 b" using x(2) by simp
  have "b = 0"
  proof (rule ccontr)
    assume "b \<noteq> 0"
    then have "b = 1" using l by (simp add: leads_def)
    then have "current_weight (bump (servers example_domain ! 0)) < current_weight (bump (servers example_domain ! 1))"
      using l el [of 0] spec [of _ 0] unfolding leads_def by (metis zero_less_one zero_less_numeral)
    then show False by (simp add: ss bump_def example_server_def)
  qed
  then show ?thesis using x b el ss by (simp add: two example_server_def)
qed

text \<open>The first request sets the state of the connections; from then on the servers are healthy.\<close>

abbreviation settled :: "server list \<Rightarrow> server list" where
  "settled ss \<equiv> map (us_state_update (\<lambda>_. UPSTREAM_CONN_SUC)) ss"

lemma next_server_settled: "next_server (settled ss) = next_server ss"
  unfolding next_server_def by (intro find_cong) auto

lemma settled_healthy: "\<forall>s \<in> set ss. unfailed s \<Longrightarrow> \<forall>s \<in> set (settled ss). healthy s"
  by (auto simp: healthy_def unfailed_def server_ok_def)

lemma picks_unfailed:
  assumes dom: "find_domain target doms = Some i" "i < length doms" "servers (doms ! i) = ss" "0 < length ss" "length ss \<le> 31"
    and ss: "\<forall>s \<in> set ss. unfailed s \<and> current_weight s = 0" and "nows \<noteq> []"
  shows "\<exists>d. picks block target nows doms = Some (choices (settled ss) (length nows), doms[i := d]) \<and>
    (\<forall>b \<in> set (choices (settled ss) (length nows)). \<exists>j<length ss. b = Some j) \<and>
    servers d = after_picks (settled ss) (choices (settled ss) (length nows)) \<and>
    bounded_below (after_picks (settled ss) (choices (settled ss) (length nows))) \<and> 0 < total_weight (settled ss)"
proof -
  let ?d = "(doms ! i)\<lparr>servers := settled ss\<rparr>"
  have h: "\<forall>s \<in> set (settled ss). healthy s" "\<forall>j<length ss. current_weight (ss ! j) = 0 \<and> 0 < weight (ss ! j)"
    using ss by (auto simp: healthy_def unfailed_def server_ok_def)
  have "0 < total_weight ss" unfolding total_weight_def using dom(4) h(2) by (intro sum_pos) auto
  then have pos: "0 < total_weight (settled ss)" by (simp add: total_weight_def)
  then have bb: "bounded_below (settled ss)" using h(2) by (simp add: bounded_below_def)
  have f: "find_domain target (doms[i := ?d]) = Some i" by (rule find_domain_name [OF dom(1,2)]) simp
  have "picks block target nows doms = picks block target nows (doms[i := ?d])"
  proof (cases nows)
    case (Cons now rest)
    have "pick block target now doms = pick block target now (doms[i := ?d])"
      using first_pick [OF dom(1-3) _ dom(5)] ss f by simp
    then show ?thesis by (simp add: Cons)
  qed (use assms(7) in simp)
  then show ?thesis using picks_healthy [OF f _ _ _ _ h(1) bb, of block nows] dom(2,4,5) pos by auto
qed

lemma full_choices:
  assumes "find_domain target doms = Some i" "i < length doms" "servers (doms ! i) = ss" "0 < length ss" "length ss \<le> 31"
    "\<forall>s \<in> set ss. unfailed s \<and> current_weight s = 0" and n: "n = nat (\<Sum>j<length ss. weight (ss ! j))"
  shows "0 < n" "\<forall>j<length ss. int (count_list (choices (settled ss) n) (Some j)) = weight (ss ! j)"
    "after_picks (settled ss) (choices (settled ss) n) = settled ss"
proof -
  have w: "\<forall>j<length ss. current_weight (settled ss ! j) = 0 \<and> 0 < weight (settled ss ! j)"
    using assms(6) by (auto simp: unfailed_def server_ok_def)
  have W: "n = nat (total_weight (settled ss))" using n by (simp add: total_weight_def)
  have "0 < total_weight (settled ss)" unfolding total_weight_def using assms(4) w by (intro sum_pos) auto
  then show pos: "0 < n" using W by simp
  obtain d where d: "\<forall>b \<in> set (choices (settled ss) n). \<exists>j<length ss. b = Some j"
    "bounded_below (after_picks (settled ss) (choices (settled ss) n))"
    using picks_unfailed [OF assms(1-6), of "replicate n 0"] pos by auto
  have share: "int (count_list (choices (settled ss) n) (Some j)) = weight (settled ss ! j)" if "j < length ss" for j
    using full_round [OF d(2)] d(1) w W that by simp
  then show "\<forall>j<length ss. int (count_list (choices (settled ss) n) (Some j)) = weight (ss ! j)" by simp
  show "after_picks (settled ss) (choices (settled ss) n) = settled ss"
    using share W pos by (intro after_full_round) simp_all
qed

lemma round_robin_fair_from:
  assumes "find_domain target doms = Some i" "i < length doms" "servers (doms ! i) = ss" "0 < length ss" "length ss \<le> 31"
    "\<forall>s \<in> set ss. unfailed s \<and> current_weight s = 0" "length nows = nat (\<Sum>j<length ss. weight (ss ! j))"
  shows "\<exists>bs d. picks block target nows doms = Some (bs, doms[i := d]) \<and>
    (\<forall>j<length ss. int (count_list bs (Some j)) = weight (ss ! j)) \<and> servers d = settled ss"
proof -
  note full = full_choices [OF assms(1-7)]
  then have "nows \<noteq> []" by auto
  then show ?thesis using picks_unfailed [OF assms(1-6), of nows block] full(2,3) by auto
qed

text \<open>The choices are periodic, so that every window of the length of a full round has the shares of a full round.\<close>

lemma windows_fair:
  assumes "find_domain target doms = Some i" "i < length doms" "servers (doms ! i) = ss" "0 < length ss" "length ss \<le> 31"
    "\<forall>s \<in> set ss. unfailed s \<and> current_weight s = 0" and n: "n = nat (\<Sum>j<length ss. weight (ss ! j))"
  shows "\<exists>bs doms'. picks block target nows doms = Some (bs, doms') \<and> length bs = length nows \<and>
    (\<forall>a j. a + n \<le> length nows \<longrightarrow> j < length ss \<longrightarrow> int (count_list (take n (drop a bs)) (Some j)) = weight (ss ! j))"
proof (cases "nows = []")
  case True
  then show ?thesis using full_choices(1) [OF assms] by simp
next
  case False
  let ?c = "choices (settled ss)" and ?m = "length nows"
  note full = full_choices [OF assms]
  obtain d where d: "picks block target nows doms = Some (?c ?m, doms[i := d])"
    using picks_unfailed [OF assms(1-6) False] by blast
  have "int (count_list (take n (drop a (?c ?m))) (Some j)) = weight (ss ! j)" if a: "a + n \<le> ?m" "j < length ss" for a j
  proof -
    let ?win = "choices (after_picks (settled ss) (?c a)) n"
    have 1: "?c (a + n) = ?c a @ ?win" by (rule choices_append)
    have 2: "?c (n + a) = ?c n @ ?c a" using choices_append [of "settled ss" n a] full(3) by simp
    have "?c ?m = ?c (a + n) @ choices (after_picks (settled ss) (?c (a + n))) (?m - (a + n))"
      using choices_append [of "settled ss" "a + n" "?m - (a + n)"] a(1) by simp
    then have "take n (drop a (?c ?m)) = ?win" by (simp add: 1)
    moreover have "count_list (?c a @ ?win) (Some j) = count_list (?c n @ ?c a) (Some j)" using 1 2 by (simp add: add.commute)
    ultimately show ?thesis using full(2) a(2) by simp
  qed
  then show ?thesis using d by (intro exI [of _ "?c ?m"] exI [of _ "doms[i := d]"]) simp
qed

text \<open>C17. Weighted round robin is fair: as long as no server of a domain has failed, any sequence of as many
  requests as the weights add up to chooses every server exactly as often as its weight says, and leaves all
  current weights where they were.\<close>

theorem round_robin_fair:
  assumes "find_domain target doms = Some i" "i < length doms" "servers (doms ! i) = ss" "0 < length ss" "length ss \<le> 31"
    "\<forall>s \<in> set ss. unfailed s \<and> current_weight s = 0" "length nows = nat (\<Sum>j<length ss. weight (ss ! j))"
  shows "\<exists>bs d. picks block target nows doms = Some (bs, doms[i := d]) \<and>
    (\<forall>j<length ss. int (count_list bs (Some j)) = weight (ss ! j)) \<and> servers d = map (us_state_update (\<lambda>_. UPSTREAM_CONN_SUC)) ss"
  by (rule round_robin_fair_from [OF assms])

theorem round_robin_fair_witness:
  "\<exists>bs d. picks (\<lambda>n. None) (STRING ''a'') [0, 0, 0] [example_domain] = Some (bs, [d]) \<and>
    count_list bs (Some 0) = 2 \<and> count_list bs (Some 1) = 1 \<and> servers d = servers example_domain"
proof -
  have same: "map (us_state_update (\<lambda>_. UPSTREAM_CONN_SUC)) (servers example_domain) = servers example_domain"
    by (simp add: example_domain_def example_server_def)
  have ss: "servers example_domain = [example_server 2 0 3010, example_server 1 0 3011]" by (simp add: example_domain_def)
  have "\<forall>s \<in> set (servers example_domain). unfailed s \<and> current_weight s = 0"
    using example_healthy ss by (simp add: example_server_def healthy_def unfailed_def)
  moreover have "length [0, 0, 0 :: 32 word] = nat (\<Sum>j<length (servers example_domain). weight (servers example_domain ! j))"
    by (simp add: ss lessThan_Suc example_server_def)
  ultimately obtain bs d where b: "picks (\<lambda>n. None) (STRING ''a'') [0, 0, 0] [example_domain] = Some (bs, [d])"
    "\<forall>j<2. int (count_list bs (Some j)) = weight (servers example_domain ! j)" "servers d = servers example_domain"
    using round_robin_fair [OF example_find, of "servers example_domain" "[0, 0, 0]" "\<lambda>n. None"] ss same by (auto simp: numeral_2_eq_2)
  have "int (count_list bs (Some 0)) = 2" "int (count_list bs (Some 1)) = 1"
    using b(2) ss by (auto simp: example_server_def)
  then show ?thesis using b(1,3) by auto
qed

text \<open>C20. The search for a server returns, whatever the attempts to connect answer: it makes a list of at most as
  many attempts as the domain has servers, each to a server of the domain that is not down, and none only if all
  of them are down; all attempts but the last have failed. If the last has succeeded, nothing more happens; if there is
  none that has, the error answer follows, once. What has changed outside the domain is what
  these attempts, in this order, and the error answer change, and every server stays within its
  bounds. \<open>P\<close> is any condition under which the attempts and the error answer return and which they keep.\<close>

theorem get_server_by_round_returns:
  assumes "find_domain target doms = Some i" "i < length doms" "length (servers (doms ! i)) \<le> 31"
    "\<forall>s \<in> set (servers (doms ! i)). server_ok s" "P w"
    "\<forall>i b us w. P w \<longrightarrow> (\<exists>err w'. connect i b us w = Some (err, w') \<and> P w')" "\<forall>w. P w \<longrightarrow> (\<exists>w'. give_up w = Some w' \<and> P w')"
  shows "\<exists>as d tries w1 w'. get_server_by_round connect give_up now block (Some target) None 0 doms w = Some (Some i, tries, doms[i := d], w') \<and>
    run_attempts (connect i) as w = Some w1 \<and> length as \<le> length (servers (doms ! i)) \<and>
    (\<forall>a \<in> set as. attempt_ok now (servers (doms ! i)) a) \<and> (\<forall>a \<in> set (butlast as). \<not> succeeded a) \<and>
    (as = [] \<longrightarrow> (\<forall>s \<in> set (servers (doms ! i)). is_server_down now s)) \<and>
    (if as \<noteq> [] \<and> succeeded (last as) then w' = w1 else give_up w1 = Some w') \<and>
    length (servers d) = length (servers (doms ! i)) \<and> (\<forall>s \<in> set (servers d). server_ok s) \<and> P w'"
proof -
  let ?n = "length (servers (doms ! i))"
  obtain d0 where d0: "init_before_round now block (Some target) None doms = Some (OK, Some i, doms[i := d0])"
    "small_domain d0 ?n" "map location_of (servers d0) = map location_of (servers (doms ! i))"
    "\<forall>j<?n. eligible now (hd (tried d0)) (servers d0) j \<longleftrightarrow> \<not> is_server_down now (servers (doms ! i) ! j)"
    using init_ok [OF assms(1-4)] by blast
  obtain as d tries w1 where t: "try_servers (connect i) now d0 0 w = Some (d, tries, as \<noteq> [] \<and> succeeded (last as), w1)"
    "small_domain d ?n" "run_attempts (connect i) as w = Some w1" "length as \<le> ?n" "\<forall>a \<in> set as. attempt_ok now (servers (doms ! i)) a"
    "\<forall>a \<in> set (butlast as). \<not> succeeded a" "as = [] \<and> 0 < ?n \<longrightarrow> (\<forall>j<?n. \<not> eligible now (hd (tried d0)) (servers d0) j)"
    "if as \<noteq> [] \<and> succeeded (last as) then tries \<le> ?n else ?n \<le> tries" "P w1"
    using try_servers_ok [where P = P and connect = "connect i" and tries = 0 and now = now, OF d0(2) assms(5)] assms(6)
    unfolding attempt_ok_cong [OF d0(3)] by auto
  obtain w2 where w2: "give_up w1 = Some w2" "P w2" using assms(7) t(9) by blast
  have len: "length (servers d) = ?n" "\<forall>s \<in> set (servers d). server_ok s"
    using t(2) by (auto simp: small_domain_def)
  have none: "as = [] \<longrightarrow> (\<forall>s \<in> set (servers (doms ! i)). is_server_down now s)"
    using t(7) d0(4) by (metis in_set_conv_nth length_pos_if_in_set)
  let ?w = "if as \<noteq> [] \<and> succeeded (last as) then w1 else w2"
  have "get_server_by_round connect give_up now block (Some target) None 0 doms w = Some (Some i, tries, doms[i := d], ?w)"
    using d0(1) t(1,8) len assms(2) w2(1) by (auto simp: get_server_by_round_def)
  then show ?thesis using t none len w2
    by (intro exI [of _ as] exI [of _ d] exI [of _ tries] exI [of _ w1] exI [of _ ?w]) simp
qed

theorem get_server_by_round_returns_witness:
  "\<exists>as d tries w1. get_server_by_round (\<lambda>i b us w. Some (ERROR, w + 1)) (\<lambda>w. Some (w + 100)) 0 (\<lambda>n. None) (Some (STRING ''a'')) None 0
      [example_domain] (0 :: nat) = Some (Some 0, tries, [d], w1 + 100) \<and>
    run_attempts (\<lambda>b us w. Some (ERROR, w + 1)) as 0 = Some w1 \<and> as \<noteq> [] \<and> \<not> succeeded (last as)"
proof -
  let ?c = "\<lambda>(i :: nat) (b :: nat) (us :: server) w :: nat. Some (ERROR, w + 1)"
  have ok: "\<forall>s \<in> set (servers ([example_domain] ! 0)). server_ok s" "length (servers ([example_domain] ! 0)) \<le> 31" "0 < length [example_domain]"
    using example_healthy by (auto simp: healthy_def example_domain_def)
  obtain as d tries w1 w' where r: "get_server_by_round ?c (\<lambda>w. Some (w + 100)) 0 (\<lambda>n. None) (Some (STRING ''a'')) None 0
      [example_domain] 0 = Some (Some 0, tries, [d], w')" "run_attempts (?c 0) as 0 = Some w1"
    "as = [] \<longrightarrow> (\<forall>s \<in> set (servers example_domain). is_server_down 0 s)"
    "if as \<noteq> [] \<and> succeeded (last as) then w' = w1 else Some (w1 + 100) = Some w'"
    using get_server_by_round_returns [OF example_find ok(3,2,1), of "\<lambda>_. True" "0 :: nat" ?c "\<lambda>w. Some (w + 100)" 0 "\<lambda>n. None"] by auto
  have ne: "as \<noteq> []" using r(3) healthy_up example_healthy by (auto simp: example_domain_def)
  have "\<forall>a \<in> set bs. \<not> succeeded a" if "run_attempts (?c 0) bs v = Some u" for bs v u
    using that by (induction bs arbitrary: v) (auto simp: succeeded_def split: if_splits bind_splits)
  then have "\<not> succeeded (last as)" using r(2) ne by (metis last_in_set)
  then show ?thesis using r ne by (intro exI [of _ as] exI [of _ d] exI [of _ tries] exI [of _ w1]) simp
qed

section \<open>A healthy server that is not tried\<close>

text \<open>
  The mark that is set belongs to the last server of the array. When the first of two servers
  refuses the connection, the second, which is up, therefore counts as tried, and the request is
  answered with an error.
\<close>

lemma tried_mark_hides_server:
  "\<exists>d. try_servers (\<lambda>b us w. Some (if loc_port (location_of us) = 3010 then ERROR else OK, loc_port (location_of us) # w))
     0 example_domain 0 [] = Some (d, 2, False, [3010]) \<and> \<not> is_server_down 0 (servers d ! 1)"
proof -
  have once: "get_server_by_round_once 0 example_domain = Some (Some 0, example_domain\<lparr>tried := [2],
      servers := [example_server 2 (- 1) 3010, example_server 1 1 3011]\<rparr>)"
    by (simp add: get_server_by_round_once_def example_domain_def round_visit_def tried_bit_def word_at_def Let_def
        example_server_def is_server_down_def)
  let ?f = "(example_server 2 (- 1) 3010)\<lparr>fails := 1, effective_weight := 0, us_state := UPSTREAM_CONN_FAIL\<rparr>"
  have failed: "free_server_after_round_select 0 ((example_server 2 (- 1) 3010)\<lparr>us_state := UPSTREAM_CONN_FAIL\<rparr>) = ?f"
    by (simp add: free_server_after_round_select_def example_server_def Let_def signed_divide_int_def)
  let ?d = "example_domain\<lparr>tried := [2], servers := [?f, example_server 1 1 3011]\<rparr>"
  have again: "get_server_by_round_once 0 ?d = Some (None, ?d)"
    by (simp add: get_server_by_round_once_def example_domain_def round_visit_def tried_bit_def word_at_def Let_def
        example_server_def is_server_down_def in_fail_time_def)
  have port: "loc_port (location_of (example_server w c p)) = p" for w c p by (simp add: example_server_def)
  have two: "length (servers example_domain) = 2" by (simp add: example_domain_def)
  have "try_servers (\<lambda>b us w. Some (if loc_port (location_of us) = 3010 then ERROR else OK, loc_port (location_of us) # w))
      0 example_domain 0 [] = Some (?d, 2, False, [3010])"
    using two by (simp add: once failed again port try_servers.simps)
  then show ?thesis by (simp add: example_server_def is_server_down_def)
qed

end
