(* ===== verification/Consistent_Hash.thy ===== *)
theory Consistent_Hash
  imports Round_Robin Hash_Table
begin

text \<open>
  The consistent hashing of \<^verbatim>\<open>module/upstream_server_module.c\<close>: the ring of virtual nodes, the
  search in it, and the selection that falls back to the round robin. The nodes are sorted by
  their hash codes; the order in which \<^verbatim>\<open>qsort\<close> leaves equal codes is not specified, \<open>sort_key\<close>
  is one of the possible orders.
\<close>

section \<open>The ring\<close>

definition vnode_hash :: "server list \<Rightarrow> nat \<Rightarrow> 32 word" where
  "vnode_hash ss i = (let host = loc_host (location_of (ss ! i)) in
     hash_code_of_ip_integer (hash_key_function (take (nat (len host)) (chars host)) + of_nat i))"

text \<open>
  \<^verbatim>\<open>p_ceil((temp_vnum * server->weight + 0.0) / total_w)\<close>. The quotient is rounded to a
  \<^verbatim>\<open>float\<close> first, which does not change the result for products below $2^{23}$; the lemmas of this theory use only
  that it is positive.
\<close>

definition p_ceil_quot :: "int \<Rightarrow> int \<Rightarrow> int" where
  "p_ceil_quot a b = - ((- a) div b)"

definition up_servers :: "32 word \<Rightarrow> server list \<Rightarrow> nat list" where
  "up_servers now ss = filter (\<lambda>i. \<not> is_server_down now (ss ! i)) [0..<length ss]"

definition vnodes_of_server :: "32 word \<Rightarrow> server list \<Rightarrow> nat \<Rightarrow> nat" where
  "vnodes_of_server now ss i =
     (let total_w = sum_list (map (\<lambda>j. weight (ss ! j)) (up_servers now ss));
          temp_vnum = 8 * int (length (up_servers now ss)) in
      nat (p_ceil_quot (temp_vnum * weight (ss ! i)) total_w))"

definition ring_nodes :: "32 word \<Rightarrow> server list \<Rightarrow> (32 word \<times> nat) list" where
  "ring_nodes now ss =
     sort_key fst (concat (map (\<lambda>i. replicate (vnodes_of_server now ss i) (vnode_hash ss i, i)) (up_servers now ss)))"

text \<open>
  \<open>grant n\<close> says that the pool of the request still has a block of \<open>n\<close> bytes. The block is kept
  when the ring is built again; a ring with more nodes does not fit it.
\<close>

definition init_before_consistent_hash_get ::
    "32 word \<Rightarrow> (nat \<Rightarrow> 64 word list option) \<Rightarrow> (nat \<Rightarrow> bool) \<Rightarrow> str option \<Rightarrow> nat option \<Rightarrow> domain list \<Rightarrow>
     (rc \<times> nat option \<times> domain list) option" where
  "init_before_consistent_hash_get now block grant target cur doms = do {
     (ret, cur, doms) \<leftarrow> init_before_round now block target cur doms;
     i \<leftarrow> cur;
     guard (i < length doms);
     let d = doms ! i;
     if init_state d = INIT_DONE then Some (OK, cur, doms)
     else do {
       let nodes = ring_nodes now (servers d);
       room \<leftarrow> (if init_state d = IDLE then do {
           guard (grant 16 \<and> grant (16 * length nodes));
           Some (length nodes)
         } else map_option c_room (cycle_of d));
       guard (length nodes \<le> room);
       Some (OK, cur, doms[i := d\<lparr>cycle_of := Some \<lparr>c_nodes = nodes, c_room = room\<rparr>, init_state := INIT_DONE\<rparr>])
     }
   }"

section \<open>The search\<close>

function ring_search :: "(32 word \<times> nat) list \<Rightarrow> 32 word \<Rightarrow> nat \<Rightarrow> nat \<Rightarrow> nat option \<Rightarrow> nat option" where
  "ring_search nodes h left right target =
     (if right > left then
        (let mid = (left + right) div 2; ch = nodes ! mid in
         if fst ch < h then ring_search nodes h (mid + 1) right target
         else if fst ch > h then ring_search nodes h left mid (Some (snd ch))
         else Some (snd ch))
      else target)"
  by pat_completeness auto
termination
  by (relation "measure (\<lambda>(nodes, h, left, right, target). right - left)") auto

declare ring_search.simps [simp del]

text \<open>The node on which the search ends; an empty ring has no first node.\<close>

definition ring_find :: "(32 word \<times> nat) list \<Rightarrow> 32 word \<Rightarrow> nat option" where
  "ring_find nodes h =
     (case ring_search nodes h 0 (length nodes) None of
        Some i \<Rightarrow> Some i
      | None \<Rightarrow> (if nodes = [] then None else Some (snd (hd nodes))))"

definition get_server_by_consistent_hash_once :: "32 word \<Rightarrow> domain \<Rightarrow> 32 word \<Rightarrow> nat option option" where
  "get_server_by_consistent_hash_once now d h = do {
     c \<leftarrow> cycle_of d;
     i \<leftarrow> ring_find (c_nodes c) h;
     guard (i < length (servers d));
     Some (if is_server_down now (servers d ! i) then None else Some i)
   }"

section \<open>get_server_by_consistent_hash\<close>

text \<open>
  \<open>give_up e\<close> is \<^verbatim>\<open>construct_err(r, r->connection, e)\<close> and \<open>forget\<close> is \<^verbatim>\<open>r->cur_upstream = NULL\<close>.
\<close>

definition get_server_by_consistent_hash ::
    "(nat \<Rightarrow> nat \<Rightarrow> server \<Rightarrow> 'w \<Rightarrow> (rc \<times> 'w) option) \<Rightarrow> (nat \<Rightarrow> 'w \<Rightarrow> 'w option) \<Rightarrow> ('w \<Rightarrow> 'w) \<Rightarrow> 32 word \<Rightarrow>
     (nat \<Rightarrow> 64 word list option) \<Rightarrow> (nat \<Rightarrow> bool) \<Rightarrow> str option \<Rightarrow> 32 word \<Rightarrow>
     nat option \<Rightarrow> nat \<Rightarrow> domain list \<Rightarrow> 'w \<Rightarrow> (nat option \<times> nat \<times> domain list \<times> 'w) option" where
  "get_server_by_consistent_hash connect give_up forget now block grant target ip cur tries doms w =
     (let failed = (\<lambda>cur tries doms w. get_server_by_round connect (give_up 502) now block target cur tries doms (forget w)) in
      if tries > 0 then failed cur tries doms w
      else do {
        let tries = tries + 1;
        (err, cur, doms) \<leftarrow> init_before_consistent_hash_get now block grant target cur doms;
        if err \<noteq> OK then do { w \<leftarrow> give_up 500 w; Some (cur, tries, doms, w) }
        else do {
          i \<leftarrow> cur;
          us \<leftarrow> get_server_by_consistent_hash_once now (doms ! i) (hash_code_of_ip_integer ip);
          case us of
            None \<Rightarrow> failed cur tries doms w
          | Some b \<Rightarrow> do {
              (err, w) \<leftarrow> connect i b (servers (doms ! i) ! b) w;
              if err = OK then Some (cur, tries, doms, w)
              else do {
                let d = doms ! i;
                let d = d\<lparr>init_state := MODIFIED, servers := (servers d)[b :=
                  free_server_after_round_select now ((servers d ! b)\<lparr>us_state := UPSTREAM_CONN_FAIL\<rparr>)]\<rparr>;
                failed cur tries (doms[i := d]) w
              }
            }
        }
      })"

section \<open>The node the search finds\<close>

definition successor :: "(32 word \<times> nat) list \<Rightarrow> 32 word \<Rightarrow> 32 word \<times> nat \<Rightarrow> bool" where
  "successor nodes h x \<longleftrightarrow> x \<in> set nodes \<and>
     (h \<le> fst x \<and> (\<forall>y \<in> set nodes. h \<le> fst y \<longrightarrow> fst x \<le> fst y) \<or>
      (\<forall>y \<in> set nodes. fst y < h \<and> fst x \<le> fst y))"

lemma sorted_fst_le: "sorted (map fst ns) \<Longrightarrow> i \<le> j \<Longrightarrow> j < length ns \<Longrightarrow> fst (ns ! i) \<le> fst (ns ! j)"
  using sorted_nth_mono [of "map fst ns" i j] by simp

lemma ring_search_ok:
  assumes "sorted (map fst ns)" "right \<le> length ns" "left \<le> right"
    "\<forall>j<left. fst (ns ! j) < h" "\<forall>j<length ns. right \<le> j \<longrightarrow> h < fst (ns ! j)"
    "case target of None \<Rightarrow> right = length ns | Some i \<Rightarrow> right < length ns \<and> i = snd (ns ! right)"
  shows "case ring_search ns h left right target of
      None \<Rightarrow> \<forall>j<length ns. fst (ns ! j) < h
    | Some i \<Rightarrow> \<exists>k<length ns. i = snd (ns ! k) \<and> h \<le> fst (ns ! k) \<and> (\<forall>j<length ns. h \<le> fst (ns ! j) \<longrightarrow> fst (ns ! k) \<le> fst (ns ! j))"
  using assms
proof (induction ns h left right target rule: ring_search.induct)
  case (1 ns h left right target)
  note mono = sorted_fst_le [OF 1(3)]
  show ?case
  proof (cases "left < right")
    case False
    then have "left = right" using 1(5) by simp
    then have stop: "ring_search ns h left right target = target" by (simp add: ring_search.simps)
    show ?thesis
    proof (cases target)
      case None
      then show ?thesis using stop 1(6,8) \<open>left = right\<close> by simp
    next
      case (Some i)
      then have "right < length ns" "i = snd (ns ! right)" using 1(8) by simp_all
      moreover have "fst (ns ! right) \<le> fst (ns ! j)" if "j < length ns" "h \<le> fst (ns ! j)" for j
        using that mono [of right j] 1(6) \<open>left = right\<close> by (meson not_le)
      ultimately show ?thesis using stop Some 1(7) by (auto intro!: exI [of _ right])
    qed
  next
    case True
    let ?mid = "(left + right) div 2"
    have mid: "left \<le> ?mid" "?mid < right" using True by auto
    consider "fst (ns ! ?mid) < h" | "h < fst (ns ! ?mid)" | "fst (ns ! ?mid) = h" by fastforce
    then show ?thesis
    proof cases
      case 1
      have "\<forall>j<?mid + 1. fst (ns ! j) < h"
      proof (intro allI impI)
        fix j
        assume "j < ?mid + 1"
        then have "fst (ns ! j) \<le> fst (ns ! ?mid)" using mono mid "1.prems"(2) by simp
        then show "fst (ns ! j) < h" using 1 by simp
      qed
      then show ?thesis using "1.IH"(1) [OF True refl refl 1] "1.prems" mid 1 True by (subst ring_search.simps) (simp add: Let_def)
    next
      case 2
      have "\<forall>j<length ns. ?mid \<le> j \<longrightarrow> h < fst (ns ! j)"
        using mono 2 by (meson order_less_le_trans)
      moreover have "\<not> fst (ns ! ?mid) < h" using 2 by simp
      ultimately show ?thesis using "1.IH"(2) [OF True refl refl _ 2] "1.prems" mid 2 True
        by (subst ring_search.simps) (simp add: Let_def)
    next
      case 3
      then show ?thesis using "1.prems"(2) mid True by (subst ring_search.simps) (simp add: Let_def, rule exI [of _ ?mid], simp)
    qed
  qed
qed

lemma ring_find_ok:
  assumes "sorted (map fst ns)" "ns \<noteq> []"
  shows "\<exists>x. ring_find ns h = Some (snd x) \<and> successor ns h x"
proof -
  have all: "(\<forall>y \<in> set ns. P y) \<longleftrightarrow> (\<forall>j<length ns. P (ns ! j))" for P by (simp add: all_set_conv_all_nth)
  have r: "case ring_search ns h 0 (length ns) None of
      None \<Rightarrow> \<forall>j<length ns. fst (ns ! j) < h
    | Some i \<Rightarrow> \<exists>k<length ns. i = snd (ns ! k) \<and> h \<le> fst (ns ! k) \<and> (\<forall>j<length ns. h \<le> fst (ns ! j) \<longrightarrow> fst (ns ! k) \<le> fst (ns ! j))"
    using assms(1) by (intro ring_search_ok) auto
  show ?thesis
  proof (cases "ring_search ns h 0 (length ns) None")
    case None
    have "fst (hd ns) \<le> fst y" if "y \<in> set ns" for y
      using assms that by (cases ns) auto
    then show ?thesis using None r assms(2) all by (intro exI [of _ "hd ns"]) (simp add: ring_find_def successor_def)
  next
    case (Some i)
    then obtain k where "k < length ns" "i = snd (ns ! k)" "h \<le> fst (ns ! k)" "\<forall>j<length ns. h \<le> fst (ns ! j) \<longrightarrow> fst (ns ! k) \<le> fst (ns ! j)"
      using r by auto
    then show ?thesis using Some all by (intro exI [of _ "ns ! k"]) (simp add: ring_find_def successor_def)
  qed
qed

section \<open>The nodes of the ring\<close>

lemma sorted_ring: "sorted (map fst (ring_nodes now ss))"
  by (simp add: ring_nodes_def)

lemma up_servers_set: "i \<in> set (up_servers now ss) \<longleftrightarrow> i < length ss \<and> \<not> is_server_down now (ss ! i)"
  by (auto simp: up_servers_def)

lemma vnodes_pos:
  assumes "i \<in> set (up_servers now ss)" "\<forall>s \<in> set ss. 0 < weight s"
  shows "0 < vnodes_of_server now ss i"
proof -
  let ?W = "sum_list (map (\<lambda>j. weight (ss ! j)) (up_servers now ss))"
  have w: "0 < weight (ss ! j)" if "j \<in> set (up_servers now ss)" for j using that assms(2) by (simp add: up_servers_set)
  have "weight (ss ! i) \<le> ?W" using assms(1) w by (intro member_le_sum_list) (auto intro: less_imp_le)
  then have "0 < ?W" using w [OF assms(1)] by simp
  moreover have "0 < 8 * int (length (up_servers now ss)) * weight (ss ! i)" (is "0 < ?a")
    using assms(1) w [OF assms(1)] by (cases "up_servers now ss") auto
  ultimately have "(- ?a) div ?W < 0" by (subst pos_imp_zdiv_neg_iff) simp_all
  then show ?thesis by (simp add: vnodes_of_server_def p_ceil_quot_def Let_def)
qed

lemma ring_set:
  assumes "\<forall>s \<in> set ss. 0 < weight s"
  shows "set (ring_nodes now ss) = {(vnode_hash ss i, i) |i. i < length ss \<and> \<not> is_server_down now (ss ! i)}"
  using vnodes_pos [OF _ assms] by (auto simp: ring_nodes_def up_servers_set)

text \<open>A key whose node belongs to a server that stays keeps its server.\<close>

lemma successor_subset:
  assumes "successor ns h x" "x \<in> set ns'" "set ns' \<subseteq> set ns"
  shows "successor ns' h x"
  using assms by (auto simp: successor_def)

lemma successor_unique:
  assumes "successor ns h x" "successor ns h y" "inj_on fst (set ns)"
  shows "x = y"
proof -
  have "fst x = fst y" using assms(1,2) unfolding successor_def by (meson leD order_antisym)
  then show ?thesis using assms by (auto simp: successor_def dest: inj_onD)
qed

section \<open>Properties\<close>

text \<open>C22. The binary search finds the server of the first virtual node whose hash is not below that of the client,
  and the server of the least node if there is none.\<close>

theorem ring_find_successor:
  assumes "sorted (map fst ns)" "ns \<noteq> []"
  shows "\<exists>x \<in> set ns. ring_find ns h = Some (snd x) \<and>
    (h \<le> fst x \<and> (\<forall>y \<in> set ns. h \<le> fst y \<longrightarrow> fst x \<le> fst y) \<or> (\<forall>y \<in> set ns. fst y < h \<and> fst x \<le> fst y))"
  using ring_find_ok [OF assms, of h] unfolding successor_def by blast

definition example_ring :: "(32 word \<times> nat) list" where
  "example_ring = [(3, 0), (7, 1), (7, 1), (9, 2)]"

theorem ring_find_successor_witness:
  "\<exists>x \<in> set example_ring. ring_find example_ring 5 = Some (snd x) \<and>
    (5 \<le> fst x \<and> (\<forall>y \<in> set example_ring. 5 \<le> fst y \<longrightarrow> fst x \<le> fst y) \<or> (\<forall>y \<in> set example_ring. fst y < 5 \<and> fst x \<le> fst y))"
  by (rule ring_find_successor) (simp_all add: example_ring_def)

text \<open>C21. When a server goes down and the ring is built again, every client whose server is still up keeps it, as long
  as no two servers of the domain have the same point on the ring. (The code does not look for such collisions, as a
  comment there says; of two servers with the same point the sorting decides.) The weights are positive.\<close>

theorem consistent_hash_keeps_servers:
  assumes same: "length ss' = length ss" "\<forall>i<length ss. location_of (ss' ! i) = location_of (ss ! i)"
    and up: "\<forall>s \<in> set ss. 0 < weight s" "\<forall>s \<in> set ss'. 0 < weight s"
    and points: "inj_on (vnode_hash ss) {..<length ss}"
    and down: "\<forall>i<length ss. i \<noteq> k \<longrightarrow> is_server_down now' (ss' ! i) = is_server_down now (ss ! i)" "is_server_down now' (ss' ! k)"
    and found: "ring_find (ring_nodes now ss) h = Some i" "i \<noteq> k"
  shows "ring_find (ring_nodes now' ss') h = Some i"
proof -
  let ?ns = "ring_nodes now ss" and ?ns' = "ring_nodes now' ss'"
  have hash: "vnode_hash ss' j = vnode_hash ss j" if "j < length ss" for j
    using that same by (simp add: vnode_hash_def)
  have sub: "set ?ns' = {x \<in> set ?ns. snd x \<noteq> k}"
    using ring_set [OF up(1)] ring_set [OF up(2)] same down hash by fastforce
  have ne: "?ns \<noteq> []" using found(1) by (auto simp: ring_find_def ring_search.simps)
  obtain x where x: "snd x = i" "successor ?ns h x" using ring_find_ok [OF sorted_ring ne, of h] found(1) by auto
  have mem: "x \<in> set ?ns'" using x found(2) sub by (auto simp: successor_def)
  then have ne': "?ns' \<noteq> []" by auto
  have s: "successor ?ns' h x" using successor_subset [OF x(2) mem] sub by auto
  obtain y where y: "ring_find ?ns' h = Some (snd y)" "successor ?ns' h y" using ring_find_ok [OF sorted_ring ne'] by blast
  have "inj_on fst (set ?ns)"
    using points by (auto simp: ring_set [OF up(1)] inj_on_def)
  then have "inj_on fst (set ?ns')" using sub by (auto simp: inj_on_def)
  from successor_unique [OF y(2) s this] show ?thesis using y(1) x(1) by simp
qed

definition example_servers :: "server list" where
  "example_servers = [example_server 2 0 3010, example_server 1 0 3011]"

definition example_servers_down :: "server list" where
  "example_servers_down = [example_server 2 0 3010, (example_server 1 0 3011)\<lparr>fails := 1\<rparr>]"

lemma example_points: "vnode_hash example_servers 0 = 1915501082 \<and> vnode_hash example_servers 1 = 3760031925"
  by code_simp

lemma example_found: "ring_find (ring_nodes 0 example_servers) 1000 = Some 0"
  by code_simp

theorem consistent_hash_keeps_servers_witness:
  "ring_find (ring_nodes 0 example_servers_down) 1000 = Some 0"
proof (rule consistent_hash_keeps_servers [where ss = example_servers and now = 0 and k = 1, OF _ _ _ _ _ _ _ example_found])
  show "inj_on (vnode_hash example_servers) {..<length example_servers}"
    using example_points by (auto simp: inj_on_def example_servers_def less_Suc_eq)
qed (auto simp: example_servers_def example_servers_down_def example_server_def is_server_down_def in_fail_time_def less_Suc_eq)

section \<open>A connection under way counts as refused\<close>

text \<open>
  Connecting a socket that does not block answers \<open>AGAIN\<close>, with a handler installed that awaits the
  end of it. The selection takes this for a failure: the server gets a failure to its account, and
  the round robin tries another one on the same socket.
\<close>

lemma pending_counts_as_failure:
  assumes "init_before_consistent_hash_get now block grant target cur doms = Some (OK, Some i, doms1)"
    "get_server_by_consistent_hash_once now (doms1 ! i) (hash_code_of_ip_integer ip) = Some (Some b)"
    "connect i b (servers (doms1 ! i) ! b) w = Some (AGAIN, w1)"
    "d = doms1 ! i" "us = (servers d ! b)\<lparr>us_state := UPSTREAM_CONN_FAIL\<rparr>"
  shows "get_server_by_consistent_hash connect give_up forget now block grant target ip cur 0 doms w =
    get_server_by_round connect (give_up 502) now block target (Some i) 1
      (doms1[i := d\<lparr>init_state := MODIFIED, servers := (servers d)[b := free_server_after_round_select now us]\<rparr>]) (forget w1) \<and>
    fails (free_server_after_round_select now us) = fails us + 1"
  using assms by (simp add: get_server_by_consistent_hash_def Let_def free_server_after_round_select_def)

end
