(* ===== verification/Start_Up.thy ===== *)
theory Start_Up
  imports Consistent_Hash Header_Map Vector_C
begin

text \<open>
  The configuration of \<^verbatim>\<open>config.c\<close> and the start of a worker's upstream module in
  \<^verbatim>\<open>module/module.c\<close>: the table of locations, the settings, and the domains with their servers.
\<close>

section \<open>config.c\<close>

definition LOCATION :: "char list \<Rightarrow> 16 word \<Rightarrow> int \<Rightarrow> location" where
  "LOCATION ip p w = \<lparr>loc_host = STRING ip, loc_port = p, loc_weight = w, loc_max_fails = 1,
     loc_fail_timedout = 10 * 1000\<rparr>"

definition locations_1 :: "location list" where
  "locations_1 = [
     LOCATION ''127.0.0.1'' 3010 2, LOCATION ''127.0.0.1'' 3011 3, LOCATION ''127.0.0.1'' 3012 2,
     LOCATION ''127.0.0.1'' 3013 3, LOCATION ''127.0.0.1'' 3014 3, LOCATION ''127.0.0.1'' 3015 2,
     LOCATION ''127.0.0.1'' 3016 3, LOCATION ''127.0.0.1'' 3017 2, LOCATION ''127.0.0.1'' 3018 3,
     LOCATION ''127.0.0.1'' 3019 3]"

definition MAX_LOCATION_SZIE :: nat where
  "MAX_LOCATION_SZIE = 100"

definition loc_name_arr :: "char list list" where
  "loc_name_arr = [''backend'']"

text \<open>
  The setting of \<^verbatim>\<open>domain_num\<close> and \<^verbatim>\<open>loc_name_arr\<close> is in \<open>config_load\<close>. The value under a name
  is a pointer to the array of its locations.
\<close>

definition create_location_map :: "nat \<Rightarrow> bool \<Rightarrow> location list hash option" where
  "create_location_map base clean = make_map base clean MAX_LOCATION_SZIE (zip loc_name_arr [locations_1])"

record worker =
  w_pid :: int
  w_respawn :: bool
  w_just_spawn :: bool
  w_exiting :: bool
  w_exited :: bool

definition zero_worker :: worker where
  "zero_worker = \<lparr>w_pid = 0, w_respawn = False, w_just_spawn = False, w_exiting = False, w_exited = False\<rparr>"

datatype balance = ROUND_MODE | CONSISTENT_HASH

record config =
  port :: int
  worker_num :: int
  daemon :: int
  root_fd :: int
  max_connections :: int
  request_pool_size :: int
  timer_resolution :: "32 word"
  post_accept_timeout :: int
  keep_alive_timeout :: int
  upstream_timeout :: int
  cfg_workers :: "worker vector"
  cfg_locations :: "location list hash"
  domain_names :: "char list list"
  domain_num :: int
  load_balance :: balance

text \<open>\<^verbatim>\<open>sizeof\<close> of \<^verbatim>\<open>http_request_t\<close>, \<^verbatim>\<open>buffer_t\<close> and \<^verbatim>\<open>worker_t\<close> with 64-bit pointers.\<close>

definition SIZEOF_REQUEST :: int where
  "SIZEOF_REQUEST = 336"

definition SIZEOF_BUFFER :: int where
  "SIZEOF_BUFFER = 1056"

definition SIZEOF_WORKER :: int where
  "SIZEOF_WORKER = 8"

text \<open>\<open>fd\<close> is the descriptor of the document root that \<^verbatim>\<open>open\<close> returns.\<close>

definition config_load :: "nat \<Rightarrow> bool \<Rightarrow> bool \<Rightarrow> int \<Rightarrow> (rc \<times> config) option" where
  "config_load base clean ok fd = do {
     let req_padding_size = push_bit 8 (drop_bit 8 (SIZEOF_REQUEST + 2 * SIZEOF_BUFFER)) + 128;
     locs \<leftarrow> create_location_map base clean;
     (r, ws) \<leftarrow> vectorInit ok zero_worker (2 * 1) SIZEOF_WORKER;
     Some (OK, \<lparr>port = 3001, worker_num = 1, daemon = 1, root_fd = fd, max_connections = 65536,
       request_pool_size = SIZEOF_BUFFER + req_padding_size, timer_resolution = 500,
       post_accept_timeout = 15 * 1000, keep_alive_timeout = 30 * 1000, upstream_timeout = 8 * 1000,
       cfg_workers = ws, cfg_locations = locs, domain_names = loc_name_arr,
       domain_num = int (length loc_name_arr), load_balance = ROUND_MODE\<rparr>)
   }"

section \<open>upstream_process_init\<close>

text \<open>
  The arrays come from \<^verbatim>\<open>malloc\<close> and are not cleared: \<open>junk\<close> is what lies in the memory of a
  server before, and gives the members that are not set.
\<close>

definition init_server :: "balance \<Rightarrow> server \<Rightarrow> location \<Rightarrow> server" where
  "init_server mode junk loc = junk\<lparr>effective_weight := loc_weight loc, weight := loc_weight loc, location_of := loc,
     current_weight := 0, status_changed := False, max_fails := (if mode = ROUND_MODE then 1 else 3), fails := 0,
     fail_timeout := loc_fail_timedout loc\<rparr>"

definition init_domain :: "config \<Rightarrow> (nat \<Rightarrow> server) \<Rightarrow> char list \<Rightarrow> domain option" where
  "init_domain cfg junk name = do {
     found \<leftarrow> hash_find (cfg_locations cfg) (chars (STRING name)) (length name);
     locs \<leftarrow> found;
     guard (10 \<le> length locs);
     Some \<lparr>domain_name = STRING name, servers = map (\<lambda>j. init_server (load_balance cfg) (junk j) (locs ! j)) [0..<10],
       tried = [], init_state = IDLE, cycle_of = None\<rparr>
   }"

definition upstream_process_init :: "config \<Rightarrow> (nat \<Rightarrow> nat \<Rightarrow> server) \<Rightarrow> (rc \<times> balance \<times> domain list) option" where
  "upstream_process_init cfg junk = do {
     ds \<leftarrow> those (map (\<lambda>i. init_domain cfg (junk i) (domain_names cfg ! i)) [0..<nat (domain_num cfg)]);
     Some (OK, load_balance cfg, ds)
   }"

section \<open>Start-up succeeds\<close>

lemma location_names:
  "names_ok (zip loc_name_arr [locations_1])" "zip loc_name_arr [locations_1] \<noteq> []" "load (keys_of (zip loc_name_arr [locations_1])) \<le> 120"
  "2320 \<le> 2 * MAX_LOCATION_SZIE * HASH_ELT_SIZE (length (fst (hd (zip loc_name_arr [locations_1]))))"
  "2 * MAX_LOCATION_SZIE * HASH_ELT_SIZE (length (fst (hd (zip loc_name_arr [locations_1])))) < 2 ^ 31"
  by (simp_all add: loc_name_arr_def names_ok_def strlow_def c_tolower_def code_def keys_of_def elt_size_def key_len_def
      HASH_ELT_SIZE_eq MAX_LOCATION_SZIE_def)

lemma config_load_ok:
  assumes "base + 2 ^ 36 < 2 ^ 63"
  shows "\<exists>cfg. config_load base True True fd = Some (OK, cfg) \<and> request_pool_size cfg = 3488 \<and> domain_names cfg = [''backend''] \<and>
    domain_num cfg = 1 \<and> load_balance cfg = ROUND_MODE \<and> post_accept_timeout cfg = 15000 \<and>
    (\<forall>name n. n \<le> length name \<longrightarrow> hash_find (cfg_locations cfg) name n =
       Some (if take n name = ''backend'' then Some locations_1 else None))"
proof -
  obtain t where t: "create_location_map base True = Some t" "\<forall>name n. n \<le> length name \<longrightarrow>
      hash_find t name n = Some (map_of (zip loc_name_arr [locations_1]) (take n name))"
    using make_map_ok [OF location_names assms] map_lookup [OF _ _ location_names(1,2)]
    unfolding create_location_map_def by blast
  then show ?thesis
    by (simp add: config_load_def vectorInit_def SIZEOF_REQUEST_def SIZEOF_BUFFER_def SIZEOF_WORKER_def loc_name_arr_def
        eq_commute [of _ "''backend''"])
qed

lemma locations_1_ok:
  "length locations_1 = 10" "j < 10 \<Longrightarrow> loc_weight (locations_1 ! j) \<in> {2, 3}"
  "(\<Sum>j<10. loc_weight (locations_1 ! j)) = 26"
proof -
  show len: "length locations_1 = 10" by (simp add: locations_1_def)
  have "\<forall>l \<in> set locations_1. loc_weight l \<in> {2, 3}" by (simp add: locations_1_def LOCATION_def)
  then show "j < 10 \<Longrightarrow> loc_weight (locations_1 ! j) \<in> {2, 3}" using len by (metis nth_mem)
  have "sum_list (map loc_weight locations_1) = 26" by (simp add: locations_1_def LOCATION_def)
  then show "(\<Sum>j<10. loc_weight (locations_1 ! j)) = 26" using len by (simp add: sum_list_sum_nth atLeast0LessThan)
qed

lemma stringEq_same: "\<forall>c \<in> set w. code c \<noteq> 0 \<Longrightarrow> stringEq (STRING w) (STRING w) = Some True"
  using stringEq_STRING [of "STRING w" "length w" w] by (simp add: STRING_def)

lemma process_init_ok:
  assumes cfg: "domain_names cfg = [''backend'']" "domain_num cfg = 1" "load_balance cfg = ROUND_MODE"
    "\<forall>name n. n \<le> length name \<longrightarrow> hash_find (cfg_locations cfg) name n =
       Some (if take n name = ''backend'' then Some locations_1 else None)"
  shows "\<exists>d. upstream_process_init cfg junk = Some (OK, ROUND_MODE, [d]) \<and> domain_name d = STRING ''backend'' \<and>
    servers d = map (\<lambda>j. init_server ROUND_MODE (junk 0 j) (locations_1 ! j)) [0..<10]"
proof -
  have "hash_find (cfg_locations cfg) (chars (STRING ''backend'')) (length ''backend'') = Some (Some locations_1)"
    using cfg(4) by (simp add: STRING_def)
  then have "init_domain cfg (junk 0) ''backend'' = Some \<lparr>domain_name = STRING ''backend'',
      servers = map (\<lambda>j. init_server ROUND_MODE (junk 0 j) (locations_1 ! j)) [0..<10], tried = [], init_state = IDLE, cycle_of = None\<rparr>"
    using cfg(3) locations_1_ok(1) by (simp add: init_domain_def)
  then show ?thesis using cfg(1-3) by (simp add: upstream_process_init_def)
qed

section \<open>Properties\<close>

text \<open>C18. With the settings of the program, start-up succeeds and builds the domain \<^verbatim>\<open>backend\<close>. Of the requests
  that are then forwarded to it, at whatever times, every 26 in a row go to the ten servers by their weights exactly, as
  long as no connection to a server has failed.\<close>

theorem backends_get_their_share:
  assumes "base + 2 ^ 36 < 2 ^ 63"
  shows "\<exists>cfg doms bs doms'. config_load base True True fd = Some (OK, cfg) \<and>
    upstream_process_init cfg junk = Some (OK, ROUND_MODE, doms) \<and>
    picks block (STRING ''backend'') nows doms = Some (bs, doms') \<and> length bs = length nows \<and>
    (\<forall>a j. a + 26 \<le> length nows \<longrightarrow> j < 10 \<longrightarrow> int (count_list (take 26 (drop a bs)) (Some j)) = loc_weight (locations_1 ! j))"
proof -
  obtain cfg where cfg: "config_load base True True fd = Some (OK, cfg)" "domain_names cfg = [''backend'']"
    "domain_num cfg = 1" "load_balance cfg = ROUND_MODE"
    "\<forall>name n. n \<le> length name \<longrightarrow> hash_find (cfg_locations cfg) name n =
       Some (if take n name = ''backend'' then Some locations_1 else None)"
    using config_load_ok [OF assms(1), of fd] by blast
  obtain d where d: "upstream_process_init cfg junk = Some (OK, ROUND_MODE, [d])" "domain_name d = STRING ''backend''"
    "servers d = map (\<lambda>j. init_server ROUND_MODE (junk 0 j) (locations_1 ! j)) [0..<10]"
    using process_init_ok [OF cfg(2-5)] by blast
  have find: "find_domain (STRING ''backend'') [d] = Some 0"
    by (simp add: d(2) stringEq_same code_def)
  have nth: "servers d ! j = init_server ROUND_MODE (junk 0 j) (locations_1 ! j)" "weight (servers d ! j) = loc_weight (locations_1 ! j)"
    if "j < 10" for j using that d(3) by (simp_all add: init_server_def)
  have "unfailed s \<and> current_weight s = 0" if s: "s \<in> set (servers d)" for s
  proof -
    obtain j where j: "j < 10" "s = init_server ROUND_MODE (junk 0 j) (locations_1 ! j)" using s d(3) by auto
    then show ?thesis using locations_1_ok(2) [OF j(1)] by (auto simp: init_server_def unfailed_def server_ok_def)
  qed
  moreover have "(\<Sum>j<length (servers d). weight (servers d ! j)) = 26"
    using d(3) nth(2) locations_1_ok(3) by simp
  ultimately obtain bs doms' where "picks block (STRING ''backend'') nows [d] = Some (bs, doms')" "length bs = length nows"
    "\<forall>a j. a + 26 \<le> length nows \<longrightarrow> j < 10 \<longrightarrow> int (count_list (take 26 (drop a bs)) (Some j)) = weight (servers d ! j)"
    using windows_fair [OF find, of "servers d" 26 block nows] d(3) by auto
  then show ?thesis using cfg(1) d(1) nth(2) by (intro exI [of _ cfg] exI [of _ "[d]"] exI [of _ bs] exI [of _ doms']) auto
qed

theorem backends_get_their_share_witness:
  "\<exists>cfg doms bs doms'. config_load 4096 True True 5 = Some (OK, cfg) \<and>
    upstream_process_init cfg (\<lambda>i j. example_server 9 9 9) = Some (OK, ROUND_MODE, doms) \<and>
    picks (\<lambda>n. None) (STRING ''backend'') (map of_nat [0..<70]) doms = Some (bs, doms') \<and>
    (\<forall>j<10. int (count_list (take 26 (drop 31 bs)) (Some j)) = loc_weight (locations_1 ! j))"
proof -
  have "(4096 :: nat) + 2 ^ 36 < 2 ^ 63" "31 + 26 \<le> length (map of_nat [0..<70] :: 32 word list)" by simp_all
  from backends_get_their_share [OF this(1), of 5 "\<lambda>i j. example_server 9 9 9" "\<lambda>n. None" "map of_nat [0..<70]"] this(2)
  show ?thesis by blast
qed

section \<open>The ring does not fit the pool of a request\<close>

text \<open>
  The ring is allocated in the pool of the request that builds it first. The pool has 3488 bytes, of
  which the request and its two buffers take the greater part: with ten servers up, the 88 nodes of
  16 bytes do not fit, and the process ends at the \<^verbatim>\<open>ABORT_ON\<close>. (If they did, the ring would be used
  after the pool is freed with the request.)
\<close>

lemma ring_exceeds_pool:
  "\<exists>p0 a1 p1 a2 p2 a3 p3 a4 p4 p5. createPool True 3488 = Some p0 \<and> pMalloc p0 336 = Some (Some a1, p1) \<and>
    pMalloc p1 1056 = Some (Some a2, p2) \<and> pMalloc p2 1056 = Some (Some a3, p3) \<and>
    pMalloc p3 16 = Some (Some a4, p4) \<and> pMalloc p4 (88 * 16) = Some (None, p5)"
proof -
  have nu: "unat (nunits_of 336) = 22" "unat (nunits_of 1056) = 67" "unat (nunits_of 16) = 2" "unat (nunits_of 1408) = 89"
    by (simp_all add: unat_nunits_of)
  obtain p0 where p0: "createPool True 3488 = Some p0" "mp_ready p0 ([] @ [(1, 217)])"
    using createPool_ready [of 3488] by (auto simp: word_less_nat_alt)
  obtain a1 p1 where p1: "pMalloc p0 336 = Some (Some a1, p1)" "mp_inv p1 ([(1, 0)] @ [(22, 195)])"
    using pMalloc_bump [OF p0(2), of 336] nu by auto
  obtain a2 p2 where p2: "pMalloc p1 1056 = Some (Some a2, p2)" "mp_inv p2 ([(1, 0), (22, 0)] @ [(67, 128)])"
    using pMalloc_bump [of p1 "[(1, 0)]" 22 195 1056] p1(2) nu by (auto simp: mp_ready_def)
  obtain a3 p3 where p3: "pMalloc p2 1056 = Some (Some a3, p3)" "mp_inv p3 ([(1, 0), (22, 0), (67, 0)] @ [(67, 61)])"
    using pMalloc_bump [of p2 "[(1, 0), (22, 0)]" 67 128 1056] p2(2) nu by (auto simp: mp_ready_def)
  obtain a4 p4 where p4: "pMalloc p3 16 = Some (Some a4, p4)" "mp_inv p4 ([(1, 0), (22, 0), (67, 0), (67, 0)] @ [(2, 59)])"
    using pMalloc_bump [of p3 "[(1, 0), (22, 0), (67, 0)]" 67 61 16] p3(2) nu by (auto simp: mp_ready_def)
  have "mp_ready p4 ([(1, 0), (22, 0), (67, 0), (67, 0)] @ [(2, 59)])" using p4(2) by (simp add: mp_ready_def)
  from pMalloc_total [OF this, of 1408] obtain a5 p5 where p5: "pMalloc p4 1408 = Some (a5, p5)"
    "a5 = None \<longleftrightarrow> (\<forall>b \<in> set ([(1 :: nat, 0), (22, 0), (67, 0), (67, 0)] @ [(2, 59)]). snd b < unat (nunits_of 1408))" by blast
  then have "a5 = None" using nu by simp
  then show ?thesis using p0(1) p1(1) p2(1) p3(1) p4(1) p5(1) by auto
qed

end
