(* ===== verification/Connection_C.thy ===== *)
theory Connection_C
  imports Timer_Queue Start_Up Pool_C Request_Uri Header_Map "HOL-Library.Countable"
begin

text \<open>
  Connections, their events and the registration of events: \<^verbatim>\<open>http/connection.c\<close>,
  \<^verbatim>\<open>module/kqueue_event_module.c\<close>, \<^verbatim>\<open>event/event.c\<close>. The state \<open>world\<close> has all that the
  handlers of a worker share. The invariant ties the pool of connections to the timers: a slot of
  the pool that is not in use has no node in the tree of the timers, so that clearing a slot that is
  handed out anew never damages the tree.
\<close>

section \<open>The state of a worker\<close>

datatype dir = READ_EVENT | WRITE_EVENT

text \<open>The functions that the program stores as handlers of events.\<close>

datatype handler =
    Event_accept | Init_request | Process_request_line | Parse_headers | Handle_body
  | Handle_response | Handle_response_file | Proxy_pass | Recv_upstream | Connection_result

record conn =
  c_fd :: int
  c_ip :: "32 word"
  c_data :: "nat option"
  is_connected :: bool
  is_idle :: bool

text \<open>The members of \<^verbatim>\<open>http_request_t\<close> that the parsers do not use are here; \<open>rq\<close> has the others.\<close>

record http_request =
  rq :: request
  rq_pool :: memory_pool
  recv_buffer :: buffer
  send_buffer :: buffer
  connection :: "slot option"
  upstream :: "slot option"
  upstream_tries :: nat
  cur_upstream :: "(nat \<times> nat) option"
  cur_server_domain :: "nat option"

text \<open>System calls that are recorded, and what some calls answer.\<close>

datatype sys_call = Close int | Kadd int dir | Kdel int dir | Send int "char list" | Connect int str "16 word"

text \<open>
  \<open>w_recv fd\<close> is what the next calls of \<^verbatim>\<open>recv\<close> on the descriptor will get, \<open>w_send\<close> the
  answers to the calls of each run of \<open>buffer_send\<close>, \<open>w_sendfile\<close> those to the calls of each run
  of \<open>send_file\<close>, \<open>w_accept\<close> those of each run of \<open>event_accept\<close>, \<open>w_kevent\<close> whether the next
  calls of \<^verbatim>\<open>kevent\<close> succeed (they do when the list is used up), \<open>w_socket\<close>, \<open>w_connect\<close> and
  \<open>w_so_error\<close> the answers of \<^verbatim>\<open>socket\<close>, \<^verbatim>\<open>connect\<close> and \<^verbatim>\<open>getsockopt\<close>; \<open>w_inet\<close> says which
  texts \<^verbatim>\<open>inet_pton\<close> takes for addresses. \<open>w_file\<close> gives the contents of files, \<open>w_static\<close> what the
  program's data holds behind the error pages, and \<open>w_heap\<close> is what lies in the memory that a
  new buffer is made of.
\<close>

datatype connect_out = Connect_ok | Connect_in_progress | Connect_failed

datatype so_out = So_value int | So_failed

datatype accept_out = Accepted int "32 word" | Accept_error

record world =
  w_cfg :: config
  w_tm :: "handler timers"
  w_pool :: "pool \<times> mem"
  w_conns :: "slot \<rightharpoonup> conn"
  w_reqs :: "nat \<rightharpoonup> http_request"
  w_next :: nat
  w_doms :: "domain list"
  w_fs :: file_system
  w_headers :: "header_val hash"
  w_static :: "char list"
  w_heap :: buffer
  w_recv :: "int \<Rightarrow> sock_in list"
  w_send :: "sock_out list list"
  w_kevent :: "bool list"
  w_socket :: "int list"
  w_connect :: "connect_out list"
  w_so_error :: "so_out list"
  w_sendfile :: "file_out list list"
  w_accept :: "accept_out list list"
  w_inet :: "char list \<Rightarrow> bool"
  w_file :: "int \<Rightarrow> char list"
  w_calls :: "sys_call list"

text \<open>
  The two events lie inside the connection; \<open>rev_of\<close> and \<open>wev_of\<close> give their addresses,
  \<open>conn_of\<close> is the member \<^verbatim>\<open>data\<close> of an event. The addresses 0 and 1 are those of the null
  pointer and of the sentinel of the timers.
\<close>

definition SENTINEL :: nat where
  "SENTINEL = 1"

definition rev_of :: "slot \<Rightarrow> nat" where
  "rev_of c = 2 * prod_encode c + 2"

definition wev_of :: "slot \<Rightarrow> nat" where
  "wev_of c = 2 * prod_encode c + 3"

definition conn_of :: "nat \<Rightarrow> slot" where
  "conn_of ev = prod_decode ((ev - 2) div 2)"

fun ev_of :: "slot \<Rightarrow> dir \<Rightarrow> nat" where
  "ev_of c READ_EVENT = rev_of c"
| "ev_of c WRITE_EVENT = wev_of c"

definition get_ev :: "nat \<Rightarrow> world \<Rightarrow> handler event option" where
  "get_ev ev w = tm_events (w_tm w) ev"

definition on_timers :: "(handler timers \<Rightarrow> handler timers option) \<Rightarrow> world \<Rightarrow> world option" where
  "on_timers f w = map_option (\<lambda>S. w\<lparr>w_tm := S\<rparr>) (f (w_tm w))"

definition set_ev :: "(handler event \<Rightarrow> handler event) \<Rightarrow> nat \<Rightarrow> world \<Rightarrow> world option" where
  "set_ev f ev = on_timers (set_event f ev)"

definition set_conn :: "(conn \<Rightarrow> conn) \<Rightarrow> slot \<Rightarrow> world \<Rightarrow> world option" where
  "set_conn f c w = map_option (\<lambda>k. w\<lparr>w_conns := (w_conns w)(c \<mapsto> f k)\<rparr>) (w_conns w c)"

definition set_req :: "(http_request \<Rightarrow> http_request) \<Rightarrow> nat \<Rightarrow> world \<Rightarrow> world option" where
  "set_req f r w = map_option (\<lambda>q. w\<lparr>w_reqs := (w_reqs w)(r \<mapsto> f q)\<rparr>) (w_reqs w r)"

definition call :: "sys_call \<Rightarrow> world \<Rightarrow> world" where
  "call s w = w\<lparr>w_calls := w_calls w @ [s]\<rparr>"

definition add_timer :: "nat \<Rightarrow> int \<Rightarrow> world \<Rightarrow> world option" where
  "add_timer ev d = on_timers (event_add_timer ev (of_int d))"

definition del_timer :: "nat \<Rightarrow> world \<Rightarrow> world option" where
  "del_timer ev = on_timers (event_del_timer ev)"

text \<open>\<^verbatim>\<open>if (ev->timer_set) event_del_timer(ev)\<close>\<close>

definition del_timer_if_set :: "nat \<Rightarrow> world \<Rightarrow> world option" where
  "del_timer_if_set ev w = do {
     e \<leftarrow> get_ev ev w;
     if timer_set e then del_timer ev w else Some w
   }"

section \<open>Registration of events\<close>

definition kevent :: "sys_call \<Rightarrow> world \<Rightarrow> bool \<times> world" where
  "kevent s w =
     (case w_kevent w of
        [] \<Rightarrow> (True, call s w)
      | b # bs \<Rightarrow> (b, call s (w\<lparr>w_kevent := bs\<rparr>)))"

definition kqueue_add_event :: "nat \<Rightarrow> dir \<Rightarrow> world \<Rightarrow> (rc \<times> world) option" where
  "kqueue_add_event ev d w = do {
     e \<leftarrow> get_ev ev w;
     if \<not> ev_active e then do {
       w \<leftarrow> set_ev (\<lambda>e. e\<lparr>ev_active := True\<rparr>) ev w;
       c \<leftarrow> w_conns w (conn_of ev);
       let (ok, w) = kevent (Kadd (c_fd c) d) w;
       Some (if ok then OK else ERROR, w)
     } else Some (OK, w)
   }"

definition kqueue_del_event :: "nat \<Rightarrow> dir \<Rightarrow> world \<Rightarrow> (rc \<times> world) option" where
  "kqueue_del_event ev d w = do {
     e \<leftarrow> get_ev ev w;
     if ev_active e then do {
       w \<leftarrow> set_ev (\<lambda>e. e\<lparr>ev_active := False\<rparr>) ev w;
       c \<leftarrow> w_conns w (conn_of ev);
       w \<leftarrow> del_timer_if_set ev w;
       let (ok, w) = kevent (Kdel (c_fd c) d) w;
       Some (if ok then OK else ERROR, w)
     } else Some (OK, w)
   }"

text \<open>The calls whose result the code does not use.\<close>

definition add_event :: "nat \<Rightarrow> dir \<Rightarrow> world \<Rightarrow> world option" where
  "add_event ev d w = map_option snd (kqueue_add_event ev d w)"

definition del_event :: "nat \<Rightarrow> dir \<Rightarrow> world \<Rightarrow> world option" where
  "del_event ev d w = map_option snd (kqueue_del_event ev d w)"

section \<open>Opening and closing connections\<close>

definition zero_node :: rbnode where
  "zero_node = \<lparr>rb_key = 0, rb_parent = NULL_NODE, rb_left = NULL_NODE, rb_right = NULL_NODE, rb_color = False\<rparr>"

definition zero_event :: "handler event" where
  "zero_event = \<lparr>ev_handler = None, ev_active = False, timer_set = False, timedout = False\<rparr>"

text \<open>The part of \<^verbatim>\<open>memzero(c, sizeof(connection_t))\<close> that clears an event.\<close>

definition zero_ev :: "nat \<Rightarrow> handler timers \<Rightarrow> handler timers" where
  "zero_ev ev S = S\<lparr>tm_tree := (tm_tree S)\<lparr>rb_mem := (rb_mem (tm_tree S))(ev \<mapsto> zero_node)\<rparr>,
     tm_events := (tm_events S)(ev \<mapsto> zero_event)\<rparr>"

definition connectionPoolInit :: "int \<Rightarrow> mem \<Rightarrow> (rc \<times> pool \<times> mem) option" where
  "connectionPoolInit sz m = poolInit True sz 8 0 m"

definition getIdleConnection :: "world \<Rightarrow> (slot option \<times> world) option" where
  "getIdleConnection w =
     (if p_used (fst (w_pool w)) < max_connections (w_cfg w) then do {
        (x, pm) \<leftarrow> pool_alloc (w_pool w);
        c \<leftarrow> x;
        let w = w\<lparr>w_pool := pm, w_tm := zero_ev (wev_of c) (zero_ev (rev_of c) (w_tm w)),
          w_conns := (w_conns w)(c \<mapsto> \<lparr>c_fd = - 33, c_ip = 0, c_data = None, is_connected = False, is_idle = False\<rparr>)\<rparr>;
        Some (Some c, w)
      } else Some (None, w))"

definition init_connection :: "slot \<Rightarrow> world \<Rightarrow> world option" where
  "init_connection c w = do {
     w \<leftarrow> set_ev (\<lambda>e. e\<lparr>ev_handler := Some Init_request\<rparr>) (rev_of c) w;
     w \<leftarrow> add_timer (rev_of c) (post_accept_timeout (w_cfg w)) w;
     add_event (rev_of c) READ_EVENT w
   }"

definition http_close_connection :: "slot \<Rightarrow> world \<Rightarrow> world option" where
  "http_close_connection c w = do {
     k \<leftarrow> w_conns w c;
     if c_data k = None \<and> \<not> is_connected k then Some w
     else do {
       w \<leftarrow> (case c_data k of
           None \<Rightarrow> Some w
         | Some r \<Rightarrow> do {
             q \<leftarrow> w_reqs w r;
             set_req (\<lambda>q. if connection q = Some c then q\<lparr>connection := None\<rparr> else q\<lparr>upstream := None\<rparr>) r w
           });
       let w = (if c_fd k > 0 then call (Close (c_fd k)) w else w);
       w \<leftarrow> del_timer_if_set (rev_of c) w;
       w \<leftarrow> del_timer_if_set (wev_of c) w;
       w \<leftarrow> set_conn (\<lambda>k. k\<lparr>c_fd := - 10086, c_data := None, is_idle := False, is_connected := False\<rparr>) c w;
       w \<leftarrow> set_ev (\<lambda>e. e\<lparr>ev_active := False\<rparr>) (rev_of c) w;
       w \<leftarrow> set_ev (\<lambda>e. e\<lparr>ev_active := False\<rparr>) (wev_of c) w;
       pm \<leftarrow> pool_free (w_pool w) c;
       Some (w\<lparr>w_pool := pm\<rparr>)
     }
   }"

text \<open>
  One round of the loop of \<open>clear_idle_connections\<close>; the last line is outside of the test. A slot
  that has never been handed out is zeroed memory, in which nothing changes.
\<close>

definition clear_idle :: "slot \<Rightarrow> world \<Rightarrow> world option" where
  "clear_idle c w =
     (case w_conns w c of
        None \<Rightarrow> Some w
      | Some k \<Rightarrow> do {
          w \<leftarrow> (if c_fd k > 0 \<and> is_idle k then http_close_connection c w else Some w);
          set_conn (\<lambda>k. k\<lparr>c_data := None\<rparr>) c w
        })"

fun for_each :: "('a \<Rightarrow> 'w \<Rightarrow> 'w option) \<Rightarrow> 'a list \<Rightarrow> 'w \<Rightarrow> 'w option" where
  "for_each f [] w = Some w"
| "for_each f (x # xs) w = Option.bind (f x w) (for_each f xs)"

text \<open>
  The slots are computed from the chunks of the vector, up to its capacity; a unit that has no
  block leads nowhere.
\<close>

definition chunk_slots :: "nat option vector \<Rightarrow> int \<Rightarrow> nat \<Rightarrow> slot list option" where
  "chunk_slots vc sz i = do {
     k \<leftarrow> vectorAt vc (int i);
     ch \<leftarrow> vload vc k;
     b \<leftarrow> ch;
     Some (map (\<lambda>j. get_data_from_chunk (b, j * (nat sz + WORD))) [0..<8])
   }"

definition clear_idle_connections :: "world \<Rightarrow> world option" where
  "clear_idle_connections w =
     (let p = fst (w_pool w); vc = p_chunks p in
      for_each (\<lambda>i w. do {
          cs \<leftarrow> chunk_slots vc (p_unit_size p) i;
          for_each clear_idle cs w
        }) [0..<nat (v_capacity vc)] w)"

section \<open>event_accept\<close>

fun event_accept :: "accept_out list \<Rightarrow> world \<Rightarrow> world option" where
  "event_accept [] w = Some w"
| "event_accept (Accept_error # es) w = Some w"
| "event_accept (Accepted fd ip # es) w =
     (if fd \<le> 0 then Some w
      else Option.bind (getIdleConnection w) (\<lambda>(x, w).
        case x of
          None \<Rightarrow> Some (call (Close fd) w)
        | Some c \<Rightarrow> Option.bind (set_conn (\<lambda>k. k\<lparr>c_fd := fd, is_connected := True, c_ip := ip\<rparr>) c w) (\<lambda>w.
            Option.bind (init_connection c w) (event_accept es))))"

end
