(* ===== verification/Connection_Inv.thy ===== *)
theory Connection_Inv
  imports Connection_C
begin

text \<open>
  The invariant of connections and timers, and that the operations of \<open>Connection_C\<close> keep it.
\<close>

section \<open>Addresses of events\<close>

lemma conn_of_ev [simp]: "conn_of (rev_of c) = c" "conn_of (wev_of c) = c" "conn_of (ev_of c d) = c"
proof -
  show r: "conn_of (rev_of c) = c" by (simp add: conn_of_def rev_of_def)
  have "(2 * prod_encode c + 1) div 2 = prod_encode c" by simp
  then show v: "conn_of (wev_of c) = c" by (simp add: conn_of_def wev_of_def)
  show "conn_of (ev_of c d) = c" using r v by (cases d) simp_all
qed

lemma rev_neq_wev [simp]: "rev_of c \<noteq> wev_of c'" "wev_of c \<noteq> rev_of c'"
  by (auto simp: rev_of_def wev_of_def, presburger+)

lemma ev_inj [simp]:
  "rev_of c = rev_of c' \<longleftrightarrow> c = c'" "wev_of c = wev_of c' \<longleftrightarrow> c = c'" "ev_of c d = ev_of c' d' \<longleftrightarrow> c = c' \<and> d = d'"
proof -
  show r: "rev_of c = rev_of c' \<longleftrightarrow> c = c'" for c c' by (metis conn_of_ev(1))
  show v: "wev_of c = wev_of c' \<longleftrightarrow> c = c'" for c c' by (metis conn_of_ev(2))
  show "ev_of c d = ev_of c' d' \<longleftrightarrow> c = c' \<and> d = d'" using r v by (cases d; cases d') auto
qed

lemma ev_not_sentinel [simp]: "rev_of c \<noteq> SENTINEL" "wev_of c \<noteq> SENTINEL" "ev_of c d \<noteq> SENTINEL"
proof -
  show "rev_of c \<noteq> SENTINEL" "wev_of c \<noteq> SENTINEL" by (simp_all add: rev_of_def wev_of_def SENTINEL_def)
  then show "ev_of c d \<noteq> SENTINEL" by (cases d) auto
qed

section \<open>Timers: more operations\<close>

lemma set_event_ok:
  assumes "tm_inv S xs" "tm_events S ev = Some e" "timer_set (f e) = timer_set e"
  shows "set_event f ev S = Some (S\<lparr>tm_events := (tm_events S)(ev \<mapsto> f e)\<rparr>)"
    "tm_inv (S\<lparr>tm_events := (tm_events S)(ev \<mapsto> f e)\<rparr>) xs"
  using assms by (auto simp: set_event_def tm_inv_def)

lemma rb_tree_write:
  assumes "rb_tree T xs" "n \<notin> snd ` set xs" "n \<noteq> sentinel T"
  shows "rb_tree (T\<lparr>rb_mem := (rb_mem T)(n \<mapsto> nd)\<rparr>) xs"
proof -
  obtain tp t where t: "rep T tp t" "red_black t" "entries t = xs" "sorted (map fst xs)"
    using assms(1) by (auto simp: rb_tree_def)
  have "fresh n t" using assms(2) t(3) by (simp add: fresh_def adr_def)
  then have "rep (T\<lparr>rb_mem := (rb_mem T)(n \<mapsto> nd)\<rparr>) tp t" using t(1) assms(3) by (simp add: rep_def)
  then show ?thesis using t(2-4) by (auto simp: rb_tree_def)
qed

lemma zero_ev_ok:
  assumes inv: "tm_inv S xs" and ev: "ev \<notin> snd ` set xs" "ev \<noteq> sentinel (tm_tree S)"
  shows "tm_inv (zero_ev ev S) xs"
proof -
  let ?T = "tm_tree S"
  let ?T' = "?T\<lparr>rb_mem := (rb_mem ?T)(ev \<mapsto> zero_node)\<rparr>"
  have "rb_tree ?T' xs" using rb_tree_write [OF _ ev] inv by (simp add: tm_inv_def)
  moreover have "looped ?T'" using inv ev(2) by (auto simp: tm_inv_def looped_def fld_def)
  moreover have "event_ok ?T' xs b f" if "event_ok ?T xs b f" "b \<noteq> ev" for b f
    using event_ok_frame [OF that(1), of ?T' xs] that(2) by simp
  moreover have "event_ok ?T' xs ev False" using ev by (simp add: event_ok_def)
  ultimately show ?thesis using inv by (auto simp: tm_inv_def zero_ev_def zero_event_def)
qed

lemma zero_ev_reads [simp]:
  "tm_events (zero_ev ev S) = (tm_events S)(ev \<mapsto> zero_event)" "sentinel (tm_tree (zero_ev ev S)) = sentinel (tm_tree S)"
  "current_msec (zero_ev ev S) = current_msec S"
  by (simp_all add: zero_ev_def)

text \<open>Deleting a timer if it is set takes its entry out, whether there was one or not.\<close>

lemma del_if_set_ok:
  assumes inv: "tm_inv S xs" and e: "tm_events S ev = Some e"
  shows "\<exists>S' e'. (if timer_set e then event_del_timer ev S else Some S) = Some S' \<and>
    tm_inv S' (filter (\<lambda>x. snd x \<noteq> ev) xs) \<and> tm_events S' = (tm_events S)(ev \<mapsto> e') \<and> \<not> timer_set e' \<and>
    ev_handler e' = ev_handler e \<and> ev_active e' = ev_active e \<and>
    current_msec S' = current_msec S \<and> sentinel (tm_tree S') = sentinel (tm_tree S)"
proof (cases "timer_set e")
  case True
  from del_timer_ok [OF inv e True] obtain S' where "event_del_timer ev S = Some S'" "tm_inv S' (filter (\<lambda>x. snd x \<noteq> ev) xs)"
    "tm_events S' = (tm_events S)(ev \<mapsto> e\<lparr>timer_set := False, timedout := False\<rparr>)" "current_msec S' = current_msec S"
    "sentinel (tm_tree S') = sentinel (tm_tree S)" by blast
  then show ?thesis using True by (intro exI [of _ S'] exI [of _ "e\<lparr>timer_set := False, timedout := False\<rparr>"]) simp
next
  case False
  then have "ev \<notin> snd ` set xs" using tm_invD [OF inv e] by (auto simp: event_ok_def)
  then show ?thesis using inv e False by (intro exI [of _ S] exI [of _ e]) (simp add: filter_absent fun_upd_idem)
qed

section \<open>The invariant\<close>

text \<open>
  \<open>L\<close> is the set of connections in use and \<open>xs\<close> the queue of timers. A connection that is not in
  use has neither data nor timers.
\<close>

definition closed_conn :: "world \<Rightarrow> slot \<Rightarrow> bool" where
  "closed_conn w c \<longleftrightarrow> (\<exists>k. w_conns w c = Some k \<and> c_data k = None \<and> \<not> is_connected k) \<and>
     (\<forall>d e. get_ev (ev_of c d) w = Some e \<longrightarrow> \<not> timer_set e)"

definition conn_inv :: "world \<Rightarrow> slot set \<Rightarrow> (32 word \<times> nat) list \<Rightarrow> bool" where
  "conn_inv w L xs \<longleftrightarrow> tm_inv (w_tm w) xs \<and> sentinel (tm_tree (w_tm w)) = SENTINEL \<and> pool_live (w_pool w) L \<and>
     L \<subseteq> dom (w_conns w) \<and> (\<forall>ev. ev \<in> dom (tm_events (w_tm w)) \<longleftrightarrow> (\<exists>c \<in> dom (w_conns w). \<exists>d. ev = ev_of c d)) \<and>
     (\<forall>c \<in> dom (w_conns w) - L. closed_conn w c)"

lemma conn_inv_event:
  assumes "conn_inv w L xs" "w_conns w c = Some k"
  obtains e where "get_ev (ev_of c d) w = Some e"
proof -
  have "ev_of c d \<in> dom (tm_events (w_tm w))" using assms unfolding conn_inv_def by blast
  then show thesis using that by (auto simp: get_ev_def)
qed

lemma live_conn: "conn_inv w L xs \<Longrightarrow> c \<in> L \<Longrightarrow> \<exists>k. w_conns w c = Some k"
  by (auto simp: conn_inv_def)

lemma live_event: "conn_inv w L xs \<Longrightarrow> c \<in> L \<Longrightarrow> \<exists>e. get_ev (ev_of c d) w = Some e"
  using live_conn conn_inv_event by metis

text \<open>The timers in the tree belong to connections in use.\<close>

lemma timers_live:
  assumes "conn_inv w L xs" "(k, ev) \<in> set xs"
  shows "\<exists>c \<in> L. \<exists>d. ev = ev_of c d"
proof -
  have tm: "tm_inv (w_tm w) xs" using assms(1) by (simp add: conn_inv_def)
  then obtain e where e: "tm_events (w_tm w) ev = Some e" using assms(2) by (force simp: tm_inv_def)
  then obtain c d where c: "c \<in> dom (w_conns w)" "ev = ev_of c d" using assms(1) unfolding conn_inv_def by blast
  have "timer_set e" using tm_invD [OF tm e] assms(2) by (force simp: event_ok_def)
  then have "c \<in> L" using assms(1) c e unfolding conn_inv_def closed_conn_def get_ev_def by blast
  then show ?thesis using c(2) by blast
qed

text \<open>What changes when only an event of a connection in use, the calls and the kernel change.\<close>

lemma conn_inv_events:
  assumes inv: "conn_inv w L xs" and c: "c \<in> L"
    and S: "tm_inv S ys" "tm_events S = (tm_events (w_tm w))(ev_of c d \<mapsto> e)" "sentinel (tm_tree S) = sentinel (tm_tree (w_tm w))"
    and w': "w_tm w' = S" "w_pool w' = w_pool w" "w_conns w' = w_conns w"
  shows "conn_inv w' L ys"
proof -
  obtain e0 where "tm_events (w_tm w) (ev_of c d) = Some e0"
    using live_conn [OF inv c] conn_inv_event [OF inv] unfolding get_ev_def by metis
  then have dom: "dom (tm_events S) = dom (tm_events (w_tm w))" using S(2) by auto
  have "closed_conn w' b" if "b \<in> dom (w_conns w) - L" for b
    using inv that c w' S(2) unfolding conn_inv_def closed_conn_def get_ev_def by (metis DiffD2 ev_inj(3) fun_upd_other)
  then show ?thesis using inv S w' dom unfolding conn_inv_def by simp
qed

section \<open>The operations on events\<close>

text \<open>
  The frame of an operation on the events \<open>E\<close>: the other events stay as they are, handlers are
  kept, and besides the timers only the answers of the kernel and the recorded calls change.
\<close>

definition event_frame :: "nat set \<Rightarrow> world \<Rightarrow> world \<Rightarrow> bool" where
  "event_frame E w w' \<longleftrightarrow> (\<exists>S ks cs. w' = w\<lparr>w_tm := S, w_kevent := ks, w_calls := w_calls w @ cs\<rparr> \<and>
     current_msec S = current_msec (w_tm w) \<and> (\<forall>b. b \<notin> E \<longrightarrow> tm_events S b = tm_events (w_tm w) b) \<and>
     (\<forall>b e. tm_events (w_tm w) b = Some e \<longrightarrow> (\<exists>e'. tm_events S b = Some e' \<and> ev_handler e' = ev_handler e)))"

lemma event_frameE:
  assumes "event_frame E w w'"
  obtains S ks cs where "w' = w\<lparr>w_tm := S, w_kevent := ks, w_calls := w_calls w @ cs\<rparr>" "current_msec S = current_msec (w_tm w)"
    "\<And>b. b \<notin> E \<Longrightarrow> tm_events S b = tm_events (w_tm w) b"
    "\<And>b e. tm_events (w_tm w) b = Some e \<Longrightarrow> \<exists>e'. tm_events S b = Some e' \<and> ev_handler e' = ev_handler e"
  using assms unfolding event_frame_def by blast

lemma event_frameD:
  assumes "event_frame E w w'"
  shows "w_cfg w' = w_cfg w" "w_pool w' = w_pool w" "w_conns w' = w_conns w" "w_reqs w' = w_reqs w" "w_doms w' = w_doms w"
    "w_static w' = w_static w" "current_msec (w_tm w') = current_msec (w_tm w)" "\<exists>cs. w_calls w' = w_calls w @ cs"
    "b \<notin> E \<Longrightarrow> get_ev b w' = get_ev b w"
    "get_ev b w = Some e \<Longrightarrow> \<exists>e'. get_ev b w' = Some e' \<and> ev_handler e' = ev_handler e"
proof -
  obtain S ks cs where f: "w' = w\<lparr>w_tm := S, w_kevent := ks, w_calls := w_calls w @ cs\<rparr>" "current_msec S = current_msec (w_tm w)"
    "\<And>b. b \<notin> E \<Longrightarrow> tm_events S b = tm_events (w_tm w) b"
    "\<And>b e. tm_events (w_tm w) b = Some e \<Longrightarrow> \<exists>e'. tm_events S b = Some e' \<and> ev_handler e' = ev_handler e"
    using assms by (rule event_frameE) blast
  show "w_cfg w' = w_cfg w" "w_pool w' = w_pool w" "w_conns w' = w_conns w" "w_reqs w' = w_reqs w" "w_doms w' = w_doms w"
    "w_static w' = w_static w" "current_msec (w_tm w') = current_msec (w_tm w)" "\<exists>cs. w_calls w' = w_calls w @ cs"
    by (simp_all add: f(1,2))
  show "b \<notin> E \<Longrightarrow> get_ev b w' = get_ev b w" by (simp add: get_ev_def f(1,3))
  show "get_ev b w = Some e \<Longrightarrow> \<exists>e'. get_ev b w' = Some e' \<and> ev_handler e' = ev_handler e"
    using f(4) by (simp add: get_ev_def f(1))
qed

lemma event_frame_refl [simp]: "event_frame E w w"
  unfolding event_frame_def by (intro exI [of _ "w_tm w"] exI [of _ "w_kevent w"] exI [of _ "[]"]) simp

lemma event_frame_trans:
  assumes "event_frame E w w'" "event_frame E2 w' w''"
  shows "event_frame (E \<union> E2) w w''"
proof -
  obtain S ks cs where 1: "w' = w\<lparr>w_tm := S, w_kevent := ks, w_calls := w_calls w @ cs\<rparr>" "current_msec S = current_msec (w_tm w)"
    "\<And>b. b \<notin> E \<Longrightarrow> tm_events S b = tm_events (w_tm w) b"
    "\<And>b e. tm_events (w_tm w) b = Some e \<Longrightarrow> \<exists>e'. tm_events S b = Some e' \<and> ev_handler e' = ev_handler e"
    using assms(1) by (rule event_frameE) blast
  obtain S2 ks2 cs2 where 2: "w'' = w'\<lparr>w_tm := S2, w_kevent := ks2, w_calls := w_calls w' @ cs2\<rparr>" "current_msec S2 = current_msec (w_tm w')"
    "\<And>b. b \<notin> E2 \<Longrightarrow> tm_events S2 b = tm_events (w_tm w') b"
    "\<And>b e. tm_events (w_tm w') b = Some e \<Longrightarrow> \<exists>e'. tm_events S2 b = Some e' \<and> ev_handler e' = ev_handler e"
    using assms(2) by (rule event_frameE) blast
  have "w'' = w\<lparr>w_tm := S2, w_kevent := ks2, w_calls := w_calls w @ cs @ cs2\<rparr>" using 1(1) 2(1) by simp
  moreover have "current_msec S2 = current_msec (w_tm w)" using 1(1,2) 2(2) by simp
  moreover have "tm_events S2 b = tm_events (w_tm w) b" if "b \<notin> E \<union> E2" for b using 1(3) [of b] 2(3) [of b] 1(1) that by simp
  moreover have "\<exists>e'. tm_events S2 b = Some e' \<and> ev_handler e' = ev_handler e" if h: "tm_events (w_tm w) b = Some e" for b e
  proof -
    obtain e1 where e1: "tm_events S b = Some e1" "ev_handler e1 = ev_handler e" using 1(4) [OF h] by blast
    then show ?thesis using 2(4) [of b e1] 1(1) by simp
  qed
  ultimately show ?thesis unfolding event_frame_def by blast
qed

lemma event_frame_trans1: "event_frame E w w' \<Longrightarrow> event_frame E w' w'' \<Longrightarrow> event_frame E w w''"
  using event_frame_trans by fastforce

lemma kevent_frame: "snd (kevent s w) = w\<lparr>w_kevent := tl (w_kevent w), w_calls := w_calls w @ [s]\<rparr>"
  by (cases "w_kevent w") (simp_all add: kevent_def call_def)

lemma kevent_event_frame: "event_frame E w (snd (kevent s w))"
  unfolding event_frame_def kevent_frame
  by (intro exI [of _ "w_tm w"] exI [of _ "tl (w_kevent w)"] exI [of _ "[s]"]) simp

lemma event_frameI:
  assumes "w' = w\<lparr>w_tm := S\<rparr>" "tm_events S = (tm_events (w_tm w))(b \<mapsto> e')" "current_msec S = current_msec (w_tm w)"
    "get_ev b w = Some e" "ev_handler e' = ev_handler e"
  shows "event_frame {b} w w'"
  unfolding event_frame_def
proof (intro exI conjI)
  show "w' = w\<lparr>w_tm := S, w_kevent := w_kevent w, w_calls := w_calls w @ []\<rparr>" using assms(1) by simp
qed (use assms(2-5) in \<open>auto simp: get_ev_def\<close>)

lemma conn_inv_cong:
  "w_tm w' = w_tm w \<Longrightarrow> w_pool w' = w_pool w \<Longrightarrow> w_conns w' = w_conns w \<Longrightarrow> conn_inv w' L xs = conn_inv w L xs"
  by (simp add: conn_inv_def closed_conn_def get_ev_def)

lemma set_active_ok:
  assumes inv: "conn_inv w L xs" and c: "c \<in> L" and e: "get_ev (ev_of c d) w = Some e" and f: "timer_set (f e) = timer_set e"
  shows "\<exists>w'. set_ev f (ev_of c d) w = Some w' \<and> conn_inv w' L xs \<and> get_ev (ev_of c d) w' = Some (f e) \<and>
    w' = w\<lparr>w_tm := (w_tm w)\<lparr>tm_events := (tm_events (w_tm w))(ev_of c d \<mapsto> f e)\<rparr>\<rparr>"
proof -
  let ?S = "(w_tm w)\<lparr>tm_events := (tm_events (w_tm w))(ev_of c d \<mapsto> f e)\<rparr>"
  have tm: "tm_inv (w_tm w) xs" using inv by (simp add: conn_inv_def)
  note s = set_event_ok [where f = f, OF tm e [unfolded get_ev_def] f]
  have "conn_inv (w\<lparr>w_tm := ?S\<rparr>) L xs" by (rule conn_inv_events [OF inv c s(2)]) simp_all
  then show ?thesis using s(1) by (simp add: set_ev_def on_timers_def get_ev_def)
qed

lemma add_event_ok:
  assumes inv: "conn_inv w L xs" and c: "c \<in> L"
  shows "\<exists>w'. add_event (ev_of c d) d' w = Some w' \<and> conn_inv w' L xs \<and> event_frame {ev_of c d} w w' \<and>
    (\<exists>e. get_ev (ev_of c d) w' = Some e \<and> ev_active e)"
proof -
  obtain k where k: "w_conns w c = Some k" using live_conn [OF inv c] by blast
  obtain e where e: "get_ev (ev_of c d) w = Some e" using conn_inv_event [OF inv k] by metis
  show ?thesis
  proof (cases "ev_active e")
    case True
    then show ?thesis using e inv by (simp add: add_event_def kqueue_add_event_def)
  next
    case False
    let ?f = "\<lambda>e. e\<lparr>ev_active := True\<rparr>"
    obtain w1 where w1: "set_ev ?f (ev_of c d) w = Some w1" "conn_inv w1 L xs" "get_ev (ev_of c d) w1 = Some (?f e)"
      "w1 = w\<lparr>w_tm := (w_tm w)\<lparr>tm_events := (tm_events (w_tm w))(ev_of c d \<mapsto> ?f e)\<rparr>\<rparr>"
      using set_active_ok [OF inv c e, of ?f] by auto
    let ?w = "snd (kevent (Kadd (c_fd k) d') w1)"
    have "event_frame {ev_of c d} w w1" by (rule event_frameI [where e' = "?f e", OF w1(4) _ _ e]) simp_all
    then have "event_frame {ev_of c d} w ?w" using kevent_event_frame event_frame_trans1 by blast
    moreover have "conn_inv ?w L xs" using w1(2) conn_inv_cong [of ?w w1] by (simp add: kevent_frame)
    moreover have "get_ev (ev_of c d) ?w = Some (?f e)" using w1(3) by (simp add: kevent_frame get_ev_def)
    moreover have "add_event (ev_of c d) d' w = Some ?w"
      using e False w1(1) k by (simp add: add_event_def kqueue_add_event_def w1(4) split_beta)
    ultimately show ?thesis by auto
  qed
qed

lemma del_timer_if_set_ok:
  assumes inv: "conn_inv w L xs" and c: "c \<in> L"
  shows "\<exists>S e'. del_timer_if_set (ev_of c d) w = Some (w\<lparr>w_tm := S\<rparr>) \<and>
    conn_inv (w\<lparr>w_tm := S\<rparr>) L (filter (\<lambda>x. snd x \<noteq> ev_of c d) xs) \<and> event_frame {ev_of c d} w (w\<lparr>w_tm := S\<rparr>) \<and>
    tm_events S = (tm_events (w_tm w))(ev_of c d \<mapsto> e') \<and> \<not> timer_set e'"
proof -
  obtain k where k: "w_conns w c = Some k" using live_conn [OF inv c] by blast
  obtain e where e: "get_ev (ev_of c d) w = Some e" using conn_inv_event [OF inv k] by metis
  have tm: "tm_inv (w_tm w) xs" using inv by (simp add: conn_inv_def)
  obtain S e' where S: "(if timer_set e then event_del_timer (ev_of c d) (w_tm w) else Some (w_tm w)) = Some S"
    "tm_inv S (filter (\<lambda>x. snd x \<noteq> ev_of c d) xs)" "tm_events S = (tm_events (w_tm w))(ev_of c d \<mapsto> e')" "\<not> timer_set e'"
    "ev_handler e' = ev_handler e" "current_msec S = current_msec (w_tm w)" "sentinel (tm_tree S) = sentinel (tm_tree (w_tm w))"
    using del_if_set_ok [OF tm e [unfolded get_ev_def]] by blast
  let ?w = "w\<lparr>w_tm := S\<rparr>"
  have "conn_inv ?w L (filter (\<lambda>x. snd x \<noteq> ev_of c d) xs)" by (rule conn_inv_events [OF inv c S(2,3,7)]) simp_all
  moreover have "event_frame {ev_of c d} w ?w" by (rule event_frameI [OF refl S(3,6) e S(5)])
  moreover have "del_timer_if_set (ev_of c d) w = Some ?w"
    using S(1) e by (auto simp: del_timer_if_set_def del_timer_def on_timers_def split: if_splits)
  ultimately show ?thesis using S(3,4) by (intro exI [of _ S] exI [of _ e']) simp
qed

lemma del_event_ok:
  assumes inv: "conn_inv w L xs" and c: "c \<in> L"
  shows "\<exists>w' ys. del_event (ev_of c d) d' w = Some w' \<and> conn_inv w' L ys \<and> event_frame {ev_of c d} w w' \<and>
    (ys = xs \<or> ys = filter (\<lambda>x. snd x \<noteq> ev_of c d) xs)"
proof -
  obtain k where k: "w_conns w c = Some k" using live_conn [OF inv c] by blast
  obtain e where e: "get_ev (ev_of c d) w = Some e" using conn_inv_event [OF inv k] by metis
  show ?thesis
  proof (cases "ev_active e")
    case False
    then show ?thesis using e inv by (auto simp: del_event_def kqueue_del_event_def)
  next
    case True
    let ?f = "\<lambda>e. e\<lparr>ev_active := False\<rparr>"
    obtain w1 where w1: "set_ev ?f (ev_of c d) w = Some w1" "conn_inv w1 L xs"
      "w1 = w\<lparr>w_tm := (w_tm w)\<lparr>tm_events := (tm_events (w_tm w))(ev_of c d \<mapsto> ?f e)\<rparr>\<rparr>"
      using set_active_ok [OF inv c e, of ?f] by auto
    have f1: "event_frame {ev_of c d} w w1" by (rule event_frameI [where e' = "?f e", OF w1(3) _ _ e]) simp_all
    obtain w2 where w2: "del_timer_if_set (ev_of c d) w1 = Some w2" "conn_inv w2 L (filter (\<lambda>x. snd x \<noteq> ev_of c d) xs)" "event_frame {ev_of c d} w1 w2"
      using del_timer_if_set_ok [OF w1(2) c] by blast
    let ?w = "snd (kevent (Kdel (c_fd k) d') w2)"
    have "event_frame {ev_of c d} w ?w" using f1 w2(3) kevent_event_frame event_frame_trans1 by blast
    moreover have "conn_inv ?w L (filter (\<lambda>x. snd x \<noteq> ev_of c d) xs)" using w2(2) conn_inv_cong [of ?w w2] by (simp add: kevent_frame)
    moreover have "del_event (ev_of c d) d' w = Some ?w"
      using e True w1(1) w2(1) k by (simp add: del_event_def kqueue_del_event_def w1(3) split_beta)
    ultimately show ?thesis by blast
  qed
qed

lemma add_timer_keeps:
  assumes inv: "conn_inv w L xs" and c: "c \<in> L"
  shows "\<exists>w' ys. add_timer (ev_of c d) t w = Some w' \<and> conn_inv w' L ys \<and> event_frame {ev_of c d} w w' \<and>
    set ys \<subseteq> insert (current_msec (w_tm w) + of_int t, ev_of c d) (set xs)"
proof -
  obtain k where k: "w_conns w c = Some k" using live_conn [OF inv c] by blast
  obtain e where e: "get_ev (ev_of c d) w = Some e" using conn_inv_event [OF inv k] by metis
  have tm: "tm_inv (w_tm w) xs" using inv by (simp add: conn_inv_def)
  let ?ys = "rearm (timer_set e) (current_msec (w_tm w) + of_int t) (ev_of c d) xs"
  obtain S e' where S: "event_add_timer (ev_of c d) (of_int t) (w_tm w) = Some S" "tm_inv S ?ys"
    "current_msec S = current_msec (w_tm w)" "sentinel (tm_tree S) = sentinel (tm_tree (w_tm w))"
    "\<forall>b. b \<noteq> ev_of c d \<longrightarrow> tm_events S b = tm_events (w_tm w) b" "tm_events S (ev_of c d) = Some e'"
    "ev_handler e' = ev_handler e" using add_timer_ok [OF tm e [unfolded get_ev_def]] by blast
  have upd: "tm_events S = (tm_events (w_tm w))(ev_of c d \<mapsto> e')" using S(5,6) by auto
  let ?w = "w\<lparr>w_tm := S\<rparr>"
  have "conn_inv ?w L ?ys" by (rule conn_inv_events [OF inv c S(2) upd S(4)]) simp_all
  moreover have "event_frame {ev_of c d} w ?w" by (rule event_frameI [OF refl upd S(3) e S(7)])
  moreover have "set ?ys \<subseteq> insert (current_msec (w_tm w) + of_int t, ev_of c d) (set xs)"
    by (auto simp: rearm_def put_entry_set)
  moreover have "add_timer (ev_of c d) t w = Some ?w" using S(1) by (simp add: add_timer_def on_timers_def)
  ultimately show ?thesis by blast
qed

section \<open>Closing a connection\<close>

lemma conn_inv_conns:
  assumes "conn_inv w L xs" "c \<in> L"
  shows "conn_inv (w\<lparr>w_conns := (w_conns w)(c \<mapsto> k)\<rparr>) L xs"
proof -
  have "dom ((w_conns w)(c \<mapsto> k)) = dom (w_conns w)" using assms by (auto simp: conn_inv_def)
  then show ?thesis using assms by (auto simp: conn_inv_def closed_conn_def get_ev_def)
qed

lemma conn_inv_free:
  assumes inv: "conn_inv w L xs" and c: "c \<in> L" "closed_conn w c" and p: "pool_live pm (L - {c})"
  shows "conn_inv (w\<lparr>w_pool := pm\<rparr>) (L - {c}) xs"
proof -
  have cl: "closed_conn (w\<lparr>w_pool := pm\<rparr>) b = closed_conn w b" for b by (simp add: closed_conn_def get_ev_def)
  have "closed_conn w b" if "b \<in> dom (w_conns w) - (L - {c})" for b
    using that c(2) inv unfolding conn_inv_def by (cases "b = c") auto
  then show ?thesis using inv p cl unfolding conn_inv_def by auto
qed

definition unlink :: "slot \<Rightarrow> http_request \<Rightarrow> http_request" where
  "unlink c q = (if connection q = Some c then q\<lparr>connection := None\<rparr> else q\<lparr>upstream := None\<rparr>)"

abbreviation shut :: "conn \<Rightarrow> conn" where
  "shut k \<equiv> k\<lparr>c_fd := - 10086, c_data := None, is_idle := False, is_connected := False\<rparr>"

definition close_frame :: "slot \<Rightarrow> conn \<Rightarrow> world \<Rightarrow> world \<Rightarrow> bool" where
  "close_frame c k w w' \<longleftrightarrow> (\<exists>S pm. w' = w\<lparr>w_tm := S, w_pool := pm, w_conns := (w_conns w)(c \<mapsto> shut k),
       w_reqs := (case c_data k of None \<Rightarrow> w_reqs w | Some r \<Rightarrow> (w_reqs w)(r := map_option (unlink c) (w_reqs w r))),
       w_calls := w_calls w @ (if c_fd k > 0 then [Close (c_fd k)] else [])\<rparr> \<and> current_msec S = current_msec (w_tm w) \<and>
     (\<forall>b. b \<noteq> rev_of c \<longrightarrow> b \<noteq> wev_of c \<longrightarrow> tm_events S b = tm_events (w_tm w) b))"

lemma close_ok:
  assumes inv: "conn_inv w L xs" and c: "c \<in> L" and k: "w_conns w c = Some k" "c_data k = None \<Longrightarrow> is_connected k"
    and r: "\<And>r. c_data k = Some r \<Longrightarrow> w_reqs w r \<noteq> None"
  shows "\<exists>w'. http_close_connection c w = Some w' \<and> close_frame c k w w' \<and>
    conn_inv w' (L - {c}) (filter (\<lambda>x. snd x \<noteq> rev_of c \<and> snd x \<noteq> wev_of c) xs) \<and> closed_conn w' c"
proof -
  let ?rq = "case c_data k of None \<Rightarrow> w_reqs w | Some r \<Rightarrow> (w_reqs w)(r := map_option (unlink c) (w_reqs w r))"
  let ?w1 = "w\<lparr>w_reqs := ?rq\<rparr>"
  let ?cs = "w_calls w @ (if c_fd k > 0 then [Close (c_fd k)] else [])"
  let ?w2 = "?w1\<lparr>w_calls := ?cs\<rparr>"
  have unl: "(case c_data k of None \<Rightarrow> Some w | Some r \<Rightarrow> do {
      q \<leftarrow> w_reqs w r;
      set_req (\<lambda>q. if connection q = Some c then q\<lparr>connection := None\<rparr> else q\<lparr>upstream := None\<rparr>) r w }) = Some ?w1"
  proof (cases "c_data k")
    case (Some r')
    then obtain q where "w_reqs w r' = Some q" using r by auto
    then show ?thesis using Some by (simp add: set_req_def unlink_def)
  qed simp
  have i2: "conn_inv ?w2 L xs" using inv conn_inv_cong [of ?w2 w] by simp
  obtain S3 e3 where 3: "del_timer_if_set (rev_of c) ?w2 = Some (?w2\<lparr>w_tm := S3\<rparr>)"
    "conn_inv (?w2\<lparr>w_tm := S3\<rparr>) L (filter (\<lambda>x. snd x \<noteq> rev_of c) xs)" "event_frame {rev_of c} ?w2 (?w2\<lparr>w_tm := S3\<rparr>)"
    "tm_events S3 = (tm_events (w_tm w))(rev_of c \<mapsto> e3)" "\<not> timer_set e3"
    using del_timer_if_set_ok [OF i2 c, of READ_EVENT] by auto
  obtain S4 e4 where 4: "del_timer_if_set (wev_of c) (?w2\<lparr>w_tm := S3\<rparr>) = Some (?w2\<lparr>w_tm := S4\<rparr>)"
    "conn_inv (?w2\<lparr>w_tm := S4\<rparr>) L (filter (\<lambda>x. snd x \<noteq> wev_of c) (filter (\<lambda>x. snd x \<noteq> rev_of c) xs))"
    "event_frame {wev_of c} (?w2\<lparr>w_tm := S3\<rparr>) (?w2\<lparr>w_tm := S4\<rparr>)" "tm_events S4 = (tm_events S3)(wev_of c \<mapsto> e4)" "\<not> timer_set e4"
    using del_timer_if_set_ok [OF 3(2) c, of WRITE_EVENT] by auto
  let ?ys = "filter (\<lambda>x. snd x \<noteq> rev_of c \<and> snd x \<noteq> wev_of c) xs"
  have ys: "filter (\<lambda>x. snd x \<noteq> wev_of c) (filter (\<lambda>x. snd x \<noteq> rev_of c) xs) = ?ys" by (simp add: conj_commute)
  let ?w5 = "?w2\<lparr>w_tm := S4, w_conns := (w_conns w)(c \<mapsto> shut k)\<rparr>"
  have i5: "conn_inv ?w5 L ?ys" using conn_inv_conns [OF 4(2) c, of "shut k"] unfolding ys by simp
  let ?off = "\<lambda>e :: handler event. e\<lparr>ev_active := False\<rparr>"
  let ?S6 = "S4\<lparr>tm_events := (tm_events S4)(rev_of c \<mapsto> ?off e3)\<rparr>"
  let ?S7 = "?S6\<lparr>tm_events := (tm_events ?S6)(wev_of c \<mapsto> ?off e4)\<rparr>"
  let ?w6 = "?w5\<lparr>w_tm := ?S6\<rparr>" and ?w7 = "?w5\<lparr>w_tm := ?S7\<rparr>"
  have 6: "set_ev ?off (rev_of c) ?w5 = Some ?w6" "conn_inv ?w6 L ?ys"
    using set_active_ok [OF i5 c, of READ_EVENT e3 ?off] 3(4) 4(4) by (simp_all add: get_ev_def)
  have 7: "set_ev ?off (wev_of c) ?w6 = Some ?w7" "conn_inv ?w7 L ?ys"
    using set_active_ok [OF 6(2) c, of WRITE_EVENT e4 ?off] 4(4) by (simp_all add: get_ev_def)
  have "pool_live (w_pool w) L" using inv by (simp add: conn_inv_def)
  then obtain pm where pm: "pool_free (w_pool w) c = Some pm" "pool_live pm (L - {c})" using pool.free_live c by blast
  have "\<not> timer_set e" if "get_ev (ev_of c d) ?w7 = Some e" for d e
    using that 3(5) 4(5) by (cases d) (auto simp: get_ev_def)
  then have closed: "closed_conn ?w7 c" by (auto simp: closed_conn_def)
  let ?w8 = "?w7\<lparr>w_pool := pm\<rparr>"
  have i8: "conn_inv ?w8 (L - {c}) ?ys" using conn_inv_free [OF 7(2) c closed pm(2)] .
  have still_open: "(if c_data k = None \<and> \<not> is_connected k then a else b) = b" for a b :: "world option" using k(2) by auto
  have "http_close_connection c w = Some ?w8"
    unfolding http_close_connection_def k(1) bind.bind_lunit still_open
    using unl 3(1) 4(1) 6(1) 7(1) pm(1) by (simp add: k(1) call_def set_conn_def split: if_splits)
  moreover have "close_frame c k w ?w8"
  proof -
    have ms: "current_msec S4 = current_msec (w_tm w)" using event_frameD(7) [OF 3(3)] event_frameD(7) [OF 4(3)] by simp
    show ?thesis unfolding close_frame_def
      by (intro exI [of _ ?S7] exI [of _ pm]) (use ms 3(4) 4(4) in simp)
  qed
  moreover have "closed_conn ?w8 c" using closed by (simp add: closed_conn_def get_ev_def)
  ultimately show ?thesis using i8 by blast
qed

end
