(* ===== verification/Accept_Inv.thy ===== *)
theory Accept_Inv
  imports Connection_Inv
begin

text \<open>
  Accepting connections: a slot that the pool hands out has no timer, so that clearing it is
  harmless; \<open>event_accept\<close> keeps the invariant of connections and timers.
\<close>

section \<open>getIdleConnection\<close>

abbreviation fresh_conn :: conn where
  "fresh_conn \<equiv> \<lparr>c_fd = - 33, c_ip = 0, c_data = None, is_connected = False, is_idle = False\<rparr>"

lemma conn_inv_add:
  assumes inv: "conn_inv w L xs" and c: "c \<notin> L" and p: "pool_live pm (insert c L)"
    and S: "S = zero_ev (wev_of c) (zero_ev (rev_of c) (w_tm w))"
  shows "conn_inv (w\<lparr>w_pool := pm, w_tm := S, w_conns := (w_conns w)(c \<mapsto> k)\<rparr>) (insert c L) xs"
    (is "conn_inv ?w _ _")
proof -
  have out: "ev_of c d \<notin> snd ` set xs" for d
  proof
    assume "ev_of c d \<in> snd ` set xs"
    then obtain k where "(k, ev_of c d) \<in> set xs" by auto
    then obtain b d' where "b \<in> L" "ev_of c d = ev_of b d'" using timers_live [OF inv] by blast
    then show False using c by simp
  qed
  have tm: "tm_inv (w_tm w) xs" "sentinel (tm_tree (w_tm w)) = SENTINEL" using inv by (simp_all add: conn_inv_def)
  have 1: "tm_inv (zero_ev (rev_of c) (w_tm w)) xs" using zero_ev_ok [OF tm(1)] out [of READ_EVENT] tm(2) by simp
  have 2: "tm_inv S xs" unfolding S using zero_ev_ok [OF 1] out [of WRITE_EVENT] tm(2) by simp
  have ev: "tm_events S = (tm_events (w_tm w))(rev_of c \<mapsto> zero_event, wev_of c \<mapsto> zero_event)" by (simp add: S)
  have "ev \<in> dom (tm_events S) \<longleftrightarrow> (\<exists>b \<in> dom (w_conns ?w). \<exists>d. ev = ev_of b d)" for ev
  proof -
    have "ev \<in> dom (tm_events (w_tm w)) \<longleftrightarrow> (\<exists>b \<in> dom (w_conns w). \<exists>d. ev = ev_of b d)" using inv unfolding conn_inv_def by blast
    moreover have "(\<exists>d. ev = ev_of c d) \<longleftrightarrow> ev = rev_of c \<or> ev = wev_of c" by (metis dir.exhaust ev_of.simps)
    ultimately show ?thesis unfolding ev by auto
  qed
  moreover have "closed_conn ?w b" if b: "b \<in> dom (w_conns ?w) - insert c L" for b
  proof -
    have bc: "b \<noteq> c" using b by auto
    then have "closed_conn w b" using b inv unfolding conn_inv_def by auto
    moreover have "tm_events S (ev_of b d) = tm_events (w_tm w) (ev_of b d)" for d
      using bc unfolding ev by (cases d) auto
    ultimately show ?thesis using bc by (simp add: closed_conn_def get_ev_def)
  qed
  ultimately show ?thesis using inv 2 p tm(2) S unfolding conn_inv_def by auto
qed

lemma getIdleConnection_ok:
  assumes inv: "conn_inv w L xs" and room: "int (card L) < max_connections (w_cfg w)"
  shows "\<exists>c pm. getIdleConnection w = Some (Some c, w\<lparr>w_pool := pm, w_tm := zero_ev (wev_of c) (zero_ev (rev_of c) (w_tm w)),
      w_conns := (w_conns w)(c \<mapsto> fresh_conn)\<rparr>) \<and> c \<notin> L \<and>
    conn_inv (w\<lparr>w_pool := pm, w_tm := zero_ev (wev_of c) (zero_ev (rev_of c) (w_tm w)),
      w_conns := (w_conns w)(c \<mapsto> fresh_conn)\<rparr>) (insert c L) xs"
proof -
  have p: "pool_live (w_pool w) L" using inv by (simp add: conn_inv_def)
  obtain c pm where a: "pool_alloc (w_pool w) = Some (Some c, pm)" "c \<notin> L" "pool_live pm (insert c L)"
    using pool.alloc_fresh [OF p] by blast
  have "p_used (fst (w_pool w)) < max_connections (w_cfg w)" using pool.used_card [OF p] room by simp
  then show ?thesis using a conn_inv_add [OF inv a(2,3) refl, of fresh_conn]
    by (intro exI [of _ c] exI [of _ pm]) (simp add: getIdleConnection_def Let_def)
qed

lemma getIdleConnection_full:
  "conn_inv w L xs \<Longrightarrow> \<not> int (card L) < max_connections (w_cfg w) \<Longrightarrow> getIdleConnection w = Some (None, w)"
  using pool.used_card [of "w_pool w" L] by (simp add: conn_inv_def getIdleConnection_def)

section \<open>init_connection\<close>

lemma put_timer:
  assumes inv: "conn_inv w L xs" and c: "c \<in> L" and e: "get_ev (ev_of c d) w = Some e" "\<not> timer_set e"
  shows "\<exists>S. add_timer (ev_of c d) t w = Some (w\<lparr>w_tm := S\<rparr>) \<and>
    conn_inv (w\<lparr>w_tm := S\<rparr>) L (put_entry (current_msec (w_tm w) + of_int t) (ev_of c d) xs) \<and>
    current_msec S = current_msec (w_tm w) \<and> tm_events S = (tm_events (w_tm w))(ev_of c d \<mapsto> e\<lparr>timer_set := True\<rparr>)"
proof -
  have tm: "tm_inv (w_tm w) xs" using inv by (simp add: conn_inv_def)
  have e': "tm_events (w_tm w) (ev_of c d) = Some e" using e(1) by (simp add: get_ev_def)
  then have "ev_of c d \<notin> snd ` set xs" using tm_invD [OF tm] e(2) by (auto simp: event_ok_def)
  then obtain S where S: "arm_timer (ev_of c d) (current_msec (w_tm w) + of_int t) (w_tm w) = Some S"
    "tm_inv S (put_entry (current_msec (w_tm w) + of_int t) (ev_of c d) xs)"
    "tm_events S = (tm_events (w_tm w))(ev_of c d \<mapsto> e\<lparr>timer_set := True\<rparr>)" "current_msec S = current_msec (w_tm w)"
    "sentinel (tm_tree S) = sentinel (tm_tree (w_tm w))"
    using arm_timer_ok [OF tm e'] by blast
  have "conn_inv (w\<lparr>w_tm := S\<rparr>) L (put_entry (current_msec (w_tm w) + of_int t) (ev_of c d) xs)"
    by (rule conn_inv_events [OF inv c S(2,3,5)]) simp_all
  moreover have "add_timer (ev_of c d) t w = Some (w\<lparr>w_tm := S\<rparr>)"
    using S(1) e(2) e' by (simp add: add_timer_def on_timers_def event_add_timer_def)
  ultimately show ?thesis using S(3,4) by blast
qed

text \<open>What a new connection looks like: its read event waits for data and for the time to run out.\<close>

abbreviation accepted :: "int \<Rightarrow> 32 word \<Rightarrow> conn" where
  "accepted fd ip \<equiv> \<lparr>c_fd = fd, c_ip = ip, c_data = None, is_connected = True, is_idle = False\<rparr>"

abbreviation init_event :: "handler event" where
  "init_event \<equiv> \<lparr>ev_handler = Some Init_request, ev_active = True, timer_set = True, timedout = False\<rparr>"

abbreviation time_limit :: "world \<Rightarrow> 32 word" where
  "time_limit w \<equiv> current_msec (w_tm w) + of_int (post_accept_timeout (w_cfg w))"

abbreviation with_new :: "slot \<Rightarrow> int \<Rightarrow> 32 word \<Rightarrow> pool \<times> mem \<Rightarrow> handler timers \<Rightarrow> world \<Rightarrow> world" where
  "with_new c fd ip pm S w \<equiv> w\<lparr>w_pool := pm, w_conns := (w_conns w)(c \<mapsto> accepted fd ip), w_tm := S,
     w_kevent := tl (w_kevent w), w_calls := w_calls w @ [Kadd fd READ_EVENT]\<rparr>"

lemma init_connection_ok:
  assumes inv: "conn_inv w L xs" and c: "c \<in> L" "w_conns w c = Some k" "get_ev (rev_of c) w = Some zero_event"
  shows "\<exists>S. init_connection c w = Some (w\<lparr>w_tm := S, w_kevent := tl (w_kevent w), w_calls := w_calls w @ [Kadd (c_fd k) READ_EVENT]\<rparr>) \<and>
    conn_inv (w\<lparr>w_tm := S\<rparr>) L (put_entry (time_limit w) (rev_of c) xs) \<and>
    tm_events S = (tm_events (w_tm w))(rev_of c \<mapsto> init_event) \<and> current_msec S = current_msec (w_tm w)"
proof -
  let ?h = "\<lambda>e. e\<lparr>ev_handler := Some Init_request\<rparr>" and ?on = "\<lambda>e :: handler event. e\<lparr>ev_active := True\<rparr>"
  let ?S1 = "(w_tm w)\<lparr>tm_events := (tm_events (w_tm w))(rev_of c \<mapsto> ?h zero_event)\<rparr>"
  have 1: "set_ev ?h (rev_of c) w = Some (w\<lparr>w_tm := ?S1\<rparr>)" "conn_inv (w\<lparr>w_tm := ?S1\<rparr>) L xs"
    using set_active_ok [OF inv c(1), of READ_EVENT zero_event ?h] c(3) by simp_all
  obtain S2 where 2: "add_timer (rev_of c) (post_accept_timeout (w_cfg w)) (w\<lparr>w_tm := ?S1\<rparr>) = Some (w\<lparr>w_tm := S2\<rparr>)"
    "conn_inv (w\<lparr>w_tm := S2\<rparr>) L (put_entry (time_limit w) (rev_of c) xs)" "current_msec S2 = current_msec (w_tm w)"
    "tm_events S2 = (tm_events (w_tm w))(rev_of c \<mapsto> (?h zero_event)\<lparr>timer_set := True\<rparr>)"
    using put_timer [OF 1(2) c(1), of READ_EVENT "?h zero_event"] by (auto simp: get_ev_def zero_event_def)
  let ?S3 = "S2\<lparr>tm_events := (tm_events S2)(rev_of c \<mapsto> ?on ((?h zero_event)\<lparr>timer_set := True\<rparr>))\<rparr>"
  have 3: "set_ev ?on (rev_of c) (w\<lparr>w_tm := S2\<rparr>) = Some (w\<lparr>w_tm := ?S3\<rparr>)"
    "conn_inv (w\<lparr>w_tm := ?S3\<rparr>) L (put_entry (time_limit w) (rev_of c) xs)"
    using set_active_ok [OF 2(2) c(1), of READ_EVENT "(?h zero_event)\<lparr>timer_set := True\<rparr>" ?on] 2(4) by (simp_all add: get_ev_def)
  have "add_event (rev_of c) READ_EVENT (w\<lparr>w_tm := S2\<rparr>) =
      Some (w\<lparr>w_tm := ?S3, w_kevent := tl (w_kevent w), w_calls := w_calls w @ [Kadd (c_fd k) READ_EVENT]\<rparr>)"
    using 2(4) 3(1) c(2) by (simp add: add_event_def kqueue_add_event_def get_ev_def zero_event_def split_beta kevent_frame)
  then have "init_connection c w =
      Some (w\<lparr>w_tm := ?S3, w_kevent := tl (w_kevent w), w_calls := w_calls w @ [Kadd (c_fd k) READ_EVENT]\<rparr>)"
    using 1(1) 2(1) by (simp add: init_connection_def)
  then show ?thesis using 2(3,4) 3(2) by (intro exI [of _ ?S3]) (simp add: zero_event_def)
qed

section \<open>event_accept\<close>

lemma accept_one:
  assumes inv: "conn_inv w L xs" and room: "int (card L) < max_connections (w_cfg w)" and fd: "fd > 0"
  shows "\<exists>c pm S. event_accept (Accepted fd ip # es) w = event_accept es (with_new c fd ip pm S w) \<and> c \<notin> L \<and>
    conn_inv (with_new c fd ip pm S w) (insert c L) (put_entry (time_limit w) (rev_of c) xs) \<and>
    tm_events S = (tm_events (w_tm w))(rev_of c \<mapsto> init_event, wev_of c \<mapsto> zero_event) \<and>
    current_msec S = current_msec (w_tm w)"
proof -
  obtain c pm where g: "getIdleConnection w = Some (Some c, w\<lparr>w_pool := pm, w_tm := zero_ev (wev_of c) (zero_ev (rev_of c) (w_tm w)),
      w_conns := (w_conns w)(c \<mapsto> fresh_conn)\<rparr>)" and c: "c \<notin> L"
    and i1: "conn_inv (w\<lparr>w_pool := pm, w_tm := zero_ev (wev_of c) (zero_ev (rev_of c) (w_tm w)),
      w_conns := (w_conns w)(c \<mapsto> fresh_conn)\<rparr>) (insert c L) xs"
    using getIdleConnection_ok [OF inv room] by blast
  let ?w1 = "w\<lparr>w_pool := pm, w_tm := zero_ev (wev_of c) (zero_ev (rev_of c) (w_tm w)),
      w_conns := (w_conns w)(c \<mapsto> fresh_conn)\<rparr>"
  let ?w2 = "w\<lparr>w_pool := pm, w_tm := zero_ev (wev_of c) (zero_ev (rev_of c) (w_tm w)),
      w_conns := (w_conns w)(c \<mapsto> accepted fd ip)\<rparr>"
  have i2: "conn_inv ?w2 (insert c L) xs" using conn_inv_conns [OF i1, of c "accepted fd ip"] by simp
  obtain S where S: "init_connection c ?w2 = Some (?w2\<lparr>w_tm := S, w_kevent := tl (w_kevent w), w_calls := w_calls w @ [Kadd fd READ_EVENT]\<rparr>)"
    "conn_inv (?w2\<lparr>w_tm := S\<rparr>) (insert c L) (put_entry (time_limit w) (rev_of c) xs)"
    "tm_events S = (tm_events (w_tm w))(rev_of c \<mapsto> init_event, wev_of c \<mapsto> zero_event)" "current_msec S = current_msec (w_tm w)"
    using init_connection_ok [OF i2, of c "accepted fd ip"] by (auto simp: get_ev_def fun_upd_twist)
  have "event_accept (Accepted fd ip # es) w = event_accept es (with_new c fd ip pm S w)"
    using g S(1) fd by (simp add: set_conn_def)
  moreover have "conn_inv (with_new c fd ip pm S w) (insert c L) (put_entry (time_limit w) (rev_of c) xs)"
    using S(2) conn_inv_cong [of "with_new c fd ip pm S w" "?w2\<lparr>w_tm := S\<rparr>"] by simp
  ultimately show ?thesis using c S(3,4) by blast
qed

end
