(* ===== verification/Upstream_C.thy ===== *)
theory Upstream_C
  imports Connection_C
begin

text \<open>
  Requests and their connections, first part: creating, answering with an error, closing and
  clearing a request (\<^verbatim>\<open>http/http.c\<close>), and connecting to a back end
  (\<^verbatim>\<open>module/upstream_server_module.c\<close>). Where the code prints a member of an object that may
  be null, the model has no result for the null pointer, as in every other access.
\<close>

section \<open>Access to a request\<close>

definition set_rq :: "(request \<Rightarrow> request) \<Rightarrow> nat \<Rightarrow> world \<Rightarrow> world option" where
  "set_rq f = set_req (\<lambda>q. q\<lparr>rq := f (rq q)\<rparr>)"

definition set_handler :: "handler \<Rightarrow> nat \<Rightarrow> world \<Rightarrow> world option" where
  "set_handler h = set_ev (\<lambda>e. e\<lparr>ev_handler := Some h\<rparr>)"

text \<open>\<^verbatim>\<open>buffer_recv(r->recv_buffer, fd)\<close> and \<^verbatim>\<open>buffer_recv(r->send_buffer, fd)\<close>: \<open>get\<close> reads the
  member and \<open>upd\<close> changes it.\<close>

definition recv_into :: "(http_request \<Rightarrow> buffer) \<Rightarrow> ((buffer \<Rightarrow> buffer) \<Rightarrow> http_request \<Rightarrow> http_request) \<Rightarrow>
    nat \<Rightarrow> int \<Rightarrow> world \<Rightarrow> (rc \<times> world) option" where
  "recv_into get upd r fd w = do {
     q \<leftarrow> w_reqs w r;
     (n, b, rest) \<leftarrow> buffer_recv (get q) (w_recv w fd);
     w \<leftarrow> set_req (upd (\<lambda>_. b)) r w;
     Some (n, w\<lparr>w_recv := (w_recv w)(fd := rest)\<rparr>)
   }"

fun next_answer :: "'a \<Rightarrow> 'a list \<Rightarrow> 'a \<times> 'a list" where
  "next_answer d [] = (d, [])"
| "next_answer d (x # xs) = (x, xs)"

definition send_from :: "(http_request \<Rightarrow> buffer) \<Rightarrow> ((buffer \<Rightarrow> buffer) \<Rightarrow> http_request \<Rightarrow> http_request) \<Rightarrow>
    nat \<Rightarrow> int \<Rightarrow> world \<Rightarrow> (rc \<times> world) option" where
  "send_from get upd r fd w = do {
     q \<leftarrow> w_reqs w r;
     let (evs, rest) = next_answer [] (w_send w);
     (n, b, out) \<leftarrow> buffer_send (get q) evs;
     w \<leftarrow> set_req (upd (\<lambda>_. b)) r w;
     Some (n, call (Send fd out) (w\<lparr>w_send := rest\<rparr>))
   }"

section \<open>construct_err\<close>

fun event_call :: "slot \<Rightarrow> event_call \<Rightarrow> world \<Rightarrow> world option" where
  "event_call c Add_event_w = add_event (wev_of c) WRITE_EVENT"
| "event_call c Del_event_r = del_event (rev_of c) READ_EVENT"
| "event_call c Set_wev_handler_response = set_handler Handle_response (wev_of c)"

text \<open>\<^verbatim>\<open>construct_err(r, r->connection, err)\<close>\<close>

definition answer_err :: "nat \<Rightarrow> nat \<Rightarrow> world \<Rightarrow> world option" where
  "answer_err r err w = do {
     q \<leftarrow> w_reqs w r;
     c \<leftarrow> connection q;
     (_, x, sb, calls) \<leftarrow> construct_err (w_static w) (rq q) (send_buffer q) err;
     w \<leftarrow> set_req (\<lambda>q. q\<lparr>rq := x, send_buffer := sb\<rparr>) r w;
     for_each (event_call c) calls w
   }"

section \<open>Requests\<close>

text \<open>A request gets a number as its address; its buffers are set when they are created.\<close>

definition create_http_request :: "world \<Rightarrow> (nat \<times> world) option" where
  "create_http_request w = do {
     guard (request_pool_size (w_cfg w) > 0);
     pool \<leftarrow> createPool True (of_int (request_pool_size (w_cfg w)));
     (p, pool) \<leftarrow> pMalloc pool (of_int SIZEOF_REQUEST);
     guard (p \<noteq> None);
     let r = w_next w;
     Some (r, w\<lparr>w_next := r + 1, w_reqs := (w_reqs w)(r \<mapsto> \<lparr>rq = zero_request\<lparr>r_state := RQ_BEGIN\<rparr>, rq_pool = pool,
       recv_buffer = w_heap w, send_buffer = w_heap w, connection = None, upstream = None,
       upstream_tries = 0, cur_upstream = None, cur_server_domain = None\<rparr>)\<rparr>)
   }"

definition createBuffer :: "buffer \<Rightarrow> memory_pool \<Rightarrow> (buffer \<times> memory_pool) option" where
  "createBuffer raw pool = do {
     (p, pool) \<leftarrow> pMalloc pool (of_int SIZEOF_BUFFER);
     guard (p \<noteq> None);
     Some (raw\<lparr>bbegin := 0, bend := 0\<rparr>, pool)
   }"

definition free_upstream :: "nat \<times> nat \<Rightarrow> world \<Rightarrow> world option" where
  "free_upstream us w = do {
     let (i, b) = us;
     let doms = w_doms w;
     guard (i < length doms \<and> b < length (servers (doms ! i)));
     let s = free_server_after_round_select (current_msec (w_tm w)) (servers (doms ! i) ! b);
     Some (w\<lparr>w_doms := doms[i := (doms ! i)\<lparr>servers := (servers (doms ! i))[b := s]\<rparr>]\<rparr>)
   }"

text \<open>\<^verbatim>\<open>us->state = UPSTREAM_CONN_FAIL; free_upstream(us)\<close>\<close>

definition fail_upstream :: "nat \<times> nat \<Rightarrow> world \<Rightarrow> world option" where
  "fail_upstream us w = do {
     let (i, b) = us;
     let doms = w_doms w;
     guard (i < length doms \<and> b < length (servers (doms ! i)));
     let s = (servers (doms ! i) ! b)\<lparr>us_state := UPSTREAM_CONN_FAIL\<rparr>;
     free_upstream us (w\<lparr>w_doms := doms[i := (doms ! i)\<lparr>servers := (servers (doms ! i))[b := s]\<rparr>]\<rparr>)
   }"

definition close_resource :: "nat \<Rightarrow> world \<Rightarrow> world option" where
  "close_resource r w = do {
     q \<leftarrow> w_reqs w r;
     if resource_fd (rq q) > 0 then set_rq (\<lambda>x. x\<lparr>resource_fd := - 1\<rparr>) r (call (Close (resource_fd (rq q))) w)
     else Some w
   }"

definition http_close_request :: "nat \<Rightarrow> world \<Rightarrow> world option" where
  "http_close_request r w = do {
     q \<leftarrow> w_reqs w r;
     c \<leftarrow> connection q;
     w \<leftarrow> http_close_connection c w;
     q \<leftarrow> w_reqs w r;
     w \<leftarrow> (case upstream q of None \<Rightarrow> Some w | Some u \<Rightarrow> http_close_connection u w);
     w \<leftarrow> close_resource r w;
     q \<leftarrow> w_reqs w r;
     w \<leftarrow> (case cur_upstream q of None \<Rightarrow> Some w | Some us \<Rightarrow> free_upstream us w);
     Some (w\<lparr>w_reqs := (w_reqs w)(r := None)\<rparr>)
   }"

text \<open>The test of \<^verbatim>\<open>cur_upstream\<close> comes after the request has been zeroed and never holds.\<close>

definition http_clear_request :: "nat \<Rightarrow> world \<Rightarrow> world option" where
  "http_clear_request r w = do {
     q \<leftarrow> w_reqs w r;
     w \<leftarrow> set_req (\<lambda>q. q\<lparr>recv_buffer := buffer_clear (recv_buffer q), send_buffer := buffer_clear (send_buffer q)\<rparr>) r w;
     w \<leftarrow> (case upstream q of None \<Rightarrow> Some w | Some u \<Rightarrow> http_close_connection u w);
     w \<leftarrow> close_resource r w;
     w \<leftarrow> set_req (\<lambda>q. q\<lparr>rq := zero_request, upstream := None, upstream_tries := 0, cur_upstream := None,
       cur_server_domain := None\<rparr>) r w;
     c \<leftarrow> connection q;
     w \<leftarrow> set_conn (\<lambda>k. k\<lparr>is_idle := True\<rparr>) c w;
     set_rq (\<lambda>x. x\<lparr>header_name := \<lparr>pc = Literal ''fuck you'', pl = 8\<rparr>\<rparr>) r w
   }"

section \<open>Connecting to a back end\<close>

definition init_upstream_connection :: "slot \<Rightarrow> int \<Rightarrow> world \<Rightarrow> world option" where
  "init_upstream_connection u fd w = do {
     w \<leftarrow> set_conn (\<lambda>k. k\<lparr>is_connected := True\<rparr>) u w;
     w \<leftarrow> set_handler Proxy_pass (wev_of u) w;
     w \<leftarrow> set_handler Recv_upstream (rev_of u) w;
     w \<leftarrow> set_conn (\<lambda>k. k\<lparr>c_fd := fd\<rparr>) u w;
     w \<leftarrow> add_event (rev_of u) READ_EVENT w;
     add_timer (wev_of u) (upstream_timeout (w_cfg w)) w
   }"

text \<open>The first lines: a socket, unless a try before has left one.\<close>

definition socket_of :: "slot \<Rightarrow> world \<Rightarrow> (int \<times> world) option" where
  "socket_of u w = do {
     k \<leftarrow> w_conns w u;
     if c_fd k \<le> 0 then do {
       let (fd, rest) = next_answer (- 1) (w_socket w);
       w \<leftarrow> set_conn (\<lambda>k. k\<lparr>c_fd := fd\<rparr>) u (w\<lparr>w_socket := rest\<rparr>);
       Some (fd, w)
     } else Some (c_fd k, w)
   }"

definition try_connect :: "nat \<Rightarrow> nat \<Rightarrow> nat \<Rightarrow> server \<Rightarrow> world \<Rightarrow> (rc \<times> world) option" where
  "try_connect r i b us w = do {
     q \<leftarrow> w_reqs w r;
     u \<leftarrow> upstream q;
     (fd, w) \<leftarrow> socket_of u w;
     if fd \<le> 0 then Some (ERROR, w)
     else if \<not> w_inet w (chars (loc_host (location_of us))) then Some (ERROR, w)
     else do {
       let (ans, rest) = next_answer Connect_failed (w_connect w);
       let w = call (Connect fd (loc_host (location_of us)) (loc_port (location_of us))) (w\<lparr>w_connect := rest\<rparr>);
       case ans of
         Connect_ok \<Rightarrow> do {
           w \<leftarrow> set_req (\<lambda>q. q\<lparr>cur_upstream := Some (i, b)\<rparr>) r w;
           w \<leftarrow> init_upstream_connection u fd w;
           Some (OK, w)
         }
       | Connect_in_progress \<Rightarrow> do {
           w \<leftarrow> set_req (\<lambda>q. q\<lparr>cur_upstream := Some (i, b)\<rparr>) r w;
           w \<leftarrow> set_handler Connection_result (wev_of u) w;
           w \<leftarrow> add_event (wev_of u) WRITE_EVENT w;
           w \<leftarrow> add_timer (wev_of u) (post_accept_timeout (w_cfg w)) w;
           Some (AGAIN, w)
         }
       | Connect_failed \<Rightarrow> do {
           w \<leftarrow> del_event (wev_of u) WRITE_EVENT w;
           c \<leftarrow> connection q;
           Some (ERROR, w)
         }
     }
   }"

text \<open>
  The macro \<^verbatim>\<open>try_connect_upstream\<close> calls the function of the mode. The domains of the program
  have ten servers each, for which no block of the request's pool is needed as a bit map;
  that pool answers for the ring of \<open>get_server_by_consistent_hash\<close>.
\<close>

definition pool_grants :: "memory_pool \<Rightarrow> nat \<Rightarrow> bool" where
  "pool_grants pool n = (case pMalloc pool (of_nat n) of Some (Some _, _) \<Rightarrow> True | _ \<Rightarrow> False)"

definition try_connect_upstream :: "nat \<Rightarrow> str option \<Rightarrow> world \<Rightarrow> world option" where
  "try_connect_upstream r target w = do {
     q \<leftarrow> w_reqs w r;
     let now = current_msec (w_tm w);
     let no_block = (\<lambda>_. None);
     guard (\<forall>d \<in> set (w_doms w). length (servers d) \<le> 64);
     (cur, tries, doms, w) \<leftarrow> (case load_balance (w_cfg w) of
         ROUND_MODE \<Rightarrow> get_server_by_round (try_connect r) (answer_err r 502) now no_block target
           (cur_server_domain q) (upstream_tries q) (w_doms w) w
       | CONSISTENT_HASH \<Rightarrow> do {
           c \<leftarrow> connection q;
           k \<leftarrow> w_conns w c;
           get_server_by_consistent_hash (try_connect r) (answer_err r)
             (\<lambda>w. w\<lparr>w_reqs := (w_reqs w)(r := map_option (\<lambda>q. q\<lparr>cur_upstream := None\<rparr>) (w_reqs w r))\<rparr>)
             now no_block (pool_grants (rq_pool q)) target (c_ip k) (cur_server_domain q) (upstream_tries q) (w_doms w) w
         });
     w \<leftarrow> set_req (\<lambda>q. q\<lparr>cur_server_domain := cur, upstream_tries := tries\<rparr>) r w;
     Some (w\<lparr>w_doms := doms\<rparr>)
   }"

definition open_upstream_connection :: "nat \<Rightarrow> world \<Rightarrow> (slot option \<times> world) option" where
  "open_upstream_connection r w = do {
     q \<leftarrow> w_reqs w r;
     c \<leftarrow> connection q;
     (x, w) \<leftarrow> getIdleConnection w;
     case x of
       None \<Rightarrow> Some (None, w)
     | Some u \<Rightarrow> do {
         w \<leftarrow> set_conn (\<lambda>k. k\<lparr>c_data := Some r\<rparr>) u w;
         Some (Some u, w)
       }
   }"

end
