(* ===== verification/Handlers_C.thy ===== *)
theory Handlers_C
  imports Upstream_C
begin

text \<open>
  The handlers of events of \<^verbatim>\<open>http/http.c\<close>, in the order in which a request meets them. A handler
  gets the address of its event; \<open>conn_of\<close> is the connection the event belongs to.
\<close>

section \<open>Answering\<close>

definition http_response_done :: "nat \<Rightarrow> world \<Rightarrow> world option" where
  "http_response_done r w = do {
     q \<leftarrow> w_reqs w r;
     guard (response_done (rq q));
     if keep_alive (rq q) then do {
       c \<leftarrow> connection q;
       w \<leftarrow> http_clear_request r w;
       w \<leftarrow> del_event (wev_of c) WRITE_EVENT w;
       w \<leftarrow> add_event (rev_of c) READ_EVENT w;
       w \<leftarrow> set_handler Process_request_line (rev_of c) w;
       add_timer (rev_of c) (keep_alive_timeout (w_cfg w)) w
     } else http_close_request r w
   }"

definition finish_response :: "nat \<Rightarrow> world \<Rightarrow> world option" where
  "finish_response r w = do {
     w \<leftarrow> set_rq (\<lambda>x. x\<lparr>response_done := True\<rparr>) r w;
     http_response_done r w
   }"

text \<open>The call \<^verbatim>\<open>send_file(r)\<close>.\<close>

definition send_resource :: "nat \<Rightarrow> world \<Rightarrow> (rc \<times> world) option" where
  "send_resource r w = do {
     q \<leftarrow> w_reqs w r;
     c \<leftarrow> connection q;
     k \<leftarrow> w_conns w c;
     let (evs, rest) = next_answer [] (w_sendfile w);
     (err, x, out) \<leftarrow> send_file (w_file w (resource_fd (rq q))) (rq q) evs;
     w \<leftarrow> set_rq (\<lambda>_. x) r w;
     Some (err, call (Send (c_fd k) out) (w\<lparr>w_sendfile := rest\<rparr>))
   }"

definition handle_response_file :: "nat \<Rightarrow> world \<Rightarrow> world option" where
  "handle_response_file wev w = do {
     k \<leftarrow> w_conns w (conn_of wev);
     r \<leftarrow> c_data k;
     e \<leftarrow> get_ev wev w;
     if timedout e then answer_err r 404 w
     else do {
       (err, w) \<leftarrow> send_resource r w;
       if err = OK then finish_response r w
       else if err = ERROR then http_close_request r w
       else do {
         e \<leftarrow> get_ev wev w;
         if timer_set e then add_timer wev (post_accept_timeout (w_cfg w)) w else Some w
       }
     }
   }"

definition handle_response :: "nat \<Rightarrow> world \<Rightarrow> world option" where
  "handle_response wev w = do {
     k \<leftarrow> w_conns w (conn_of wev);
     if c_fd k \<le> 0 then Some w
     else do {
       r \<leftarrow> c_data k;
       e \<leftarrow> get_ev wev w;
       if timedout e then http_close_request r w
       else do {
         (err, w) \<leftarrow> send_from send_buffer send_buffer_update r (c_fd k) w;
         q \<leftarrow> w_reqs w r;
         if err = OK then
           (if response_done (rq q) then http_response_done r w
            else if upstream q \<noteq> None then del_event wev WRITE_EVENT w
            else if resource_fd (rq q) > 0 then do {
              w \<leftarrow> set_handler Handle_response_file wev w;
              handle_response_file wev w
            } else finish_response r w)
         else if err = AGAIN then add_timer wev (post_accept_timeout (w_cfg w)) w
         else if err = ERROR then http_close_request r w
         else Some w
       }
     }
   }"

section \<open>The body of a request\<close>

definition parse_request_body_identity :: "nat \<Rightarrow> world \<Rightarrow> (rc \<times> world) option" where
  "parse_request_body_identity r w = do {
     q \<leftarrow> w_reqs w r;
     let x = rq q;
     let b = recv_buffer q;
     if content_length x \<le> 0 then Some (OK, w)
     else do {
       let n = c_min (content_length x - body_received x) (buffer_size b);
       guard (0 \<le> int (bbegin b) + n);
       w \<leftarrow> set_req (\<lambda>q. q\<lparr>rq := x\<lparr>body_received := body_received x + n\<rparr>,
         recv_buffer := b\<lparr>bbegin := nat (int (bbegin b) + n)\<rparr>\<rparr>) r w;
       Some (if body_received x + n = content_length x then OK else AGAIN, w)
     }
   }"

text \<open>What is done when the whole body is there and there is no back end.\<close>

definition answer_locally :: "slot \<Rightarrow> nat \<Rightarrow> world \<Rightarrow> world option" where
  "answer_locally c r w = do {
     w \<leftarrow> set_handler Handle_response (wev_of c) w;
     q \<leftarrow> w_reqs w r;
     if response_done (rq q) then Some w
     else do {
       w \<leftarrow> add_event (wev_of c) WRITE_EVENT w;
       w \<leftarrow> set_rq (\<lambda>x. x\<lparr>status := 200\<rparr>) r w;
       q \<leftarrow> w_reqs w r;
       sb \<leftarrow> construct_response (rq q) (send_buffer q);
       w \<leftarrow> set_req (\<lambda>q. q\<lparr>send_buffer := sb\<rparr>) r w;
       add_timer (wev_of c) (post_accept_timeout (w_cfg w)) w
     }
   }"

text \<open>\<^verbatim>\<open>b->end = b->begin; b->begin = b->data\<close>: everything up to \<^verbatim>\<open>begin\<close> is to be passed on.\<close>

definition rewind_all :: "nat \<Rightarrow> world \<Rightarrow> world option" where
  "rewind_all = set_req (\<lambda>q. q\<lparr>recv_buffer := (recv_buffer q)\<lparr>bend := bbegin (recv_buffer q), bbegin := 0\<rparr>\<rparr>)"

definition request_handle_body :: "nat \<Rightarrow> world \<Rightarrow> world option" where
  "request_handle_body ev w = do {
     let c = conn_of ev;
     k \<leftarrow> w_conns w c;
     if c_fd k \<le> 0 then Some w
     else do {
       r \<leftarrow> c_data k;
       e \<leftarrow> get_ev ev w;
       if timedout e then answer_err r 404 w
       else do {
         (n, w) \<leftarrow> recv_into recv_buffer recv_buffer_update r (c_fd k) w;
         if n = ERROR \<or> n = OK then http_close_request r w
         else do {
           (err, w) \<leftarrow> parse_request_body_identity r w;
           q \<leftarrow> w_reqs w r;
           case err of
             AGAIN \<Rightarrow> do {
               w \<leftarrow> set_req (\<lambda>q. q\<lparr>recv_buffer := (recv_buffer q)\<lparr>bbegin := 0\<rparr>\<rparr>) r w;
               case upstream q of
                 None \<Rightarrow> Some w
               | Some u \<Rightarrow> do {
                   ku \<leftarrow> w_conns w u;
                   if is_connected ku then do {
                     w \<leftarrow> del_event ev READ_EVENT w;
                     add_event (wev_of u) WRITE_EVENT w
                   } else set_rq (\<lambda>x. x\<lparr>r_state := BODY_RECV_BEGIN\<rparr>) r w
                 }
             }
           | OK \<Rightarrow> do {
               w \<leftarrow> del_event ev READ_EVENT w;
               case upstream q of
                 None \<Rightarrow> answer_locally c r w
               | Some u \<Rightarrow> do {
                   ku \<leftarrow> w_conns w u;
                   w \<leftarrow> rewind_all r w;
                   if is_connected ku then do {
                     w \<leftarrow> add_event (wev_of u) WRITE_EVENT w;
                     add_timer (wev_of u) (post_accept_timeout (w_cfg w)) w
                   } else set_rq (\<lambda>x. x\<lparr>r_state := BODY_RECV_DONE\<rparr>) r w
                 }
             }
           | _ \<Rightarrow> answer_err r 400 w
         }
       }
     }
   }"

section \<open>The headers of a request\<close>

text \<open>\<^verbatim>\<open>*(req->header_name.c + req->header_name.len) = 0\<close>\<close>

definition end_name :: "nat \<Rightarrow> world \<Rightarrow> world option" where
  "end_name r w = do {
     q \<leftarrow> w_reqs w r;
     let s = header_name (rq q);
     (case pc s of
        At i \<Rightarrow> do {
          guard (0 \<le> int i + pl s);
          d \<leftarrow> poke (bdata (recv_buffer q)) (nat (int i + pl s)) [CHR 0x00];
          set_req (\<lambda>q. q\<lparr>recv_buffer := (recv_buffer q)\<lparr>bdata := d\<rparr>\<rparr>) r w
        }
      | _ \<Rightarrow> None)
   }"

definition call_header_handler :: "header_val \<Rightarrow> nat \<Rightarrow> world \<Rightarrow> (rc \<times> world) option" where
  "call_header_handler v r w = do {
     q \<leftarrow> w_reqs w r;
     case snd v of
       Handle_generic \<Rightarrow> do {
         (err, x) \<leftarrow> header_handle_generic (rq q) (fst v);
         w \<leftarrow> set_rq (\<lambda>_. x) r w;
         Some (err, w)
       }
     | Handle_connection \<Rightarrow> do {
         (err, x, bad) \<leftarrow> header_handle_connection (bdata (recv_buffer q)) (rq q) (fst v);
         w \<leftarrow> set_rq (\<lambda>_. x) r w;
         w \<leftarrow> (if bad then answer_err r 400 w else Some w);
         Some (err, w)
       }
   }"

datatype loop_exit = Go_on | To_done | Return

text \<open>One round of the loop.\<close>

definition header_round :: "nat \<Rightarrow> nat \<Rightarrow> world \<Rightarrow> (loop_exit \<times> world) option" where
  "header_round ev r w = do {
     q \<leftarrow> w_reqs w r;
     (err, x, b) \<leftarrow> parse_header (rq q) (recv_buffer q);
     w \<leftarrow> set_req (\<lambda>q. q\<lparr>rq := x, recv_buffer := b\<rparr>) r w;
     case err of
       OK \<Rightarrow>
         (if pc (header_name x) = Null then Some (To_done, w)
          else do {
            name \<leftarrow> bytes_at (bdata b) (pc (header_name x));
            guard (0 \<le> pl (header_name x));
            v \<leftarrow> hash_find (w_headers w) name (nat (pl (header_name x)));
            w \<leftarrow> end_name r w;
            case v of
              None \<Rightarrow> Some (Go_on, w)
            | Some hv \<Rightarrow> do {
                (err, w) \<leftarrow> call_header_handler hv r w;
                if err \<noteq> OK then do { w \<leftarrow> http_close_request r w; Some (Return, w) }
                else Some (Go_on, w)
              }
          })
     | ERROR \<Rightarrow> do {
         w \<leftarrow> end_name r w;
         w \<leftarrow> http_close_request r w;
         Some (Return, w)
       }
     | AGAIN \<Rightarrow> do {
         e \<leftarrow> get_ev ev w;
         w \<leftarrow> (if timer_set e then Some w else add_timer ev (post_accept_timeout (w_cfg w)) w);
         Some (Return, w)
       }
     | _ \<Rightarrow> Some (Go_on, w)
   }"

text \<open>The loop; the result says whether the label \<^verbatim>\<open>done\<close> is reached.\<close>

partial_function (option) header_loop :: "nat \<Rightarrow> nat \<Rightarrow> world \<Rightarrow> (bool \<times> world) option" where
  "header_loop ev r w = Option.bind (w_reqs w r) (\<lambda>q.
     if response_done (rq q) then Some (True, w)
     else Option.bind (header_round ev r w) (\<lambda>(x, w).
       case x of Go_on \<Rightarrow> header_loop ev r w | To_done \<Rightarrow> Some (True, w) | Return \<Rightarrow> Some (False, w)))"

definition http_parse_headers :: "nat \<Rightarrow> world \<Rightarrow> world option" where
  "http_parse_headers ev w = do {
     k \<leftarrow> w_conns w (conn_of ev);
     e \<leftarrow> get_ev ev w;
     if timedout e then do {
       r \<leftarrow> c_data k;
       w \<leftarrow> set_rq (\<lambda>x. x\<lparr>keep_alive := False\<rparr>) r w;
       answer_err r 404 w
     } else if c_fd k \<le> 0 then Some w
     else do {
       r \<leftarrow> c_data k;
       (n, w) \<leftarrow> recv_into recv_buffer recv_buffer_update r (c_fd k) w;
       if n = ERROR \<or> n = OK then http_close_request r w
       else do {
         (all, w) \<leftarrow> header_loop ev r w;
         if all then do {
           w \<leftarrow> set_handler Handle_body ev w;
           request_handle_body ev w
         } else Some w
       }
     }
   }"

section \<open>The request line\<close>

text \<open>\<open>request_process_uri\<close> of this program: the branch of a proxied location connects to a back
  end. \<^verbatim>\<open>r->upstream\<close> stays null if there is no connection left, and the code then follows it.\<close>

definition process_uri :: "nat \<Rightarrow> world \<Rightarrow> (rc \<times> world) option" where
  "process_uri r w = do {
     q \<leftarrow> w_reqs w r;
     let d = bdata (recv_buffer q);
     let a = abs_path (r_uri (rq q));
     guard (0 \<le> pl a);
     name \<leftarrow> (if pc a = Null then Some [] else bytes_at d (pc a));
     loc \<leftarrow> hash_find (cfg_locations (w_cfg w)) name (nat (pl a));
     (err, w) \<leftarrow> (case loc of
         Some _ \<Rightarrow> do {
           guard (upstream q = None);
           (u, w) \<leftarrow> open_upstream_connection r w;
           w \<leftarrow> set_req (\<lambda>q. q\<lparr>upstream := u\<rparr>) r w;
           w \<leftarrow> try_connect_upstream r (Some \<lparr>chars = name, len = pl a\<rparr>) w;
           Some (OK, w)
         }
       | None \<Rightarrow> do {
           c \<leftarrow> connection q;
           (err, x, sb, d, calls) \<leftarrow> serve_file (w_fs w) (w_static w) (rq q) (send_buffer q) d;
           w \<leftarrow> set_req (\<lambda>q. q\<lparr>rq := x, send_buffer := sb, recv_buffer := (recv_buffer q)\<lparr>bdata := d\<rparr>\<rparr>) r w;
           w \<leftarrow> for_each (event_call c) calls w;
           Some (err, w)
         });
     if err = ERROR then Some (ERROR, w)
     else do {
       q \<leftarrow> w_reqs w r;
       x \<leftarrow> process_extension (bdata (recv_buffer q)) (rq q);
       w \<leftarrow> set_rq (\<lambda>_. if minor x = 1 then x\<lparr>keep_alive := True\<rparr> else x) r w;
       Some (OK, w)
     }
   }"

definition process_request_line :: "nat \<Rightarrow> world \<Rightarrow> world option" where
  "process_request_line ev w = do {
     k \<leftarrow> w_conns w (conn_of ev);
     e \<leftarrow> get_ev ev w;
     if timedout e then do { r \<leftarrow> c_data k; answer_err r 404 w }
     else if c_fd k \<le> 0 then Some w
     else do {
       r \<leftarrow> c_data k;
       (n, w) \<leftarrow> recv_into recv_buffer recv_buffer_update r (c_fd k) w;
       if n = ERROR \<or> n = OK then http_close_request r w
       else do {
         q \<leftarrow> w_reqs w r;
         (err, x, b) \<leftarrow> parse_request_line (rq q) (recv_buffer q);
         w \<leftarrow> set_req (\<lambda>q. q\<lparr>rq := x, recv_buffer := b\<rparr>) r w;
         if err = OK then do {
           w \<leftarrow> set_handler Parse_headers ev w;
           w \<leftarrow> set_rq (\<lambda>x. x\<lparr>r_state := HD_BEGIN\<rparr>) r w;
           (_, w) \<leftarrow> process_uri r w;
           http_parse_headers ev w
         } else if err \<noteq> AGAIN then answer_err r 400 w
         else do {
           w \<leftarrow> add_timer ev (post_accept_timeout (w_cfg w)) w;
           guard (\<not> buffer_full b \<and> n \<noteq> OK);
           Some w
         }
       }
     }
   }"

section \<open>A new connection\<close>

definition http_init_request :: "nat \<Rightarrow> world \<Rightarrow> world option" where
  "http_init_request ev w = do {
     let c = conn_of ev;
     e \<leftarrow> get_ev ev w;
     if timedout e then http_close_connection c w
     else do {
       (r, w) \<leftarrow> create_http_request w;
       w \<leftarrow> set_conn (\<lambda>k. k\<lparr>c_data := Some r\<rparr>) c w;
       w \<leftarrow> set_req (\<lambda>q. q\<lparr>connection := Some c\<rparr>) r w;
       q \<leftarrow> w_reqs w r;
       (rb, pool) \<leftarrow> createBuffer (w_heap w) (rq_pool q);
       (sb, pool) \<leftarrow> createBuffer (w_heap w) pool;
       w \<leftarrow> set_req (\<lambda>q. q\<lparr>recv_buffer := rb, send_buffer := sb, rq_pool := pool\<rparr>) r w;
       w \<leftarrow> set_handler Process_request_line ev w;
       process_request_line ev w
     }
   }"

section \<open>Back ends\<close>

definition http_proxy_pass :: "nat \<Rightarrow> world \<Rightarrow> world option" where
  "http_proxy_pass wev w = do {
     let u = conn_of wev;
     k \<leftarrow> w_conns w u;
     if c_fd k \<le> 0 then Some w
     else do {
       r \<leftarrow> c_data k;
       q \<leftarrow> w_reqs w r;
       e \<leftarrow> get_ev wev w;
       if timedout e then do {
         w \<leftarrow> http_close_connection u w;
         answer_err r 408 w
       } else do {
         (err, w) \<leftarrow> send_from recv_buffer recv_buffer_update r (c_fd k) w;
         w \<leftarrow> (if err = OK then do {
             w \<leftarrow> set_req (\<lambda>q. q\<lparr>recv_buffer := buffer_clear (recv_buffer q)\<rparr>) r w;
             c \<leftarrow> connection q;
             w \<leftarrow> add_event (rev_of c) READ_EVENT w;
             del_event (wev_of u) WRITE_EVENT w
           } else if err = ERROR then answer_err r 503 w
           else Some w);
         e \<leftarrow> get_ev (rev_of u) w;
         if timer_set e then Some w else add_timer (rev_of u) (upstream_timeout (w_cfg w)) w
       }
     }
   }"

definition http_recv_upstream :: "nat \<Rightarrow> world \<Rightarrow> world option" where
  "http_recv_upstream ev w = do {
     let u = conn_of ev;
     k \<leftarrow> w_conns w u;
     if c_fd k \<le> 0 then Some w
     else do {
       r \<leftarrow> c_data k;
       e \<leftarrow> get_ev ev w;
       if timedout e then do {
         w \<leftarrow> http_close_connection u w;
         answer_err r 504 w
       } else do {
         q \<leftarrow> w_reqs w r;
         c \<leftarrow> connection q;
         _ \<leftarrow> upstream q;
         (err, w) \<leftarrow> recv_into send_buffer send_buffer_update r (c_fd k) w;
         ec \<leftarrow> get_ev (wev_of c) w;
         w \<leftarrow> (if ev_handler ec = None then set_handler Handle_response (wev_of c) w else Some w);
         w \<leftarrow> add_event (wev_of c) WRITE_EVENT w;
         if err = OK then do {
           w \<leftarrow> http_close_connection u w;
           set_rq (\<lambda>x. x\<lparr>response_done := True\<rparr>) r w
         } else if err = ERROR then answer_err r 503 w
         else add_timer ev (upstream_timeout (w_cfg w)) w
       }
     }
   }"

definition process_connection_result :: "nat \<Rightarrow> world \<Rightarrow> world option" where
  "process_connection_result wev w = do {
     let u = conn_of wev;
     k \<leftarrow> w_conns w u;
     if c_fd k \<le> 0 then Some w
     else do {
       r \<leftarrow> c_data k;
       q \<leftarrow> w_reqs w r;
       e \<leftarrow> get_ev wev w;
       if timedout e then do {
         _ \<leftarrow> cur_upstream q;
         answer_err r 504 w
       } else do {
         let (ans, rest) = next_answer So_failed (w_so_error w);
         let w = w\<lparr>w_so_error := rest\<rparr>;
         case ans of
           So_failed \<Rightarrow> answer_err r 502 w
         | So_value err \<Rightarrow> do {
             us \<leftarrow> cur_upstream q;
             if err = 0 then do {
               c \<leftarrow> connection q;
               init_upstream_connection u (c_fd k) w
             } else do {
               w \<leftarrow> set_req (\<lambda>q. q\<lparr>cur_upstream := None\<rparr>) r w;
               w \<leftarrow> fail_upstream us w;
               w \<leftarrow> (case upstream q of None \<Rightarrow> None | Some u \<Rightarrow> del_event (wev_of u) WRITE_EVENT w);
               try_connect_upstream r None w
             }
           }
       }
     }
   }"

section \<open>Calling a handler\<close>

definition run_handler :: "handler \<Rightarrow> nat \<Rightarrow> world \<Rightarrow> world option" where
  "run_handler h ev w =
     (case h of
        Event_accept \<Rightarrow> (let (es, rest) = next_answer [] (w_accept w) in event_accept es (w\<lparr>w_accept := rest\<rparr>))
      | Init_request \<Rightarrow> http_init_request ev w
      | Process_request_line \<Rightarrow> process_request_line ev w
      | Parse_headers \<Rightarrow> http_parse_headers ev w
      | Handle_body \<Rightarrow> request_handle_body ev w
      | Handle_response \<Rightarrow> handle_response ev w
      | Handle_response_file \<Rightarrow> handle_response_file ev w
      | Proxy_pass \<Rightarrow> http_proxy_pass ev w
      | Recv_upstream \<Rightarrow> http_recv_upstream ev w
      | Connection_result \<Rightarrow> process_connection_result ev w)"

end
