(* ===== verification/Event_Loop.thy ===== *)
theory Event_Loop
  imports Handlers_C
begin

text \<open>
  The life of a worker: \<^verbatim>\<open>module/kqueue_event_module.c\<close>, \<^verbatim>\<open>module/module.c\<close> and
  \<^verbatim>\<open>worker/worker.c\<close>. What the kernel does between two steps of the program is an argument: the
  ready events, the clock, and the signals that arrive.
\<close>

section \<open>One round of events\<close>

text \<open>\<open>ready\<close> is \<open>None\<close> when \<^verbatim>\<open>kevent\<close> fails (a signal interrupts it); \<open>clock\<close> is the answer of
  \<^verbatim>\<open>gettimeofday\<close>, in seconds and microseconds.\<close>

record poll =
  ready :: "(slot \<times> dir) list option"
  alarm_rings :: bool
  clock :: "int \<times> int"

definition time_update :: "int \<times> int \<Rightarrow> world \<Rightarrow> world" where
  "time_update t w =
     (let (sec, usec) = t; msec = of_int (usec div 1000)
      in w\<lparr>w_tm := (w_tm w)\<lparr>current_msec := of_int sec * 1000 + msec\<rparr>\<rparr>)"

text \<open>The body of the loop over the ready events.\<close>

definition dispatch :: "slot \<times> dir \<Rightarrow> world \<Rightarrow> world option" where
  "dispatch x w = do {
     let ev = ev_of (fst x) (snd x);
     e \<leftarrow> get_ev ev w;
     case ev_handler e of
       None \<Rightarrow> Some w
     | Some h \<Rightarrow> run_handler h ev w
   }"

text \<open>\<open>alarm\<close> is \<^verbatim>\<open>p_event_timer_alarm\<close> when \<^verbatim>\<open>kevent\<close> is called; it is reset in one branch only.\<close>

definition kqueue_process_events :: "poll \<Rightarrow> bool \<Rightarrow> bool \<Rightarrow> world \<Rightarrow> (bool \<times> world) option" where
  "kqueue_process_events p update alarm w =
     (let alarm = (alarm \<or> alarm_rings p);
          w = (if update \<or> alarm then time_update (clock p) w else w) in
      case ready p of
        None \<Rightarrow> Some (False, w)
      | Some xs \<Rightarrow> map_option (\<lambda>w. (alarm, w)) (for_each dispatch xs w))"

text \<open>The call of a handler from \<open>event_expire_timers\<close>; the timers are part of the world.\<close>

definition timer_call :: "handler \<Rightarrow> nat \<Rightarrow> handler timers \<times> world \<Rightarrow> (handler timers \<times> world) option" where
  "timer_call h ev st = map_option (\<lambda>w. (w_tm w, w)) (run_handler h ev ((snd st)\<lparr>w_tm := fst st\<rparr>))"

definition expire_timers :: "world \<Rightarrow> world option" where
  "expire_timers w = map_option (\<lambda>(S, w). w\<lparr>w_tm := S\<rparr>) (event_expire_timers timer_call (w_tm w, w))"

text \<open>\<open>os t\<close> is what happens when the program waits for \<open>t\<close> milliseconds.\<close>

definition process_events_and_timer :: "(32 word \<Rightarrow> poll) \<Rightarrow> bool \<Rightarrow> world \<Rightarrow> (bool \<times> world) option" where
  "process_events_and_timer os alarm w = do {
     let fixed = timer_resolution (w_cfg w) \<noteq> 0;
     t \<leftarrow> (if fixed then Some TIMER_INFINITE else event_find_timer (w_tm w));
     let start = current_msec (w_tm w);
     (alarm, w) \<leftarrow> kqueue_process_events (os t) (\<not> fixed) alarm w;
     let delta = current_msec (w_tm w) - start;
     w \<leftarrow> (if delta \<noteq> 0 then expire_timers w else Some w);
     Some (alarm, w)
   }"

section \<open>Start of a worker\<close>

definition SIZEOF_CONNECTION :: int where
  "SIZEOF_CONNECTION = 160"

text \<open>
  \<open>kq\<close> says that \<^verbatim>\<open>kqueue\<close> succeeds and \<open>sig\<close> that \<^verbatim>\<open>sigaction\<close> does; the result has the
  connection of the listening socket.
\<close>

definition event_process_init :: "bool \<Rightarrow> bool \<Rightarrow> int \<Rightarrow> mem \<Rightarrow> world \<Rightarrow> (rc \<times> slot \<times> world) option" where
  "event_process_init kq sig listen_fd m w = do {
     guard kq;
     (_, pm) \<leftarrow> connectionPoolInit SIZEOF_CONNECTION m;
     (x, w) \<leftarrow> getIdleConnection (w\<lparr>w_pool := pm\<rparr>);
     c \<leftarrow> x;
     w \<leftarrow> set_conn (\<lambda>k. k\<lparr>c_fd := listen_fd\<rparr>) c w;
     w \<leftarrow> set_handler Event_accept (rev_of c) w;
     (err, w) \<leftarrow> kqueue_add_event (rev_of c) READ_EVENT w;
     if err = ERROR then Some (ERROR, c, w)
     else if timer_resolution (w_cfg w) \<noteq> 0 \<and> \<not> sig then Some (ERROR, c, w)
     else Some (OK, c, w)
   }"

text \<open>\<open>junk\<close> is what lies in the memory of the server arrays; \<open>base\<close> and \<open>clean\<close> belong to the
  header table.\<close>

definition worker_process_init :: "bool \<Rightarrow> bool \<Rightarrow> int \<Rightarrow> mem \<Rightarrow> (nat \<Rightarrow> nat \<Rightarrow> server) \<Rightarrow> nat \<Rightarrow> bool \<Rightarrow> world \<Rightarrow>
    (slot \<times> world) option" where
  "worker_process_init kq sig listen_fd m junk base clean w = do {
     (_, c, w) \<leftarrow> event_process_init kq sig listen_fd m w;
     (_, _, doms) \<leftarrow> upstream_process_init (w_cfg w) junk;
     hs \<leftarrow> header_map_init base clean;
     Some (c, w\<lparr>w_doms := doms, w_headers := hs, w_tm := snd (event_timer_init SENTINEL (w_tm w))\<rparr>)
   }"

section \<open>The loop of a worker\<close>

text \<open>The flags that the handlers of signals set.\<close>

record flags =
  p_reap :: bool
  p_terminate :: bool
  p_exiting :: bool
  p_sigalarm :: bool
  p_quit :: bool
  p_event_timer_alarm :: bool

datatype fate = Exits | Lives

text \<open>\<open>signals\<close> is the effect on the flags of the signals that arrive during the round.\<close>

definition worker_round :: "slot \<Rightarrow> (32 word \<Rightarrow> poll) \<Rightarrow> (flags \<Rightarrow> flags) \<Rightarrow> flags \<times> world \<Rightarrow> (fate \<times> flags \<times> world) option" where
  "worker_round listen os signals st = do {
     let (f, w) = st;
     w \<leftarrow> (if p_exiting f then clear_idle_connections w else Some w);
     if p_exiting f \<and> rb_root (tm_tree (w_tm w)) = sentinel (tm_tree (w_tm w)) then Some (Exits, f, w)
     else do {
       (alarm, w) \<leftarrow> process_events_and_timer os (p_event_timer_alarm f) w;
       let f = signals (f\<lparr>p_event_timer_alarm := alarm\<rparr>);
       if p_terminate f then Some (Exits, f, w)
       else if p_quit f then do {
         let f = f\<lparr>p_quit := False\<rparr>;
         if \<not> p_exiting f then do {
           w \<leftarrow> clear_idle_connections w;
           w \<leftarrow> http_close_connection listen w;
           Some (Lives, f\<lparr>p_exiting := True\<rparr>, w)
         } else Some (Lives, f, w)
       } else Some (Lives, f, w)
     }
   }"

text \<open>\<open>n\<close> rounds, each with what the kernel and the signals do; the loop ends only with the process.\<close>

fun worker_rounds :: "slot \<Rightarrow> ((32 word \<Rightarrow> poll) \<times> (flags \<Rightarrow> flags)) list \<Rightarrow> flags \<times> world \<Rightarrow> (fate \<times> flags \<times> world) option" where
  "worker_rounds listen [] st = Some (Lives, st)"
| "worker_rounds listen (x # xs) st = Option.bind (worker_round listen (fst x) (snd x) st) (\<lambda>(fate, st).
     case fate of Exits \<Rightarrow> Some (Exits, st) | Lives \<Rightarrow> worker_rounds listen xs st)"

end
