(* ===== verification/Server_Inv.thy ===== *)
theory Server_Inv
  imports Accept_Inv Event_Loop
begin

text \<open>
  The invariant of a worker: connections, requests and handlers fit together. An event of a
  client's connection has a handler for clients, an event of a connection to a back end one for
  back ends, and a request and its connections know each other. With it the handlers of expired
  timers return, which is what \<open>event_expire_timers\<close> relies on.
\<close>

declare split_paired_All [simp del] split_paired_Ex [simp del]

section \<open>The invariant\<close>

definition data_of :: "world \<Rightarrow> slot \<Rightarrow> nat option" where
  "data_of w c = Option.bind (w_conns w c) c_data"

definition client :: "world \<Rightarrow> slot \<Rightarrow> bool" where
  "client w c \<longleftrightarrow> (\<exists>r q. data_of w c = Some r \<and> w_reqs w r = Some q \<and> connection q = Some c)"

definition backend :: "world \<Rightarrow> slot \<Rightarrow> bool" where
  "backend w c \<longleftrightarrow> (\<exists>r q. data_of w c = Some r \<and> w_reqs w r = Some q \<and> upstream q = Some c)"

text \<open>Which handler an event may have: its side, and the role of its connection.\<close>

fun typed :: "world \<Rightarrow> slot \<Rightarrow> dir \<Rightarrow> handler \<Rightarrow> bool" where
  "typed w c READ_EVENT Event_accept = (data_of w c = None)"
| "typed w c READ_EVENT Init_request = (\<exists>k. w_conns w c = Some k \<and> c_data k = None \<and> is_connected k)"
| "typed w c READ_EVENT Process_request_line = client w c"
| "typed w c READ_EVENT Parse_headers = client w c"
| "typed w c READ_EVENT Handle_body = client w c"
| "typed w c READ_EVENT Recv_upstream = backend w c"
| "typed w c WRITE_EVENT Handle_response = client w c"
| "typed w c WRITE_EVENT Handle_response_file = client w c"
| "typed w c WRITE_EVENT Proxy_pass = backend w c"
| "typed w c WRITE_EVENT Connection_result = backend w c"
| "typed w c _ _ = False"

definition req_ok :: "world \<Rightarrow> slot set \<Rightarrow> nat \<Rightarrow> http_request \<Rightarrow> bool" where
  "req_ok w L r q \<longleftrightarrow> (\<exists>c \<in> L. connection q = Some c \<and> data_of w c = Some r) \<and>
     (\<forall>u. upstream q = Some u \<longrightarrow> u \<in> L \<and> data_of w u = Some r \<and> connection q \<noteq> Some u) \<and>
     (\<forall>i b. cur_upstream q = Some (i, b) \<longrightarrow> i < length (w_doms w) \<and> b < length (servers (w_doms w ! i))) \<and>
     buffer_wf (recv_buffer q) \<and> buffer_wf (send_buffer q)"

definition chosen :: "world \<Rightarrow> slot \<Rightarrow> bool" where
  "chosen w c \<longleftrightarrow> (\<exists>r q. data_of w c = Some r \<and> w_reqs w r = Some q \<and> cur_upstream q \<noteq> None)"

text \<open>An armed event has a handler that copes with its expiry.\<close>

definition armed_ok :: "world \<Rightarrow> slot \<Rightarrow> dir \<Rightarrow> bool" where
  "armed_ok w c d \<longleftrightarrow> (\<exists>e h. get_ev (ev_of c d) w = Some e \<and> ev_handler e = Some h \<and> h \<noteq> Event_accept \<and>
     (h = Connection_result \<longrightarrow> chosen w c))"

definition srv_inv :: "world \<Rightarrow> slot set \<Rightarrow> (32 word \<times> nat) list \<Rightarrow> bool" where
  "srv_inv w L xs \<longleftrightarrow> conn_inv w L xs \<and> 81 \<le> length (w_static w) \<and>
     (\<forall>r q. w_reqs w r = Some q \<longrightarrow> req_ok w L r q) \<and>
     (\<forall>c \<in> L. data_of w c \<noteq> None \<longrightarrow> client w c \<or> backend w c) \<and>
     (\<forall>c \<in> L. \<forall>d e h. get_ev (ev_of c d) w = Some e \<longrightarrow> ev_handler e = Some h \<longrightarrow> typed w c d h) \<and>
     (\<forall>c d. ev_of c d \<in> snd ` set xs \<longrightarrow> armed_ok w c d)"

lemma srv_invD:
  assumes "srv_inv w L xs"
  shows "conn_inv w L xs" "81 \<le> length (w_static w)" "w_reqs w r = Some q \<Longrightarrow> req_ok w L r q"
    "c \<in> L \<Longrightarrow> data_of w c \<noteq> None \<Longrightarrow> client w c \<or> backend w c"
    "c \<in> L \<Longrightarrow> get_ev (ev_of c d) w = Some e \<Longrightarrow> ev_handler e = Some h \<Longrightarrow> typed w c d h"
    "ev_of c d \<in> snd ` set xs \<Longrightarrow> armed_ok w c d"
  using assms unfolding srv_inv_def by blast+

lemma srv_invI:
  assumes "conn_inv w L xs" "81 \<le> length (w_static w)" "\<And>r q. w_reqs w r = Some q \<Longrightarrow> req_ok w L r q"
    "\<And>c. c \<in> L \<Longrightarrow> data_of w c \<noteq> None \<Longrightarrow> client w c \<or> backend w c"
    "\<And>c d e h. c \<in> L \<Longrightarrow> get_ev (ev_of c d) w = Some e \<Longrightarrow> ev_handler e = Some h \<Longrightarrow> typed w c d h"
    "\<And>c d. ev_of c d \<in> snd ` set xs \<Longrightarrow> armed_ok w c d"
  shows "srv_inv w L xs"
  using assms unfolding srv_inv_def by blast

text \<open>What the parts of the invariant depend on.\<close>

definition links :: "http_request \<Rightarrow> slot option \<times> slot option \<times> (nat \<times> nat) option" where
  "links q = (connection q, upstream q, cur_upstream q)"

lemma typed_cong:
  assumes "w_conns w' c = w_conns w c" "\<And>r. data_of w c = Some r \<Longrightarrow> map_option links (w_reqs w' r) = map_option links (w_reqs w r)"
  shows "data_of w' c = data_of w c" "client w' c = client w c" "backend w' c = backend w c" "typed w' c d h = typed w c d h"
    "chosen w' c = chosen w c"
proof -
  show d: "data_of w' c = data_of w c" using assms(1) by (simp add: data_of_def)
  have eq: "(\<exists>q. w_reqs w' r = Some q \<and> P (links q)) = (\<exists>q. w_reqs w r = Some q \<and> P (links q))" if "data_of w c = Some r" for r P
    using assms(2) [OF that] by (cases "w_reqs w r"; cases "w_reqs w' r") auto
  show cl: "client w' c = client w c" unfolding client_def d using eq [of _ "\<lambda>l. fst l = Some c"] by (auto simp: links_def)
  show bk: "backend w' c = backend w c" unfolding backend_def d using eq [of _ "\<lambda>l. fst (snd l) = Some c"] by (auto simp: links_def)
  show "chosen w' c = chosen w c" unfolding chosen_def d using eq [of _ "\<lambda>l. snd (snd l) \<noteq> None"] by (auto simp: links_def)
  show "typed w' c d h = typed w c d h" using d cl bk assms(1) by (cases d; cases h) simp_all
qed

section \<open>Steps that keep the invariant\<close>

text \<open>Operations on events that arm no timer.\<close>

lemma srv_events:
  assumes inv: "srv_inv w L xs" and f: "event_frame E w w'" and ci: "conn_inv w' L ys" and ys: "snd ` set ys \<subseteq> snd ` set xs"
  shows "srv_inv w' L ys"
proof -
  note D = srv_invD [OF inv] and fr = event_frameD [OF f]
  have tc: "data_of w' c = data_of w c" "client w' c = client w c" "backend w' c = backend w c" "typed w' c d h = typed w c d h"
    "chosen w' c = chosen w c" for c d h
    using typed_cong [of w' c w] fr(3,4) by auto
  have before: "\<exists>e0. get_ev (ev_of c d) w = Some e0 \<and> ev_handler e0 = ev_handler e" if "c \<in> L" "get_ev (ev_of c d) w' = Some e" for c d e
  proof -
    obtain e0 where "get_ev (ev_of c d) w = Some e0" using live_event [OF D(1) \<open>c \<in> L\<close>] by blast
    then show ?thesis using fr(10) [of "ev_of c d" e0] \<open>get_ev (ev_of c d) w' = Some e\<close> by auto
  qed
  show ?thesis
  proof (rule srv_invI)
    show "conn_inv w' L ys" "81 \<le> length (w_static w')" using ci D(2) fr(6) by simp_all
    show "req_ok w' L r q" if "w_reqs w' r = Some q" for r q
      using D(3) [of r q] that fr(4,5) tc(1) by (simp add: req_ok_def)
    show "client w' c \<or> backend w' c" if "c \<in> L" "data_of w' c \<noteq> None" for c using D(4) that tc by simp
    show "typed w' c d h" if "c \<in> L" "get_ev (ev_of c d) w' = Some e" "ev_handler e = Some h" for c d e h
      using before [OF that(1,2)] D(5) [OF that(1)] that(3) tc(4) by metis
    show "armed_ok w' c d" if "ev_of c d \<in> snd ` set ys" for c d
    proof -
      have "armed_ok w c d" using D(6) that ys by blast
      then show ?thesis using fr(10) [of "ev_of c d"] tc(5) unfolding armed_ok_def by metis
    qed
  qed
qed

text \<open>A change of a request that keeps its links, and one of anything the invariant does not read.\<close>

lemma srv_req:
  assumes inv: "srv_inv w L xs" and q: "w_reqs w r = Some q" and q': "links q' = links q" "buffer_wf (recv_buffer q')" "buffer_wf (send_buffer q')"
  shows "srv_inv (w\<lparr>w_reqs := (w_reqs w)(r \<mapsto> q')\<rparr>) L xs" (is "srv_inv ?w _ _")
proof -
  note D = srv_invD [OF inv]
  have tc: "data_of ?w c = data_of w c" "client ?w c = client w c" "backend ?w c = backend w c" "typed ?w c d h = typed w c d h"
    "chosen ?w c = chosen w c" for c d h
    using typed_cong [of ?w c w] q q'(1) by auto
  have ro: "req_ok ?w L r0 q0" if "w_reqs ?w r0 = Some q0" for r0 q0
  proof (cases "r0 = r")
    case True
    then show ?thesis using D(3) [OF q] q' that tc(1) by (simp add: req_ok_def links_def)
  next
    case False
    then show ?thesis using D(3) [of r0 q0] that tc(1) by (simp add: req_ok_def)
  qed
  have ao: "armed_ok ?w c d" if "ev_of c d \<in> snd ` set xs" for c d
    using D(6) [OF that] tc(5) by (auto simp: armed_ok_def get_ev_def)
  show ?thesis
    by (rule srv_invI) (use D conn_inv_cong [of ?w w] ro ao tc in \<open>auto simp: get_ev_def\<close>)
qed

lemma srv_cong:
  assumes "w_tm w' = w_tm w" "w_pool w' = w_pool w" "w_conns w' = w_conns w" "w_reqs w' = w_reqs w" "w_static w' = w_static w"
    "map (length \<circ> servers) (w_doms w') = map (length \<circ> servers) (w_doms w)"
  shows "srv_inv w' L xs = srv_inv w L xs"
proof -
  have len: "length (w_doms w') = length (w_doms w)" using assms(6) by (metis length_map)
  have "length (servers (w_doms w' ! i)) = length (servers (w_doms w ! i))" if "i < length (w_doms w)" for i
    using assms(6) that len by (metis comp_apply nth_map)
  then have "req_ok w' L r q = req_ok w L r q" for r q
    using assms(3) len by (auto simp: req_ok_def data_of_def)
  moreover have "data_of w' c = data_of w c" "client w' c = client w c" "backend w' c = backend w c" "typed w' c d h = typed w c d h"
    "chosen w' c = chosen w c" for c d h
    using typed_cong [of w' c w] assms(3,4) by auto
  ultimately show ?thesis
    using assms conn_inv_cong [of w' w] by (simp add: srv_inv_def armed_ok_def get_ev_def)
qed

text \<open>Setting the handler of an event.\<close>

lemma srv_handler:
  assumes inv: "srv_inv w L xs" and c: "c \<in> L" and t: "typed w c d h" and a: "h \<noteq> Event_accept" "h \<noteq> Connection_result"
  shows "\<exists>e. get_ev (ev_of c d) w = Some e \<and>
    set_handler h (ev_of c d) w = Some (w\<lparr>w_tm := (w_tm w)\<lparr>tm_events := (tm_events (w_tm w))(ev_of c d \<mapsto> e\<lparr>ev_handler := Some h\<rparr>)\<rparr>\<rparr>) \<and>
    srv_inv (w\<lparr>w_tm := (w_tm w)\<lparr>tm_events := (tm_events (w_tm w))(ev_of c d \<mapsto> e\<lparr>ev_handler := Some h\<rparr>)\<rparr>\<rparr>) L xs"
proof -
  note D = srv_invD [OF inv]
  obtain e where e: "get_ev (ev_of c d) w = Some e" using live_event [OF D(1) c] by blast
  let ?f = "\<lambda>e. e\<lparr>ev_handler := Some h\<rparr>"
  let ?w = "w\<lparr>w_tm := (w_tm w)\<lparr>tm_events := (tm_events (w_tm w))(ev_of c d \<mapsto> ?f e)\<rparr>\<rparr>"
  have s: "set_ev ?f (ev_of c d) w = Some ?w" "conn_inv ?w L xs" using set_active_ok [OF D(1) c e, of ?f] by auto
  have tc: "data_of ?w b = data_of w b" "client ?w b = client w b" "backend ?w b = backend w b" "typed ?w b d' h' = typed w b d' h'"
    "chosen ?w b = chosen w b" for b d' h'
    using typed_cong [of ?w b w] by auto
  have ge: "get_ev (ev_of b d') ?w = (if b = c \<and> d' = d then Some (?f e) else get_ev (ev_of b d') w)" for b d'
    by (simp add: get_ev_def)
  have ro: "req_ok ?w L r q" if "w_reqs ?w r = Some q" for r q using D(3) [of r q] that tc(1) by (simp add: req_ok_def)
  have ty: "typed ?w b d' h'" if "b \<in> L" "get_ev (ev_of b d') ?w = Some e'" "ev_handler e' = Some h'" for b d' e' h'
    using that D(5) [of b d' e' h'] t tc(4) by (auto simp: ge split: if_splits)
  have ao: "armed_ok ?w b d'" if "ev_of b d' \<in> snd ` set xs" for b d'
    using D(6) [OF that] a tc(5) by (auto simp: armed_ok_def ge)
  have "srv_inv ?w L xs" using s(2) D(2,4) ro ty ao tc by (intro srv_invI) auto
  then show ?thesis using e s(1) by (simp add: set_handler_def)
qed

section \<open>Answering with an error\<close>

text \<open>The frame of an answer: only events of the connection, the request and recorded calls change.\<close>

definition answered :: "nat \<Rightarrow> nat \<Rightarrow> slot \<Rightarrow> http_request \<Rightarrow> world \<Rightarrow> world \<Rightarrow> bool" where
  "answered r err c q w w' \<longleftrightarrow> (\<exists>page b. err_page err = Some page \<and> buffer_wf b \<and>
       contents b = err_head (minor (rq q)) err (length err_page_tail + length page) @ err_body (w_static w) page \<and>
       w_reqs w' = (w_reqs w)(r \<mapsto> q\<lparr>rq := (rq q)\<lparr>status := int err, response_done := True, keep_alive := False\<rparr>, send_buffer := b\<rparr>)) \<and>
     w_conns w' = w_conns w \<and> w_doms w' = w_doms w \<and> w_static w' = w_static w \<and> w_cfg w' = w_cfg w \<and>
     current_msec (w_tm w') = current_msec (w_tm w) \<and> (\<exists>cs. w_calls w' = w_calls w @ cs) \<and>
     (\<forall>b. b \<noteq> rev_of c \<longrightarrow> b \<noteq> wev_of c \<longrightarrow> get_ev b w' = get_ev b w) \<and>
     (\<exists>e. get_ev (wev_of c) w' = Some e \<and> ev_handler e = Some Handle_response \<and> ev_active e)"

lemma answer_err_ok:
  assumes inv: "srv_inv w L xs" and q: "w_reqs w r = Some q" "connection q = Some c" and err: "err \<in> set handled_errors"
  shows "\<exists>w' ys. answer_err r err w = Some w' \<and> srv_inv w' L ys \<and> answered r err c q w w' \<and>
    (ys = xs \<or> ys = filter (\<lambda>x. snd x \<noteq> rev_of c) xs)"
proof -
  note D = srv_invD [OF inv]
  have rok: "req_ok w L r q" using D(3) [OF q(1)] .
  then have c: "c \<in> L" "data_of w c = Some r" and wf: "buffer_wf (recv_buffer q)" "buffer_wf (send_buffer q)"
    using q(2) by (auto simp: req_ok_def)
  obtain page b where ce: "err_page err = Some page" "construct_err (w_static w) (rq q) (send_buffer q) err =
      Some (OK, (rq q)\<lparr>status := int err, response_done := True, keep_alive := False\<rparr>, b, [Add_event_w, Del_event_r, Set_wev_handler_response])"
    "buffer_wf b" "contents b = err_head (minor (rq q)) err (length err_page_tail + length page) @ err_body (w_static w) page"
    using construct_err_text [OF err wf(2) D(2)] by blast
  let ?q = "q\<lparr>rq := (rq q)\<lparr>status := int err, response_done := True, keep_alive := False\<rparr>, send_buffer := b\<rparr>"
  let ?w1 = "w\<lparr>w_reqs := (w_reqs w)(r \<mapsto> ?q)\<rparr>"
  have i1: "srv_inv ?w1 L xs" by (rule srv_req [OF inv q(1)]) (simp_all add: links_def wf(1) ce(3))
  obtain w2 where 2: "add_event (wev_of c) WRITE_EVENT ?w1 = Some w2" "conn_inv w2 L xs" "event_frame {wev_of c} ?w1 w2"
    "\<exists>e. get_ev (wev_of c) w2 = Some e \<and> ev_active e"
    using add_event_ok [OF srv_invD(1) [OF i1] c(1), of WRITE_EVENT WRITE_EVENT] by auto
  have i2: "srv_inv w2 L xs" by (rule srv_events [OF i1 2(3,2)]) simp
  obtain w3 ys where 3: "del_event (rev_of c) READ_EVENT w2 = Some w3" "conn_inv w3 L ys" "event_frame {rev_of c} w2 w3"
    "ys = xs \<or> ys = filter (\<lambda>x. snd x \<noteq> rev_of c) xs"
    using del_event_ok [OF 2(2) c(1), of READ_EVENT READ_EVENT] by auto
  have i3: "srv_inv w3 L ys" by (rule srv_events [OF i2 3(3,2)]) (use 3(4) in auto)
  have cl: "client w3 c" using c(2) q(2) event_frameD(3,4) [OF 2(3)] event_frameD(3,4) [OF 3(3)]
    by (simp add: client_def data_of_def)
  obtain e where e: "get_ev (wev_of c) w3 = Some e"
    "set_handler Handle_response (wev_of c) w3 =
      Some (w3\<lparr>w_tm := (w_tm w3)\<lparr>tm_events := (tm_events (w_tm w3))(wev_of c \<mapsto> e\<lparr>ev_handler := Some Handle_response\<rparr>)\<rparr>\<rparr>)"
    "srv_inv (w3\<lparr>w_tm := (w_tm w3)\<lparr>tm_events := (tm_events (w_tm w3))(wev_of c \<mapsto> e\<lparr>ev_handler := Some Handle_response\<rparr>)\<rparr>\<rparr>) L ys"
    using srv_handler [OF i3 c(1), of WRITE_EVENT Handle_response] cl by auto
  let ?w4 = "w3\<lparr>w_tm := (w_tm w3)\<lparr>tm_events := (tm_events (w_tm w3))(wev_of c \<mapsto> e\<lparr>ev_handler := Some Handle_response\<rparr>)\<rparr>\<rparr>"
  have "ev_active e" using 2(4) e(1) event_frameD(9) [OF 3(3), of "wev_of c"] by auto
  moreover have "answer_err r err w = Some ?w4"
    using q ce(2) 2(1) 3(1) e(2) by (simp add: answer_err_def set_req_def)
  moreover have "\<exists>cs. w_calls ?w4 = w_calls w @ cs" using event_frameD(8) [OF 2(3)] event_frameD(8) [OF 3(3)] by auto
  moreover have "get_ev b ?w4 = get_ev b w" if "b \<noteq> rev_of c" "b \<noteq> wev_of c" for b
  proof -
    have "get_ev b ?w4 = get_ev b w3" using that by (simp add: get_ev_def)
    moreover have "get_ev b w3 = get_ev b w2" using event_frameD(9) [OF 3(3), of b] that by simp
    moreover have "get_ev b w2 = get_ev b ?w1" using event_frameD(9) [OF 2(3), of b] that by simp
    ultimately show ?thesis by (simp add: get_ev_def)
  qed
  ultimately show ?thesis
    using e(3) 3(4) ce(1,3,4) event_frameD(1,3-7) [OF 2(3)] event_frameD(1,3-7) [OF 3(3)]
    by (intro exI [of _ ?w4] exI [of _ ys]) (auto simp: answered_def get_ev_def)
qed

section \<open>Closing\<close>

text \<open>The connections \<open>C\<close> go; what remains keeps its events and its role.\<close>

lemma srv_shrink:
  assumes inv: "srv_inv w L xs" and ci: "conn_inv w' (L - C) ys" and st: "w_static w' = w_static w"
    and same: "\<And>b. b \<in> L - C \<Longrightarrow> w_conns w' b = w_conns w b"
      "\<And>b d. b \<in> L - C \<Longrightarrow> get_ev (ev_of b d) w' = get_ev (ev_of b d) w"
    and ys: "snd ` set ys \<subseteq> snd ` set xs"
    and role: "\<And>b. b \<in> L - C \<Longrightarrow> client w b \<Longrightarrow> client w' b" "\<And>b. b \<in> L - C \<Longrightarrow> backend w b \<Longrightarrow> backend w' b"
      "\<And>b. b \<in> L - C \<Longrightarrow> chosen w b \<Longrightarrow> chosen w' b"
    and ro: "\<And>r q. w_reqs w' r = Some q \<Longrightarrow> req_ok w' (L - C) r q"
  shows "srv_inv w' (L - C) ys"
proof -
  note D = srv_invD [OF inv]
  have d: "data_of w' b = data_of w b" if "b \<in> L - C" for b using same(1) [OF that] by (simp add: data_of_def)
  have ty: "typed w' b e h" if "b \<in> L - C" "typed w b e h" for b e h
    using that role [OF that(1)] d [OF that(1)] same(1) [OF that(1)] by (cases e; cases h) simp_all
  show ?thesis
  proof (rule srv_invI [OF ci _ ro])
    show "81 \<le> length (w_static w')" using D(2) st by simp
    show "client w' b \<or> backend w' b" if "b \<in> L - C" "data_of w' b \<noteq> None" for b
      using D(4) [of b] that role [OF that(1)] d [OF that(1)] by auto
    show "typed w' b e h" if "b \<in> L - C" "get_ev (ev_of b e) w' = Some x" "ev_handler x = Some h" for b e x h
      using ty [OF that(1)] D(5) [of b e x h] that same(2) [OF that(1)] by simp
    show "armed_ok w' b e" if a: "ev_of b e \<in> snd ` set ys" for b e
    proof -
      obtain k where "(k, ev_of b e) \<in> set ys" using a by auto
      then have b: "b \<in> L - C" using timers_live [OF ci] by fastforce
      have "armed_ok w b e" using D(6) a ys by blast
      then show ?thesis using same(2) [OF b] role(3) [OF b] unfolding armed_ok_def by auto
    qed
  qed
qed

abbreviation without :: "slot set \<Rightarrow> (32 word \<times> nat) list \<Rightarrow> (32 word \<times> nat) list" where
  "without C xs \<equiv> filter (\<lambda>x. snd x \<notin> rev_of ` C \<and> snd x \<notin> wev_of ` C) xs"

lemma close_frameD:
  assumes "close_frame c k w w'"
  shows "w_conns w' = (w_conns w)(c \<mapsto> shut k)" "w_doms w' = w_doms w" "w_static w' = w_static w" "w_cfg w' = w_cfg w"
    "w_reqs w' = (case c_data k of None \<Rightarrow> w_reqs w | Some r \<Rightarrow> (w_reqs w)(r := map_option (unlink c) (w_reqs w r)))"
    "w_calls w' = w_calls w @ (if c_fd k > 0 then [Close (c_fd k)] else [])" "current_msec (w_tm w') = current_msec (w_tm w)"
    "b \<noteq> rev_of c \<Longrightarrow> b \<noteq> wev_of c \<Longrightarrow> get_ev b w' = get_ev b w"
  using assms unfolding close_frame_def get_ev_def by auto

lemma event_of_other: "b \<noteq> c \<Longrightarrow> ev_of b d \<noteq> rev_of c \<and> ev_of b d \<noteq> wev_of c"
  by (cases d) auto

lemma data_of_Some: "data_of w c = Some r \<longleftrightarrow> (\<exists>k. w_conns w c = Some k \<and> c_data k = Some r)"
  by (auto simp: data_of_def Option.bind_eq_Some_conv)

text \<open>A connection without a request.\<close>

lemma close_idle_ok:
  assumes inv: "srv_inv w L xs" and c: "c \<in> L" "w_conns w c = Some k" "c_data k = None" "is_connected k"
  shows "\<exists>w'. http_close_connection c w = Some w' \<and> close_frame c k w w' \<and> srv_inv w' (L - {c}) (without {c} xs) \<and> closed_conn w' c"
proof -
  note D = srv_invD [OF inv]
  obtain w' where w': "http_close_connection c w = Some w'" "close_frame c k w w'" "conn_inv w' (L - {c}) (without {c} xs)" "closed_conn w' c"
    using close_ok [OF D(1) c(1,2)] c(3,4) by auto
  note F = close_frameD [OF w'(2)]
  have rq: "w_reqs w' = w_reqs w" using F(5) c(3) by simp
  have dc: "data_of w c = None" using c(2,3) by (simp add: data_of_def)
  have same: "w_conns w' b = w_conns w b" "get_ev (ev_of b d) w' = get_ev (ev_of b d) w" if "b \<in> L - {c}" for b d
    using F(1) F(8) [of "ev_of b d"] event_of_other [of b c d] that by auto
  have dd: "data_of w' b = data_of w b" if "b \<noteq> c" for b using F(1) that by (simp add: data_of_def)
  have ro: "req_ok w' (L - {c}) r q" if "w_reqs w' r = Some q" for r q
  proof -
    have "req_ok w L r q" using D(3) that rq by simp
    then show ?thesis using dd dc F(2) unfolding req_ok_def by (metis DiffI option.distinct(1) singletonD)
  qed
  have "srv_inv w' (L - {c}) (without {c} xs)"
    by (rule srv_shrink [OF inv w'(3) F(3) same _ _ _ _ ro]) (use dd rq in \<open>auto simp: client_def backend_def chosen_def\<close>)
  then show ?thesis using w'(1,2,4) by blast
qed

text \<open>A connection to a back end.\<close>

lemma close_backend_ok:
  assumes inv: "srv_inv w L xs" and q: "w_reqs w r = Some q" "upstream q = Some u"
  shows "\<exists>w' k. http_close_connection u w = Some w' \<and> w_conns w u = Some k \<and> close_frame u k w w' \<and>
    srv_inv w' (L - {u}) (without {u} xs) \<and> w_reqs w' = (w_reqs w)(r \<mapsto> q\<lparr>upstream := None\<rparr>)"
proof -
  note D = srv_invD [OF inv]
  have rok: "req_ok w L r q" using D(3) [OF q(1)] .
  then have u: "u \<in> L" "data_of w u = Some r" "connection q \<noteq> Some u" using q(2) by (auto simp: req_ok_def)
  obtain k where k: "w_conns w u = Some k" "c_data k = Some r" using u(2) by (auto simp: data_of_Some)
  obtain w' where w': "http_close_connection u w = Some w'" "close_frame u k w w'" "conn_inv w' (L - {u}) (without {u} xs)"
    using close_ok [OF D(1) u(1) k(1)] k(2) q(1) by auto
  note F = close_frameD [OF w'(2)]
  let ?q = "q\<lparr>upstream := None\<rparr>"
  have rq: "w_reqs w' = (w_reqs w)(r \<mapsto> ?q)" using F(5) k(2) q(1) u(3) by (simp add: unlink_def)
  have same: "w_conns w' b = w_conns w b" "get_ev (ev_of b d) w' = get_ev (ev_of b d) w" if "b \<in> L - {u}" for b d
    using F(1) F(8) [of "ev_of b d"] event_of_other [of b u d] that by auto
  have dd: "data_of w' b = data_of w b" if "b \<noteq> u" for b using F(1) that by (simp add: data_of_def)
  have ro: "req_ok w' (L - {u}) r0 q0" if h: "w_reqs w' r0 = Some q0" for r0 q0
  proof (cases "r0 = r")
    case True
    then have "q0 = ?q" using h rq by simp
    then show ?thesis using rok dd F(2) u(3) True unfolding req_ok_def by (auto intro!: bexI)
  next
    case False
    then have "req_ok w L r0 q0" using D(3) h rq by simp
    then show ?thesis using dd u(2) False F(2) unfolding req_ok_def by (metis DiffI option.inject singletonD)
  qed
  have cl: "client w' b" if "b \<in> L - {u}" "client w b" for b
    using that dd [of b] rq q(1) by (auto simp: client_def)
  have bk: "backend w' b" if h: "b \<in> L - {u}" "backend w b" for b
  proof -
    obtain ra qa where b: "data_of w b = Some ra" "w_reqs w ra = Some qa" "upstream qa = Some b"
      using h(2) by (auto simp: backend_def)
    then have "ra \<noteq> r" using h(1) q by auto
    then show ?thesis using b dd [of b] h(1) rq unfolding backend_def by (intro exI [of _ ra] exI [of _ qa]) simp
  qed
  have ch: "chosen w' b" if "b \<in> L - {u}" "chosen w b" for b
    using that dd [of b] rq q(1) by (auto simp: chosen_def)
  have "srv_inv w' (L - {u}) (without {u} xs)"
    by (rule srv_shrink [OF inv w'(3) F(3) same _ cl bk ch ro]) auto
  then show ?thesis using w'(1,2) k(1) rq by blast
qed

text \<open>Nothing but the connections \<open>C\<close> and their events is touched.\<close>

definition kept :: "slot set \<Rightarrow> world \<Rightarrow> world \<Rightarrow> bool" where
  "kept C w w' \<longleftrightarrow> (\<forall>b. b \<notin> C \<longrightarrow> w_conns w' b = w_conns w b \<and> (\<forall>d. get_ev (ev_of b d) w' = get_ev (ev_of b d) w)) \<and>
     w_cfg w' = w_cfg w \<and> w_static w' = w_static w \<and>
     map (length \<circ> servers) (w_doms w') = map (length \<circ> servers) (w_doms w) \<and>
     current_msec (w_tm w') = current_msec (w_tm w) \<and> (\<exists>cs. w_calls w' = w_calls w @ cs)"

lemma kept_refl [simp]: "kept C w w"
  by (simp add: kept_def)

lemma kept_conn: "kept C w w' \<Longrightarrow> b \<notin> C \<Longrightarrow> w_conns w' b = w_conns w b"
  by (simp add: kept_def)

lemma kept_ev: "kept C w w' \<Longrightarrow> b \<notin> C \<Longrightarrow> get_ev (ev_of b d) w' = get_ev (ev_of b d) w"
  by (simp add: kept_def)

lemma kept_trans: "kept C w w' \<Longrightarrow> kept D w' w'' \<Longrightarrow> kept (C \<union> D) w w''"
  by (auto simp: kept_def)

lemma kept_closed: "close_frame c k w w' \<Longrightarrow> kept {c} w w'"
  using close_frameD [of c k w w'] event_of_other [of _ c] by (auto simp: kept_def)

lemma kept_answered: "answered r err c q w w' \<Longrightarrow> kept {c} w w'"
  using event_of_other [of _ c] by (auto simp: kept_def answered_def)

lemma kept_events: "event_frame E w w' \<Longrightarrow> E \<subseteq> rev_of ` C \<union> wev_of ` C \<Longrightarrow> kept C w w'"
proof -
  assume f: "event_frame E w w'" and E: "E \<subseteq> rev_of ` C \<union> wev_of ` C"
  note F = event_frameD [OF f]
  have "get_ev (ev_of b d) w' = get_ev (ev_of b d) w" if "b \<notin> C" for b d
  proof -
    have "ev_of b d \<notin> rev_of ` C \<union> wev_of ` C" using event_of_other [of b _ d] that by (metis Un_iff imageE)
    then have "ev_of b d \<notin> E" using E by blast
    then show ?thesis using F(9) by blast
  qed
  then show ?thesis using F by (simp add: kept_def)
qed

lemma kept_calls: "kept C w w' \<Longrightarrow> \<exists>cs. w_calls w' = w_calls w @ cs"
  by (simp add: kept_def)

section \<open>http_close_request\<close>

definition conns_of :: "http_request \<Rightarrow> slot set" where
  "conns_of q = set_option (connection q) \<union> set_option (upstream q)"

lemma free_upstream_ok:
  assumes "i < length (w_doms w)" "b < length (servers (w_doms w ! i))"
  shows "\<exists>ds. free_upstream (i, b) w = Some (w\<lparr>w_doms := ds\<rparr>) \<and> map (length \<circ> servers) ds = map (length \<circ> servers) (w_doms w)"
proof -
  have "map (length \<circ> servers) ((w_doms w)[i := (w_doms w ! i)\<lparr>servers := (servers (w_doms w ! i))[b := x]\<rparr>]) =
      map (length \<circ> servers) (w_doms w)" for x
    using assms(1) by (intro nth_equalityI) (auto simp: nth_list_update)
  then show ?thesis using assms
    by (intro exI [of _ "(w_doms w)[i := (w_doms w ! i)\<lparr>servers := (servers (w_doms w ! i))[b :=
        free_server_after_round_select (current_msec (w_tm w)) (servers (w_doms w ! i) ! b)]\<rparr>]"])
      (simp add: free_upstream_def Let_def)
qed

lemma close_resource_ok:
  assumes "w_reqs w r = Some q"
  shows "\<exists>x cs. close_resource r w = Some (w\<lparr>w_calls := w_calls w @ cs, w_reqs := (w_reqs w)(r \<mapsto> q\<lparr>rq := x\<rparr>)\<rparr>)"
proof (cases "resource_fd (rq q) > 0")
  case True
  then show ?thesis using assms
    by (intro exI [of _ "(rq q)\<lparr>resource_fd := - 1\<rparr>"] exI [of _ "[Close (resource_fd (rq q))]"])
      (simp add: close_resource_def set_rq_def set_req_def call_def)
next
  case False
  then show ?thesis using assms by (intro exI [of _ "rq q"] exI [of _ "[]"]) (simp add: close_resource_def fun_upd_idem)
qed

lemma close_request_conns:
  assumes inv: "srv_inv w L xs" and q: "w_reqs w r = Some q" "connection q = Some c"
  shows "\<exists>w1 w2. http_close_connection c w = Some w1 \<and>
    (case upstream q of None \<Rightarrow> Some w1 | Some u \<Rightarrow> http_close_connection u w1) = Some w2 \<and>
    w_reqs w1 = (w_reqs w)(r \<mapsto> q\<lparr>connection := None\<rparr>) \<and>
    w_reqs w2 = (w_reqs w)(r \<mapsto> q\<lparr>connection := None, upstream := None\<rparr>) \<and>
    conn_inv w2 (L - conns_of q) (without (conns_of q) xs) \<and> kept (conns_of q) w w2 \<and> w_doms w2 = w_doms w \<and>
    (\<forall>k. w_conns w c = Some k \<longrightarrow> c_fd k > 0 \<longrightarrow> Close (c_fd k) \<in> set (w_calls w2))"
proof -
  note D = srv_invD [OF inv]
  have rok: "req_ok w L r q" using D(3) [OF q(1)] .
  then have c: "c \<in> L" "data_of w c = Some r" using q(2) by (auto simp: req_ok_def)
  obtain k where k: "w_conns w c = Some k" "c_data k = Some r" using c(2) by (auto simp: data_of_Some)
  obtain w1 where 1: "http_close_connection c w = Some w1" "close_frame c k w w1" "conn_inv w1 (L - {c}) (without {c} xs)"
    using close_ok [OF D(1) c(1) k(1)] k(2) q(1) by auto
  note F = close_frameD [OF 1(2)]
  have rq1: "w_reqs w1 = (w_reqs w)(r \<mapsto> q\<lparr>connection := None\<rparr>)" using F(5) k(2) q by (simp add: unlink_def)
  have closed: "c_fd k > 0 \<longrightarrow> Close (c_fd k) \<in> set (w_calls w1)" using F(6) by simp
  show ?thesis
  proof (cases "upstream q")
    case None
    then have C: "conns_of q = {c}" using q(2) by (simp add: conns_of_def)
    have e: "q\<lparr>connection := None\<rparr> = q\<lparr>connection := None, upstream := None\<rparr>" using None by simp
    have "w_reqs w1 = (w_reqs w)(r \<mapsto> q\<lparr>connection := None, upstream := None\<rparr>)" unfolding rq1 by (subst e) (rule refl)
    then show ?thesis using 1(1,3) closed k(1) F(2) kept_closed [OF 1(2)] rq1 unfolding None C option.case
      by (intro exI [of _ w1] conjI) auto
  next
    case (Some u)
    then have u: "u \<in> L" "data_of w u = Some r" "u \<noteq> c" using rok q(2) by (auto simp: req_ok_def)
    obtain ku where ku: "w_conns w1 u = Some ku" "c_data ku = Some r" using u(2,3) F(1) by (auto simp: data_of_Some)
    obtain w2 where 2: "http_close_connection u w1 = Some w2" "close_frame u ku w1 w2"
      "conn_inv w2 (L - {c} - {u}) (without {u} (without {c} xs))"
      using close_ok [OF 1(3) _ ku(1)] ku(2) rq1 u by auto
    note F2 = close_frameD [OF 2(2)]
    have C: "conns_of q = {c} \<union> {u}" using q(2) Some by (simp add: conns_of_def)
    have "unlink u (q\<lparr>connection := None\<rparr>) = q\<lparr>connection := None, upstream := None\<rparr>" by (simp add: unlink_def)
    then have rq2: "w_reqs w2 = (w_reqs w)(r \<mapsto> q\<lparr>connection := None, upstream := None\<rparr>)"
      using F2(5) ku(2) rq1 by simp
    have "conn_inv w2 (L - conns_of q) (without (conns_of q) xs)"
    proof -
      have "L - {c} - {u} = L - conns_of q" unfolding C by auto
      moreover have "without {u} (without {c} xs) = without (conns_of q) xs" unfolding C by (simp add: conj_ac)
      ultimately show ?thesis using 2(3) by simp
    qed
    moreover have "kept (conns_of q) w w2" using kept_trans [OF kept_closed [OF 1(2)] kept_closed [OF 2(2)]] C by simp
    moreover have "\<forall>k. w_conns w c = Some k \<longrightarrow> c_fd k > 0 \<longrightarrow> Close (c_fd k) \<in> set (w_calls w2)" using closed k(1) F2(6) by auto
    ultimately show ?thesis using Some 1(1) 2(1) rq1 rq2 F(2) F2(2) by (intro exI [of _ w1] exI [of _ w2]) simp
  qed
qed

lemma close_request_ok:
  assumes inv: "srv_inv w L xs" and q: "w_reqs w r = Some q" "connection q = Some c"
  shows "\<exists>w'. http_close_request r w = Some w' \<and> srv_inv w' (L - conns_of q) (without (conns_of q) xs) \<and>
    w_reqs w' = (w_reqs w)(r := None) \<and> kept (conns_of q) w w' \<and>
    (\<forall>k. w_conns w c = Some k \<longrightarrow> c_fd k > 0 \<longrightarrow> Close (c_fd k) \<in> set (w_calls w'))"
proof -
  note D = srv_invD [OF inv]
  have rok: "req_ok w L r q" using D(3) [OF q(1)] .
  let ?C = "conns_of q" and ?q = "q\<lparr>connection := None, upstream := None\<rparr>"
  obtain w1 w2 where w2: "http_close_connection c w = Some w1"
    "(case upstream q of None \<Rightarrow> Some w1 | Some u \<Rightarrow> http_close_connection u w1) = Some w2"
    "w_reqs w1 = (w_reqs w)(r \<mapsto> q\<lparr>connection := None\<rparr>)" "w_reqs w2 = (w_reqs w)(r \<mapsto> ?q)"
    "conn_inv w2 (L - ?C) (without ?C xs)" "kept ?C w w2" "w_doms w2 = w_doms w"
    "\<forall>k. w_conns w c = Some k \<longrightarrow> c_fd k > 0 \<longrightarrow> Close (c_fd k) \<in> set (w_calls w2)"
    using close_request_conns [OF inv q] by blast
  have "w_reqs w2 r = Some ?q" using w2(4) by simp
  from close_resource_ok [OF this] obtain x cs where 3: "close_resource r w2 =
      Some (w2\<lparr>w_calls := w_calls w2 @ cs, w_reqs := (w_reqs w)(r \<mapsto> ?q\<lparr>rq := x\<rparr>)\<rparr>)" by (auto simp: w2(4))
  let ?w3 = "w2\<lparr>w_calls := w_calls w2 @ cs, w_reqs := (w_reqs w)(r \<mapsto> ?q\<lparr>rq := x\<rparr>)\<rparr>"
  obtain ds where 4: "(case cur_upstream q of None \<Rightarrow> Some ?w3 | Some us \<Rightarrow> free_upstream us ?w3) = Some (?w3\<lparr>w_doms := ds\<rparr>)"
    "map (length \<circ> servers) ds = map (length \<circ> servers) (w_doms w)"
  proof (cases "cur_upstream q")
    case None
    then show ?thesis using that [of "w_doms w2"] w2(7) by simp
  next
    case (Some us)
    obtain i b where us: "us = (i, b)" by (cases us)
    then have "i < length (w_doms ?w3)" "b < length (servers (w_doms ?w3 ! i))"
      using rok Some w2(7) by (auto simp: req_ok_def)
    from free_upstream_ok [OF this] show ?thesis using that Some us w2(7) by auto
  qed
  let ?w' = "?w3\<lparr>w_doms := ds, w_reqs := (w_reqs w)(r := None)\<rparr>"
  have run: "http_close_request r w = Some ?w'"
    using q w2(1-4) 3 4(1) by (simp add: http_close_request_def)
  have K: "kept ?C w ?w'" using w2(6) 4(2) by (auto simp: kept_def get_ev_def)
  have ci: "conn_inv ?w' (L - ?C) (without ?C xs)" using w2(5) conn_inv_cong [of ?w' w2] by simp
  have dd: "data_of ?w' b = data_of w b" if "b \<notin> ?C" for b using kept_conn [OF K that] by (simp add: data_of_def)
  have out: "data_of w b \<noteq> Some r" if "b \<in> L - ?C" for b
  proof
    assume d: "data_of w b = Some r"
    then have "client w b \<or> backend w b" using D(4) that by auto
    then have "connection q = Some b \<or> upstream q = Some b" using d q(1) by (auto simp: client_def backend_def)
    then show False using that by (auto simp: conns_of_def)
  qed
  have len: "length ds = length (w_doms w)" using 4(2) by (metis length_map)
  have sv: "length (servers (ds ! i)) = length (servers (w_doms w ! i))" if "i < length (w_doms w)" for i
    using 4(2) that len by (metis comp_apply nth_map)
  have ro: "req_ok ?w' (L - ?C) r0 q0" if h: "w_reqs ?w' r0 = Some q0" for r0 q0
  proof -
    have r0: "r0 \<noteq> r" "w_reqs w r0 = Some q0" using h by (auto split: if_splits)
    have ok: "req_ok w L r0 q0" using D(3) [OF r0(2)] .
    have mine: "b \<notin> ?C" if "b \<in> L" "data_of w b = Some r0" for b
      using rok that r0(1) q(2) by (auto simp: conns_of_def req_ok_def)
    obtain b where b: "b \<in> L" "connection q0 = Some b" "data_of w b = Some r0" using ok by (auto simp: req_ok_def)
    have "b \<in> L - ?C" "data_of ?w' b = Some r0" using b mine dd by auto
    moreover have "u \<in> L - ?C \<and> data_of ?w' u = Some r0 \<and> connection q0 \<noteq> Some u" if "upstream q0 = Some u" for u
      using ok that mine dd by (auto simp: req_ok_def)
    ultimately show ?thesis using ok b(2) len sv unfolding req_ok_def by auto
  qed
  have "srv_inv ?w' (L - ?C) (without ?C xs)"
  proof (rule srv_shrink [OF inv ci _ _ _ _ _ _ _ ro])
    show "w_static ?w' = w_static w" using K by (simp add: kept_def)
    show "w_conns ?w' b = w_conns w b" "get_ev (ev_of b d) ?w' = get_ev (ev_of b d) w" if "b \<in> L - ?C" for b d
      using K that by (auto simp: kept_def)
    show "client ?w' b" if "b \<in> L - ?C" "client w b" for b using that out [of b] dd [of b] by (auto simp: client_def)
    show "backend ?w' b" if "b \<in> L - ?C" "backend w b" for b using that out [of b] dd [of b] by (auto simp: backend_def)
    show "chosen ?w' b" if "b \<in> L - ?C" "chosen w b" for b using that out [of b] dd [of b] by (auto simp: chosen_def)
  qed auto
  then show ?thesis using run K w2(8) by (intro exI [of _ ?w']) auto
qed

end
