(* ===== verification/Expiry.thy ===== *)
theory Expiry
  imports Server_Inv
begin

text \<open>
  What happens when timers expire: every handler copes with the expiry of its event, so that
  \<open>event_expire_timers\<close> returns and leaves nothing that is due. This is the contract
  \<open>timeout_handlers\<close> of the timers, discharged for the handlers of the program.
\<close>

section \<open>The handlers on an expired event\<close>

text \<open>Only the connections \<open>C\<close> are touched; no timer is added, and those of others stay.\<close>

definition shrinks :: "slot set \<Rightarrow> slot set \<Rightarrow> (32 word \<times> nat) list \<Rightarrow> slot set \<Rightarrow> (32 word \<times> nat) list \<Rightarrow> bool" where
  "shrinks C L xs L' ys \<longleftrightarrow> L - C \<subseteq> L' \<and> L' \<subseteq> L \<and> (\<exists>P. ys = filter P xs) \<and>
     (\<forall>b d k. b \<notin> C \<longrightarrow> (k, ev_of b d) \<in> set xs \<longrightarrow> (k, ev_of b d) \<in> set ys)"

lemma shrinks_refl [simp]: "shrinks C L xs L xs"
  unfolding shrinks_def by (auto intro!: exI [of _ "\<lambda>_. True"])

lemma shrinks_trans: "shrinks C L xs L1 ys \<Longrightarrow> shrinks D L1 ys L2 zs \<Longrightarrow> shrinks (C \<union> D) L xs L2 zs"
proof -
  assume 1: "shrinks C L xs L1 ys" and 2: "shrinks D L1 ys L2 zs"
  obtain P Q where "ys = filter P xs" "zs = filter Q ys" using 1 2 unfolding shrinks_def by blast
  then have "zs = filter (\<lambda>x. P x \<and> Q x) xs" by simp
  moreover have "L - (C \<union> D) \<subseteq> L2" "L2 \<subseteq> L" using 1 2 unfolding shrinks_def by auto
  moreover have "(k, ev_of b d) \<in> set zs" if "b \<notin> C \<union> D" "(k, ev_of b d) \<in> set xs" for b d k
    using 1 2 that unfolding shrinks_def by blast
  ultimately show ?thesis unfolding shrinks_def by blast
qed

lemma shrinks_without: "shrinks C L xs (L - C) (without C xs)"
proof -
  have "ev_of b d \<notin> rev_of ` C \<and> ev_of b d \<notin> wev_of ` C" if "b \<notin> C" for b d
    using event_of_other [of b _ d] that by (metis imageE)
  then show ?thesis unfolding shrinks_def by (intro conjI exI allI impI) auto
qed

lemma shrinks_answer: "ys = xs \<or> ys = filter (\<lambda>x. snd x \<noteq> rev_of c) xs \<Longrightarrow> shrinks {c} L xs L ys"
  using event_of_other [of _ c] by (auto simp: shrinks_def intro: exI [of _ "\<lambda>_. True"])

text \<open>The effect of a handler: the invariant is kept, and what is touched belongs to the event's request.\<close>

definition copes :: "slot \<Rightarrow> world \<Rightarrow> slot set \<Rightarrow> (32 word \<times> nat) list \<Rightarrow> world option \<Rightarrow> bool" where
  "copes c w L xs res \<longleftrightarrow> (\<exists>w' L' ys C. res = Some w' \<and> srv_inv w' L' ys \<and> kept C w w' \<and> shrinks C L xs L' ys \<and>
     (\<forall>b \<in> C. b = c \<or> data_of w b \<noteq> None))"

lemma copesI: "res = Some w' \<Longrightarrow> srv_inv w' L' ys \<Longrightarrow> kept C w w' \<Longrightarrow> shrinks C L xs L' ys \<Longrightarrow>
    (\<And>b. b \<in> C \<Longrightarrow> b = c \<or> data_of w b \<noteq> None) \<Longrightarrow> copes c w L xs res"
  unfolding copes_def by blast

lemma copes_nothing: "srv_inv w L xs \<Longrightarrow> copes c w L xs (Some w)"
  by (rule copesI [of _ w L xs "{}"]) auto

lemma copes_answer:
  assumes inv: "srv_inv w L xs" and q: "w_reqs w r = Some q" and err: "err \<in> set handled_errors"
  shows "copes c w L xs (answer_err r err w)"
proof -
  obtain b where b: "connection q = Some b" "data_of w b = Some r" using srv_invD(3) [OF inv q] by (auto simp: req_ok_def)
  obtain w' ys where "answer_err r err w = Some w'" "srv_inv w' L ys" "answered r err b q w w'"
    "ys = xs \<or> ys = filter (\<lambda>x. snd x \<noteq> rev_of b) xs" using answer_err_ok [OF inv q b(1) err] by blast
  then show ?thesis using b(2) by (intro copesI [OF _ _ kept_answered shrinks_answer]) auto
qed

lemma copes_after:
  assumes K: "kept C w w1" and S: "shrinks C L xs L1 ys" and C: "\<And>b. b \<in> C \<Longrightarrow> b = c \<or> data_of w b \<noteq> None"
    and r: "copes c w1 L1 ys res"
  shows "copes c w L xs res"
proof -
  obtain w' L' zs D where D: "res = Some w'" "srv_inv w' L' zs" "kept D w1 w'" "shrinks D L1 ys L' zs"
    "\<forall>b \<in> D. b = c \<or> data_of w1 b \<noteq> None" using r unfolding copes_def by blast
  show ?thesis
  proof (rule copesI [OF D(1,2) kept_trans [OF K D(3)] shrinks_trans [OF S D(4)]])
    show "b = c \<or> data_of w b \<noteq> None" if "b \<in> C \<union> D" for b
      using that C [of b] D(5) kept_conn [OF K, of b] by (cases "b \<in> C") (auto simp: data_of_def)
  qed
qed

lemma copes_close:
  assumes inv: "srv_inv w L xs" and q: "w_reqs w r = Some q"
  shows "copes c w L xs (http_close_request r w)"
proof -
  have ro: "req_ok w L r q" using srv_invD(3) [OF inv q] .
  then obtain b where b: "connection q = Some b" by (auto simp: req_ok_def)
  have C: "data_of w x = Some r" if "x \<in> conns_of q" for x using ro that by (auto simp: conns_of_def req_ok_def)
  show ?thesis using close_request_ok [OF inv q b] C by (blast intro: copesI [OF _ _ _ shrinks_without])
qed

lemma timed_client:
  assumes inv: "srv_inv w L xs" and cl: "client w c" and e: "get_ev (ev_of c d) w = Some e" "timedout e"
  shows "d = READ_EVENT \<Longrightarrow> copes c w L xs (process_request_line (ev_of c d) w)"
    "d = READ_EVENT \<Longrightarrow> copes c w L xs (http_parse_headers (ev_of c d) w)"
    "d = READ_EVENT \<Longrightarrow> copes c w L xs (request_handle_body (ev_of c d) w)"
    "d = WRITE_EVENT \<Longrightarrow> copes c w L xs (handle_response (ev_of c d) w)"
    "d = WRITE_EVENT \<Longrightarrow> copes c w L xs (handle_response_file (ev_of c d) w)"
proof -
  obtain k r q where k: "w_conns w c = Some k" "c_data k = Some r" "w_reqs w r = Some q" "connection q = Some c"
    using cl by (auto simp: client_def data_of_Some)
  have h: "404 \<in> set handled_errors" by (simp add: handled_errors_def)
  note a = copes_answer [OF inv k(3) h, of c]
  show "copes c w L xs (process_request_line (ev_of c d) w)" using a e k by (simp add: process_request_line_def)
  let ?q = "q\<lparr>rq := (rq q)\<lparr>keep_alive := False\<rparr>\<rparr>"
  let ?w = "w\<lparr>w_reqs := (w_reqs w)(r \<mapsto> ?q)\<rparr>"
  have "req_ok w L r q" using srv_invD(3) [OF inv k(3)] .
  then have i: "srv_inv ?w L xs" by (intro srv_req [OF inv k(3)]) (simp_all add: links_def req_ok_def)
  have "w_reqs ?w r = Some ?q" by simp
  from copes_answer [OF i this h, of c] have "copes c ?w L xs (answer_err r 404 ?w)" .
  moreover have "kept {} w ?w" by (simp add: kept_def get_ev_def)
  ultimately have "copes c w L xs (answer_err r 404 ?w)" using copes_after [of "{}" w ?w L xs L xs c] by simp
  then show "copes c w L xs (http_parse_headers (ev_of c d) w)" using e k
    by (simp add: http_parse_headers_def set_rq_def set_req_def)
  show "copes c w L xs (request_handle_body (ev_of c d) w)"
    using a e k copes_nothing [OF inv] by (simp add: request_handle_body_def)
  show "copes c w L xs (handle_response (ev_of c d) w)"
    using copes_close [OF inv k(3)] e k copes_nothing [OF inv] by (simp add: handle_response_def)
  show "copes c w L xs (handle_response_file (ev_of c d) w)" using a e k by (simp add: handle_response_file_def)
qed

lemma copes_close_backend:
  assumes inv: "srv_inv w L xs" and q: "w_reqs w r = Some q" "upstream q = Some u" and err: "err \<in> set handled_errors"
  shows "copes u w L xs (do { w \<leftarrow> http_close_connection u w; answer_err r err w })"
proof -
  obtain w1 k where 1: "http_close_connection u w = Some w1" "close_frame u k w w1"
    "srv_inv w1 (L - {u}) (without {u} xs)" "w_reqs w1 = (w_reqs w)(r \<mapsto> q\<lparr>upstream := None\<rparr>)"
    using close_backend_ok [OF inv q] by blast
  have "w_reqs w1 r = Some (q\<lparr>upstream := None\<rparr>)" using 1(4) by simp
  from copes_answer [OF 1(3) this err] have "copes u w1 (L - {u}) (without {u} xs) (answer_err r err w1)" .
  then show ?thesis using copes_after [OF kept_closed [OF 1(2)] shrinks_without] 1(1) by simp
qed

lemma timed_backend:
  assumes inv: "srv_inv w L xs" and b: "backend w c" and e: "get_ev (ev_of c d) w = Some e" "timedout e"
  shows "d = WRITE_EVENT \<Longrightarrow> copes c w L xs (http_proxy_pass (ev_of c d) w)"
    "d = READ_EVENT \<Longrightarrow> copes c w L xs (http_recv_upstream (ev_of c d) w)"
    "d = WRITE_EVENT \<Longrightarrow> chosen w c \<Longrightarrow> copes c w L xs (process_connection_result (ev_of c d) w)"
proof -
  obtain k r q where k: "w_conns w c = Some k" "c_data k = Some r" "w_reqs w r = Some q" "upstream q = Some c"
    using b by (auto simp: backend_def data_of_Some)
  have h: "408 \<in> set handled_errors" "504 \<in> set handled_errors" by (simp_all add: handled_errors_def)
  note n = copes_nothing [OF inv, of c]
  show "copes c w L xs (http_proxy_pass (ev_of c d) w)"
    using copes_close_backend [OF inv k(3,4) h(1)] n e k by (simp add: http_proxy_pass_def)
  show "copes c w L xs (http_recv_upstream (ev_of c d) w)"
    using copes_close_backend [OF inv k(3,4) h(2)] n e k by (simp add: http_recv_upstream_def)
  show "copes c w L xs (process_connection_result (ev_of c d) w)" if "chosen w c"
  proof -
    have "data_of w c = Some r" using k by (simp add: data_of_Some)
    then have "cur_upstream q \<noteq> None" using that k(3) by (auto simp: chosen_def)
    then obtain us where "cur_upstream q = Some us" by blast
    then show ?thesis using copes_answer [OF inv k(3) h(2), of c] n e k by (simp add: process_connection_result_def)
  qed
qed

text \<open>A connection that has sent nothing is closed.\<close>

lemma timed_init:
  assumes inv: "srv_inv w L xs" and c: "c \<in> L" "w_conns w c = Some k" "c_data k = None" "is_connected k"
    and e: "get_ev (rev_of c) w = Some e" "timedout e"
  shows "\<exists>w'. http_init_request (rev_of c) w = Some w' \<and> srv_inv w' (L - {c}) (without {c} xs) \<and> kept {c} w w' \<and> closed_conn w' c \<and>
    (c_fd k > 0 \<longrightarrow> Close (c_fd k) \<in> set (w_calls w'))"
proof -
  obtain w' where w': "http_close_connection c w = Some w'" "close_frame c k w w'" "srv_inv w' (L - {c}) (without {c} xs)" "closed_conn w' c"
    using close_idle_ok [OF inv c] by blast
  then show ?thesis using kept_closed [OF w'(2)] close_frameD(6) [OF w'(2)] e
    by (intro exI [of _ w']) (simp add: http_init_request_def)
qed

lemma typed_cases:
  assumes "typed w c d h" "h \<noteq> Event_accept"
  obtains (init) k where "d = READ_EVENT" "h = Init_request" "w_conns w c = Some k" "c_data k = None" "is_connected k"
    | (client_read) "client w c" "d = READ_EVENT" "h \<in> {Process_request_line, Parse_headers, Handle_body}"
    | (client_write) "client w c" "d = WRITE_EVENT" "h \<in> {Handle_response, Handle_response_file}"
    | (recv) "backend w c" "d = READ_EVENT" "h = Recv_upstream"
    | (proxy) "backend w c" "d = WRITE_EVENT" "h = Proxy_pass"
    | (connect) "backend w c" "d = WRITE_EVENT" "h = Connection_result"
  using assms by (cases d; cases h) auto

lemma timed_out_copes:
  assumes inv: "srv_inv w L xs" and c: "c \<in> L" and e: "get_ev (ev_of c d) w = Some e" "timedout e" "ev_handler e = Some h"
    and h: "h \<noteq> Event_accept" "h = Connection_result \<Longrightarrow> chosen w c"
  shows "copes c w L xs (run_handler h (ev_of c d) w)"
proof -
  have t: "typed w c d h" using srv_invD(5) [OF inv c e(1,3)] .
  from t h(1) show ?thesis
  proof (cases rule: typed_cases)
    case init
    obtain w' where "http_init_request (rev_of c) w = Some w'" "srv_inv w' (L - {c}) (without {c} xs)" "kept {c} w w'"
      using timed_init [OF inv c init(3-5) _ e(2)] e(1) init(1) by auto
    then show ?thesis using init by (intro copesI [OF _ _ _ shrinks_without]) (auto simp: run_handler_def)
  next
    case client_read
    then show ?thesis using timed_client(1-3) [OF inv client_read(1) e(1,2) client_read(2)] by (auto simp: run_handler_def)
  next
    case client_write
    then show ?thesis using timed_client(4,5) [OF inv client_write(1) e(1,2) client_write(2)] by (auto simp: run_handler_def)
  next
    case recv
    then show ?thesis using timed_backend(2) [OF inv recv(1) e(1,2) recv(2)] by (simp add: run_handler_def)
  next
    case proxy
    then show ?thesis using timed_backend(1) [OF inv proxy(1) e(1,2) proxy(2)] by (simp add: run_handler_def)
  next
    case connect
    then show ?thesis using timed_backend(3) [OF inv connect(1) e(1,2) connect(2)] h(2) by (simp add: run_handler_def)
  qed
qed

section \<open>The contract of the timers\<close>

text \<open>
  A connection that has sent nothing still waits for its timer, which ends at \<open>k\<close>, or it has been
  closed. The state of the loop: the invariant, no timer that was not there at the start, and
  the connections that were silent at the start (\<open>w0\<close>, \<open>L0\<close>, \<open>xs0\<close>) are in one of the two states.
\<close>

definition silent :: "world \<Rightarrow> slot \<Rightarrow> int \<Rightarrow> bool" where
  "silent w c fd \<longleftrightarrow> (\<exists>k. w_conns w c = Some k \<and> c_data k = None \<and> is_connected k \<and> c_fd k = fd) \<and>
     (\<exists>e. get_ev (rev_of c) w = Some e \<and> ev_handler e = Some Init_request) \<and> fd > 0"

definition timed :: "slot \<Rightarrow> int \<Rightarrow> 32 word \<Rightarrow> world \<Rightarrow> slot set \<Rightarrow> (32 word \<times> nat) list \<Rightarrow> bool" where
  "timed c fd k w L xs \<longleftrightarrow> (c \<in> L \<and> silent w c fd \<and> (k, rev_of c) \<in> set xs) \<or>
     (c \<notin> L \<and> closed_conn w c \<and> Close fd \<in> set (w_calls w))"

definition running :: "world \<Rightarrow> slot set \<Rightarrow> (32 word \<times> nat) list \<Rightarrow> handler timers \<times> world \<Rightarrow> (32 word \<times> nat) list \<Rightarrow> bool" where
  "running w0 L0 xs0 st xs \<longleftrightarrow> (let w = (snd st)\<lparr>w_tm := fst st\<rparr> in \<exists>L. srv_inv w L xs \<and> set xs \<subseteq> set xs0 \<and>
     (\<forall>c fd k. timed c fd k w0 L0 xs0 \<longrightarrow> timed c fd k w L xs))"

text \<open>The state in which the handler of an expired timer is called.\<close>

lemma expired_state:
  assumes inv: "srv_inv w L ((k, ev) # xs)" and e: "tm_events (w_tm w) ev = Some e" "ev_handler e = Some h"
    and S: "tm_inv S xs" "tm_events S = (tm_events (w_tm w))(ev \<mapsto> e\<lparr>timedout := True\<rparr>)"
      "sentinel (tm_tree S) = sentinel (tm_tree (w_tm w))" "current_msec S = current_msec (w_tm w)"
  obtains c d where "ev = ev_of c d" "c \<in> L" "srv_inv (w\<lparr>w_tm := S\<rparr>) L xs" "h \<noteq> Event_accept"
    "h = Connection_result \<Longrightarrow> chosen (w\<lparr>w_tm := S\<rparr>) c" "kept {c} w (w\<lparr>w_tm := S\<rparr>)"
proof -
  note D = srv_invD [OF inv]
  obtain c d where c: "c \<in> L" "ev = ev_of c d" using timers_live [OF D(1), of k ev] by auto
  have ci: "conn_inv (w\<lparr>w_tm := S\<rparr>) L xs"
    by (rule conn_inv_events [OF D(1) c(1) S(1) _ S(3)]) (use S(2) c(2) in simp_all)
  have f: "event_frame {ev} w (w\<lparr>w_tm := S\<rparr>)"
    by (rule event_frameI [OF refl S(2,4)]) (use e(1) in \<open>simp_all add: get_ev_def\<close>)
  have "srv_inv (w\<lparr>w_tm := S\<rparr>) L xs" by (rule srv_events [OF inv f ci]) auto
  moreover have "armed_ok w c d" using D(6) [of c d] c(2) by simp
  then have "h \<noteq> Event_accept" "h = Connection_result \<Longrightarrow> chosen w c" using e c(2) by (auto simp: armed_ok_def get_ev_def)
  moreover have "chosen (w\<lparr>w_tm := S\<rparr>) c = chosen w c" using typed_cong(5) [of "w\<lparr>w_tm := S\<rparr>" c w] by simp
  moreover have "kept {c} w (w\<lparr>w_tm := S\<rparr>)" by (rule kept_events [OF f]) (use c(2) in \<open>cases d; simp\<close>)
  ultimately show thesis using that c by metis
qed

lemma silent_event:
  assumes inv: "srv_inv w L xs" and s: "silent w c fd" and c: "c \<in> L" and e: "get_ev (ev_of c d) w = Some e" "ev_handler e = Some h"
  shows "d = READ_EVENT \<and> h = Init_request"
proof -
  have n: "data_of w c = None" using s by (auto simp: silent_def data_of_def)
  have "typed w c d h" using srv_invD(5) [OF inv c e] .
  then have "d = READ_EVENT" using n by (cases d; cases h) (simp_all add: client_def backend_def)
  then show ?thesis using s e by (auto simp: silent_def)
qed

lemma timed_kept:
  assumes K: "kept C w w'" and c: "c \<notin> C" and L: "L - C \<subseteq> L'" "L' \<subseteq> L"
    and k: "(k, rev_of c) \<in> set xs \<Longrightarrow> (k, rev_of c) \<in> set ys" and t: "timed c fd k w L xs"
  shows "timed c fd k w' L' ys"
proof -
  have "w_conns w' c = w_conns w c" "get_ev (rev_of c) w' = get_ev (rev_of c) w" "\<And>d. get_ev (ev_of c d) w' = get_ev (ev_of c d) w"
    using kept_conn [OF K c] kept_ev [OF K c] kept_ev [OF K c, of READ_EVENT] by simp_all
  moreover obtain cs where "w_calls w' = w_calls w @ cs" using kept_calls [OF K] by blast
  ultimately show ?thesis using t L c k by (auto simp: timed_def silent_def closed_conn_def)
qed

lemma expired_step:
  assumes inv: "srv_inv w L ((k, ev) # xs)" and e: "tm_events (w_tm w) ev = Some e" "ev_handler e = Some h"
    and S: "tm_inv S xs" "tm_events S = (tm_events (w_tm w))(ev \<mapsto> e\<lparr>timedout := True\<rparr>)"
      "sentinel (tm_tree S) = sentinel (tm_tree (w_tm w))" "current_msec S = current_msec (w_tm w)"
  shows "\<exists>w' L' ys P. run_handler h ev (w\<lparr>w_tm := S\<rparr>) = Some w' \<and> srv_inv w' L' ys \<and> ys = filter P xs \<and>
    current_msec (w_tm w') = current_msec (w_tm w) \<and>
    (\<forall>c fd k0. timed c fd k0 w L ((k, ev) # xs) \<longrightarrow> timed c fd k0 w' L' ys)"
proof -
  let ?w = "w\<lparr>w_tm := S\<rparr>"
  obtain b d where b: "ev = ev_of b d" "b \<in> L" "srv_inv ?w L xs" "h \<noteq> Event_accept" "h = Connection_result \<Longrightarrow> chosen ?w b" "kept {b} w ?w"
    by (rule expired_state [OF inv e S]) blast
  have ge: "get_ev (ev_of b d) ?w = Some (e\<lparr>timedout := True\<rparr>)" using S(2) b(1) by (simp add: get_ev_def)
  have g0: "get_ev (ev_of b d) w = Some e" using e(1) b(1) by (simp add: get_ev_def)
  have others: "timed c fd k0 ?w L xs" if "timed c fd k0 w L ((k, ev) # xs)" "c \<noteq> b" for c fd k0
  proof (rule timed_kept [OF b(6) _ _ _ _ that(1)])
    show "(k0, rev_of c) \<in> set ((k, ev) # xs) \<Longrightarrow> (k0, rev_of c) \<in> set xs" using b(1) that(2) by (cases d) auto
  qed (use that(2) in auto)
  show ?thesis
  proof (cases "h = Init_request")
    case True
    have "typed ?w b d h" using srv_invD(5) [OF b(3,2) ge] e(2) by simp
    then obtain kb where kb: "d = READ_EVENT" "w_conns ?w b = Some kb" "c_data kb = None" "is_connected kb"
      using True by (cases d) auto
    obtain w' where w': "http_init_request (rev_of b) ?w = Some w'" "srv_inv w' (L - {b}) (without {b} xs)" "kept {b} ?w w'"
      "closed_conn w' b" "c_fd kb > 0 \<longrightarrow> Close (c_fd kb) \<in> set (w_calls w')"
      using timed_init [OF b(3,2) kb(2-4), of "e\<lparr>timedout := True\<rparr>"] ge kb(1) by auto
    have "timed c fd k0 w' (L - {b}) (without {b} xs)" if t: "timed c fd k0 w L ((k, ev) # xs)" for c fd k0
    proof (cases "c = b")
      case True
      then have "silent w b fd" using t b(2) by (auto simp: timed_def)
      then have "c_fd kb = fd" "fd > 0" using kb(2) by (auto simp: silent_def)
      then show ?thesis using w'(4,5) True by (auto simp: timed_def)
    next
      case False
      then show ?thesis by (intro timed_kept [OF w'(3) _ _ _ _ others [OF t False]]) auto
    qed
    moreover have "current_msec (w_tm w') = current_msec (w_tm w)" using w'(3) S(4) by (simp add: kept_def)
    moreover have "run_handler h ev ?w = Some w'" using w'(1) True kb(1) b(1) by (simp add: run_handler_def)
    ultimately show ?thesis using w'(2) by blast
  next
    case False
    have "copes b ?w L xs (run_handler h ev ?w)"
      unfolding b(1) by (rule timed_out_copes [OF b(3,2) ge]) (use e(2) b(4,5) in simp_all)
    then obtain w' L' ys C where 1: "run_handler h ev ?w = Some w'" "srv_inv w' L' ys" "kept C ?w w'" "shrinks C L xs L' ys"
      "\<forall>x \<in> C. x = b \<or> data_of ?w x \<noteq> None" unfolding copes_def by blast
    have sh: "L - C \<subseteq> L'" "L' \<subseteq> L" "\<And>c d k. c \<notin> C \<Longrightarrow> (k, ev_of c d) \<in> set xs \<Longrightarrow> (k, ev_of c d) \<in> set ys"
      using 1(4) unfolding shrinks_def by blast+
    have "timed c fd k0 w' L' ys" if t: "timed c fd k0 w L ((k, ev) # xs)" for c fd k0
    proof -
      have "c \<noteq> b"
      proof
        assume "c = b"
        then have "silent w b fd" using t b(2) by (auto simp: timed_def)
        then show False using silent_event [OF inv _ b(2) g0 e(2)] False by blast
      qed
      note o = others [OF t this]
      have "data_of ?w c = None" using o by (auto simp: timed_def silent_def closed_conn_def data_of_def)
      then have "c \<notin> C" using 1(5) \<open>c \<noteq> b\<close> by blast
      then show ?thesis using sh(3) [of c k0 READ_EVENT] by (intro timed_kept [OF 1(3) _ sh(1,2) _ o]) auto
    qed
    moreover obtain P where "ys = filter P xs" using 1(4) unfolding shrinks_def by blast
    moreover have "current_msec (w_tm w') = current_msec (w_tm w)" using 1(3) S(4) by (simp add: kept_def)
    ultimately show ?thesis using 1(1,2) by blast
  qed
qed

text \<open>The handlers of the program keep the contract.\<close>

interpretation expiry: timeout_handlers timer_call "running w0 L0 xs0" for w0 L0 xs0
proof (unfold_locales, goal_cases)
  case (1 st xs)
  then show ?case by (auto simp: running_def Let_def srv_inv_def conn_inv_def)
next
  case (2 st xs k ev)
  then obtain L where inv: "srv_inv ((snd st)\<lparr>w_tm := fst st\<rparr>) L xs" by (auto simp: running_def Let_def)
  obtain c d where "ev = ev_of c d" using timers_live [OF srv_invD(1) [OF inv] 2(2)] by blast
  then have "armed_ok ((snd st)\<lparr>w_tm := fst st\<rparr>) c d" using srv_invD(6) [OF inv, of c d] 2(2) by force
  then show ?case using \<open>ev = ev_of c d\<close> by (auto simp: armed_ok_def get_ev_def)
next
  case (3 S w k ev xs e h T)
  let ?w = "w\<lparr>w_tm := S\<rparr>" and ?S = "S\<lparr>tm_tree := T, tm_events := (tm_events S)(ev \<mapsto> e\<lparr>timedout := True\<rparr>)\<rparr>"
  from 3(1) obtain L where L: "srv_inv ?w L ((k, ev) # xs)" "set ((k, ev) # xs) \<subseteq> set xs0"
    "\<And>c fd k'. timed c fd k' w0 L0 xs0 \<Longrightarrow> timed c fd k' ?w L ((k, ev) # xs)" by (auto simp: running_def Let_def)
  have "tm_inv S ((k, ev) # xs)" using srv_invD(1) [OF L(1)] by (simp add: conn_inv_def)
  then have t: "rb_tree (tm_tree S) ((k, ev) # xs)" "looped (tm_tree S)" and ok: "event_ok (tm_tree S) ((k, ev) # xs) ev True"
    using tm_invD [of S "(k, ev) # xs" ev e] 3(2) by (auto simp: tm_inv_def event_ok_def)
  have sT: "sentinel T = sentinel (tm_tree S)" using delete_keeps_others [OF t ok] 3(5) by auto
  have "tm_events (w_tm ?w) ev = Some e" using 3(2) by simp
  from expired_step [OF L(1) this 3(3), of ?S] 3(6) sT obtain w' L' ys P where
    w': "run_handler h ev (w\<lparr>w_tm := ?S\<rparr>) = Some w'" "srv_inv w' L' ys" "ys = filter P xs" "current_msec (w_tm w') = current_msec S"
    "\<And>c fd k'. timed c fd k' ?w L ((k, ev) # xs) \<Longrightarrow> timed c fd k' w' L' ys" by auto
  have "running w0 L0 xs0 (w_tm w', w') ys" using w'(2,3,5) L(2,3) by (auto simp: running_def Let_def intro!: exI [of _ L'])
  moreover have "length (expired (current_msec S) ys) \<le> length (expired (current_msec S) xs)"
  proof -
    have "expired (current_msec S) ys = filter P (expired (current_msec S) xs)" unfolding w'(3) by (simp add: conj_commute)
    then show ?thesis by (simp only: length_filter_le)
  qed
  ultimately show ?case using w'(1,4) by (intro exI [of _ "w_tm w'"] exI [of _ w'] exI [of _ ys]) (simp add: timer_call_def)
qed

section \<open>Expiring the timers of the server\<close>

lemma srv_sorted: "srv_inv w L xs \<Longrightarrow> sorted (map fst xs)"
  by (auto simp: srv_inv_def conn_inv_def tm_inv_def rb_tree_def)

lemma expire_timers_ok:
  assumes inv: "srv_inv w L xs"
  shows "\<exists>w' L' ys. expire_timers w = Some w' \<and> srv_inv w' L' ys \<and> set ys \<subseteq> set xs \<and>
    current_msec (w_tm w') = current_msec (w_tm w) \<and> (no_wrap (current_msec (w_tm w)) xs \<longrightarrow> expired (current_msec (w_tm w)) ys = []) \<and>
    (\<forall>c fd k. timed c fd k w L xs \<longrightarrow> timed c fd k w' L' ys)"
proof -
  have "running w L xs (w_tm w, w) xs" using inv by (auto simp: running_def)
  from expiry.expire_ok [OF this] obtain st ys where st: "event_expire_timers timer_call (w_tm w, w) = Some st"
    "running w L xs st ys" "current_msec (fst st) = current_msec (w_tm w)"
    "ys = [] \<or> \<not> is_expired (fst (hd ys)) (current_msec (w_tm w))" by auto
  let ?w = "(snd st)\<lparr>w_tm := fst st\<rparr>"
  obtain L' where L': "srv_inv ?w L' ys" "set ys \<subseteq> set xs" "\<forall>c fd k. timed c fd k w L xs \<longrightarrow> timed c fd k ?w L' ys"
    using st(2) by (auto simp: running_def Let_def)
  have "expire_timers w = Some ?w" using st(1) by (cases st) (simp add: expire_timers_def)
  moreover have "expired (current_msec (w_tm w)) ys = []" if "no_wrap (current_msec (w_tm w)) xs"
    by (rule none_due [OF srv_sorted [OF L'(1)] _ st(4)]) (use that L'(2) in \<open>auto simp: no_wrap_def\<close>)
  ultimately show ?thesis using L' st(3) by (intro exI [of _ ?w] exI [of _ L'] exI [of _ ys]) simp
qed

lemma silent_is_closed:
  assumes inv: "srv_inv w L xs" and nw: "no_wrap (current_msec (w_tm w)) xs"
    and c: "c \<in> L" "silent w c fd" "(k, rev_of c) \<in> set xs" "is_expired k (current_msec (w_tm w))"
  shows "\<exists>w' L' ys. expire_timers w = Some w' \<and> srv_inv w' L' ys \<and> expired (current_msec (w_tm w)) ys = [] \<and>
    c \<notin> L' \<and> closed_conn w' c \<and> Close fd \<in> set (w_calls w')"
proof -
  have t: "timed c fd k w L xs" using c(1-3) by (simp add: timed_def)
  obtain w' L' ys where w': "expire_timers w = Some w'" "srv_inv w' L' ys" "expired (current_msec (w_tm w)) ys = []"
    "timed c fd k w' L' ys"
    using expire_timers_ok [OF inv] nw t by blast
  have "(k, rev_of c) \<notin> set ys" using w'(3) c(4) by (auto simp: filter_empty_conv)
  then show ?thesis using w' unfolding timed_def by blast
qed

end
