(* ===== verification/Worker_Start.thy ===== *)
theory Worker_Start
  imports Expiry
begin

text \<open>
  From the start of a worker to its first connections: \<open>worker_process_init\<close> establishes the
  invariant of the worker, \<open>event_accept\<close> keeps it, and a client that stays silent loses its
  connection when its time has run out.
\<close>

section \<open>The passage of time\<close>

lemma time_update_reads [simp]:
  "w_conns (time_update t w) = w_conns w" "w_reqs (time_update t w) = w_reqs w" "w_pool (time_update t w) = w_pool w"
  "w_cfg (time_update t w) = w_cfg w" "w_calls (time_update t w) = w_calls w" "get_ev ev (time_update t w) = get_ev ev w"
  "tm_tree (w_tm (time_update t w)) = tm_tree (w_tm w)" "tm_events (w_tm (time_update t w)) = tm_events (w_tm w)"
  "w_static (time_update t w) = w_static w" "w_doms (time_update t w) = w_doms w"
  by (simp_all add: time_update_def split_beta Let_def get_ev_def)

lemma srv_time:
  assumes "srv_inv w L xs"
  shows "srv_inv (time_update t w) L xs"
proof -
  have d: "data_of (time_update t w) c = data_of w c" for c by (simp add: data_of_def)
  have tc: "client (time_update t w) c = client w c" "backend (time_update t w) c = backend w c"
    "typed (time_update t w) c di h = typed w c di h" "chosen (time_update t w) c = chosen w c" for c di h
    using typed_cong [of "time_update t w" c w] by auto
  have "conn_inv (time_update t w) L xs = conn_inv w L xs"
    by (simp add: conn_inv_def tm_inv_def closed_conn_def)
  then show ?thesis using assms by (simp add: srv_inv_def d tc req_ok_def armed_ok_def)
qed

section \<open>event_accept\<close>

lemma accept_srv:
  assumes inv: "srv_inv w L xs" and c: "c \<notin> L" and ci: "conn_inv (with_new c fd ip pm S w) (insert c L) (put_entry t (rev_of c) xs)"
    and ev: "tm_events S = (tm_events (w_tm w))(rev_of c \<mapsto> init_event, wev_of c \<mapsto> zero_event)"
  shows "srv_inv (with_new c fd ip pm S w) (insert c L) (put_entry t (rev_of c) xs)" (is "srv_inv ?w _ ?ys")
proof -
  note D = srv_invD [OF inv]
  have n: "data_of w c = None"
  proof (cases "w_conns w c")
    case (Some k)
    then have "closed_conn w c" using D(1) c unfolding conn_inv_def by blast
    then show ?thesis by (auto simp: closed_conn_def data_of_def)
  qed (simp add: data_of_def)
  have d: "data_of ?w b = data_of w b" for b using n by (simp add: data_of_def)
  have ro: "client ?w b = client w b" "backend ?w b = backend w b" "chosen ?w b = chosen w b" for b
    using d by (simp_all add: client_def backend_def chosen_def)
  have ge: "get_ev (ev_of b di) ?w = get_ev (ev_of b di) w" if "b \<noteq> c" for b di
    using that by (cases di) (simp_all add: get_ev_def ev)
  have ce: "get_ev (rev_of c) ?w = Some init_event" "get_ev (wev_of c) ?w = Some zero_event"
    by (simp_all add: get_ev_def ev)
  have ty: "typed ?w b di h = typed w b di h" if "b \<noteq> c" for b di h
    using that d ro by (cases di; cases h) simp_all
  have same: "w_reqs ?w = w_reqs w" "w_doms ?w = w_doms w" by simp_all
  show ?thesis
  proof (rule srv_invI [OF ci])
    show "81 \<le> length (w_static ?w)" using D(2) by simp
    show "req_ok ?w (insert c L) r q" if "w_reqs ?w r = Some q" for r q
      using D(3) [of r q] that unfolding req_ok_def d same by blast
    show "client ?w b \<or> backend ?w b" if "b \<in> insert c L" "data_of ?w b \<noteq> None" for b
      using D(4) [of b] that n unfolding d ro by auto
    show "typed ?w b di h" if "b \<in> insert c L" "get_ev (ev_of b di) ?w = Some e" "ev_handler e = Some h" for b di e h
    proof (cases "b = c")
      case True
      then show ?thesis using that(2,3) ce by (cases di) (auto simp: zero_event_def)
    next
      case False
      then show ?thesis using D(5) [of b di e h] that ty ge by simp
    qed
    show "armed_ok ?w b di" if "ev_of b di \<in> snd ` set ?ys" for b di
    proof (cases "b = c")
      case True
      have "ev_of c WRITE_EVENT \<notin> snd ` set xs"
      proof
        assume "ev_of c WRITE_EVENT \<in> snd ` set xs"
        then obtain k where "(k, ev_of c WRITE_EVENT) \<in> set xs" by auto
        then show False using timers_live [OF D(1)] c by (metis ev_inj(3))
      qed
      then have "di = READ_EVENT" using that True by (cases di) (auto simp: put_entry_set)
      then show ?thesis using True ce by (auto simp: armed_ok_def)
    next
      case False
      then have "ev_of b di \<in> snd ` set xs" using that event_of_other [OF False, of di] by (auto simp: put_entry_set)
      then show ?thesis using D(6) ge [OF False] ro unfolding armed_ok_def by simp
    qed
  qed
qed

text \<open>What a run of \<open>event_accept\<close> takes on: the connections before the first failure.\<close>

fun arrivals :: "accept_out list \<Rightarrow> (int \<times> 32 word) list" where
  "arrivals (Accepted fd ip # es) = (if fd \<le> 0 then [] else (fd, ip) # arrivals es)"
| "arrivals _ = []"

text \<open>A connection that waits for its first data until \<open>t\<close>.\<close>

definition waiting :: "32 word \<Rightarrow> world \<Rightarrow> (32 word \<times> nat) list \<Rightarrow> slot \<Rightarrow> int \<times> 32 word \<Rightarrow> bool" where
  "waiting t w xs c a \<longleftrightarrow> w_conns w c = Some (accepted (fst a) (snd a)) \<and> get_ev (rev_of c) w = Some init_event \<and>
     get_ev (wev_of c) w = Some zero_event \<and> (t, rev_of c) \<in> set xs"

lemma waiting_silent: "waiting t w xs c a \<Longrightarrow> fst a > 0 \<Longrightarrow> silent w c (fst a)"
  by (auto simp: waiting_def silent_def)

text \<open>The result of accepting the connections \<open>news\<close>: a slot for each, and nothing else changes.\<close>

definition takes_on :: "(int \<times> 32 word) list \<Rightarrow> world \<Rightarrow> slot set \<Rightarrow> (32 word \<times> nat) list \<Rightarrow> world \<Rightarrow> slot set \<Rightarrow>
    (32 word \<times> nat) list \<Rightarrow> slot list \<Rightarrow> bool" where
  "takes_on news w L xs w' L' ys cs \<longleftrightarrow> srv_inv w' L' ys \<and> distinct cs \<and> set cs \<inter> L = {} \<and> L' = set cs \<union> L \<and>
     list_all2 (waiting (time_limit w) w' ys) cs news \<and>
     set ys = set xs \<union> Pair (time_limit w) ` rev_of ` set cs \<and> w_cfg w' = w_cfg w \<and> w_reqs w' = w_reqs w \<and>
     current_msec (w_tm w') = current_msec (w_tm w) \<and>
     (\<forall>b. b \<notin> set cs \<longrightarrow> w_conns w' b = w_conns w b \<and> (\<forall>d. get_ev (ev_of b d) w' = get_ev (ev_of b d) w))"

lemma takes_onD:
  assumes "takes_on news w L xs w' L' ys cs"
  shows "srv_inv w' L' ys" "distinct cs" "set cs \<inter> L = {}" "L' = set cs \<union> L" "list_all2 (waiting (time_limit w) w' ys) cs news"
    "set ys = set xs \<union> Pair (time_limit w) ` rev_of ` set cs" "w_cfg w' = w_cfg w" "w_reqs w' = w_reqs w" "current_msec (w_tm w') = current_msec (w_tm w)"
    "b \<notin> set cs \<Longrightarrow> w_conns w' b = w_conns w b" "b \<notin> set cs \<Longrightarrow> get_ev (ev_of b d) w' = get_ev (ev_of b d) w"
  using assms unfolding takes_on_def by blast+

lemma takes_on_nothing: "srv_inv w L xs \<Longrightarrow> takes_on [] w L xs w L xs []"
  by (simp add: takes_on_def)

lemma takes_on_Cons:
  assumes t: "takes_on news (with_new c fd ip pm S w) (insert c L) (put_entry (time_limit w) (rev_of c) xs) w' L' ys cs"
    and c: "c \<notin> L" and S: "tm_events S = (tm_events (w_tm w))(rev_of c \<mapsto> init_event, wev_of c \<mapsto> zero_event)"
      "current_msec S = current_msec (w_tm w)"
  shows "takes_on ((fd, ip) # news) w L xs w' L' ys (c # cs)"
proof -
  note D = takes_onD [OF t]
  let ?w = "with_new c fd ip pm S w"
  have out: "c \<notin> set cs" using D(3) by blast
  have "get_ev (rev_of c) w' = Some init_event" "get_ev (wev_of c) w' = Some zero_event"
    using D(11) [OF out, of READ_EVENT] D(11) [OF out, of WRITE_EVENT] by (simp_all add: get_ev_def S(1))
  moreover have "w_conns w' c = Some (accepted fd ip)" using D(10) [OF out] by simp
  ultimately have "waiting (time_limit w) w' ys c (fd, ip)" using D(6) by (auto simp: waiting_def put_entry_set)
  moreover have tl: "time_limit ?w = time_limit w" using S(2) by simp
  ultimately have all: "list_all2 (waiting (time_limit w) w' ys) (c # cs) ((fd, ip) # news)" using D(5) by simp
  have conns: "w_conns w' b = w_conns w b" "get_ev (ev_of b d) w' = get_ev (ev_of b d) w" if "b \<notin> set (c # cs)" for b d
    using D(10) [of b] D(11) [of b d] that event_of_other [of b c d] by (simp_all add: get_ev_def S(1))
  show ?thesis unfolding takes_on_def
    using D(1,2,3,4,6-9) all conns out c S(2) tl by (auto simp: put_entry_set)
qed

lemma accept_all:
  assumes "srv_inv w L xs" "int (card L) \<le> max_connections (w_cfg w)"
  shows "\<exists>w' L' ys cs. event_accept es w = Some w' \<and>
    takes_on (take (nat (max_connections (w_cfg w) - int (card L))) (arrivals es)) w L xs w' L' ys cs \<and>
    (let n = nat (max_connections (w_cfg w) - int (card L)); as = arrivals es in
     w_calls w' = w_calls w @ map (\<lambda>a. Kadd (fst a) READ_EVENT) (take n as) @ (if n < length as then [Close (fst (as ! n))] else []))"
  using assms
proof (induction es arbitrary: w L xs)
  case (Cons x es)
  have stop: ?case if "arrivals (x # es) = []" "event_accept (x # es) w = Some w"
    using that takes_on_nothing [OF Cons.prems(1)] by (intro exI [of _ w] exI [of _ L] exI [of _ xs] exI [of _ "[]"]) simp
  show ?case
  proof (cases x)
    case (Accepted fd ip)
    show ?thesis
    proof (cases "fd \<le> 0")
      case False
      have inv: "conn_inv w L xs" using srv_invD(1) [OF Cons.prems(1)] .
      show ?thesis
      proof (cases "int (card L) < max_connections (w_cfg w)")
        case True
        let ?n = "nat (max_connections (w_cfg w) - int (card L))"
        obtain c pm S where one: "event_accept (Accepted fd ip # es) w = event_accept es (with_new c fd ip pm S w)" "c \<notin> L"
          "conn_inv (with_new c fd ip pm S w) (insert c L) (put_entry (time_limit w) (rev_of c) xs)"
          "tm_events S = (tm_events (w_tm w))(rev_of c \<mapsto> init_event, wev_of c \<mapsto> zero_event)"
          "current_msec S = current_msec (w_tm w)"
          using accept_one [OF inv True, of fd ip es] False by auto
        let ?w = "with_new c fd ip pm S w" and ?xs = "put_entry (time_limit w) (rev_of c) xs"
        have s: "srv_inv ?w (insert c L) ?xs" by (rule accept_srv [OF Cons.prems(1) one(2-4)])
        have fin: "finite L" using pool.used_card [of "w_pool w" L] inv unfolding conn_inv_def by blast
        then have card: "card (insert c L) = Suc (card L)" using one(2) by simp
        have n: "?n = Suc (nat (max_connections (w_cfg w) - int (card (insert c L))))" using True card by simp
        obtain w' L' ys cs where r: "event_accept es ?w = Some w'"
          "takes_on (take (nat (max_connections (w_cfg w) - int (card (insert c L)))) (arrivals es)) ?w (insert c L) ?xs w' L' ys cs"
          "w_calls w' = w_calls ?w @ map (\<lambda>a. Kadd (fst a) READ_EVENT) (take (nat (max_connections (w_cfg w) - int (card (insert c L)))) (arrivals es)) @
            (if nat (max_connections (w_cfg w) - int (card (insert c L))) < length (arrivals es)
             then [Close (fst (arrivals es ! nat (max_connections (w_cfg w) - int (card (insert c L)))))] else [])"
          using Cons.IH [OF s] True card by (auto simp: Let_def)
        have "takes_on (take ?n (arrivals (x # es))) w L xs w' L' ys (c # cs)"
          using takes_on_Cons [OF r(2) one(2,4,5)] False Accepted n by simp
        then show ?thesis using r(1,3) one(1) n False Accepted
          by (intro exI [of _ w'] exI [of _ L'] exI [of _ ys] exI [of _ "c # cs"]) (simp add: Let_def)
      next
        case full: False
        then have "event_accept (x # es) w = Some (call (Close fd) w)"
          using getIdleConnection_full [OF inv] False Accepted by simp
        moreover have "srv_inv (call (Close fd) w) L xs" using Cons.prems(1) srv_cong [of "call (Close fd) w" w] by (simp add: call_def)
        ultimately show ?thesis using full Cons.prems(2) False Accepted
          by (intro exI [of _ "call (Close fd) w"] exI [of _ L] exI [of _ xs] exI [of _ "[]"]) (simp add: takes_on_def call_def get_ev_def)
      qed
    qed (use stop Accepted in simp)
  qed (use stop in simp)
next
  case Nil
  then show ?case using takes_on_nothing [OF Nil(1)] by (intro exI [of _ w] exI [of _ L] exI [of _ xs] exI [of _ "[]"]) simp
qed

section \<open>worker_process_init\<close>

text \<open>
  The chunks of the pool are blocks of their own, none of which exists yet. A process before \<open>worker_process_init\<close>: no connections, events or requests, and the sentinel as
  it is initialised in \<^verbatim>\<open>event/timer_event.c\<close>, its links leading to itself. The bytes behind
  the error pages are those that \<open>append_err_page\<close> reads too far.
\<close>

definition new_process :: "world \<Rightarrow> bool" where
  "new_process w \<longleftrightarrow> w_conns w = Map.empty \<and> w_reqs w = Map.empty \<and> tm_events (w_tm w) = Map.empty \<and>
     (\<exists>k. rb_mem (tm_tree (w_tm w)) SENTINEL = Some \<lparr>rb_key = k, rb_parent = SENTINEL, rb_left = SENTINEL, rb_right = SENTINEL,
       rb_color = False\<rparr>) \<and> 81 \<le> length (w_static w)"

abbreviation no_chunks :: mem where
  "no_chunks \<equiv> \<lparr>next_of = Map.empty, brk = 0\<rparr>"

lemma pool_starts: "\<exists>p m'. connectionPoolInit SIZEOF_CONNECTION no_chunks = Some (OK, p, m') \<and> pool_live (p, m') {}"
proof -
  have "\<exists>p m'. connectionPoolInit SIZEOF_CONNECTION no_chunks = Some (OK, p, m') \<and> pool_inv p m' {}"
    by (auto simp: connectionPoolInit_def SIZEOF_CONNECTION_def poolInit_def vectorInit_def pool_inv_def pool_shape_def
        free_slots_def slots_def vector_wf_def units_def WORD_def)
  then show ?thesis by (auto simp: pool_live_def data_ptrs_def)
qed

lemma timers_start:
  assumes "new_process w"
  shows "tm_inv (snd (event_timer_init SENTINEL (w_tm w))) []"
proof -
  let ?S = "snd (event_timer_init SENTINEL (w_tm w))"
  obtain k where m: "rb_mem (tm_tree (w_tm w)) SENTINEL = Some \<lparr>rb_key = k, rb_parent = SENTINEL, rb_left = SENTINEL,
      rb_right = SENTINEL, rb_color = False\<rparr>"
    using assms by (auto simp: new_process_def)
  have "rep (tm_tree ?S) SENTINEL Leaf"
    using m by (simp add: rep_def apart_def fresh_def adr_def event_timer_init_def)
  then have "rb_tree (tm_tree ?S) []" unfolding rb_tree_def by (intro exI [of _ SENTINEL] exI [of _ Leaf]) (simp add: red_black_def)
  moreover have "fld (kid g) (tm_tree ?S) SENTINEL = Some SENTINEL" for g
    using m by (cases g) (simp_all add: fld_def event_timer_init_def)
  ultimately show ?thesis using assms by (simp add: tm_inv_def looped_def new_process_def event_timer_init_def)
qed

lemma conn_inv_start:
  assumes "new_process w" "pool_live pm {}"
  shows "conn_inv (w\<lparr>w_pool := pm, w_tm := snd (event_timer_init SENTINEL (w_tm w))\<rparr>) {} []"
  using timers_start [OF assms(1)] assms by (simp add: conn_inv_def new_process_def event_timer_init_def)

abbreviation listen_event :: "handler event" where
  "listen_event \<equiv> \<lparr>ev_handler = Some Event_accept, ev_active = True, timer_set = False, timedout = False\<rparr>"

lemma event_process_init_ok:
  assumes w: "new_process w" and room: "0 < max_connections (w_cfg w)"
  shows "\<exists>c pm err. event_process_init True sig fd no_chunks w = Some (err, c, w\<lparr>w_pool := pm,
      w_tm := (zero_ev (wev_of c) (zero_ev (rev_of c) (w_tm w)))\<lparr>tm_events := [wev_of c \<mapsto> zero_event, rev_of c \<mapsto> listen_event]\<rparr>,
      w_conns := [c \<mapsto> fresh_conn\<lparr>c_fd := fd\<rparr>], w_kevent := tl (w_kevent w), w_calls := w_calls w @ [Kadd fd READ_EVENT]\<rparr>) \<and>
    pool_live pm {c}"
proof -
  obtain p m' where p: "connectionPoolInit SIZEOF_CONNECTION no_chunks = Some (OK, p, m')" "pool_live (p, m') {}" using pool_starts by blast
  obtain c pm where a: "pool_alloc (p, m') = Some (Some c, pm)" "pool_live pm {c}"
    using pool.alloc_fresh [OF p(2)] by blast
  have "p_used p = 0" using pool.used_card [OF p(2)] by simp
  then show ?thesis using p(1) a room w
    by (intro exI [of _ c] exI [of _ pm])
      (auto simp: event_process_init_def getIdleConnection_def set_conn_def set_handler_def set_ev_def on_timers_def set_event_def
        kqueue_add_event_def get_ev_def new_process_def zero_event_def zero_ev_def Let_def split_beta kevent_frame)
qed

lemma srv_inv_start:
  assumes w: "new_process w" and pm: "pool_live pm {c}"
    and w': "w_pool w' = pm" "w_conns w' = [c \<mapsto> fresh_conn\<lparr>c_fd := fd\<rparr>]" "w_reqs w' = Map.empty" "w_static w' = w_static w"
      "w_tm w' = (zero_ev (wev_of c) (zero_ev (rev_of c) (snd (event_timer_init SENTINEL (w_tm w)))))
        \<lparr>tm_events := [wev_of c \<mapsto> zero_event, rev_of c \<mapsto> listen_event]\<rparr>"
  shows "srv_inv w' {c} []"
proof -
  let ?start = "snd (event_timer_init SENTINEL (w_tm w))"
  let ?S = "zero_ev (wev_of c) (zero_ev (rev_of c) ?start)"
  obtain pm0 where pm0: "pool_live pm0 {}" using pool_starts by blast
  have e0: "tm_events ?start = Map.empty" "w_conns w = Map.empty" using w by (simp_all add: new_process_def event_timer_init_def)
  let ?w1 = "w\<lparr>w_pool := pm, w_tm := ?S, w_conns := [c \<mapsto> fresh_conn\<lparr>c_fd := fd\<rparr>]\<rparr>"
  have "conn_inv ?w1 {c} []"
    using conn_inv_add [OF conn_inv_start [OF w pm0], of c pm ?S "fresh_conn\<lparr>c_fd := fd\<rparr>"] pm e0 by simp
  moreover have "tm_inv (w_tm w') []" using calculation e0 unfolding w' by (auto simp: conn_inv_def tm_inv_def event_ok_def)
  ultimately have ci: "conn_inv w' {c} []"
    using conn_inv_events [of ?w1 "{c}" "[]" c "w_tm w'" "[]" READ_EVENT listen_event w'] e0 w'
    by (simp add: fun_upd_twist)
  have d: "data_of w' b = None" for b by (simp add: data_of_def w')
  have ev: "get_ev (rev_of c) w' = Some listen_event" "get_ev (wev_of c) w' = Some zero_event" by (simp_all add: get_ev_def w')
  show ?thesis
  proof (rule srv_invI [OF ci])
    show "typed w' b di h" if "b \<in> {c}" "get_ev (ev_of b di) w' = Some e" "ev_handler e = Some h" for b di e h
      using that ev d [of c] by (cases di) (auto simp: zero_event_def)
  qed (use w d w' in \<open>auto simp: new_process_def\<close>)
qed

lemma worker_start_ok:
  assumes w: "new_process w" and cfg: "config_load base True True dirfd = Some (OK, w_cfg w)"
    and base: "base + 2 ^ 36 < 2 ^ 63" "base' + 2 ^ 36 < 2 ^ 63"
  shows "\<exists>c w'. worker_process_init True sig fd no_chunks junk base' True w = Some (c, w') \<and> srv_inv w' {c} [] \<and>
    w_conns w' = [c \<mapsto> fresh_conn\<lparr>c_fd := fd\<rparr>] \<and> get_ev (rev_of c) w' = Some listen_event \<and>
    w_calls w' = w_calls w @ [Kadd fd READ_EVENT] \<and> w_cfg w' = w_cfg w \<and> current_msec (w_tm w') = current_msec (w_tm w) \<and> w_reqs w' = w_reqs w"
proof -
  have room: "0 < max_connections (w_cfg w)" using cfg
    by (auto simp: config_load_def Let_def vectorInit_def split: if_splits bind_splits dest!: arg_cong [of _ "w_cfg w" max_connections])
  obtain c pm err where 1: "event_process_init True sig fd no_chunks w = Some (err, c, w\<lparr>w_pool := pm,
      w_tm := (zero_ev (wev_of c) (zero_ev (rev_of c) (w_tm w)))\<lparr>tm_events := [wev_of c \<mapsto> zero_event, rev_of c \<mapsto> listen_event]\<rparr>,
      w_conns := [c \<mapsto> fresh_conn\<lparr>c_fd := fd\<rparr>], w_kevent := tl (w_kevent w), w_calls := w_calls w @ [Kadd fd READ_EVENT]\<rparr>)"
    "pool_live pm {c}" using event_process_init_ok [OF w room] by blast
  have "domain_names (w_cfg w) = [''backend'']" "domain_num (w_cfg w) = 1" "load_balance (w_cfg w) = ROUND_MODE"
    "\<forall>name n. n \<le> length name \<longrightarrow> hash_find (cfg_locations (w_cfg w)) name n =
       Some (if take n name = ''backend'' then Some locations_1 else None)"
    using config_load_ok [OF base(1), of dirfd] cfg by auto
  from process_init_ok [OF this, of junk] obtain d where 2: "upstream_process_init (w_cfg w) junk = Some (OK, ROUND_MODE, [d])" by blast
  obtain hs where 3: "header_map_init base' True = Some hs"
    using make_map_ok [OF header_names base(2)] unfolding header_map_init_def by blast
  let ?w' = "w\<lparr>w_pool := pm,
      w_tm := snd (event_timer_init SENTINEL ((zero_ev (wev_of c) (zero_ev (rev_of c) (w_tm w)))\<lparr>tm_events := [wev_of c \<mapsto> zero_event, rev_of c \<mapsto> listen_event]\<rparr>)),
      w_conns := [c \<mapsto> fresh_conn\<lparr>c_fd := fd\<rparr>], w_kevent := tl (w_kevent w), w_calls := w_calls w @ [Kadd fd READ_EVENT],
      w_doms := [d], w_headers := hs\<rparr>"
  have r: "worker_process_init True sig fd no_chunks junk base' True w = Some (c, ?w')"
    by (simp add: worker_process_init_def 1 2 3)
  have "srv_inv ?w' {c} []"
    by (rule srv_inv_start [OF w 1(2)]) (use w in \<open>simp_all add: new_process_def event_timer_init_def zero_ev_def\<close>)
  then show ?thesis using r
    by (intro exI [of _ c] exI [of _ ?w']) (simp add: get_ev_def event_timer_init_def zero_ev_def)
qed

section \<open>The loop drops silent clients\<close>

lemma silent_dropped:
  assumes inv: "srv_inv w L xs" and p: "ready p = None \<or> ready p = Some []"
    and tick: "timer_resolution (w_cfg w) = 0 \<or> alarm \<or> alarm_rings p"
    and now: "now = current_msec (w_tm (time_update (clock p) w))" "now \<noteq> current_msec (w_tm w)" "no_wrap now xs"
    and c: "c \<in> L" "waiting t w xs c a" "fst a > 0" "is_expired t now"
  shows "\<exists>alarm' w' L' ys. process_events_and_timer (\<lambda>_. p) alarm w = Some (alarm', w') \<and> srv_inv w' L' ys \<and>
    expired now ys = [] \<and> c \<notin> L' \<and> closed_conn w' c \<and> Close (fst a) \<in> set (w_calls w')"
proof -
  let ?w = "time_update (clock p) w"
  have inv': "srv_inv ?w L xs" by (rule srv_time [OF inv])
  have "waiting t ?w xs c a" using c(2) by (simp add: waiting_def)
  then have s: "silent ?w c (fst a)" "(t, rev_of c) \<in> set xs" using waiting_silent c(3) unfolding waiting_def by blast+
  obtain w' L' ys where w': "expire_timers ?w = Some w'" "srv_inv w' L' ys" "expired now ys = []" "c \<notin> L'" "closed_conn w' c"
    "Close (fst a) \<in> set (w_calls w')"
    using silent_is_closed [OF inv' _ c(1) s] now c(4) by auto
  have "\<exists>d. event_find_timer (w_tm w) = Some d" using find_timer_ok [of "w_tm w" xs] srv_invD(1) [OF inv] by (auto simp: conn_inv_def)
  moreover have "\<exists>x. kqueue_process_events p (timer_resolution (w_cfg w) = 0) alarm w = Some (x, ?w)"
    using p tick by (auto simp: kqueue_process_events_def Let_def)
  ultimately have "\<exists>x. process_events_and_timer (\<lambda>_. p) alarm w = Some (x, w')"
    using w'(1) now(1,2) by (auto simp: process_events_and_timer_def Let_def)
  then show ?thesis using w' by blast
qed

section \<open>Properties\<close>

text \<open>
  C9. A worker starts: with the settings of the program and an empty heap, \<open>worker_process_init\<close>
  returns with one connection, that of the listening socket, whose read event is registered with
  the kernel and has the handler \<open>event_accept\<close>; no timer is set, and the invariant of the worker holds.
\<close>

theorem worker_starts:
  assumes "new_process w" "config_load base True True dirfd = Some (OK, w_cfg w)" "base + 2 ^ 36 < 2 ^ 63" "base' + 2 ^ 36 < 2 ^ 63"
  shows "\<exists>c w'. worker_process_init True sig fd no_chunks junk base' True w = Some (c, w') \<and> srv_inv w' {c} [] \<and>
    w_conns w' = [c \<mapsto> fresh_conn\<lparr>c_fd := fd\<rparr>] \<and> get_ev (rev_of c) w' = Some listen_event \<and>
    w_calls w' = w_calls w @ [Kadd fd READ_EVENT] \<and> w_cfg w' = w_cfg w \<and> current_msec (w_tm w') = current_msec (w_tm w) \<and> w_reqs w' = w_reqs w"
  by (rule worker_start_ok [OF assms])

text \<open>A process before its start, with the clock at 5000.\<close>

definition example_process :: "config \<Rightarrow> world" where
  "example_process cfg = \<lparr>w_cfg = cfg, w_tm = \<lparr>tm_tree = \<lparr>rb_root = NULL_NODE, sentinel = NULL_NODE, insert_ptr = Insert_value,
       rb_mem = [SENTINEL \<mapsto> \<lparr>rb_key = 0, rb_parent = SENTINEL, rb_left = SENTINEL, rb_right = SENTINEL, rb_color = False\<rparr>]\<rparr>,
       tm_events = Map.empty, current_msec = 5000\<rparr>,
     w_pool = (\<lparr>p_unit_size = 0, p_unit_num = 0, p_used = 0, p_free = None,
       p_chunks = \<lparr>v_capacity = 0, v_used = 0, v_unit_size = 0, v_data = None\<rparr>\<rparr>, no_chunks),
     w_conns = Map.empty, w_reqs = Map.empty, w_next = 0, w_doms = [],
     w_fs = \<lparr>open_root = (\<lambda>_. - 1), open_index = (\<lambda>_. - 1), is_dir = (\<lambda>_. False), size_of = (\<lambda>_. 0)\<rparr>,
     w_headers = \<lparr>h_buckets = [], h_size = 0, h_mem = Map.empty\<rparr>,
     w_static = replicate 81 (CHR 0x00), w_heap = \<lparr>bbegin = 0, bend = 0, bpos = 0, bdata = replicate (BUF_SIZE + 2) (CHR 0x00)\<rparr>,
     w_recv = (\<lambda>_. []), w_send = [], w_kevent = [], w_socket = [], w_connect = [], w_so_error = [], w_sendfile = [], w_accept = [],
     w_inet = (\<lambda>_. True), w_file = (\<lambda>_. []), w_calls = []\<rparr>"

lemma example_process: "new_process (example_process cfg)" "w_cfg (example_process cfg) = cfg" "current_msec (w_tm (example_process cfg)) = 5000"
  by (simp_all add: new_process_def example_process_def)

lemma settings:
  "config_load base True True dirfd = Some (OK, cfg) \<Longrightarrow> max_connections cfg = 65536 \<and> timer_resolution cfg = 500 \<and>
     post_accept_timeout cfg = 15000 \<and> request_pool_size cfg = 3488"
  by (auto simp: config_load_def Let_def vectorInit_def SIZEOF_REQUEST_def SIZEOF_BUFFER_def split: if_splits bind_splits)

lemma program_settings: "\<exists>cfg. config_load 4096 True True 5 = Some (OK, cfg)"
  using config_load_ok [of 4096 5] by auto

theorem worker_starts_witness:
  "\<exists>w c w'. worker_process_init True True 3 no_chunks (\<lambda>i j. example_server 9 9 9) 8192 True w = Some (c, w') \<and> srv_inv w' {c} [] \<and>
    w_calls w' = w_calls w @ [Kadd 3 READ_EVENT]"
proof -
  obtain cfg where "config_load 4096 True True 5 = Some (OK, w_cfg (example_process cfg))"
    using program_settings by (auto simp: example_process)
  from worker_starts [OF example_process(1) this, of 8192 True 3 "\<lambda>i j. example_server 9 9 9"] show ?thesis
    by (simp, blast)
qed

text \<open>A worker with the settings of the program, waiting for connections.\<close>

lemma worker_waits:
  "\<exists>w c. srv_inv w {c} [] \<and> max_connections (w_cfg w) = 65536 \<and> post_accept_timeout (w_cfg w) = 15000 \<and>
     current_msec (w_tm w) = 5000 \<and> w_reqs w = Map.empty \<and> config_load 4096 True True 5 = Some (OK, w_cfg w)"
proof -
  obtain cfg where cfg: "config_load 4096 True True 5 = Some (OK, w_cfg (example_process cfg))"
    using program_settings by (auto simp: example_process)
  have "\<exists>c w'. srv_inv w' {c} [] \<and> w_cfg w' = cfg \<and> current_msec (w_tm w') = 5000 \<and> w_reqs w' = Map.empty"
    using worker_start_ok [OF example_process(1) cfg, of 8192 True 3] unfolding example_process
    by (simp add: example_process_def) blast
  then show ?thesis using settings [OF cfg] cfg unfolding example_process by blast
qed

text \<open>
  C7. \<open>event_accept\<close> takes on the connections that are waiting, up to the limit of the settings:
  each gets a slot that was not in use, its descriptor is registered with the kernel, its read
  event has the handler \<open>http_init_request\<close> and a timer for \<^verbatim>\<open>post_accept_timeout\<close>; nothing else
  changes, and the invariant of the worker holds again. One connection above the limit is closed.
\<close>

theorem event_accept_takes_on:
  assumes "srv_inv w L xs" "int (card L) \<le> max_connections (w_cfg w)"
  shows "\<exists>w' L' ys cs. event_accept es w = Some w' \<and>
    takes_on (take (nat (max_connections (w_cfg w) - int (card L))) (arrivals es)) w L xs w' L' ys cs \<and>
    (let n = nat (max_connections (w_cfg w) - int (card L)); as = arrivals es in
     w_calls w' = w_calls w @ map (\<lambda>a. Kadd (fst a) READ_EVENT) (take n as) @ (if n < length as then [Close (fst (as ! n))] else []))"
  by (rule accept_all [OF assms])

theorem event_accept_takes_on_witness:
  "\<exists>w c w' L' ys cs. srv_inv w {c} [] \<and> event_accept [Accepted 7 100, Accepted 8 200, Accept_error] w = Some w' \<and>
    takes_on [(7, 100), (8, 200)] w {c} [] w' L' ys cs \<and> w_calls w' = w_calls w @ [Kadd 7 READ_EVENT, Kadd 8 READ_EVENT]"
proof -
  obtain w c where w: "srv_inv w {c} []" "max_connections (w_cfg w) = 65536" using worker_waits by blast
  from event_accept_takes_on [OF w(1), of "[Accepted 7 100, Accepted 8 200, Accept_error]"] w show ?thesis
    by (simp add: Let_def) blast
qed

text \<open>
  C6. A client that connects and then stays silent is dropped: when the loop wakes up with no
  event ready, by its own timeout or interrupted by the alarm signal, and the time of the connection has run
  out, its descriptor is closed and its slot is back in the pool; every other timer that is due has been
  dealt with, and the invariant of the worker holds. (The keys of the timers must lie within half of the
  range of the clock.)
\<close>

theorem silent_client_is_dropped:
  assumes "srv_inv w L xs" "ready p = None \<or> ready p = Some []"
    and "timer_resolution (w_cfg w) = 0 \<or> alarm \<or> alarm_rings p"
    and "now = current_msec (w_tm (time_update (clock p) w))" "now \<noteq> current_msec (w_tm w)" "no_wrap now xs"
    and "c \<in> L" "waiting t w xs c a" "fst a > 0" "is_expired t now"
  shows "\<exists>alarm' w' L' ys. process_events_and_timer (\<lambda>_. p) alarm w = Some (alarm', w') \<and> srv_inv w' L' ys \<and>
    expired now ys = [] \<and> c \<notin> L' \<and> closed_conn w' c \<and> Close (fst a) \<in> set (w_calls w')"
  by (rule silent_dropped [OF assms])

theorem silent_client_is_dropped_witness:
  "\<exists>w L xs c alarm' w' L' ys. srv_inv w L xs \<and> waiting 20000 w xs c (7, 100) \<and>
    process_events_and_timer (\<lambda>_. \<lparr>ready = None, alarm_rings = True, clock = (25, 0)\<rparr>) False w = Some (alarm', w') \<and>
    srv_inv w' L' ys \<and> c \<notin> L' \<and> Close 7 \<in> set (w_calls w')"
proof -
  let ?p = "\<lparr>ready = None, alarm_rings = True, clock = (25, 0)\<rparr>"
  obtain w0 l where w0: "srv_inv w0 {l} []" "max_connections (w_cfg w0) = 65536" "post_accept_timeout (w_cfg w0) = 15000"
    "current_msec (w_tm w0) = 5000" using worker_waits by blast
  obtain w L xs cs where t: "takes_on [(7, 100)] w0 {l} [] w L xs cs"
    using accept_all [OF w0(1), of "[Accepted 7 100]"] w0(2) by (simp add: Let_def) blast
  note D = takes_onD [OF t]
  obtain c where c: "cs = [c]" "waiting 20000 w xs c (7, 100)" using D(5) w0(3,4) by (auto simp: list_all2_Cons2)
  have now: "current_msec (w_tm (time_update (clock ?p) w)) = 25000" by (simp add: time_update_def)
  have xs: "set xs = {(20000, rev_of c)}" using D(6) w0(3,4) c(1) by simp
  have "\<exists>alarm' w' L' ys. process_events_and_timer (\<lambda>_. ?p) False w = Some (alarm', w') \<and> srv_inv w' L' ys \<and>
    expired 25000 ys = [] \<and> c \<notin> L' \<and> closed_conn w' c \<and> Close (fst (7, 100 :: 32 word)) \<in> set (w_calls w')"
    using D(4,9) c w0(4) xs now
    by (intro silent_client_is_dropped [OF D(1), of ?p False _ _ 20000]) (simp_all add: no_wrap_def is_expired_def)
  then show ?thesis using D(1) c(2) unfolding fst_conv by blast
qed

text \<open>
  C5. The handlers that events carry fit their connections, and expiry keeps it so: in a state of
  the worker where every handler is one for its side of the connection and for the role (listening,
  client or back end) of the connection, and every timer belongs to an event with a handler,
  \<open>event_expire_timers\<close> meets no event without a handler and no handler at the wrong object, returns, and
  leaves such a state, whatever handlers it has called; no timer has been added and, when the
  keys lie within half of the range of the clock, none that is due is left.
\<close>

theorem expiry_keeps_typing:
  assumes "srv_inv w L xs"
  shows "\<exists>w' L' ys. expire_timers w = Some w' \<and> srv_inv w' L' ys \<and> set ys \<subseteq> set xs \<and>
    (\<forall>c \<in> L'. \<forall>d e h. get_ev (ev_of c d) w' = Some e \<longrightarrow> ev_handler e = Some h \<longrightarrow> typed w' c d h) \<and>
    (no_wrap (current_msec (w_tm w)) xs \<longrightarrow> expired (current_msec (w_tm w)) ys = [])"
  using expire_timers_ok [OF assms] srv_invD(5) by blast

theorem expiry_keeps_typing_witness:
  "\<exists>w L xs w' L' ys. length L = 2 \<and> srv_inv w (set L) xs \<and> expire_timers w = Some w' \<and> srv_inv w' L' ys \<and> set ys \<subseteq> set xs"
proof -
  obtain w0 l where w0: "srv_inv w0 {l} []" "max_connections (w_cfg w0) = 65536" using worker_waits by blast
  obtain w L xs cs where t: "takes_on [(7, 100)] w0 {l} [] w L xs cs"
    using accept_all [OF w0(1), of "[Accepted 7 100]"] w0(2) by (simp add: Let_def) blast
  note D = takes_onD [OF t]
  obtain c where "cs = [c]" using D(5) by (auto simp: list_all2_Cons2)
  then have "L = set [c, l]" using D(4) by auto
  moreover obtain w' L' ys where "expire_timers w = Some w'" "srv_inv w' L' ys" "set ys \<subseteq> set xs" using expiry_keeps_typing [OF D(1)] by blast
  ultimately show ?thesis using D(1) by (intro exI [of _ w] exI [of _ "[c, l]"]) auto
qed

end
