(* ===== verification/Serving.thy ===== *)
theory Serving
  imports Worker_Start
begin

text \<open>
  One client in service: what its connection, request and events are, and how the operations that
  the handlers of \<^verbatim>\<open>http/http.c\<close> are made of change them, while the invariant of the worker is kept.
\<close>

section \<open>A client in service\<close>

definition serving :: "world \<Rightarrow> slot set \<Rightarrow> (32 word \<times> nat) list \<Rightarrow> slot \<Rightarrow> conn \<Rightarrow> nat \<Rightarrow> http_request \<Rightarrow> (dir \<Rightarrow> handler event) \<Rightarrow> bool" where
  "serving w L xs c k r q E \<longleftrightarrow> srv_inv w L xs \<and> c \<in> L \<and> w_conns w c = Some k \<and> c_data k = Some r \<and> c_fd k > 0 \<and>
     w_reqs w r = Some q \<and> connection q = Some c \<and> upstream q = None \<and> cur_upstream q = None \<and>
     (\<forall>d. get_ev (ev_of c d) w = Some (E d))"

lemma servingD:
  assumes "serving w L xs c k r q E"
  shows "srv_inv w L xs" "c \<in> L" "w_conns w c = Some k" "c_data k = Some r" "c_fd k > 0" "w_reqs w r = Some q"
    "connection q = Some c" "upstream q = None" "cur_upstream q = None" "get_ev (ev_of c d) w = Some (E d)"
    "conn_inv w L xs" "buffer_wf (recv_buffer q)" "buffer_wf (send_buffer q)" "client w c"
proof -
  show D: "srv_inv w L xs" "c \<in> L" "w_conns w c = Some k" "c_data k = Some r" "c_fd k > 0" "w_reqs w r = Some q"
    "connection q = Some c" "upstream q = None" "cur_upstream q = None" "get_ev (ev_of c d) w = Some (E d)"
    using assms unfolding serving_def by blast+
  show "conn_inv w L xs" using srv_invD(1) [OF D(1)] .
  show "buffer_wf (recv_buffer q)" "buffer_wf (send_buffer q)" using srv_invD(3) [OF D(1,6)] by (simp_all add: req_ok_def)
  show "client w c" using D(3,4,6,7) by (simp add: client_def data_of_def)
qed

lemma serving_evs:
  assumes "serving w L xs c k r q E"
  shows "get_ev (rev_of c) w = Some (E READ_EVENT)" "get_ev (wev_of c) w = Some (E WRITE_EVENT)"
  using servingD(10) [OF assms, of READ_EVENT] servingD(10) [OF assms, of WRITE_EVENT] by simp_all

lemma serving_cong:
  assumes "serving w L xs c k r q E" "w_tm w' = w_tm w" "w_pool w' = w_pool w" "w_conns w' = w_conns w" "w_reqs w' = w_reqs w"
    "w_static w' = w_static w" "w_doms w' = w_doms w"
  shows "serving w' L xs c k r q E"
  using assms srv_cong [of w' w L xs] by (simp add: serving_def get_ev_def)

lemma serving_req:
  assumes s: "serving w L xs c k r q E" and q: "links q' = links q" "buffer_wf (recv_buffer q')" "buffer_wf (send_buffer q')"
  shows "serving (w\<lparr>w_reqs := (w_reqs w)(r \<mapsto> q')\<rparr>) L xs c k r q' E"
proof -
  note D = servingD [OF s]
  show ?thesis using srv_req [OF D(1,6) q] s q(1) by (simp add: serving_def links_def get_ev_def)
qed

lemma serving_events:
  assumes s: "serving w L xs c k r q E" and inv: "srv_inv w' L ys"
    and w': "w_conns w' = w_conns w" "w_reqs w' = w_reqs w" "tm_events (w_tm w') = (tm_events (w_tm w))(ev_of c d \<mapsto> e)"
  shows "serving w' L ys c k r q (E(d := e))"
  using s inv w' by (simp add: serving_def get_ev_def)

text \<open>The handlers a client's events may have.\<close>

fun client_handler :: "dir \<Rightarrow> handler \<Rightarrow> bool" where
  "client_handler READ_EVENT h = (h \<in> {Process_request_line, Parse_headers, Handle_body})"
| "client_handler WRITE_EVENT h = (h \<in> {Handle_response, Handle_response_file})"

lemma serving_handler:
  assumes s: "serving w L xs c k r q E" and h: "client_handler d h"
  shows "\<exists>S. set_handler h (ev_of c d) w = Some (w\<lparr>w_tm := S\<rparr>) \<and>
    serving (w\<lparr>w_tm := S\<rparr>) L xs c k r q (E(d := (E d)\<lparr>ev_handler := Some h\<rparr>)) \<and> current_msec S = current_msec (w_tm w)"
proof -
  note D = servingD [OF s]
  have "typed w c d h" using h D(14) by (cases d) auto
  moreover have "h \<noteq> Event_accept" "h \<noteq> Connection_result" using h by (cases d; auto)+
  ultimately show ?thesis
    using srv_handler [OF D(1,2), of d h] serving_events [OF s, of "w\<lparr>w_tm := (w_tm w)\<lparr>tm_events :=
        (tm_events (w_tm w))(ev_of c d \<mapsto> (E d)\<lparr>ev_handler := Some h\<rparr>)\<rparr>\<rparr>" xs d] D(10) [of d]
    by (intro exI [of _ "(w_tm w)\<lparr>tm_events := (tm_events (w_tm w))(ev_of c d \<mapsto> (E d)\<lparr>ev_handler := Some h\<rparr>)\<rparr>"]) auto
qed

lemma serving_add_event:
  assumes s: "serving w L xs c k r q E" and e: "\<not> ev_active (E d)"
  shows "\<exists>S. add_event (ev_of c d) d' w = Some (w\<lparr>w_tm := S, w_kevent := tl (w_kevent w), w_calls := w_calls w @ [Kadd (c_fd k) d']\<rparr>) \<and>
    serving (w\<lparr>w_tm := S, w_kevent := tl (w_kevent w), w_calls := w_calls w @ [Kadd (c_fd k) d']\<rparr>) L xs c k r q
      (E(d := (E d)\<lparr>ev_active := True\<rparr>)) \<and> current_msec S = current_msec (w_tm w)"
proof -
  note D = servingD [OF s]
  let ?S = "(w_tm w)\<lparr>tm_events := (tm_events (w_tm w))(ev_of c d \<mapsto> (E d)\<lparr>ev_active := True\<rparr>)\<rparr>"
  let ?w = "w\<lparr>w_tm := ?S, w_kevent := tl (w_kevent w), w_calls := w_calls w @ [Kadd (c_fd k) d']\<rparr>"
  have g: "tm_events (w_tm w) (ev_of c d) = Some (E d)" using D(10) by (simp add: get_ev_def)
  have a: "add_event (ev_of c d) d' w = Some ?w"
    using D(3) D(10) [of d] e
    by (simp add: add_event_def kqueue_add_event_def set_ev_def on_timers_def set_event_def g split_beta kevent_frame)
  obtain w' where "add_event (ev_of c d) d' w = Some w'" "conn_inv w' L xs" "event_frame {ev_of c d} w w'"
    using add_event_ok [OF D(11,2), of d d'] by blast
  then have "srv_inv ?w L xs" using srv_events [OF D(1), of "{ev_of c d}" ?w xs] a by simp
  then show ?thesis using a serving_events [OF s, of ?w xs d "(E d)\<lparr>ev_active := True\<rparr>"] by (intro exI [of _ ?S]) simp
qed

lemma serving_del_event:
  assumes s: "serving w L xs c k r q E" and e: "ev_active (E d)" "timer_set (E d)"
  shows "\<exists>S. del_event (ev_of c d) d' w = Some (w\<lparr>w_tm := S, w_kevent := tl (w_kevent w), w_calls := w_calls w @ [Kdel (c_fd k) d']\<rparr>) \<and>
    serving (w\<lparr>w_tm := S, w_kevent := tl (w_kevent w), w_calls := w_calls w @ [Kdel (c_fd k) d']\<rparr>) L
      (filter (\<lambda>x. snd x \<noteq> ev_of c d) xs) c k r q (E(d := (E d)\<lparr>ev_active := False, timer_set := False, timedout := False\<rparr>)) \<and>
    current_msec S = current_msec (w_tm w)"
proof -
  note D = servingD [OF s]
  let ?e = "(E d)\<lparr>ev_active := False\<rparr>" and ?f = "\<lambda>e :: handler event. e\<lparr>ev_active := False\<rparr>"
  obtain w1 where w1: "set_ev ?f (ev_of c d) w = Some w1" "conn_inv w1 L xs"
    "w1 = w\<lparr>w_tm := (w_tm w)\<lparr>tm_events := (tm_events (w_tm w))(ev_of c d \<mapsto> ?e)\<rparr>\<rparr>"
    using set_active_ok [OF D(11,2,10), of ?f d] by auto
  have tm: "tm_inv (w_tm w1) xs" and e1: "tm_events (w_tm w1) (ev_of c d) = Some ?e" using w1(2,3) by (simp_all add: conn_inv_def)
  obtain S where S: "event_del_timer (ev_of c d) (w_tm w1) = Some S" "tm_inv S (filter (\<lambda>x. snd x \<noteq> ev_of c d) xs)"
    "tm_events S = (tm_events (w_tm w1))(ev_of c d \<mapsto> ?e\<lparr>timer_set := False, timedout := False\<rparr>)" "current_msec S = current_msec (w_tm w1)"
    "sentinel (tm_tree S) = sentinel (tm_tree (w_tm w1))"
    using del_timer_ok [OF tm e1] e(2) by auto
  let ?w = "w\<lparr>w_tm := S, w_kevent := tl (w_kevent w), w_calls := w_calls w @ [Kdel (c_fd k) d']\<rparr>"
  have a: "del_event (ev_of c d) d' w = Some ?w"
    using w1 e D(3) D(10) [of d] S(1)
    by (simp add: del_event_def kqueue_del_event_def del_timer_if_set_def get_ev_def del_timer_def on_timers_def split_beta kevent_frame)
  obtain w' ys where w': "del_event (ev_of c d) d' w = Some w'" "conn_inv w' L ys" "event_frame {ev_of c d} w w'"
    using del_event_ok [OF D(11,2), of d d'] by blast
  have "conn_inv (w1\<lparr>w_tm := S\<rparr>) L (filter (\<lambda>x. snd x \<noteq> ev_of c d) xs)"
    by (rule conn_inv_events [OF w1(2) D(2) S(2,3,5)]) simp_all
  then have "conn_inv ?w L (filter (\<lambda>x. snd x \<noteq> ev_of c d) xs)" using w1(3) conn_inv_cong [of ?w "w1\<lparr>w_tm := S\<rparr>"] by simp
  moreover have "event_frame {ev_of c d} w ?w" using w'(1,3) a by simp
  ultimately have "srv_inv ?w L (filter (\<lambda>x. snd x \<noteq> ev_of c d) xs)" by (intro srv_events [OF D(1)]) auto
  then show ?thesis
    using a S(3,4) w1(3) serving_events [OF s, of ?w _ d "?e\<lparr>timer_set := False, timedout := False\<rparr>"] by (intro exI [of _ S]) simp
qed

lemma serving_add_timer:
  assumes s: "serving w L xs c k r q E" and e: "\<not> timer_set (E d)" "ev_handler (E d) = Some h" "client_handler d h"
  shows "\<exists>S. add_timer (ev_of c d) t w = Some (w\<lparr>w_tm := S\<rparr>) \<and>
    serving (w\<lparr>w_tm := S\<rparr>) L (put_entry (current_msec (w_tm w) + of_int t) (ev_of c d) xs) c k r q (E(d := (E d)\<lparr>timer_set := True\<rparr>)) \<and>
    current_msec S = current_msec (w_tm w)"
proof -
  note D = servingD [OF s]
  let ?ys = "put_entry (current_msec (w_tm w) + of_int t) (ev_of c d) xs"
  obtain S where S: "add_timer (ev_of c d) t w = Some (w\<lparr>w_tm := S\<rparr>)" "conn_inv (w\<lparr>w_tm := S\<rparr>) L ?ys"
    "current_msec S = current_msec (w_tm w)" "tm_events S = (tm_events (w_tm w))(ev_of c d \<mapsto> (E d)\<lparr>timer_set := True\<rparr>)"
    using put_timer [OF D(11,2,10) e(1)] by blast
  let ?w = "w\<lparr>w_tm := S\<rparr>"
  note I = srv_invD [OF D(1)]
  have h: "h \<noteq> Event_accept" "h \<noteq> Connection_result" using e(3) by (cases d; auto)+
  have tc: "data_of ?w b = data_of w b" "client ?w b = client w b" "backend ?w b = backend w b" "typed ?w b di h' = typed w b di h'"
    "chosen ?w b = chosen w b" for b di h' using typed_cong [of ?w b w] by auto
  have ge: "get_ev (ev_of b di) ?w = (if b = c \<and> di = d then Some ((E d)\<lparr>timer_set := True\<rparr>) else get_ev (ev_of b di) w)" for b di
    by (simp add: get_ev_def S(4))
  have "srv_inv ?w L ?ys"
  proof (rule srv_invI [OF S(2)])
    show "81 \<le> length (w_static ?w)" using I(2) by simp
    show "req_ok ?w L r0 q0" if "w_reqs ?w r0 = Some q0" for r0 q0 using I(3) [of r0 q0] that tc(1) by (simp add: req_ok_def)
    show "client ?w b \<or> backend ?w b" if "b \<in> L" "data_of ?w b \<noteq> None" for b using I(4) that tc by simp
    show "typed ?w b di h'" if "b \<in> L" "get_ev (ev_of b di) ?w = Some e'" "ev_handler e' = Some h'" for b di e' h'
      using that I(5) [of b di e' h'] I(5) [OF D(2,10) e(2)] e(2) tc(4) by (auto simp: ge split: if_splits)
    show "armed_ok ?w b di" if "ev_of b di \<in> snd ` set ?ys" for b di
    proof (cases "b = c \<and> di = d")
      case True
      then show ?thesis using e(2) h by (auto simp: armed_ok_def ge)
    next
      case False
      then have "ev_of b di \<in> snd ` set xs" using that by (auto simp: put_entry_set)
      then show ?thesis using I(6) [of b di] False tc(5) by (auto simp: armed_ok_def ge)
    qed
  qed
  then show ?thesis using S serving_events [OF s, of ?w ?ys d "(E d)\<lparr>timer_set := True\<rparr>"] by (intro exI [of _ S]) simp
qed

end
