(* ===== verification/Header_Fields.thy ===== *)
theory Header_Fields
  imports Serving
begin

text \<open>
  The loop of \<open>http_parse_headers\<close> over well-formed header lines: each round consumes one line and
  calls the handler of its name, and the empty line ends the loop.
\<close>

section \<open>Fields\<close>

text \<open>A name, the number of blanks after the colon, and a value.\<close>

type_synonym header_field = "char list \<times> nat \<times> char list"

fun field_text :: "header_field \<Rightarrow> char list" where
  "field_text (name, n, v) = header_line_text name n v"

fun field_ok :: "header_field \<Rightarrow> bool" where
  "field_ok (name, n, v) \<longleftrightarrow> header_text_ok name v \<and>
     (map c_tolower name = ''connection'' \<longrightarrow> map c_tolower v \<in> {''keep-alive'', ''close''})"

fun field_keep :: "header_field \<Rightarrow> bool \<Rightarrow> bool" where
  "field_keep (name, n, v) ka = (if map c_tolower name = ''connection'' then map c_tolower v = ''keep-alive'' else ka)"

definition header_table :: "world \<Rightarrow> bool" where
  "header_table w \<longleftrightarrow> (\<forall>name n. n \<le> length name \<longrightarrow> hash_find (w_headers w) name n = Some (map_of header_array (take n name)))"

text \<open>What reading header lines may change in a request.\<close>

definition read_fields :: "http_request \<Rightarrow> http_request \<Rightarrow> bool \<Rightarrow> bool" where
  "read_fields q q' ka \<longleftrightarrow> links q' = links q \<and> send_buffer q' = send_buffer q \<and> buffer_wf (recv_buffer q') \<and>
     (\<exists>s t h st. rq q' = (rq q)\<lparr>header_name := s, header_value := t, r_state := st, headers := h, keep_alive := ka\<rparr>)"

lemma read_fields_trans:
  assumes "read_fields q q' ka" "read_fields q' q'' kb"
  shows "read_fields q q'' kb"
proof -
  obtain s t h st s' t' h' st' where
    "rq q' = (rq q)\<lparr>header_name := s, header_value := t, r_state := st, headers := h, keep_alive := ka\<rparr>"
    "rq q'' = (rq q')\<lparr>header_name := s', header_value := t', r_state := st', headers := h', keep_alive := kb\<rparr>"
    using assms unfolding read_fields_def by blast
  then have "rq q'' = (rq q)\<lparr>header_name := s', header_value := t', r_state := st', headers := h', keep_alive := kb\<rparr>" by simp
  then show ?thesis using assms unfolding read_fields_def by metis
qed

section \<open>One line\<close>

lemma header_slices:
  assumes "header_text_ok name v" "buffer_wf b" "contents b = header_line_text name n v @ rest" "r_state r = HD_BEGIN"
  shows "\<exists>i k b'. parse_header r b = Some (OK, r\<lparr>header_name := \<lparr>pc = At i, pl = int (length name)\<rparr>,
      header_value := \<lparr>pc = At k, pl = int (length v)\<rparr>, r_state := HD_BEGIN\<rparr>, b') \<and>
    contents b' = rest \<and> buffer_wf b' \<and> take (length name) (drop i (bdata b')) = map c_tolower name \<and>
    take (length v) (drop k (bdata b')) = v \<and> i + length name < k \<and> k + length v < bbegin b'"
proof -
  obtain s t b' where p: "parse_header r b = Some (OK, r\<lparr>header_name := s, header_value := t, r_state := HD_BEGIN\<rparr>, b')"
    "contents b' = rest" "buffer_wf b'" "text_of (bdata b') s = Some (map c_tolower name)" "text_of (bdata b') t = Some v"
    using accept_header_exact [OF assms] by blast
  have inv: "hd_inv r (bdata b) (bbegin b)" using assms(4) by (simp add: hd_inv_def)
  have l: "line_rec (r\<lparr>header_name := s, header_value := t, r_state := HD_BEGIN\<rparr>) (bdata b') (bbegin b' - 1)" "bbegin b < bbegin b'"
    using parse_header_total [OF assms(2) inv] p(1) by force+
  have "t \<noteq> NULL_PSTR" "pc s \<noteq> Null" using p(4,5) by (auto simp: text_of_def NULL_PSTR_def)
  then obtain i j k e where s: "s = \<lparr>pc = At i, pl = int (j - i)\<rparr>" "name_at (bdata b') i j" "t = \<lparr>pc = At k, pl = int (e - k)\<rparr>"
    "j < k" "k < e" "e \<le> bbegin b' - 1" using l(1) by (auto simp: line_rec_def)
  have le: "bbegin b' \<le> length (bdata b')" using p(3) by (simp add: buffer_wf_def)
  have ij: "i < j" using s(2) by (simp add: name_at_def)
  obtain m where m: "j = i + m" using ij less_imp_add_positive by blast
  obtain m' where m': "e = k + m'" using s(5) less_imp_add_positive by blast
  have seg: "take m (drop i (bdata b')) = map c_tolower name" "take m' (drop k (bdata b')) = v"
    using p(4,5) s(1,3) m m' by (simp_all add: text_of_def segment_def)
  have n: "m = length name" "m' = length v"
    using arg_cong [OF seg(1), of length] arg_cong [OF seg(2), of length] s(4-6) le l(2) ij m m' by simp_all
  have st: "s = \<lparr>pc = At i, pl = int (length name)\<rparr>" "t = \<lparr>pc = At k, pl = int (length v)\<rparr>" using s(1,3) m m' n by simp_all
  have pos: "i + length name < k" "k + length v < bbegin b'" using s(4-6) m m' n l(2) by simp_all
  show ?thesis using p(1-3) seg pos unfolding n st by blast
qed

lemma generic_ok:
  assumes "off \<in> {0, 16, 32, 48}"
  shows "\<exists>h. header_handle_generic r off = Some (OK, r\<lparr>headers := h\<rparr>) \<and> (off = 16 \<longrightarrow> h_connection h = header_value r)"
  using assms by (intro exI [of _ "if off = 0 then (headers r)\<lparr>h_date := header_value r\<rparr>
      else if off = 16 then (headers r)\<lparr>h_connection := header_value r\<rparr>
      else if off = 32 then (headers r)\<lparr>h_accept := header_value r\<rparr> else (headers r)\<lparr>h_cookie := header_value r\<rparr>"])
    (auto simp: header_handle_generic_def Let_def)

lemma connection_ok:
  assumes "header_value r = \<lparr>pc = At k, pl = int (length v)\<rparr>" "take (length v) (drop k d) = v"
    and "map c_tolower v \<in> {''keep-alive'', ''close''}"
  shows "\<exists>h. header_handle_connection d r 16 = Some (OK, r\<lparr>headers := h, keep_alive := (map c_tolower v = ''keep-alive'')\<rparr>, False)"
proof -
  obtain h where h: "header_handle_generic r 16 = Some (OK, r\<lparr>headers := h\<rparr>)" "h_connection h = header_value r"
    using generic_ok [of 16 r] by auto
  define t where "t = drop k d"
  have low: "strneq c_tolower (x @ [CHR 0x00]) t (length v) = Some (map c_tolower x = map c_tolower v)"
    if x: "length x = length v" for x
  proof -
    have tl: "length v \<le> length t" using assms(2) unfolding t_def by (metis length_take min.cobounded1 min_def nat_le_linear)
    have "\<forall>c \<in> set (map c_tolower v). code c \<noteq> 0" using assms(3) by (auto simp: code_def)
    then have "\<forall>c \<in> set (take (length v) t). code (c_tolower c) \<noteq> 0" using assms(2) unfolding t_def by auto
    then show ?thesis using strneq_decides [of "length v" "x @ [CHR 0x00]" t c_tolower] tl x assms(2) unfolding t_def
      by (simp add: c_tolower_def)
  qed
  have len: "length v = length (map c_tolower v)" by simp
  consider (ka) "map c_tolower v = ''keep-alive''" | (cl) "map c_tolower v = ''close''" using assms(3) by blast
  then show ?thesis
  proof cases
    case ka
    have "length v = 10" using len unfolding ka by simp
    then have "strneq c_tolower (''keep-alive'' @ [CHR 0x00]) t 10 = Some True" using low [of "''keep-alive''"] ka
      by (simp add: c_tolower_def code_def del: strneq.simps)
    then show ?thesis using h ka assms(1) unfolding t_def by (intro exI [of _ h]) (simp add: header_handle_connection_def)
  next
    case cl
    have l: "length v = 5" using len unfolding cl by simp
    then obtain a t' where t: "t = a # t'" "c_tolower a = CHR ''c''"
      using cl assms(2) unfolding t_def by (cases v; cases "drop k d") auto
    have "strneq c_tolower (''keep-alive'' @ [CHR 0x00]) t 10 = Some False" using t by (simp add: eval_nat_numeral c_tolower_def code_def)
    moreover have "strneq c_tolower (''close'' @ [CHR 0x00]) t 5 = Some True" using low [of "''close''"] cl l
      by (simp add: c_tolower_def code_def del: strneq.simps)
    ultimately show ?thesis using h cl assms(1) unfolding t_def
      by (intro exI [of _ h]) (simp add: header_handle_connection_def del: strneq.simps append.simps)
  qed
qed

lemma end_name_ok:
  assumes "w_reqs w r = Some q" "header_name (rq q) = \<lparr>pc = At i, pl = int n\<rparr>" "i + n < length (bdata (recv_buffer q))"
  shows "\<exists>d. end_name r w = Some (w\<lparr>w_reqs := (w_reqs w)(r \<mapsto> q\<lparr>recv_buffer := (recv_buffer q)\<lparr>bdata := d\<rparr>\<rparr>)\<rparr>) \<and>
    length d = length (bdata (recv_buffer q)) \<and> drop (Suc (i + n)) d = drop (Suc (i + n)) (bdata (recv_buffer q))"
proof -
  have "nat (int i + int n) = i + n" by linarith
  then show ?thesis using assms
    by (intro exI [of _ "take (i + n) (bdata (recv_buffer q)) @ [CHR 0x00] @ drop (Suc (i + n)) (bdata (recv_buffer q))"])
      (simp add: end_name_def set_req_def poke_def)
qed

lemma array_offsets: "map_of header_array name = Some (off, h) \<Longrightarrow>
  off \<in> {0, 16, 32, 48} \<and> (h = Handle_connection \<longleftrightarrow> name = ''connection'') \<and> (name = ''connection'' \<longrightarrow> off = 16)"
  by (auto simp: header_array_def split: if_splits)

lemma array_connection: "map_of header_array ''connection'' = Some (16, Handle_connection)"
  by (simp add: header_array_def)

lemma header_round_ok:
  assumes q: "w_reqs w r = Some q" "buffer_wf (recv_buffer q)" "r_state (rq q) = HD_BEGIN"
    and f: "field_ok (name, n, v)" "contents (recv_buffer q) = field_text (name, n, v) @ rest" and t: "header_table w"
  shows "\<exists>q'. header_round ev r w = Some (Go_on, w\<lparr>w_reqs := (w_reqs w)(r \<mapsto> q')\<rparr>) \<and> contents (recv_buffer q') = rest \<and>
    read_fields q q' (field_keep (name, n, v) (keep_alive (rq q))) \<and> r_state (rq q') = HD_BEGIN"
proof -
  let ?low = "map c_tolower name"
  obtain i k b where p: "parse_header (rq q) (recv_buffer q) = Some (OK, (rq q)\<lparr>header_name := \<lparr>pc = At i, pl = int (length name)\<rparr>,
      header_value := \<lparr>pc = At k, pl = int (length v)\<rparr>, r_state := HD_BEGIN\<rparr>, b)" (is "_ = Some (OK, ?x, b)")
    "contents b = rest" "buffer_wf b" "take (length name) (drop i (bdata b)) = ?low"
    "take (length v) (drop k (bdata b)) = v" "i + length name < k" "k + length v < bbegin b"
    using header_slices [of name v "recv_buffer q" n rest "rq q"] q(2,3) f by auto
  let ?q1 = "q\<lparr>rq := ?x, recv_buffer := b\<rparr>" and ?w1 = "w\<lparr>w_reqs := (w_reqs w)(r \<mapsto> q\<lparr>rq := ?x, recv_buffer := b\<rparr>)\<rparr>"
  have le: "bbegin b \<le> bend b" "bend b \<le> limit" "length (bdata b) = limit" using p(3) by (auto simp: buffer_wf_def)
  have fit: "length name \<le> length (drop i (bdata b))" using arg_cong [OF p(4), of length] by simp
  have found: "hash_find (w_headers w) (drop i (bdata b)) (length name) = Some (map_of header_array ?low)"
    using t fit p(4) by (simp add: header_table_def)
  obtain d where d: "end_name r ?w1 = Some (?w1\<lparr>w_reqs := (w_reqs ?w1)(r \<mapsto> ?q1\<lparr>recv_buffer := (recv_buffer ?q1)\<lparr>bdata := d\<rparr>\<rparr>)\<rparr>)"
    "length d = length (bdata b)" "drop (Suc (i + length name)) d = drop (Suc (i + length name)) (bdata b)"
    using end_name_ok [of ?w1 r ?q1 i "length name"] p(6,7) le by auto
  let ?b = "b\<lparr>bdata := d\<rparr>" and ?q2 = "q\<lparr>rq := ?x, recv_buffer := b\<lparr>bdata := d\<rparr>\<rparr>"
  let ?w2 = "w\<lparr>w_reqs := (w_reqs w)(r \<mapsto> ?q2)\<rparr>"
  have same: "drop m d = drop m (bdata b)" if m: "i + length name < m" for m
  proof -
    obtain m' where "m = m' + Suc (i + length name)" using m less_iff_Suc_add [of "i + length name" m] by auto
    then show ?thesis using arg_cong [OF d(3), of "drop m'"] by simp
  qed
  have b2: "contents ?b = rest" "buffer_wf ?b" "take (length v) (drop k d) = v"
    using p(2,3,5-7) same [of "bbegin b"] same [of k] d(2) le by (simp_all add: contents_def segment_def buffer_wf_def)
  have rd: "header_round ev r w = (case map_of header_array ?low of None \<Rightarrow> Some (Go_on, ?w2)
      | Some hv \<Rightarrow> do { (err, w) \<leftarrow> call_header_handler hv r ?w2;
          if err \<noteq> OK then do { w \<leftarrow> http_close_request r w; Some (Return, w) } else Some (Go_on, w) })"
    using q(1) p(1) found d(1) by (simp add: header_round_def set_req_def)
  have fin: "read_fields q (q\<lparr>recv_buffer := ?b, rq := ?x\<lparr>headers := h, keep_alive := ka\<rparr>\<rparr>) ka" for h ka
    using b2(2) unfolding read_fields_def links_def by auto
  have fin0: "read_fields q ?q2 (keep_alive (rq q))"
    using b2(2) unfolding read_fields_def links_def
    by (simp, intro exI [of _ "\<lparr>pc = At i, pl = int (length name)\<rparr>"] exI [of _ "\<lparr>pc = At k, pl = int (length v)\<rparr>"]
      exI [of _ "headers (rq q)"] exI [of _ HD_BEGIN]) simp
  show ?thesis
  proof (cases "?low = ''connection''")
    case True
    have vv: "map c_tolower v \<in> {''keep-alive'', ''close''}" using f(1) True by simp
    obtain h where h: "header_handle_connection d ?x 16 = Some (OK, ?x\<lparr>headers := h, keep_alive := (map c_tolower v = ''keep-alive'')\<rparr>, False)"
      using connection_ok [of ?x k v d, OF _ b2(3) vv] by auto
    show ?thesis
      using h rd b2(1) True array_connection fin [of "map c_tolower v = ''keep-alive''" h]
      by (intro exI [of _ "q\<lparr>recv_buffer := ?b, rq := ?x\<lparr>headers := h, keep_alive := (map c_tolower v = ''keep-alive'')\<rparr>\<rparr>"])
        (simp add: call_header_handler_def set_rq_def set_req_def)
  next
    case False
    show ?thesis
    proof (cases "map_of header_array ?low")
      case None
      then show ?thesis using rd b2(1) False fin0
        by (intro exI [of _ ?q2]) simp
    next
      case (Some hv)
      obtain off hh where hv: "hv = (off, hh)" by (cases hv)
      have o: "off \<in> {0, 16, 32, 48}" "hh = Handle_generic" using array_offsets [of ?low off hh] Some False hv by (cases hh; simp)+
      obtain h where h: "header_handle_generic ?x off = Some (OK, ?x\<lparr>headers := h\<rparr>)" using generic_ok [OF o(1), of ?x] by auto
      show ?thesis
        using h rd b2(1) False Some hv o(2) fin [of "keep_alive (rq q)" h]
        by (intro exI [of _ "q\<lparr>recv_buffer := ?b, rq := ?x\<lparr>headers := h\<rparr>\<rparr>"]) (simp add: call_header_handler_def set_rq_def set_req_def)
    qed
  qed
qed

section \<open>All lines\<close>

lemma empty_line:
  assumes "buffer_wf b" "contents b = [CR, LF]" "r_state r = HD_BEGIN"
  shows "\<exists>b'. parse_header r b = Some (OK, r\<lparr>header_name := NULL_PSTR, header_value := NULL_PSTR, r_state := HD_BEGIN\<rparr>, b') \<and>
    contents b' = [] \<and> buffer_wf b'"
proof -
  let ?p = "bbegin b" and ?d = "bdata b"
  have wf: "?p \<le> bend b" "bend b \<le> limit" "length ?d = limit" using assms(1) by (auto simp: buffer_wf_def)
  have e: "bend b = ?p + 2" using arg_cong [OF assms(2), of length] wf by (simp add: contents_def segment_def)
  have rd: "reads ?d ?p [CR, LF]" using assms(2) wf by (intro segment_reads [of "bend b" _ _ _ "[]"]) (auto simp: contents_def)
  have n: "\<not> name_char CR" by code_simp
  have "header_step r ?d ?p = Some (None, r\<lparr>header_name := NULL_PSTR, header_value := NULL_PSTR, r_state := HD_ALMOST_DONE\<rparr>, ?d)"
    using assms(3) rd n by (simp add: header_step_def Let_def)
  moreover have "header_step (r\<lparr>header_name := NULL_PSTR, header_value := NULL_PSTR, r_state := HD_ALMOST_DONE\<rparr>) ?d (Suc ?p) =
      Some (Some OK, r\<lparr>header_name := NULL_PSTR, header_value := NULL_PSTR, r_state := HD_ALMOST_DONE\<rparr>, ?d)"
    using rd by (simp add: header_step_def)
  ultimately have "scan header_step r ?d ?p (bend b - ?p) =
      Some (Some OK, r\<lparr>header_name := NULL_PSTR, header_value := NULL_PSTR, r_state := HD_ALMOST_DONE\<rparr>, ?d, Suc ?p)"
    using e rd by (simp add: numeral_2_eq_2)
  then show ?thesis using wf e assms(1)
    by (intro exI [of _ "b\<lparr>bdata := ?d, bbegin := Suc ?p + 1\<rparr>"])
      (simp add: parse_header_def parse_with_def header_done_def contents_def segment_def buffer_wf_def)
qed

lemma header_loop_ok:
  assumes "w_reqs w r = Some q" "buffer_wf (recv_buffer q)" "r_state (rq q) = HD_BEGIN" "\<not> response_done (rq q)"
    and "\<forall>f \<in> set hs. field_ok f" "contents (recv_buffer q) = concat (map field_text hs) @ [CR, LF]" "header_table w"
  shows "\<exists>q'. header_loop ev r w = Some (True, w\<lparr>w_reqs := (w_reqs w)(r \<mapsto> q')\<rparr>) \<and> contents (recv_buffer q') = [] \<and>
    read_fields q q' (fold field_keep hs (keep_alive (rq q)))"
  using assms
proof (induction hs arbitrary: w q)
  case Nil
  obtain b where b: "parse_header (rq q) (recv_buffer q) =
      Some (OK, (rq q)\<lparr>header_name := NULL_PSTR, header_value := NULL_PSTR, r_state := HD_BEGIN\<rparr>, b)" "contents b = []" "buffer_wf b"
    using empty_line [OF Nil(2) _ Nil(3)] Nil(6) by auto
  let ?q = "q\<lparr>rq := (rq q)\<lparr>header_name := NULL_PSTR, header_value := NULL_PSTR, r_state := HD_BEGIN\<rparr>, recv_buffer := b\<rparr>"
  have "header_round ev r w = Some (To_done, w\<lparr>w_reqs := (w_reqs w)(r \<mapsto> ?q)\<rparr>)"
    using Nil(1) b(1) by (simp add: header_round_def set_req_def NULL_PSTR_def)
  moreover have "read_fields q ?q (keep_alive (rq q))"
    unfolding read_fields_def using b(3)
    by (simp add: links_def) (intro exI [of _ NULL_PSTR] exI [of _ "headers (rq q)"] exI [of _ HD_BEGIN]; simp)
  ultimately show ?case using Nil(1,4) b(2)
    by (subst header_loop.simps) (intro exI [of _ ?q], simp)
next
  case (Cons f hs)
  obtain name n v where f: "f = (name, n, v)" by (cases f)
  have fo: "field_ok (name, n, v)" "contents (recv_buffer q) = field_text (name, n, v) @ (concat (map field_text hs) @ [CR, LF])"
    using Cons.prems(5,6) f by (auto simp del: field_ok.simps field_text.simps)
  obtain q1 where q1: "header_round ev r w = Some (Go_on, w\<lparr>w_reqs := (w_reqs w)(r \<mapsto> q1)\<rparr>)"
    "contents (recv_buffer q1) = concat (map field_text hs) @ [CR, LF]" "read_fields q q1 (field_keep f (keep_alive (rq q)))"
    "r_state (rq q1) = HD_BEGIN"
    using header_round_ok [OF Cons.prems(1-3) fo Cons.prems(7), of ev] unfolding f by blast
  have ok1: "\<not> response_done (rq q1)" "keep_alive (rq q1) = field_keep f (keep_alive (rq q))" "buffer_wf (recv_buffer q1)"
    using q1(3) Cons.prems(4) unfolding read_fields_def by auto
  let ?w = "w\<lparr>w_reqs := (w_reqs w)(r \<mapsto> q1)\<rparr>"
  have "w_reqs ?w r = Some q1" "header_table ?w" "\<forall>f \<in> set hs. field_ok f" using Cons.prems(5,7) by (auto simp: header_table_def)
  from Cons.IH [OF this(1) ok1(3) q1(4) ok1(1) this(3) q1(2) this(2)]
  obtain q2 where q2: "header_loop ev r ?w = Some (True, ?w\<lparr>w_reqs := (w_reqs ?w)(r \<mapsto> q2)\<rparr>)" "contents (recv_buffer q2) = []"
    "read_fields q1 q2 (fold field_keep hs (keep_alive (rq q1)))" by blast
  have "header_loop ev r w = Some (True, w\<lparr>w_reqs := (w_reqs w)(r \<mapsto> q2)\<rparr>)"
    using Cons.prems(1,4) q1(1) q2(1) by (subst header_loop.simps) simp
  moreover have "read_fields q q2 (fold field_keep (f # hs) (keep_alive (rq q)))"
    using read_fields_trans [OF q1(3) q2(3)] ok1(2) by simp
  ultimately show ?case using q2(2) by blast
qed

end
