(* ===== verification/Get_Request.thy ===== *)
theory Get_Request
  imports Header_Fields
begin

text \<open>
  A request from its first byte to its answer: \<open>http_init_request\<close> runs through the handlers for
  the request line, the headers and the body in one call when everything has arrived. The lemmas
  follow the handlers in this order.
\<close>

section \<open>A new request\<close>

lemma request_memory:
  "\<exists>p0 a1 p1 a2 p2 a3 p3. createPool True 3488 = Some p0 \<and> pMalloc p0 336 = Some (Some a1, p1) \<and>
    pMalloc p1 1056 = Some (Some a2, p2) \<and> pMalloc p2 1056 = Some (Some a3, p3)"
  using ring_exceeds_pool by blast

definition new_request :: "buffer \<Rightarrow> memory_pool \<Rightarrow> slot \<Rightarrow> http_request" where
  "new_request raw pool c = \<lparr>rq = zero_request\<lparr>r_state := RQ_BEGIN\<rparr>, rq_pool = pool, recv_buffer = buffer_clear raw,
     send_buffer = buffer_clear raw, connection = Some c, upstream = None, upstream_tries = 0, cur_upstream = None,
     cur_server_domain = None\<rparr>"

text \<open>The events of a client whose request is read: the read event is armed, the write event, \<open>e0\<close>, is at rest.\<close>

fun start_events :: "handler event \<Rightarrow> handler \<Rightarrow> dir \<Rightarrow> handler event" where
  "start_events e0 h READ_EVENT = init_event\<lparr>ev_handler := Some h\<rparr>"
| "start_events e0 h WRITE_EVENT = e0"

definition at_rest :: "handler event \<Rightarrow> bool" where
  "at_rest e \<longleftrightarrow> \<not> ev_active e \<and> \<not> timer_set e \<and> \<not> timedout e"

abbreviation with_request :: "slot \<Rightarrow> conn \<Rightarrow> http_request \<Rightarrow> handler timers \<Rightarrow> world \<Rightarrow> world" where
  "with_request c k q S w \<equiv> w\<lparr>w_next := w_next w + 1,
     w_conns := (w_conns w)(c \<mapsto> k\<lparr>c_data := Some (w_next w)\<rparr>), w_reqs := (w_reqs w)(w_next w \<mapsto> q), w_tm := S\<rparr>"

lemma srv_new_request:
  assumes inv: "srv_inv w L xs" and c: "c \<in> L" "waiting t w xs c a" and r: "w_reqs w (w_next w) = None"
    and raw: "length (bdata raw) = limit"
    and S: "S = (w_tm w)\<lparr>tm_events := (tm_events (w_tm w))(rev_of c \<mapsto> start_events zero_event Process_request_line READ_EVENT)\<rparr>"
  shows "srv_inv (with_request c (accepted (fst a) (snd a)) (new_request raw pool c) S w) L xs" (is "srv_inv ?w _ _")
proof -
  note D = srv_invD [OF inv]
  let ?q = "new_request raw pool c"
  have ce: "w_conns w c = Some (accepted (fst a) (snd a))" "get_ev (rev_of c) w = Some init_event" "get_ev (wev_of c) w = Some zero_event"
    using c(2) unfolding waiting_def by blast+
  have n: "data_of w c = None" by (simp add: data_of_def ce(1))
  have d: "data_of ?w b = (if b = c then Some (w_next w) else data_of w b)" for b by (simp add: data_of_def)
  have old: "data_of w b \<noteq> Some (w_next w)" if "b \<in> L" for b
  proof
    assume "data_of w b = Some (w_next w)"
    then have "client w b \<or> backend w b" using D(4) [OF that] by simp
    then show False using r \<open>data_of w b = Some (w_next w)\<close> by (auto simp: client_def backend_def)
  qed
  have eq: "map_option links (w_reqs ?w r0) = map_option links (w_reqs w r0)" if "b \<in> L" "data_of w b = Some r0" for b r0
    using old [OF that(1)] that(2) by auto
  have tc: "client ?w b = client w b" "backend ?w b = backend w b" "typed ?w b di h = typed w b di h" "chosen ?w b = chosen w b"
    if b: "b \<in> L" "b \<noteq> c" for b di h
  proof -
    have "w_conns ?w b = w_conns w b" using b(2) by simp
    note t = typed_cong [OF this eq [OF b(1)]]
    show "client ?w b = client w b" "backend ?w b = backend w b" "typed ?w b di h = typed w b di h" "chosen ?w b = chosen w b"
      using t by blast+
  qed
  have link: "connection ?q = Some c" "upstream ?q = None" "cur_upstream ?q = None" by (simp_all add: new_request_def)
  have cl: "client ?w c" unfolding client_def d using link(1) by (intro exI [of _ "w_next w"] exI [of _ ?q]) simp
  have ge: "get_ev (ev_of b di) ?w = (if b = c \<and> di = READ_EVENT then Some (start_events zero_event Process_request_line READ_EVENT) else get_ev (ev_of b di) w)" for b di
    by (cases di) (simp_all add: get_ev_def S)
  have ci: "conn_inv ?w L xs"
  proof -
    obtain w1 where w1: "set_ev (\<lambda>_. start_events zero_event Process_request_line READ_EVENT) (rev_of c) w = Some w1" "conn_inv w1 L xs"
      "w1 = w\<lparr>w_tm := S\<rparr>"
      using set_active_ok [OF D(1) c(1), of READ_EVENT init_event "\<lambda>_. start_events zero_event Process_request_line READ_EVENT"] ce(2) S by auto
    then show ?thesis using conn_inv_conns [OF w1(2) c(1), of "(accepted (fst a) (snd a))\<lparr>c_data := Some (w_next w)\<rparr>"]
        conn_inv_cong [of ?w "w1\<lparr>w_conns := (w_conns w1)(c \<mapsto> (accepted (fst a) (snd a))\<lparr>c_data := Some (w_next w)\<rparr>)\<rparr>"] by simp
  qed
  show ?thesis
  proof (rule srv_invI [OF ci])
    show "81 \<le> length (w_static ?w)" using D(2) by simp
    show "req_ok ?w L r0 q0" if q0: "w_reqs ?w r0 = Some q0" for r0 q0
    proof (cases "r0 = w_next w")
      case True
      then have "q0 = ?q" using q0 by simp
      moreover have "buffer_wf (recv_buffer ?q)" "buffer_wf (send_buffer ?q)"
        using raw by (simp_all add: new_request_def buffer_wf_def buffer_clear_def)
      ultimately show ?thesis using True c(1) link unfolding req_ok_def d by simp
    next
      case False
      then have "req_ok w L r0 q0" using D(3) q0 by simp
      moreover have "data_of w b = Some r0 \<Longrightarrow> b \<noteq> c" for b using n by auto
      ultimately show ?thesis unfolding req_ok_def d by fastforce
    qed
    show "client ?w b \<or> backend ?w b" if "b \<in> L" "data_of ?w b \<noteq> None" for b
      using that cl D(4) [of b] tc(1,2) [of b] d by (cases "b = c") auto
    show "typed ?w b di h" if "b \<in> L" "get_ev (ev_of b di) ?w = Some e" "ev_handler e = Some h" for b di e h
    proof (cases "b = c")
      case True
      then show ?thesis using that(2) [unfolded ge] that(3) ce(3) cl by (cases di) (auto simp: zero_event_def)
    next
      case False
      then show ?thesis using that(1) that(2) [unfolded ge] that(3) D(5) [of b di e h] tc(3) [of b] by simp
    qed
    show "armed_ok ?w b di" if b: "ev_of b di \<in> snd ` set xs" for b di
    proof (cases "b = c")
      case True
      have "di = READ_EVENT"
      proof (cases di)
        case WRITE_EVENT
        then have "armed_ok w c WRITE_EVENT" using D(6) [OF b] True by simp
        then show ?thesis using ce(3) by (auto simp: armed_ok_def zero_event_def)
      qed simp
      then show ?thesis using True unfolding armed_ok_def ge by auto
    next
      case False
      obtain key where "(key, ev_of b di) \<in> set xs" using b by auto
      from timers_live [OF D(1) this] have "b \<in> L" by auto
      then show ?thesis using D(6) [OF b] False tc(4) [of b] unfolding armed_ok_def ge by simp
    qed
  qed
qed

lemma init_request_ok:
  assumes inv: "srv_inv w L xs" and c: "c \<in> L" "waiting t w xs c a" "fst a > 0" and r: "w_reqs w (w_next w) = None"
    and raw: "length (bdata (w_heap w)) = limit" and pool: "request_pool_size (w_cfg w) = 3488"
  shows "\<exists>pool S. http_init_request (rev_of c) w =
      process_request_line (rev_of c) (with_request c (accepted (fst a) (snd a)) (new_request (w_heap w) pool c) S w) \<and>
    serving (with_request c (accepted (fst a) (snd a)) (new_request (w_heap w) pool c) S w) L xs c
      ((accepted (fst a) (snd a))\<lparr>c_data := Some (w_next w)\<rparr>) (w_next w) (new_request (w_heap w) pool c) (start_events zero_event Process_request_line) \<and>
    current_msec S = current_msec (w_tm w)"
proof -
  obtain p0 a1 p1 a2 p2 a3 p3 where p: "createPool True 3488 = Some p0" "pMalloc p0 336 = Some (Some a1, p1)"
    "pMalloc p1 1056 = Some (Some a2, p2)" "pMalloc p2 1056 = Some (Some a3, p3)" using request_memory by blast
  let ?S = "(w_tm w)\<lparr>tm_events := (tm_events (w_tm w))(rev_of c \<mapsto> start_events zero_event Process_request_line READ_EVENT)\<rparr>"
  let ?q = "new_request (w_heap w) p3 c" and ?k = "accepted (fst a) (snd a)"
  let ?w = "with_request c ?k ?q ?S w"
  have ce: "w_conns w c = Some ?k" "get_ev (rev_of c) w = Some init_event" "get_ev (wev_of c) w = Some zero_event"
    using c(2) unfolding waiting_def by blast+
  have i: "srv_inv ?w L xs" by (rule srv_new_request [OF inv c(1,2) r raw refl])
  have "get_ev (ev_of c d) ?w = Some (start_events zero_event Process_request_line d)" for d
    using ce(3) by (cases d) (simp_all add: get_ev_def)
  then have s: "serving ?w L xs c (?k\<lparr>c_data := Some (w_next w)\<rparr>) (w_next w) ?q (start_events zero_event Process_request_line)"
    using i c(1,3) by (simp add: serving_def new_request_def)
  have "http_init_request (rev_of c) w = process_request_line (rev_of c) ?w"
    using ce p pool by (simp add: Let_def http_init_request_def create_http_request_def createBuffer_def set_conn_def set_req_def
        set_handler_def set_ev_def on_timers_def set_event_def get_ev_def SIZEOF_REQUEST_def SIZEOF_BUFFER_def new_request_def buffer_clear_def)
  then show ?thesis using s by (intro exI [of _ p3] exI [of _ ?S]) simp
qed

section \<open>The file that is served\<close>

lemma path_served:
  assumes pa: "path_at d (r_uri x) p" "p < length d"
    and t: "text_of d (abs_path (r_uri x)) = Some w" "w \<noteq> []" "ext_of d (extension (r_uri x)) = e" "CHR 0x00 \<notin> set w"
  shows "\<exists>i d'. abs_path (r_uri x) = \<lparr>pc = At i, pl = int (length w)\<rparr> \<and> take (length w) (drop i d) = w \<and> i + length w \<le> length d \<and>
    process_abs_path d x = Some (x, d', At i) \<and> c_string d' (At i) = Some (w @ ext_text e) \<and>
    length d' = length d \<and> drop (Suc p) d' = drop (Suc p) d \<and>
    (\<forall>x'. r_uri x' = r_uri x \<longrightarrow> process_extension d' x' = Some (x'\<lparr>r_uri := (r_uri x)\<lparr>extension := Ext_type (type_of e)\<rparr>\<rparr>))"
proof -
  have cut: "\<exists>d'. poke d k [CHR 0x00] = Some d' \<and> length d' = length d \<and> drop (Suc p) d' = drop (Suc p) d" if "k \<le> p" for k
    using that pa(2) by (auto simp: poke_def Suc_diff_le)
  have tw: "takeWhile (\<lambda>c. c \<noteq> CHR 0x00) w = w" using t(4) unfolding takeWhile_eq_all_conv by blast
  consider (none) "no_path (r_uri x)"
    | (query) i where "abs_path (r_uri x) = \<lparr>pc = At i, pl = 0\<rparr>"
    | (path) i j where "abs_path (r_uri x) = \<lparr>pc = At i, pl = int (j - i)\<rparr>" "no_ext (r_uri x)" "j \<le> p" "i < j"
    | (ext) i j k where "abs_path (r_uri x) = \<lparr>pc = At i, pl = int (j - i)\<rparr>" "i < j" "d ! j = CHR ''.''"
        "extension (r_uri x) = Ext_str \<lparr>pc = At (Suc j), pl = int (k - Suc j)\<rparr>" "letters d (Suc j) k" "k \<le> p"
    using pa(1) unfolding path_at_def plain_def by blast
  then show ?thesis
  proof cases
    case none
    then show ?thesis using t(1) by (simp add: no_path_def NULL_PSTR_def text_of_def)
  next
    case query
    then show ?thesis using t(1,2) by (simp add: text_of_def)
  next
    case path
    have n: "nat (int j - int i) = j - i" using path(4) by linarith
    have w: "segment d i j = w" "length w = j - i" using t(1) path pa(2) n by (auto simp: text_of_def)
    have ab: "abs_path (r_uri x) = \<lparr>pc = At i, pl = int (length w)\<rparr>" "j = i + length w" using path(1,4) w(2) by simp_all
    have e: "e = None" using t(3) path(2) by (simp add: no_ext_def ext_of_def text_of_def NULL_PSTR_def)
    obtain d' where d': "poke d j [CHR 0x00] = Some d'" "length d' = length d" "drop (Suc p) d' = drop (Suc p) d"
      using cut path by auto
    have "process_abs_path d x = Some (x, d', At i)"
      using path(2) d'(1) ab by (simp add: process_abs_path_def no_ext_def NULL_PSTR_def)
    moreover have "c_string d' (At i) = Some w" using c_string_cut [OF d'(1), of i] path(4) w(1) tw by simp
    moreover have "process_extension d' x' = Some (x'\<lparr>r_uri := (r_uri x)\<lparr>extension := Ext_type (type_of e)\<rparr>\<rparr>)" if "r_uri x' = r_uri x" for x'
      using process_extension_text [of x' NULL_PSTR e d'] that path(2) e by (simp add: no_ext_def)
    moreover have "take (length w) (drop i d) = w" using w by (simp add: segment_def)
    ultimately show ?thesis using ab path(3) d'(2,3) e pa(2)
      by (intro exI [of _ i] exI [of _ d']) (simp add: ext_text_def)
  next
    case ext
    have jk: "Suc j < k" using ext(5) by (simp add: letters_def)
    have n: "nat (int j - int i) = j - i" "nat (int k - int (Suc j)) = k - Suc j" "nat (int k - int i) = k - i" using ext(2) jk by linarith+
    have w: "segment d i j = w" "length w = j - i" using t(1) ext jk pa(2) n by (auto simp: text_of_def)
    have ab: "abs_path (r_uri x) = \<lparr>pc = At i, pl = int (length w)\<rparr>" "j = i + length w" using ext(1,2) w(2) by simp_all
    define m where "m = k - Suc j"
    then have xm: "extension (r_uri x) = Ext_str \<lparr>pc = At (Suc j), pl = int m\<rparr>" "k = Suc j + m" using ext(4) jk by simp_all
    let ?y = "segment d (Suc j) k"
    have e: "e = Some ?y" using t(3) xm by (simp add: ext_of_def text_of_def)
    have "\<not> alpha (CHR 0x00)" by (simp add: alpha_def upper_def lower_def code_def)
    then have "CHR 0x00 \<notin> set ?y" using ext(5,6) pa(2) unfolding letters_def by (auto simp: set_segment)
    then have ty: "takeWhile (\<lambda>c. c \<noteq> CHR 0x00) (w @ CHR ''.'' # ?y) = w @ CHR ''.'' # ?y" using t(4) unfolding takeWhile_eq_all_conv by auto
    have seg: "segment d i k = w @ CHR ''.'' # ?y"
      using segment_append [of j "Suc j" k d] segment_append [of i j k d] segment_snoc [of j j d] ext jk pa(2) w(1) by simp
    have k: "i + nat (int (length w) + (int m + 1)) = k" using ab(2) xm(2) by simp
    obtain d' where d': "poke d k [CHR 0x00] = Some d'" "length d' = length d" "drop (Suc p) d' = drop (Suc p) d"
      using cut ext by auto
    have "process_abs_path d x = Some (x, d', At i)"
      using ab(1) xm(1) d'(1) k by (simp add: process_abs_path_def)
    moreover have "c_string d' (At i) = Some (w @ ext_text e)"
      using c_string_cut [OF d'(1), of i] ext(2) jk seg ty e by (simp add: ext_text_def)
    moreover have "process_extension d' x' = Some (x'\<lparr>r_uri := (r_uri x)\<lparr>extension := Ext_type (type_of e)\<rparr>\<rparr>)" if "r_uri x' = r_uri x" for x'
    proof -
      have "segment d' (Suc j) k = ?y" using poke_segment(1) [OF d'(1), of "Suc j"] jk by simp
      then show ?thesis
        using process_extension_text [of x' "\<lparr>pc = At (Suc j), pl = int m\<rparr>" e d'] that ext(6) xm e pa(2) d'(2) by simp
    qed
    moreover have "take (length w) (drop i d) = w" using w by (simp add: segment_def)
    ultimately show ?thesis using ab ext(6) jk d'(2,3) pa(2) by (intro exI [of _ i] exI [of _ d']) simp
  qed
qed

section \<open>The request line\<close>

text \<open>What the client asks for, and that the program has it: a file below the root, not a back end.\<close>

definition asks_for :: "world \<Rightarrow> char list \<Rightarrow> char list option \<Rightarrow> char \<Rightarrow> int \<Rightarrow> bool" where
  "asks_for w path e a rfd \<longleftrightarrow> path_text path \<and> ext_ok e \<and> digit a \<and> CHR 0x00 \<notin> set path \<and> path \<noteq> ''backend'' \<and>
     (\<forall>name n. n \<le> length name \<longrightarrow> hash_find (cfg_locations (w_cfg w)) name n =
        Some (if take n name = ''backend'' then Some locations_1 else None)) \<and>
     open_root (w_fs w) (path @ ext_text e) = rfd \<and> rfd > 0 \<and> \<not> is_dir (w_fs w) rfd"

abbreviation get_line :: "char list \<Rightarrow> char list option \<Rightarrow> char \<Rightarrow> char list" where
  "get_line path e a \<equiv> request_line_text M_GET path e a (CHR ''1'')"

text \<open>The request when its first line has been processed.\<close>

definition line_done :: "world \<Rightarrow> char list option \<Rightarrow> int \<Rightarrow> http_request \<Rightarrow> http_request \<Rightarrow> bool" where
  "line_done w e rfd q q' \<longleftrightarrow> links q' = links q \<and> send_buffer q' = send_buffer q \<and> r_state (rq q') = HD_BEGIN \<and>
     minor (rq q') = 1 \<and> keep_alive (rq q') \<and> \<not> response_done (rq q') \<and> content_length (rq q') = 0 \<and>
     resource_fd (rq q') = rfd \<and> resource_len (rq q') = size_of (w_fs w) rfd \<and> resource_off (rq q') = 0 \<and>
     extension (r_uri (rq q')) = Ext_type (type_of e)"

lemma recv_all:
  assumes "length w \<le> limit" "w \<noteq> []" "length (bdata b) = limit"
  shows "\<exists>d. buffer_recv (buffer_clear b) [Data w] = Some (AGAIN, (buffer_clear b)\<lparr>bdata := d, bend := length w\<rparr>, []) \<and>
    length d = limit \<and> take (length w) d = w"
  using assms by (auto simp: buffer_full_def buffer_clear_def poke_def Let_def limit_def)

lemma digit_one: "digit (CHR ''1'')" "add_digit 0 (CHR ''1'') = 1"
  by (simp_all add: digit_def add_digit_def code_def)

lemma process_uri_ok:
  assumes q: "w_reqs w r = Some q" "upstream q = None" "connection q = Some c"
    and ask: "asks_for w path e a rfd"
    and u: "path_at (bdata (recv_buffer q)) (r_uri (rq q)) p" "p < length (bdata (recv_buffer q))"
      "text_of (bdata (recv_buffer q)) (abs_path (r_uri (rq q))) = Some path" "ext_of (bdata (recv_buffer q)) (extension (r_uri (rq q))) = e"
    and m: "minor (rq q) = 1"
  shows "\<exists>d. process_uri r w = Some (OK, w\<lparr>w_reqs := (w_reqs w)(r \<mapsto> q\<lparr>recv_buffer := (recv_buffer q)\<lparr>bdata := d\<rparr>, rq := (rq q)\<lparr>resource_fd := rfd,
      resource_len := size_of (w_fs w) rfd, r_uri := (r_uri (rq q))\<lparr>extension := Ext_type (type_of e)\<rparr>, keep_alive := True\<rparr>\<rparr>)\<rparr>) \<and>
    length d = length (bdata (recv_buffer q)) \<and> drop (Suc p) d = drop (Suc p) (bdata (recv_buffer q))"
proof -
  let ?d = "bdata (recv_buffer q)" and ?x = "rq q"
  have path: "path \<noteq> []" "CHR 0x00 \<notin> set path" using ask by (auto simp: asks_for_def path_text_def)
  obtain i d where d: "abs_path (r_uri ?x) = \<lparr>pc = At i, pl = int (length path)\<rparr>" "take (length path) (drop i ?d) = path"
    "i + length path \<le> length ?d" "process_abs_path ?d ?x = Some (?x, d, At i)" "c_string d (At i) = Some (path @ ext_text e)"
    "length d = length ?d" "drop (Suc p) d = drop (Suc p) ?d"
    "\<forall>x'. r_uri x' = r_uri ?x \<longrightarrow> process_extension d x' = Some (x'\<lparr>r_uri := (r_uri ?x)\<lparr>extension := Ext_type (type_of e)\<rparr>\<rparr>)"
    using path_served [OF u(1,2,3) path(1) u(4) path(2)] by blast
  have loc: "hash_find (cfg_locations (w_cfg w)) (drop i ?d) (length path) = Some None"
    using ask d(2,3) by (simp add: asks_for_def)
  have opened: "open_root (w_fs w) (path @ ext_text e) = rfd" "rfd > 0" "\<not> is_dir (w_fs w) rfd" using ask by (simp_all add: asks_for_def)
  have serve: "serve_file (w_fs w) (w_static w) ?x (send_buffer q) ?d =
      Some (OK, ?x\<lparr>resource_fd := rfd, resource_len := size_of (w_fs w) rfd\<rparr>, send_buffer q, d, [])"
    using d(4,5) opened by (simp add: serve_file_def Let_def)
  have "process_uri r w = Some (OK, w\<lparr>w_reqs := (w_reqs w)(r \<mapsto> q\<lparr>recv_buffer := (recv_buffer q)\<lparr>bdata := d\<rparr>, rq := ?x\<lparr>resource_fd := rfd,
      resource_len := size_of (w_fs w) rfd, r_uri := (r_uri ?x)\<lparr>extension := Ext_type (type_of e)\<rparr>, keep_alive := True\<rparr>\<rparr>)\<rparr>)"
    using q d(1,8) loc serve m by (simp add: process_uri_def Let_def set_req_def set_rq_def)
  then show ?thesis using d(6,7) by blast
qed

text \<open>A request of which nothing has been received: a new one, or one whose answer has gone out.\<close>

definition blank :: "http_request \<Rightarrow> bool" where
  "blank q \<longleftrightarrow> (\<exists>s. rq q = zero_request\<lparr>header_name := s\<rparr>) \<and> (\<exists>raw. recv_buffer q = buffer_clear raw \<and> length (bdata raw) = limit)"

lemma fresh_named: "fresh_request (zero_request\<lparr>header_name := s\<rparr>)"
  by (simp add: fresh_request_def zero_request_def)

text \<open>The request line arrives with everything behind it; the handler goes on to the headers.\<close>

lemma line_ok:
  assumes s: "serving w L xs c k r q (start_events e0 Process_request_line)"
    and blank: "blank q"
    and data: "w_recv w (c_fd k) = [Data (get_line path e a @ rest)]" "length (get_line path e a @ rest) \<le> limit"
    and ask: "asks_for w path e a rfd"
  shows "\<exists>S q'. process_request_line (rev_of c) w = http_parse_headers (rev_of c)
      (w\<lparr>w_recv := (w_recv w)(c_fd k := []), w_tm := S, w_reqs := (w_reqs w)(r \<mapsto> q')\<rparr>) \<and>
    serving (w\<lparr>w_recv := (w_recv w)(c_fd k := []), w_tm := S, w_reqs := (w_reqs w)(r \<mapsto> q')\<rparr>) L xs c k r q' (start_events e0 Parse_headers) \<and>
    line_done w e rfd q q' \<and> contents (recv_buffer q') = rest \<and> current_msec S = current_msec (w_tm w)"
proof -
  note D = servingD [OF s]
  obtain hn raw where q: "rq q = zero_request\<lparr>header_name := hn\<rparr>" "recv_buffer q = buffer_clear raw" "length (bdata raw) = limit"
    using blank by (auto simp: blank_def)
  let ?z = "zero_request\<lparr>header_name := hn\<rparr>"
  have k: "c_fd k > 0" "w_conns w c = Some k" "c_data k = Some r" by (rule D)+
  have ne: "get_line path e a @ rest \<noteq> []" by (simp add: request_line_text_def)
  obtain d where d: "buffer_recv (buffer_clear raw) [Data (get_line path e a @ rest)] =
      Some (AGAIN, (buffer_clear raw)\<lparr>bdata := d, bend := length (get_line path e a @ rest)\<rparr>, [])" "length d = limit"
    "take (length (get_line path e a @ rest)) d = get_line path e a @ rest"
    using recv_all [OF data(2) ne q(3)] by blast
  let ?b = "(buffer_clear raw)\<lparr>bdata := d, bend := length (get_line path e a @ rest)\<rparr>"
  have b: "buffer_wf ?b" "contents ?b = get_line path e a @ rest"
    using d(2,3) data(2) by (simp_all add: buffer_wf_def buffer_clear_def contents_def segment_def)
  have get: "M_GET \<noteq> M_INVALID_METHOD" by simp
  have ok: "path_text path" "ext_ok e" "digit a" using ask by (simp_all add: asks_for_def)
  obtain l u b1 where p: "parse_request_line ?z ?b = Some (OK, ?z\<lparr>request_line := l, r_method := M_GET, r_uri := u,
      major := add_digit 0 a, minor := add_digit 0 (CHR ''1''), r_state := RQ_DONE\<rparr>, b1)" (is "_ = Some (OK, ?x, b1)")
    "contents b1 = rest" "text_of (bdata ?b) (abs_path u) = Some path" "ext_of (bdata ?b) (extension u) = e"
    using accept_request_line_exact [OF get ok digit_one(1) fresh_named b] by blast
  obtain b1': "buffer_wf b1" "bdata b1 = d" "bend b1 = bend ?b"
    using parse_request_line_total [OF b(1) fresh_rl_inv [OF fresh_named [of hn]]] p(1) by force
  note at = parsed_path_at [OF b(1) fresh_rl_inv [OF fresh_named] p(1)]
  let ?q1 = "q\<lparr>rq := ?x, recv_buffer := b1\<rparr>" and ?q2 = "q\<lparr>recv_buffer := b1, rq := ?x\<lparr>r_state := HD_BEGIN\<rparr>\<rparr>"
  let ?w0 = "w\<lparr>w_recv := (w_recv w)(c_fd k := [])\<rparr>"
  let ?w1 = "?w0\<lparr>w_reqs := (w_reqs w)(r \<mapsto> ?q1)\<rparr>"
  have s0: "serving ?w0 L xs c k r q (start_events e0 Process_request_line)" by (rule serving_cong [OF s]) simp_all
  have s1: "serving ?w1 L xs c k r ?q1 (start_events e0 Process_request_line)"
    using serving_req [OF s0, of ?q1] b1'(1) D(13) by (simp add: links_def)
  have ev: "(start_events e0 Process_request_line)(READ_EVENT := (start_events e0 Process_request_line READ_EVENT)\<lparr>ev_handler := Some Parse_headers\<rparr>) =
      start_events e0 Parse_headers" by (rule ext, case_tac x) simp_all
  have ch: "client_handler READ_EVENT Parse_headers" by simp
  obtain S where S: "set_handler Parse_headers (rev_of c) ?w1 = Some (?w1\<lparr>w_tm := S\<rparr>)"
    "serving (?w1\<lparr>w_tm := S\<rparr>) L xs c k r ?q1 (start_events e0 Parse_headers)" "current_msec S = current_msec (w_tm w)"
    using serving_handler [OF s1 ch] unfolding ev by auto
  let ?w2 = "w\<lparr>w_recv := (w_recv w)(c_fd k := []), w_tm := S, w_reqs := (w_reqs w)(r \<mapsto> ?q2)\<rparr>"
  have ask2: "asks_for ?w2 path e a rfd" using ask by (simp add: asks_for_def)
  have r2: "w_reqs ?w2 r = Some ?q2" by simp
  obtain d3 where d3: "process_uri r ?w2 = Some (OK, ?w2\<lparr>w_reqs := (w_reqs ?w2)(r \<mapsto> ?q2\<lparr>recv_buffer := (recv_buffer ?q2)\<lparr>bdata := d3\<rparr>,
      rq := (rq ?q2)\<lparr>resource_fd := rfd, resource_len := size_of (w_fs ?w2) rfd,
        r_uri := (r_uri (rq ?q2))\<lparr>extension := Ext_type (type_of e)\<rparr>, keep_alive := True\<rparr>\<rparr>)\<rparr>)"
    "length d3 = length d" "drop (bbegin b1) d3 = drop (bbegin b1) d"
    using process_uri_ok [OF r2 _ _ ask2, of c "bbegin b1 - 1"] at D(7,8) p(3,4) b1'(2) digit_one(2) by auto
  let ?q3 = "q\<lparr>recv_buffer := b1\<lparr>bdata := d3\<rparr>, rq := ?x\<lparr>r_state := HD_BEGIN, resource_fd := rfd, resource_len := size_of (w_fs w) rfd,
      r_uri := u\<lparr>extension := Ext_type (type_of e)\<rparr>, keep_alive := True\<rparr>\<rparr>"
  let ?w3 = "w\<lparr>w_recv := (w_recv w)(c_fd k := []), w_tm := S, w_reqs := (w_reqs w)(r \<mapsto> ?q3)\<rparr>"
  have "process_request_line (rev_of c) w = http_parse_headers (rev_of c) ?w3"
    using k serving_evs [OF s] D(6) d(1) p(1) q(1,2) data(1) S(1) d3(1)
    by (simp add: process_request_line_def recv_into_def set_req_def set_rq_def Let_def del: buffer_recv.simps)
  moreover have "serving ?w3 L xs c k r ?q3 (start_events e0 Parse_headers)"
    using serving_req [OF S(2), of ?q3] b1' D(13) d3(2) d(2) by (simp add: links_def buffer_wf_def)
  moreover have "line_done w e rfd q ?q3" using q(1) digit_one(2) by (simp add: line_done_def links_def zero_request_def)
  moreover have "contents (b1\<lparr>bdata := d3\<rparr>) = rest"
    using p(2) b1'(2) d3(3) by (simp add: contents_def segment_def)
  ultimately show ?thesis using S(3) by (intro exI [of _ S] exI [of _ ?q3]) simp
qed

section \<open>The headers and the answer\<close>

lemma recv_none:
  assumes "w_reqs w r = Some q" "w_recv w fd = []"
  shows "recv_into recv_buffer recv_buffer_update r fd w = Some (AGAIN, w)"
proof -
  have "(w_reqs w)(r \<mapsto> q) = w_reqs w" "(w_recv w)(fd := []) = w_recv w" using assms by (simp_all add: fun_upd_idem)
  then show ?thesis using assms by (simp add: recv_into_def set_req_def)
qed

lemma no_body:
  "w_reqs w r = Some q \<Longrightarrow> content_length (rq q) = 0 \<Longrightarrow> parse_request_body_identity r w = Some (OK, w)"
  by (simp add: parse_request_body_identity_def Let_def)

text \<open>The answer is prepared, and the client's write event is registered with a timer.\<close>

text \<open>What the handlers of such a request leave alone.\<close>

definition outside :: "world \<Rightarrow> config \<times> file_system \<times> header_val hash \<times> (int \<Rightarrow> char list) \<times> sock_out list list \<times> file_out list list" where
  "outside w = (w_cfg w, w_fs w, w_headers w, w_file w, w_send w, w_sendfile w)"

lemma answer_ok:
  assumes s: "serving w L xs c k r q E" and E: "at_rest (E WRITE_EVENT)"
    and q: "\<not> response_done (rq q)" "extension (r_uri (rq q)) = Ext_type t" "0 \<le> resource_len (rq q)" "resource_len (rq q) < 2 ^ 31"
  shows "\<exists>w' ys sb. answer_locally c r w = Some w' \<and>
    serving w' L ys c k r (q\<lparr>rq := (rq q)\<lparr>status := 200\<rparr>, send_buffer := sb\<rparr>)
      (E(WRITE_EVENT := \<lparr>ev_handler = Some Handle_response, ev_active = True, timer_set = True, timedout = False\<rparr>)) \<and>
    contents sb = response_head (minor (rq q)) 200 t (nat (resource_len (rq q))) \<and> w_calls w' = w_calls w @ [Kadd (c_fd k) WRITE_EVENT] \<and>
    (time_limit w, wev_of c) \<in> set ys \<and> outside w' = outside w"
proof -
  let ?E1 = "(E WRITE_EVENT)\<lparr>ev_handler := Some Handle_response\<rparr>"
  let ?E2 = "?E1\<lparr>ev_active := True\<rparr>"
  let ?E3 = "?E2\<lparr>timer_set := True\<rparr>"
  have E3: "?E3 = \<lparr>ev_handler = Some Handle_response, ev_active = True, timer_set = True, timedout = False\<rparr>"
    using E by (cases "E WRITE_EVENT") (simp add: at_rest_def)
  obtain S1 where S1: "set_handler Handle_response (wev_of c) w = Some (w\<lparr>w_tm := S1\<rparr>)"
    "serving (w\<lparr>w_tm := S1\<rparr>) L xs c k r q (E(WRITE_EVENT := ?E1))"
    "current_msec S1 = current_msec (w_tm w)"
    using serving_handler [OF s, of WRITE_EVENT Handle_response] by auto
  let ?w1 = "w\<lparr>w_tm := S1\<rparr>"
  obtain S2 where S2: "add_event (wev_of c) WRITE_EVENT ?w1 = Some (?w1\<lparr>w_tm := S2, w_kevent := tl (w_kevent w), w_calls := w_calls w @ [Kadd (c_fd k) WRITE_EVENT]\<rparr>)"
    "serving (?w1\<lparr>w_tm := S2, w_kevent := tl (w_kevent w), w_calls := w_calls w @ [Kadd (c_fd k) WRITE_EVENT]\<rparr>) L xs c k r q
      (E(WRITE_EVENT := ?E2))" "current_msec S2 = current_msec (w_tm w)"
    using serving_add_event [OF S1(2), of WRITE_EVENT WRITE_EVENT] S1(3) E by (auto simp: at_rest_def)
  let ?w2 = "w\<lparr>w_tm := S2, w_kevent := tl (w_kevent w), w_calls := w_calls w @ [Kadd (c_fd k) WRITE_EVENT]\<rparr>"
  have q2: "w_reqs ?w2 r = Some q" "buffer_wf (send_buffer q)" "buffer_wf (recv_buffer q)" using servingD [OF s] by simp_all
  obtain sb where sb: "construct_response ((rq q)\<lparr>status := 200\<rparr>) (send_buffer q) = Some sb" "buffer_wf sb"
    "contents sb = response_head (minor (rq q)) 200 t (nat (resource_len (rq q)))"
    using construct_response_text [OF q2(2), of "(rq q)\<lparr>status := 200\<rparr>" t] q(2-4) by auto
  let ?q3 = "q\<lparr>rq := (rq q)\<lparr>status := 200\<rparr>, send_buffer := sb\<rparr>"
  let ?w3 = "?w2\<lparr>w_reqs := (w_reqs ?w2)(r \<mapsto> ?q3)\<rparr>"
  have s3: "serving ?w3 L xs c k r ?q3 (E(WRITE_EVENT := ?E2))"
    using serving_req [OF S2(2), of ?q3] q2(3) sb(2) by (simp add: links_def)
  obtain S4 where S4: "add_timer (wev_of c) (post_accept_timeout (w_cfg w)) ?w3 = Some (?w3\<lparr>w_tm := S4\<rparr>)"
    "serving (?w3\<lparr>w_tm := S4\<rparr>) L (put_entry (current_msec (w_tm w) + of_int (post_accept_timeout (w_cfg w))) (wev_of c) xs) c k r ?q3
      (E(WRITE_EVENT := ?E3))"
    using serving_add_timer [OF s3, of WRITE_EVENT Handle_response "post_accept_timeout (w_cfg w)"] S2(3) E by (auto simp: at_rest_def)
  have "answer_locally c r w = Some (?w3\<lparr>w_tm := S4\<rparr>)"
    using S1(1) S2(1) S4(1) q2(1) q(1) sb(1)
    by (simp add: answer_locally_def set_rq_def set_req_def)
  moreover have "w_calls (?w3\<lparr>w_tm := S4\<rparr>) = w_calls w @ [Kadd (c_fd k) WRITE_EVENT]" "outside (?w3\<lparr>w_tm := S4\<rparr>) = outside w"
    by (simp_all add: outside_def)
  moreover have "(time_limit w, wev_of c) \<in> set (put_entry (time_limit w) (wev_of c) xs)" by (simp add: put_entry_set)
  ultimately show ?thesis using S4(2) sb(3) unfolding E3 by blast
qed

text \<open>The events of a client whose answer is being sent.\<close>

fun answer_events :: "dir \<Rightarrow> handler event" where
  "answer_events READ_EVENT = init_event\<lparr>ev_handler := Some Handle_body, ev_active := False, timer_set := False, timedout := False\<rparr>"
| "answer_events WRITE_EVENT = \<lparr>ev_handler = Some Handle_response, ev_active = True, timer_set = True, timedout = False\<rparr>"

lemma start_events_upd:
  "(start_events e0 h)(READ_EVENT := (start_events e0 h READ_EVENT)\<lparr>ev_handler := Some h'\<rparr>) = start_events e0 h'"
  "(start_events e0 Handle_body)(READ_EVENT := (start_events e0 Handle_body READ_EVENT)\<lparr>ev_active := False, timer_set := False, timedout := False\<rparr>,
     WRITE_EVENT := \<lparr>ev_handler = Some Handle_response, ev_active = True, timer_set = True, timedout = False\<rparr>) = answer_events"
  by (rule ext, case_tac x, simp_all)+

text \<open>The request when its answer is ready.\<close>

definition prepared :: "world \<Rightarrow> char list option \<Rightarrow> int \<Rightarrow> bool \<Rightarrow> http_request \<Rightarrow> bool" where
  "prepared w e rfd ka q \<longleftrightarrow> contents (send_buffer q) = response_head 1 200 (type_of e) (nat (size_of (w_fs w) rfd)) \<and>
     resource_fd (rq q) = rfd \<and> resource_off (rq q) = 0 \<and> resource_len (rq q) = size_of (w_fs w) rfd \<and>
     keep_alive (rq q) = ka \<and> \<not> response_done (rq q) \<and> contents (recv_buffer q) = []"

lemma headers_ok:
  assumes s: "serving w L xs c k r q (start_events e0 Parse_headers)" "at_rest e0" and q0: "line_done w e rfd q0 q"
    and hs: "\<forall>f \<in> set hs. field_ok f" "contents (recv_buffer q) = concat (map field_text hs) @ [CR, LF]" "header_table w"
    and idle: "w_recv w (c_fd k) = []" and size: "0 \<le> size_of (w_fs w) rfd" "size_of (w_fs w) rfd < 2 ^ 31"
  shows "\<exists>w' ys q'. http_parse_headers (rev_of c) w = Some w' \<and> serving w' L ys c k r q' answer_events \<and>
    prepared w e rfd (fold field_keep hs True) q' \<and> w_calls w' = w_calls w @ [Kdel (c_fd k) READ_EVENT, Kadd (c_fd k) WRITE_EVENT] \<and>
    (time_limit w, wev_of c) \<in> set ys \<and> outside w' = outside w"
proof -
  note D = servingD [OF s(1)]
  have L0: "r_state (rq q) = HD_BEGIN" "minor (rq q) = 1" "keep_alive (rq q)" "\<not> response_done (rq q)" "content_length (rq q) = 0"
    "resource_fd (rq q) = rfd" "resource_len (rq q) = size_of (w_fs w) rfd" "resource_off (rq q) = 0"
    "extension (r_uri (rq q)) = Ext_type (type_of e)" using q0 by (simp_all add: line_done_def)
  obtain q1 where q1: "header_loop (rev_of c) r w = Some (True, w\<lparr>w_reqs := (w_reqs w)(r \<mapsto> q1)\<rparr>)" "contents (recv_buffer q1) = []"
    "read_fields q q1 (fold field_keep hs True)"
    using header_loop_ok [OF D(6,12) L0(1,4) hs, of "rev_of c"] L0(3) by auto
  have Q: "links q1 = links q" "buffer_wf (recv_buffer q1)" "send_buffer q1 = send_buffer q" using q1(3) by (simp_all add: read_fields_def)
  have R: "minor (rq q1) = 1" "keep_alive (rq q1) = fold field_keep hs True" "\<not> response_done (rq q1)" "content_length (rq q1) = 0"
    "resource_fd (rq q1) = rfd" "resource_len (rq q1) = size_of (w_fs w) rfd" "resource_off (rq q1) = 0"
    "extension (r_uri (rq q1)) = Ext_type (type_of e)" using q1(3) L0 unfolding read_fields_def by auto
  let ?w1 = "w\<lparr>w_reqs := (w_reqs w)(r \<mapsto> q1)\<rparr>"
  have s1: "serving ?w1 L xs c k r q1 (start_events e0 Parse_headers)" using serving_req [OF s(1) Q(1,2)] Q(3) D(13) by simp
  have ch: "client_handler READ_EVENT Handle_body" by simp
  obtain S2 where S2: "set_handler Handle_body (rev_of c) ?w1 = Some (?w1\<lparr>w_tm := S2\<rparr>)"
    "serving (?w1\<lparr>w_tm := S2\<rparr>) L xs c k r q1 (start_events e0 Handle_body)" "current_msec S2 = current_msec (w_tm w)"
    using serving_handler [OF s1 ch] unfolding start_events_upd by auto
  let ?w2 = "?w1\<lparr>w_tm := S2\<rparr>"
  obtain S3 where S3: "del_event (rev_of c) READ_EVENT ?w2 =
      Some (?w2\<lparr>w_tm := S3, w_kevent := tl (w_kevent w), w_calls := w_calls w @ [Kdel (c_fd k) READ_EVENT]\<rparr>)"
    "serving (?w2\<lparr>w_tm := S3, w_kevent := tl (w_kevent w), w_calls := w_calls w @ [Kdel (c_fd k) READ_EVENT]\<rparr>) L
      (filter (\<lambda>x. snd x \<noteq> rev_of c) xs) c k r q1 ((start_events e0 Handle_body)(READ_EVENT :=
        (start_events e0 Handle_body READ_EVENT)\<lparr>ev_active := False, timer_set := False, timedout := False\<rparr>))"
    "current_msec S3 = current_msec (w_tm w)"
    using serving_del_event [OF S2(2), of READ_EVENT READ_EVENT] S2(3) by auto
  let ?w3 = "?w2\<lparr>w_tm := S3, w_kevent := tl (w_kevent w), w_calls := w_calls w @ [Kdel (c_fd k) READ_EVENT]\<rparr>"
  obtain w' ys sb where w': "answer_locally c r ?w3 = Some w'"
    "serving w' L ys c k r (q1\<lparr>rq := (rq q1)\<lparr>status := 200\<rparr>, send_buffer := sb\<rparr>) answer_events"
    "contents sb = response_head 1 200 (type_of e) (nat (size_of (w_fs w) rfd))"
    "w_calls w' = w_calls w @ [Kdel (c_fd k) READ_EVENT, Kadd (c_fd k) WRITE_EVENT]"
    "(time_limit w, wev_of c) \<in> set ys" "outside w' = outside w"
    using answer_ok [OF S3(2) _ R(3,8)] R size S3(3) s(2) unfolding start_events_upd by (auto simp: outside_def)
  have k: "c_fd k > 0" "w_conns w c = Some k" "c_data k = Some r" by (rule D)+
  have r1: "recv_into recv_buffer recv_buffer_update r (c_fd k) w = Some (AGAIN, w)"
    "recv_into recv_buffer recv_buffer_update r (c_fd k) ?w2 = Some (AGAIN, ?w2)"
    using recv_none D(6) idle by simp_all
  have "request_handle_body (rev_of c) ?w2 = Some w'"
    using k serving_evs [OF S2(2)] r1(2) no_body [of ?w2 r q1] R(4) S3(1) servingD(8) [OF S2(2)] w'(1)
    by (simp add: request_handle_body_def)
  then have "http_parse_headers (rev_of c) w = Some w'"
    using k serving_evs [OF s(1)] r1(1) q1(1) S2(1) by (simp add: http_parse_headers_def)
  moreover have "prepared w e rfd (fold field_keep hs True) (q1\<lparr>rq := (rq q1)\<lparr>status := 200\<rparr>, send_buffer := sb\<rparr>)"
    using w'(3) q1(2) R by (simp add: prepared_def)
  ultimately show ?thesis using w'(2,4-6) by blast
qed

text \<open>A whole request is read and the answer prepared.\<close>

definition get_text :: "char list \<Rightarrow> char list option \<Rightarrow> char \<Rightarrow> header_field list \<Rightarrow> char list" where
  "get_text path e v hs = get_line path e v @ concat (map field_text hs) @ [CR, LF]"

definition served :: "world \<Rightarrow> char list \<Rightarrow> char list option \<Rightarrow> char \<Rightarrow> header_field list \<Rightarrow> int \<Rightarrow> bool" where
  "served w path e v hs rfd \<longleftrightarrow> asks_for w path e v rfd \<and> 0 \<le> size_of (w_fs w) rfd \<and> size_of (w_fs w) rfd < 2 ^ 31 \<and>
     (\<forall>f \<in> set hs. field_ok f) \<and> length (get_text path e v hs) \<le> limit \<and> header_table w"

lemma request_read:
  assumes s: "serving w L xs c k r q (start_events e0 Process_request_line)" "at_rest e0" "blank q"
    and ask: "served w path e v hs rfd" and data: "w_recv w (c_fd k) = [Data (get_text path e v hs)]"
  shows "\<exists>w' ys q'. process_request_line (rev_of c) w = Some w' \<and> serving w' L ys c k r q' answer_events \<and>
    prepared w e rfd (fold field_keep hs True) q' \<and> w_calls w' = w_calls w @ [Kdel (c_fd k) READ_EVENT, Kadd (c_fd k) WRITE_EVENT] \<and>
    (time_limit w, wev_of c) \<in> set ys \<and> outside w' = outside w"
proof -
  note A = ask [unfolded served_def get_text_def]
  obtain S' q' where 2: "process_request_line (rev_of c) w = http_parse_headers (rev_of c)
      (w\<lparr>w_recv := (w_recv w)(c_fd k := []), w_tm := S', w_reqs := (w_reqs w)(r \<mapsto> q')\<rparr>)"
    "serving (w\<lparr>w_recv := (w_recv w)(c_fd k := []), w_tm := S', w_reqs := (w_reqs w)(r \<mapsto> q')\<rparr>) L xs c k r q' (start_events e0 Parse_headers)"
    "line_done w e rfd q q'" "contents (recv_buffer q') = concat (map field_text hs) @ [CR, LF]" "current_msec S' = current_msec (w_tm w)"
    using line_ok [OF s(1,3) data [unfolded get_text_def]] A by blast
  let ?w2 = "w\<lparr>w_recv := (w_recv w)(c_fd k := []), w_tm := S', w_reqs := (w_reqs w)(r \<mapsto> q')\<rparr>"
  have 3: "line_done ?w2 e rfd q q'" "\<forall>f \<in> set hs. field_ok f" "header_table ?w2" "w_recv ?w2 (c_fd k) = []"
    "0 \<le> size_of (w_fs ?w2) rfd" "size_of (w_fs ?w2) rfd < 2 ^ 31"
    using 2(3) A by (simp_all add: line_done_def header_table_def)
  have "prepared ?w2 e rfd ka q2 = prepared w e rfd ka q2" "outside ?w2 = outside w" "time_limit ?w2 = time_limit w" for ka q2
    using 2(5) by (simp_all add: prepared_def outside_def)
  then show ?thesis using headers_ok [OF 2(2) s(2) 3(1,2) 2(4) 3(3-6)] 2(1) by simp
qed

lemma get_answered:
  assumes inv: "srv_inv w L xs" and c: "c \<in> L" "waiting t w xs c a" "fst a > 0" and r: "w_reqs w (w_next w) = None"
    and raw: "length (bdata (w_heap w)) = limit" and pool: "request_pool_size (w_cfg w) = 3488"
    and ask: "served w path e v hs rfd" and data: "w_recv w (fst a) = [Data (get_text path e v hs)]"
  shows "\<exists>w' ys q. http_init_request (rev_of c) w = Some w' \<and>
    serving w' L ys c ((accepted (fst a) (snd a))\<lparr>c_data := Some (w_next w)\<rparr>) (w_next w) q answer_events \<and>
    prepared w e rfd (fold field_keep hs True) q \<and>
    w_calls w' = w_calls w @ [Kdel (fst a) READ_EVENT, Kadd (fst a) WRITE_EVENT] \<and> (time_limit w, wev_of c) \<in> set ys \<and> outside w' = outside w"
proof -
  let ?k = "(accepted (fst a) (snd a))\<lparr>c_data := Some (w_next w)\<rparr>"
  obtain p S where 1: "http_init_request (rev_of c) w =
      process_request_line (rev_of c) (with_request c (accepted (fst a) (snd a)) (new_request (w_heap w) p c) S w)"
    "serving (with_request c (accepted (fst a) (snd a)) (new_request (w_heap w) p c) S w) L xs c ?k (w_next w) (new_request (w_heap w) p c)
      (start_events zero_event Process_request_line)" "current_msec S = current_msec (w_tm w)"
    using init_request_ok [OF inv c r raw pool] by blast
  let ?q = "new_request (w_heap w) p c" and ?w = "with_request c (accepted (fst a) (snd a)) (new_request (w_heap w) p c) S w"
  have q: "blank ?q" "at_rest zero_event" using raw
    by (auto simp: new_request_def zero_request_def blank_def at_rest_def zero_event_def)
  have d: "served ?w path e v hs rfd" "w_recv ?w (c_fd ?k) = [Data (get_text path e v hs)]"
    using data ask by (simp_all add: served_def asks_for_def header_table_def)
  have "prepared ?w e rfd ka q2 = prepared w e rfd ka q2" "outside ?w = outside w" "time_limit ?w = time_limit w" for ka q2
    using 1(3) by (simp_all add: prepared_def outside_def)
  then show ?thesis using request_read [OF 1(2) q(2,1) d] 1(1) by simp
qed

section \<open>A header that does not start with a name\<close>

definition no_header :: "char \<Rightarrow> bool" where
  "no_header ch \<longleftrightarrow> \<not> name_char ch \<and> ch \<notin> {CR, LF, CHR '' ''}"

lemma bad_header_round:
  assumes q: "w_reqs w r = Some q" "buffer_wf (recv_buffer q)" "r_state (rq q) = HD_BEGIN"
    and c: "contents (recv_buffer q) = ch # rest" "no_header ch"
  shows "header_round ev r w = None"
proof -
  let ?b = "recv_buffer q" and ?r = "rq q"
  let ?d = "bdata ?b" and ?p = "bbegin ?b"
  have wf: "?p \<le> bend ?b" "bend ?b \<le> length ?d" using q(2) by (auto simp: buffer_wf_def)
  have lt: "?p < bend ?b" "?d ! ?p = ch"
  proof -
    show lt: "?p < bend ?b" using c(1) wf by (cases "bend ?b \<le> ?p") (auto simp: contents_def segment_def)
    then have "drop ?p ?d = ?d ! ?p # drop (Suc ?p) ?d" using wf by (intro Cons_nth_drop_Suc [symmetric]) simp
    then show "?d ! ?p = ch" using c(1) lt by (cases "bend ?b - ?p") (auto simp: contents_def segment_def)
  qed
  let ?x = "?r\<lparr>header_name := NULL_PSTR, header_value := NULL_PSTR\<rparr>"
  obtain n where n: "bend ?b - ?p = Suc n" using lt(1) by (cases "bend ?b - ?p") auto
  have "header_step ?r ?d ?p = Some (Some ERROR, ?x, ?d)"
    using q(3) lt(2) c(2) by (simp add: header_step_def Let_def no_header_def)
  then have "scan header_step ?r ?d ?p (bend ?b - ?p) = Some (Some ERROR, ?x, ?d, ?p)" using lt(1) wf unfolding n by simp
  then have "\<exists>b. parse_header ?r ?b = Some (ERROR, ?x, b)"
    using wf(1) by (simp add: parse_header_def parse_with_def)
  then obtain b where "parse_header ?r ?b = Some (ERROR, ?x, b)" by blast
  then show ?thesis using q(1) by (simp add: header_round_def set_req_def end_name_def NULL_PSTR_def)
qed

lemma bad_header_stops:
  assumes inv: "srv_inv w L xs" and c: "c \<in> L" "waiting t w xs c a" "fst a > 0" and r: "w_reqs w (w_next w) = None"
    and raw: "length (bdata (w_heap w)) = limit" and pool: "request_pool_size (w_cfg w) = 3488" and ask: "asks_for w path e v rfd"
    and data: "w_recv w (fst a) = [Data (get_line path e v @ ch # rest)]" "length (get_line path e v @ ch # rest) \<le> limit" "no_header ch"
  shows "http_init_request (rev_of c) w = None"
proof -
  let ?k = "(accepted (fst a) (snd a))\<lparr>c_data := Some (w_next w)\<rparr>"
  obtain p S where 1: "http_init_request (rev_of c) w =
      process_request_line (rev_of c) (with_request c (accepted (fst a) (snd a)) (new_request (w_heap w) p c) S w)"
    "serving (with_request c (accepted (fst a) (snd a)) (new_request (w_heap w) p c) S w) L xs c ?k (w_next w) (new_request (w_heap w) p c)
      (start_events zero_event Process_request_line)"
    using init_request_ok [OF inv c r raw pool] by blast
  let ?q = "new_request (w_heap w) p c" and ?w = "with_request c (accepted (fst a) (snd a)) (new_request (w_heap w) p c) S w"
  have q: "blank ?q" using raw by (auto simp: new_request_def zero_request_def blank_def)
  have d: "asks_for ?w path e v rfd" "w_recv ?w (c_fd ?k) = [Data (get_line path e v @ ch # rest)]" using data(1) ask by (simp_all add: asks_for_def)
  obtain S' q' where 2: "process_request_line (rev_of c) ?w = http_parse_headers (rev_of c)
      (?w\<lparr>w_recv := (w_recv ?w)(c_fd ?k := []), w_tm := S', w_reqs := (w_reqs ?w)(w_next w \<mapsto> q')\<rparr>)"
    "serving (?w\<lparr>w_recv := (w_recv ?w)(c_fd ?k := []), w_tm := S', w_reqs := (w_reqs ?w)(w_next w \<mapsto> q')\<rparr>) L xs c ?k (w_next w) q'
      (start_events zero_event Parse_headers)" "line_done ?w e rfd ?q q'" "contents (recv_buffer q') = ch # rest"
    using line_ok [OF 1(2) q d(2) data(2) d(1)] by blast
  let ?w2 = "?w\<lparr>w_recv := (w_recv ?w)(c_fd ?k := []), w_tm := S', w_reqs := (w_reqs ?w)(w_next w \<mapsto> q')\<rparr>"
  note D = servingD [OF 2(2)]
  have l: "\<not> response_done (rq q')" "r_state (rq q') = HD_BEGIN" using 2(3) by (simp_all add: line_done_def)
  have "header_loop (rev_of c) (w_next w) ?w2 = None"
    using bad_header_round [OF D(6,12) l(2) 2(4) data(3), of "rev_of c"] l(1) D(6) by (subst header_loop.simps) simp
  moreover have "recv_into recv_buffer recv_buffer_update (w_next w) (c_fd ?k) ?w2 = Some (AGAIN, ?w2)"
    by (rule recv_none [OF D(6)]) simp
  ultimately have "http_parse_headers (rev_of c) ?w2 = None"
    using D(3-5) serving_evs(1) [OF 2(2)] by (simp add: http_parse_headers_def)
  then show ?thesis using 1(1) 2(1) by simp
qed

end
