(* ===== verification/Keep_Alive.thy ===== *)
theory Keep_Alive
  imports Get_Request
begin

text \<open>
  The answer goes out and the connection waits for its next request: \<open>handle_response\<close> with a socket
  that takes what it is given, \<open>handle_response_file\<close> and \<open>http_response_done\<close>.
\<close>

section \<open>Steps of a client in service\<close>

text \<open>A member of a connection that has a request changes.\<close>

lemma srv_conn:
  assumes inv: "srv_inv w L xs" and c: "c \<in> L" "w_conns w c = Some k" "c_data k = Some r" "c_data k' = Some r"
  shows "srv_inv (w\<lparr>w_conns := (w_conns w)(c \<mapsto> k')\<rparr>) L xs" (is "srv_inv ?w _ _")
proof -
  note D = srv_invD [OF inv]
  have da: "data_of ?w b = data_of w b" for b using c by (simp add: data_of_def)
  have role: "client ?w b = client w b" "backend ?w b = backend w b" "chosen ?w b = chosen w b" for b
    by (simp_all add: client_def backend_def chosen_def da)
  have ty: "typed ?w b d h = typed w b d h" for b d h
    using c by (cases d; cases h) (auto simp: da role)
  have ge: "get_ev ev ?w = get_ev ev w" for ev by (simp add: get_ev_def)
  show ?thesis
  proof (rule srv_invI)
    show "conn_inv ?w L xs" by (rule conn_inv_conns [OF D(1) c(1)])
    show "81 \<le> length (w_static ?w)" using D(2) by simp
    show "req_ok ?w L r0 q0" if "w_reqs ?w r0 = Some q0" for r0 q0 using D(3) [of r0 q0] that da by (simp add: req_ok_def)
    show "client ?w b \<or> backend ?w b" if "b \<in> L" "data_of ?w b \<noteq> None" for b using D(4) [OF that(1)] that(2) da role by simp
    show "typed ?w b d h" if "b \<in> L" "get_ev (ev_of b d) ?w = Some e" "ev_handler e = Some h" for b d e h
      using D(5) [OF that(1)] that(2,3) ty ge by simp
    show "armed_ok ?w b d" if "ev_of b d \<in> snd ` set xs" for b d using D(6) [OF that] role ge by (simp add: armed_ok_def)
  qed
qed

lemma serving_idle:
  assumes s: "serving w L xs c k r q E"
  shows "serving (w\<lparr>w_conns := (w_conns w)(c \<mapsto> k\<lparr>is_idle := True\<rparr>)\<rparr>) L xs c (k\<lparr>is_idle := True\<rparr>) r q E"
proof -
  note D = servingD [OF s]
  have "srv_inv (w\<lparr>w_conns := (w_conns w)(c \<mapsto> k\<lparr>is_idle := True\<rparr>)\<rparr>) L xs" using srv_conn [OF D(1-4)] D(4) by simp
  then show ?thesis using s D(4,5) by (simp add: serving_def get_ev_def)
qed

lemma buffer_send_all:
  assumes "buffer_wf b" "contents b \<noteq> []" "length (contents b) \<le> m"
  shows "buffer_send b [Sent m] = Some (OK, buffer_clear b, contents b)"
proof -
  have wf: "bbegin b \<le> bend b" "bend b \<le> length (bdata b)" "bbegin b \<noteq> bend b" "bend b - bbegin b \<le> m"
    using assms by (auto simp: buffer_wf_def contents_def segment_def)
  then have n: "bbegin b < bend b" "nat (int (bend b) - int (bbegin b)) = bend b - bbegin b" by linarith+
  have clear: "buffer_clear (b\<lparr>bbegin := bend b\<rparr>) = buffer_clear b" by (simp add: buffer_clear_def)
  show ?thesis using wf n clear
    by (subst buffer_send.simps) (simp add: buffer_size_def buffer_send.simps contents_def segment_def)
qed

lemma send_file_all:
  assumes "resource_off x = 0" "0 \<le> resource_len x" "resource_len x < 2 ^ 31" "length f = nat (resource_len x)" "length f \<le> n"
  shows "send_file f x [File_sent n] = Some (OK, x\<lparr>resource_off := resource_len x, resource_len := 0\<rparr>, f)"
  using assms by (simp add: send_file_def Let_def file_room_def c_int_small)

lemma clear_request_ok:
  assumes s: "serving w L xs c k r q E" and fd: "resource_fd (rq q) > 0"
  shows "\<exists>q'. http_clear_request r w = Some (w\<lparr>w_calls := w_calls w @ [Close (resource_fd (rq q))],
      w_conns := (w_conns w)(c \<mapsto> k\<lparr>is_idle := True\<rparr>), w_reqs := (w_reqs w)(r \<mapsto> q')\<rparr>) \<and> blank q' \<and>
    serving (w\<lparr>w_calls := w_calls w @ [Close (resource_fd (rq q))],
      w_conns := (w_conns w)(c \<mapsto> k\<lparr>is_idle := True\<rparr>), w_reqs := (w_reqs w)(r \<mapsto> q')\<rparr>) L xs c (k\<lparr>is_idle := True\<rparr>) r q' E"
proof -
  note D = servingD [OF s]
  let ?q = "q\<lparr>recv_buffer := buffer_clear (recv_buffer q), send_buffer := buffer_clear (send_buffer q),
    upstream := None, upstream_tries := 0, cur_upstream := None, cur_server_domain := None,
    rq := zero_request\<lparr>header_name := \<lparr>pc = Literal ''fuck you'', pl = 8\<rparr>\<rparr>\<rparr>"
  let ?w0 = "w\<lparr>w_calls := w_calls w @ [Close (resource_fd (rq q))]\<rparr>"
  let ?w1 = "?w0\<lparr>w_conns := (w_conns w)(c \<mapsto> k\<lparr>is_idle := True\<rparr>)\<rparr>"
  have bw: "buffer_wf (buffer_clear (recv_buffer q))" "buffer_wf (buffer_clear (send_buffer q))" using D(12,13) by simp_all
  have s0: "serving ?w0 L xs c k r q E" by (rule serving_cong [OF s]) simp_all
  have "serving ?w1 L xs c (k\<lparr>is_idle := True\<rparr>) r q E" using serving_idle [OF s0] by simp
  from serving_req [OF this, of ?q] have "serving (?w1\<lparr>w_reqs := (w_reqs w)(r \<mapsto> ?q)\<rparr>) L xs c (k\<lparr>is_idle := True\<rparr>) r ?q E"
    using D(8,9) bw by (simp add: links_def)
  moreover have "http_clear_request r w = Some (?w1\<lparr>w_reqs := (w_reqs w)(r \<mapsto> ?q)\<rparr>)"
    using D(3,6-9) fd by (simp add: http_clear_request_def set_req_def set_rq_def set_conn_def close_resource_def call_def)
  moreover have "blank ?q" using D(12) by (auto simp: blank_def buffer_wf_def)
  ultimately show ?thesis by blast
qed

lemma response_done_ok:
  assumes s: "serving w L xs c k r q E" and q: "response_done (rq q)" "keep_alive (rq q)" "resource_fd (rq q) > 0"
    and E: "E READ_EVENT = answer_events READ_EVENT" "ev_active (E WRITE_EVENT)" "timer_set (E WRITE_EVENT)"
  shows "\<exists>w' ys q' e0. http_response_done r w = Some w' \<and>
    serving w' L ys c (k\<lparr>is_idle := True\<rparr>) r q' (start_events e0 Process_request_line) \<and> at_rest e0 \<and> blank q' \<and>
    w_calls w' = w_calls w @ [Close (resource_fd (rq q)), Kdel (c_fd k) WRITE_EVENT, Kadd (c_fd k) READ_EVENT] \<and> outside w' = outside w \<and>
    (current_msec (w_tm w) + of_int (keep_alive_timeout (w_cfg w)), rev_of c) \<in> set ys"
proof -
  note D = servingD [OF s]
  let ?k = "k\<lparr>is_idle := True\<rparr>"
  obtain q' where q': "http_clear_request r w = Some (w\<lparr>w_calls := w_calls w @ [Close (resource_fd (rq q))],
      w_conns := (w_conns w)(c \<mapsto> ?k), w_reqs := (w_reqs w)(r \<mapsto> q')\<rparr>)" "blank q'"
    "serving (w\<lparr>w_calls := w_calls w @ [Close (resource_fd (rq q))],
      w_conns := (w_conns w)(c \<mapsto> ?k), w_reqs := (w_reqs w)(r \<mapsto> q')\<rparr>) L xs c ?k r q' E" using clear_request_ok [OF s q(3)] by blast
  let ?w1 = "w\<lparr>w_calls := w_calls w @ [Close (resource_fd (rq q))],
      w_conns := (w_conns w)(c \<mapsto> ?k), w_reqs := (w_reqs w)(r \<mapsto> q')\<rparr>"
  let ?F = "E(WRITE_EVENT := (E WRITE_EVENT)\<lparr>ev_active := False, timer_set := False, timedout := False\<rparr>)"
  let ?xs = "filter (\<lambda>x. snd x \<noteq> wev_of c) xs"
  obtain S2 where S2: "del_event (wev_of c) WRITE_EVENT ?w1 =
      Some (?w1\<lparr>w_tm := S2, w_kevent := tl (w_kevent ?w1), w_calls := w_calls ?w1 @ [Kdel (c_fd k) WRITE_EVENT]\<rparr>)"
    "serving (?w1\<lparr>w_tm := S2, w_kevent := tl (w_kevent ?w1), w_calls := w_calls ?w1 @ [Kdel (c_fd k) WRITE_EVENT]\<rparr>) L ?xs c ?k r q' ?F" "current_msec S2 = current_msec (w_tm w)"
    using serving_del_event [OF q'(3), of WRITE_EVENT WRITE_EVENT] E by auto
  let ?w2 = "?w1\<lparr>w_tm := S2, w_kevent := tl (w_kevent ?w1), w_calls := w_calls ?w1 @ [Kdel (c_fd k) WRITE_EVENT]\<rparr>"
  obtain S3 where S3: "add_event (rev_of c) READ_EVENT ?w2 =
      Some (?w2\<lparr>w_tm := S3, w_kevent := tl (w_kevent ?w2), w_calls := w_calls ?w2 @ [Kadd (c_fd k) READ_EVENT]\<rparr>)"
    "serving (?w2\<lparr>w_tm := S3, w_kevent := tl (w_kevent ?w2), w_calls := w_calls ?w2 @ [Kadd (c_fd k) READ_EVENT]\<rparr>) L ?xs c ?k r q' (?F(READ_EVENT := (?F READ_EVENT)\<lparr>ev_active := True\<rparr>))" "current_msec S3 = current_msec (w_tm w)"
    using serving_add_event [OF S2(2), of READ_EVENT READ_EVENT] E(1) S2(3) by auto
  let ?w3 = "?w2\<lparr>w_tm := S3, w_kevent := tl (w_kevent ?w2), w_calls := w_calls ?w2 @ [Kadd (c_fd k) READ_EVENT]\<rparr>"
  let ?G = "?F(READ_EVENT := (?F READ_EVENT)\<lparr>ev_active := True\<rparr>)"
  have ch: "client_handler READ_EVENT Process_request_line" by simp
  obtain S4 where S4: "set_handler Process_request_line (rev_of c) ?w3 = Some (?w3\<lparr>w_tm := S4\<rparr>)"
    "serving (?w3\<lparr>w_tm := S4\<rparr>) L ?xs c ?k r q' (?G(READ_EVENT := (?G READ_EVENT)\<lparr>ev_handler := Some Process_request_line\<rparr>))"
    "current_msec S4 = current_msec (w_tm w)"
    using serving_handler [OF S3(2) ch] S3(3) by auto
  let ?w4 = "?w3\<lparr>w_tm := S4\<rparr>"
  let ?H = "?G(READ_EVENT := (?G READ_EVENT)\<lparr>ev_handler := Some Process_request_line\<rparr>)"
  let ?ys = "put_entry (current_msec (w_tm ?w4) + of_int (keep_alive_timeout (w_cfg w))) (rev_of c) ?xs"
  obtain S5 where S5: "add_timer (rev_of c) (keep_alive_timeout (w_cfg w)) ?w4 = Some (?w4\<lparr>w_tm := S5\<rparr>)"
    "serving (?w4\<lparr>w_tm := S5\<rparr>) L ?ys c ?k r q' (?H(READ_EVENT := (?H READ_EVENT)\<lparr>timer_set := True\<rparr>))"
    using serving_add_timer [OF S4(2), of READ_EVENT Process_request_line "keep_alive_timeout (w_cfg w)"] E(1) by auto
  let ?w5 = "?w4\<lparr>w_tm := S5\<rparr>"
  let ?e0 = "(E WRITE_EVENT)\<lparr>ev_active := False, timer_set := False, timedout := False\<rparr>"
  have ev: "?H(READ_EVENT := (?H READ_EVENT)\<lparr>timer_set := True\<rparr>) = start_events ?e0 Process_request_line"
  proof
    show "(?H(READ_EVENT := (?H READ_EVENT)\<lparr>timer_set := True\<rparr>)) d = start_events ?e0 Process_request_line d" for d
      using E(1) by (cases d) simp_all
  qed
  have "http_response_done r w = Some ?w5"
    using D(6,7) q(1,2) q'(1) S2(1) S3(1) S4(1) S5(1) by (simp add: http_response_done_def)
  moreover have "w_calls ?w5 = w_calls w @ [Close (resource_fd (rq q)), Kdel (c_fd k) WRITE_EVENT, Kadd (c_fd k) READ_EVENT]"
    "outside ?w5 = outside w" by (simp_all add: outside_def)
  moreover have "at_rest ?e0" by (simp add: at_rest_def)
  moreover have "(current_msec (w_tm w) + of_int (keep_alive_timeout (w_cfg w)), rev_of c) \<in> set ?ys"
    using S4(3) by (simp add: put_entry_set)
  ultimately show ?thesis using S5(2) q'(2) unfolding ev by blast
qed

section \<open>The answer goes out\<close>

text \<open>The socket takes what it is given, and the file has the size that was found.\<close>

definition takes_all :: "world \<Rightarrow> bool" where
  "takes_all w \<longleftrightarrow> (\<exists>m ws n fs. w_send w = [Sent m] # ws \<and> limit \<le> m \<and> w_sendfile w = [File_sent n] # fs \<and> 2 ^ 31 \<le> n)"

abbreviation whole_file :: "world \<Rightarrow> int \<Rightarrow> bool" where
  "whole_file w rfd \<equiv> 0 \<le> size_of (w_fs w) rfd \<and> size_of (w_fs w) rfd < 2 ^ 31 \<and> length (w_file w rfd) = nat (size_of (w_fs w) rfd)"

abbreviation head_of :: "world \<Rightarrow> char list option \<Rightarrow> int \<Rightarrow> char list" where
  "head_of w e rfd \<equiv> response_head 1 200 (type_of e) (nat (size_of (w_fs w) rfd))"

definition surroundings :: "world \<Rightarrow> config \<times> file_system \<times> header_val hash \<times> (int \<Rightarrow> char list)" where
  "surroundings w = (w_cfg w, w_fs w, w_headers w, w_file w)"

lemma answer_sent:
  assumes s: "serving w L xs c k r q answer_events" and a: "prepared w e rfd True q" "rfd > 0"
    and f: "whole_file w rfd" and t: "takes_all w"
  shows "\<exists>w' ys q' e0. handle_response (wev_of c) w = Some w' \<and>
    serving w' L ys c (k\<lparr>is_idle := True\<rparr>) r q' (start_events e0 Process_request_line) \<and> at_rest e0 \<and> blank q' \<and>
    w_calls w' = w_calls w @ [Send (c_fd k) (head_of w e rfd), Send (c_fd k) (w_file w rfd), Close rfd,
      Kdel (c_fd k) WRITE_EVENT, Kadd (c_fd k) READ_EVENT] \<and> surroundings w' = surroundings w \<and>
    (current_msec (w_tm w) + of_int (keep_alive_timeout (w_cfg w)), rev_of c) \<in> set ys"
proof -
  note D = servingD [OF s]
  obtain m ws n fs where o: "w_send w = [Sent m] # ws" "limit \<le> m" "w_sendfile w = [File_sent n] # fs" "2 ^ 31 \<le> n"
    using t by (auto simp: takes_all_def)
  let ?sb = "send_buffer q" and ?fd = "c_fd k"
  have A: "contents ?sb = head_of w e rfd" "resource_fd (rq q) = rfd" "resource_off (rq q) = 0" "resource_len (rq q) = size_of (w_fs w) rfd"
    "keep_alive (rq q)" "\<not> response_done (rq q)" using a(1) by (simp_all add: prepared_def)
  have ne: "contents ?sb \<noteq> []" unfolding A(1) by (simp add: response_head_def)
  have fits: "length (contents ?sb) \<le> m" using D(13) o(2) by (auto simp: buffer_wf_def contents_def segment_def)
  from buffer_send_all [OF D(13) ne fits] have sb: "buffer_send ?sb [Sent m] = Some (OK, buffer_clear ?sb, head_of w e rfd)" using A(1) by simp
  let ?q1 = "q\<lparr>send_buffer := buffer_clear ?sb\<rparr>"
  let ?w1 = "w\<lparr>w_send := ws, w_calls := w_calls w @ [Send ?fd (head_of w e rfd)], w_reqs := (w_reqs w)(r \<mapsto> ?q1)\<rparr>"
  have r1: "send_from send_buffer send_buffer_update r ?fd w = Some (OK, ?w1)"
    using D(6) sb o(1) by (simp add: send_from_def set_req_def call_def)
  have s0: "serving (w\<lparr>w_send := ws, w_calls := w_calls w @ [Send ?fd (head_of w e rfd)]\<rparr>) L xs c k r q answer_events"
    by (rule serving_cong [OF s]) simp_all
  have s1: "serving ?w1 L xs c k r ?q1 answer_events"
    using serving_req [OF s0, of ?q1] D(12,13) by (simp add: links_def)
  have ch: "client_handler WRITE_EVENT Handle_response_file" by simp
  let ?E = "answer_events(WRITE_EVENT := (answer_events WRITE_EVENT)\<lparr>ev_handler := Some Handle_response_file\<rparr>)"
  obtain S2 where S2: "set_handler Handle_response_file (wev_of c) ?w1 = Some (?w1\<lparr>w_tm := S2\<rparr>)"
    "serving (?w1\<lparr>w_tm := S2\<rparr>) L xs c k r ?q1 ?E" "current_msec S2 = current_msec (w_tm w)"
    using serving_handler [OF s1 ch] by auto
  let ?w2 = "?w1\<lparr>w_tm := S2\<rparr>"
  let ?x = "(rq q)\<lparr>resource_off := size_of (w_fs w) rfd, resource_len := 0\<rparr>"
  have le: "nat (size_of (w_fs w) rfd) \<le> n" using f o(4) by (simp, linarith)
  have sf: "send_file (w_file w rfd) (rq q) [File_sent n] = Some (OK, ?x, w_file w rfd)"
    using send_file_all [of "rq q" "w_file w rfd" n] A f le by simp
  let ?q3 = "?q1\<lparr>rq := ?x\<rparr>"
  let ?w3 = "?w2\<lparr>w_sendfile := fs, w_calls := w_calls ?w2 @ [Send ?fd (w_file w rfd)], w_reqs := (w_reqs w)(r \<mapsto> ?q3)\<rparr>"
  have r3: "send_resource r ?w2 = Some (OK, ?w3)"
    using D(3,7) A(2) o(3) sf by (simp add: send_resource_def set_rq_def set_req_def call_def)
  let ?q4 = "?q1\<lparr>rq := ?x\<lparr>response_done := True\<rparr>\<rparr>" and ?w4 = "?w3\<lparr>w_reqs := (w_reqs w)(r \<mapsto> ?q1\<lparr>rq := ?x\<lparr>response_done := True\<rparr>\<rparr>)\<rparr>"
  have s2': "serving (?w2\<lparr>w_sendfile := fs, w_calls := w_calls ?w2 @ [Send ?fd (w_file w rfd)]\<rparr>) L xs c k r ?q1 ?E"
    by (rule serving_cong [OF S2(2)]) simp_all
  have s4: "serving ?w4 L xs c k r ?q4 ?E"
    using serving_req [OF s2', of ?q4] D(12,13) by (simp add: links_def)
  have E: "?E READ_EVENT = answer_events READ_EVENT" "ev_active (?E WRITE_EVENT)" "timer_set (?E WRITE_EVENT)" by simp_all
  have q4: "response_done (rq ?q4)" "keep_alive (rq ?q4)" "resource_fd (rq ?q4) > 0" using A a(2) by simp_all
  obtain w' ys q' e0 where w': "http_response_done r ?w4 = Some w'"
    "serving w' L ys c (k\<lparr>is_idle := True\<rparr>) r q' (start_events e0 Process_request_line)" "at_rest e0" "blank q'"
    "w_calls w' = w_calls ?w4 @ [Close (resource_fd (rq ?q4)), Kdel ?fd WRITE_EVENT, Kadd ?fd READ_EVENT]" "outside w' = outside ?w4"
    "(current_msec (w_tm ?w4) + of_int (keep_alive_timeout (w_cfg ?w4)), rev_of c) \<in> set ys"
    using response_done_ok [OF s4 q4 E] by blast
  have f2: "finish_response r ?w3 = Some w'" using w'(1) by (simp add: finish_response_def set_rq_def set_req_def)
  have k: "c_fd k > 0" "w_conns w c = Some k" "c_data k = Some r" by (rule D)+
  have "handle_response_file (wev_of c) ?w2 = Some w'"
    using k serving_evs(2) [OF S2(2)] r3 f2 by (simp add: handle_response_file_def)
  then have "handle_response (wev_of c) w = Some w'"
    using k serving_evs(2) [OF s] r1 A D(8) a(2) S2(1) by (simp add: handle_response_def)
  moreover have "surroundings w' = surroundings w" using w'(6) by (simp add: surroundings_def outside_def)
  ultimately show ?thesis using w'(2-5,7) S2(3) A(2) by (intro exI [of _ w']) auto
qed

section \<open>A conversation\<close>

text \<open>
  A client sends one request after the other: the kernel reports its text, the loop calls the
  handler of the read event; then the kernel reports that the socket takes the answer, and the loop
  calls the handler of the write event.
\<close>

definition arrives :: "int \<Rightarrow> char list \<Rightarrow> world \<Rightarrow> world" where
  "arrives fd txt w = w\<lparr>w_recv := (w_recv w)(fd := [Data txt])\<rparr>"

definition socket_takes :: "world \<Rightarrow> world" where
  "socket_takes w = w\<lparr>w_send := [[Sent limit]], w_sendfile := [[File_sent (2 ^ 31)]]\<rparr>"

definition turn :: "slot \<Rightarrow> int \<Rightarrow> char list \<Rightarrow> world \<Rightarrow> world option" where
  "turn c fd txt w = do { w \<leftarrow> dispatch (c, READ_EVENT) (arrives fd txt w); dispatch (c, WRITE_EVENT) (socket_takes w) }"

fun conversation :: "slot \<Rightarrow> int \<Rightarrow> char list list \<Rightarrow> world \<Rightarrow> world option" where
  "conversation c fd [] w = Some w"
| "conversation c fd (txt # txts) w = do { w \<leftarrow> turn c fd txt w; conversation c fd txts w }"

record get =
  g_path :: "char list"
  g_ext :: "char list option"
  g_major :: char
  g_fields :: "header_field list"
  g_fd :: int

definition spell :: "get \<Rightarrow> char list" where
  "spell g = get_text (g_path g) (g_ext g) (g_major g) (g_fields g)"

text \<open>The file is there, and the client does not ask to close the connection.\<close>

definition good :: "world \<Rightarrow> get \<Rightarrow> bool" where
  "good w g \<longleftrightarrow> served w (g_path g) (g_ext g) (g_major g) (g_fields g) (g_fd g) \<and> fold field_keep (g_fields g) True \<and>
     length (w_file w (g_fd g)) = nat (size_of (w_fs w) (g_fd g))"

definition replies :: "world \<Rightarrow> int \<Rightarrow> get \<Rightarrow> sys_call list" where
  "replies w fd g = [Kdel fd READ_EVENT, Kadd fd WRITE_EVENT, Send fd (head_of w (g_ext g) (g_fd g)), Send fd (w_file w (g_fd g)),
     Close (g_fd g), Kdel fd WRITE_EVENT, Kadd fd READ_EVENT]"

lemma good_cong: "surroundings w' = surroundings w \<Longrightarrow> good w' g = good w g \<and> replies w' fd g = replies w fd g"
  by (simp add: good_def served_def asks_for_def header_table_def replies_def surroundings_def)

lemma surroundings_env [simp]: "surroundings (arrives fd txt w) = surroundings w" "surroundings (socket_takes w) = surroundings w"
  by (simp_all add: arrives_def socket_takes_def surroundings_def)

lemma outside_surroundings: "outside w' = outside w \<Longrightarrow> surroundings w' = surroundings w"
  by (simp add: outside_def surroundings_def)

text \<open>The second half of a turn.\<close>

lemma reply_ok:
  assumes s: "serving w1 L xs c k r q answer_events" and a: "prepared w1 (g_ext g) (g_fd g) True q"
    and w1: "surroundings w1 = surroundings w" "w_calls w1 = w_calls w @ [Kdel (c_fd k) READ_EVENT, Kadd (c_fd k) WRITE_EVENT]"
    and g: "good w g"
  shows "\<exists>w' ys q' e0. dispatch (c, WRITE_EVENT) (socket_takes w1) = Some w' \<and>
    serving w' L ys c (k\<lparr>is_idle := True\<rparr>) r q' (start_events e0 Process_request_line) \<and> at_rest e0 \<and> blank q' \<and>
    w_calls w' = w_calls w @ replies w (c_fd k) g \<and> surroundings w' = surroundings w"
proof -
  let ?w = "socket_takes w1"
  have s': "serving ?w L xs c k r q answer_events" by (rule serving_cong [OF s]) (simp_all add: socket_takes_def)
  have fs: "w_fs ?w = w_fs w" "w_file ?w = w_file w" "w_calls ?w = w_calls w1" using w1(1) by (simp_all add: surroundings_def socket_takes_def)
  have "w_fs w1 = w_fs w" using w1(1) by (simp add: surroundings_def)
  then have a': "prepared ?w (g_ext g) (g_fd g) True q" using a fs by (simp add: prepared_def)
  have f: "g_fd g > 0" "whole_file ?w (g_fd g)" using g fs by (auto simp: good_def served_def asks_for_def)
  have t: "takes_all ?w" by (simp add: takes_all_def socket_takes_def)
  obtain w' ys q' e0 where w': "handle_response (wev_of c) ?w = Some w'"
    "serving w' L ys c (k\<lparr>is_idle := True\<rparr>) r q' (start_events e0 Process_request_line)" "at_rest e0" "blank q'"
    "w_calls w' = w_calls ?w @ [Send (c_fd k) (head_of ?w (g_ext g) (g_fd g)), Send (c_fd k) (w_file ?w (g_fd g)), Close (g_fd g),
      Kdel (c_fd k) WRITE_EVENT, Kadd (c_fd k) READ_EVENT]" "surroundings w' = surroundings ?w"
    using answer_sent [OF s' a' f t] by blast
  have "dispatch (c, WRITE_EVENT) ?w = Some w'" using w'(1) serving_evs(2) [OF s'] by (simp add: dispatch_def run_handler_def)
  moreover have "w_calls w' = w_calls w @ replies w (c_fd k) g" using w'(5) fs w1(2) by (simp add: replies_def)
  ultimately show ?thesis using w'(2-4,6) w1(1) surroundings_env by metis
qed

lemma turn_ok:
  assumes s: "serving w L xs c k r q (start_events e0 Process_request_line)" "at_rest e0" "blank q" and g: "good w g"
  shows "\<exists>w' ys q' e0. turn c (c_fd k) (spell g) w = Some w' \<and>
    serving w' L ys c (k\<lparr>is_idle := True\<rparr>) r q' (start_events e0 Process_request_line) \<and> at_rest e0 \<and> blank q' \<and>
    w_calls w' = w_calls w @ replies w (c_fd k) g \<and> surroundings w' = surroundings w"
proof -
  let ?w = "arrives (c_fd k) (spell g) w"
  have s0: "serving ?w L xs c k r q (start_events e0 Process_request_line)" by (rule serving_cong [OF s(1)]) (simp_all add: arrives_def)
  have g0: "good ?w g" using g good_cong surroundings_env by blast
  have sv: "served ?w (g_path g) (g_ext g) (g_major g) (g_fields g) (g_fd g)" using g0 by (simp add: good_def)
  have d: "w_recv ?w (c_fd k) = [Data (get_text (g_path g) (g_ext g) (g_major g) (g_fields g))]" by (simp add: arrives_def spell_def)
  obtain w1 ys q1 where w1: "process_request_line (rev_of c) ?w = Some w1" "serving w1 L ys c k r q1 answer_events"
    "prepared ?w (g_ext g) (g_fd g) (fold field_keep (g_fields g) True) q1"
    "w_calls w1 = w_calls ?w @ [Kdel (c_fd k) READ_EVENT, Kadd (c_fd k) WRITE_EVENT]" "outside w1 = outside ?w"
    using request_read [OF s0 s(2,3) sv d] by blast
  have "w_fs w1 = w_fs ?w" using w1(5) by (simp add: outside_def)
  then have a: "prepared w1 (g_ext g) (g_fd g) True q1" using w1(3) g0 by (simp add: prepared_def good_def)
  have "surroundings w1 = surroundings w" "w_calls w1 = w_calls w @ [Kdel (c_fd k) READ_EVENT, Kadd (c_fd k) WRITE_EVENT]"
    using outside_surroundings [OF w1(5)] w1(4) by (simp_all add: arrives_def surroundings_def)
  from reply_ok [OF w1(2) a this g] show ?thesis using w1(1) serving_evs(1) [OF s0] by (simp add: turn_def dispatch_def run_handler_def)
qed

lemma first_turn:
  assumes inv: "srv_inv w L xs" and c: "c \<in> L" "waiting t w xs c a" "fst a > 0" and r: "w_reqs w (w_next w) = None"
    and raw: "length (bdata (w_heap w)) = limit" and pool: "request_pool_size (w_cfg w) = 3488" and g: "good w g"
  shows "\<exists>w' ys k q' e0. turn c (fst a) (spell g) w = Some w' \<and>
    serving w' L ys c k (w_next w) q' (start_events e0 Process_request_line) \<and> c_fd k = fst a \<and> at_rest e0 \<and> blank q' \<and>
    w_calls w' = w_calls w @ replies w (fst a) g \<and> surroundings w' = surroundings w"
proof -
  let ?w = "arrives (fst a) (spell g) w" and ?k = "(accepted (fst a) (snd a))\<lparr>c_data := Some (w_next w)\<rparr>"
  have i: "srv_inv ?w L xs" "waiting t ?w xs c a" "w_reqs ?w (w_next ?w) = None" "length (bdata (w_heap ?w)) = limit"
    "request_pool_size (w_cfg ?w) = 3488" "w_next ?w = w_next w"
    using srv_cong [of ?w w L xs] inv c(2) r raw pool by (simp_all add: arrives_def waiting_def get_ev_def)
  have g0: "good ?w g" using g good_cong surroundings_env by blast
  have sv: "served ?w (g_path g) (g_ext g) (g_major g) (g_fields g) (g_fd g)" using g0 by (simp add: good_def)
  have d: "w_recv ?w (fst a) = [Data (get_text (g_path g) (g_ext g) (g_major g) (g_fields g))]" by (simp add: arrives_def spell_def)
  obtain w1 ys q1 where w1: "http_init_request (rev_of c) ?w = Some w1" "serving w1 L ys c ?k (w_next w) q1 answer_events"
    "prepared ?w (g_ext g) (g_fd g) (fold field_keep (g_fields g) True) q1"
    "w_calls w1 = w_calls ?w @ [Kdel (fst a) READ_EVENT, Kadd (fst a) WRITE_EVENT]" "outside w1 = outside ?w"
    using get_answered [OF i(1) c(1) i(2) c(3) i(3-5) sv d] unfolding i(6) by blast
  have "w_fs w1 = w_fs ?w" using w1(5) by (simp add: outside_def)
  then have a: "prepared w1 (g_ext g) (g_fd g) True q1" using w1(3) g0 by (simp add: prepared_def good_def)
  have "surroundings w1 = surroundings w" "w_calls w1 = w_calls w @ [Kdel (c_fd ?k) READ_EVENT, Kadd (c_fd ?k) WRITE_EVENT]"
    using outside_surroundings [OF w1(5)] w1(4) by (simp_all add: arrives_def surroundings_def)
  from reply_ok [OF w1(2) a this g] obtain w' ys q' e0 where w': "dispatch (c, WRITE_EVENT) (socket_takes w1) = Some w'"
    "serving w' L ys c (?k\<lparr>is_idle := True\<rparr>) (w_next w) q' (start_events e0 Process_request_line)" "at_rest e0" "blank q'"
    "w_calls w' = w_calls w @ replies w (fst a) g" "surroundings w' = surroundings w" by auto
  have "get_ev (rev_of c) ?w = Some init_event" using i(2) by (simp add: waiting_def)
  then have "turn c (fst a) (spell g) w = Some w'" using w1(1) w'(1) by (simp add: turn_def dispatch_def run_handler_def)
  then show ?thesis using w'(2-6) by (intro exI [of _ w'] exI [of _ ys] exI [of _ "?k\<lparr>is_idle := True\<rparr>"]) auto
qed

lemma more_turns:
  assumes "serving w L xs c k r q (start_events e0 Process_request_line)" "at_rest e0" "blank q" "\<forall>g \<in> set gs. good w g"
  shows "\<exists>w' ys. conversation c (c_fd k) (map spell gs) w = Some w' \<and> srv_inv w' L ys \<and>
    w_calls w' = w_calls w @ concat (map (replies w (c_fd k)) gs)"
  using assms
proof (induction gs arbitrary: w xs k q e0)
  case Nil
  then show ?case using servingD(1) [OF Nil(1)] by auto
next
  case (Cons g gs)
  obtain w1 ys q' e1 where w1: "turn c (c_fd k) (spell g) w = Some w1"
    "serving w1 L ys c (k\<lparr>is_idle := True\<rparr>) r q' (start_events e1 Process_request_line)" "at_rest e1" "blank q'"
    "w_calls w1 = w_calls w @ replies w (c_fd k) g" "surroundings w1 = surroundings w"
    using turn_ok [OF Cons.prems(1-3), of g] Cons.prems(4) by auto
  have 2: "\<forall>g \<in> set gs. good w1 g" "map (replies w1 (c_fd k)) gs = map (replies w (c_fd k)) gs"
    using Cons.prems(4) good_cong [OF w1(6)] by simp_all
  obtain w' zs where "conversation c (c_fd k) (map spell gs) w1 = Some w'" "srv_inv w' L zs"
    "w_calls w' = w_calls w1 @ concat (map (replies w1 (c_fd k)) gs)" using Cons.IH [OF w1(2-4) 2(1)] by auto
  then show ?case using w1(1,5) unfolding 2(2) by auto
qed

lemma conversation_ok:
  assumes inv: "srv_inv w L xs" and c: "c \<in> L" "waiting t w xs c a" "fst a > 0" and r: "w_reqs w (w_next w) = None"
    and raw: "length (bdata (w_heap w)) = limit" and pool: "request_pool_size (w_cfg w) = 3488" and gs: "\<forall>g \<in> set gs. good w g"
  shows "\<exists>w' ys. conversation c (fst a) (map spell gs) w = Some w' \<and> srv_inv w' L ys \<and>
    w_calls w' = w_calls w @ concat (map (replies w (fst a)) gs)"
proof (cases gs)
  case Nil
  then show ?thesis using inv by auto
next
  case (Cons g hs)
  obtain w1 ys k q' e1 where w1: "turn c (fst a) (spell g) w = Some w1"
    "serving w1 L ys c k (w_next w) q' (start_events e1 Process_request_line)" "c_fd k = fst a" "at_rest e1" "blank q'"
    "w_calls w1 = w_calls w @ replies w (fst a) g" "surroundings w1 = surroundings w"
    using first_turn [OF inv c r raw pool, of g] gs Cons by auto
  have 2: "\<forall>g \<in> set hs. good w1 g" "map (replies w1 (fst a)) hs = map (replies w (fst a)) hs"
    using gs Cons good_cong [OF w1(7)] by simp_all
  obtain w' zs where "conversation c (fst a) (map spell hs) w1 = Some w'" "srv_inv w' L zs"
    "w_calls w' = w_calls w1 @ concat (map (replies w1 (fst a)) hs)" using more_turns [OF w1(2,4,5) 2(1)] unfolding w1(3) by blast
  then show ?thesis using w1(1,6) Cons unfolding 2(2) by auto
qed

end
