(* ===== verification/Client_Service.thy ===== *)
theory Client_Service
  imports Keep_Alive
begin

text \<open>
  What a client of the server gets: the properties of a request from its first byte to its answer,
  of a connection that is kept alive, and of a header line that the worker does not survive.
\<close>

section \<open>An example\<close>

definition example_files :: file_system where
  "example_files = \<lparr>open_root = (\<lambda>p. if p = ''docs/a.html'' then 9 else - 1), open_index = (\<lambda>_. - 1), is_dir = (\<lambda>_. False), size_of = (\<lambda>_. 5)\<rparr>"

text \<open>A worker with the settings of the program, and a client that has just connected.\<close>

lemma client_waits:
  "\<exists>w L xs c. srv_inv w L xs \<and> c \<in> L \<and> waiting 20000 w xs c (7, 100) \<and> w_reqs w = Map.empty \<and>
     length (bdata (w_heap w)) = limit \<and> request_pool_size (w_cfg w) = 3488 \<and> header_table w \<and> w_fs w = example_files \<and>
     w_file w = (\<lambda>_. ''hello'') \<and> asks_for w ''docs/a'' (Some ''html'') (CHR ''1'') 9 \<and>
     int (card L) < max_connections (w_cfg w) \<and> load_balance (w_cfg w) = ROUND_MODE"
proof -
  obtain w0 l where w0: "srv_inv w0 {l} []" "max_connections (w_cfg w0) = 65536" "post_accept_timeout (w_cfg w0) = 15000"
    "current_msec (w_tm w0) = 5000" "w_reqs w0 = Map.empty" "config_load 4096 True True 5 = Some (OK, w_cfg w0)" using worker_waits by blast
  obtain w L xs cs where t: "takes_on [(7, 100)] w0 {l} [] w L xs cs"
    using accept_all [OF w0(1), of "[Accepted 7 100]"] w0(2) by (simp add: Let_def) blast
  note D = takes_onD [OF t]
  obtain c where c: "cs = [c]" "waiting 20000 w xs c (7, 100)" using D(5) w0(3,4) by (auto simp: list_all2_Cons2)
  have cfg: "request_pool_size (w_cfg w) = 3488" "load_balance (w_cfg w) = ROUND_MODE" "\<forall>name n. n \<le> length name \<longrightarrow> hash_find (cfg_locations (w_cfg w)) name n =
       Some (if take n name = ''backend'' then Some locations_1 else None)"
    using config_load_ok [of 4096 5] w0(6) D(7) by auto
  obtain h where h: "\<forall>name n. n \<le> length name \<longrightarrow> hash_find h name n = Some (map_of header_array (take n name))"
    using make_map_ok [OF header_names, of 4096] map_lookup [OF _ _ header_names(1,2)] by auto
  let ?w = "w\<lparr>w_heap := \<lparr>bbegin = 0, bend = 0, bpos = 0, bdata = replicate limit (CHR 0x00)\<rparr>, w_headers := h, w_fs := example_files,
    w_file := (\<lambda>_. ''hello'')\<rparr>"
  have "asks_for ?w ''docs/a'' (Some ''html'') (CHR ''1'') 9"
    using cfg(3) example_parts(1-3) by (simp add: asks_for_def example_files_def ext_text_def)
  moreover have "srv_inv ?w L xs" using srv_cong [of ?w w L xs] D(1) by simp
  moreover have "waiting 20000 ?w xs c (7, 100)" using c(2) by (simp add: waiting_def get_ev_def)
  moreover have "header_table ?w" using h by (simp add: header_table_def)
  moreover have "card L \<le> 2" using D(4) c(1) by (simp add: card_insert_if)
  ultimately show ?thesis using D(4,7,8) c(1) cfg(1,2) w0(2,5) by (intro exI [of _ ?w] exI [of _ L] exI [of _ xs] exI [of _ c]) simp
qed

lemma example_lengths:
  "length (get_text ''docs/a'' (Some ''html'') (CHR ''1'') [(''Connection'', 1, ''close'')]) \<le> limit"
  "length (get_text ''docs/a'' (Some ''html'') (CHR ''1'') []) \<le> limit"
  "length (get_line ''docs/a'' (Some ''html'') (CHR ''1'') @ [CHR ''?'', CR, LF]) \<le> limit"
  by code_simp+

lemma example_fields: "field_ok (''Connection'', 1, ''close'')" "\<not> fold field_keep [(''Connection'', 1, ''close'')] True" "no_header (CHR ''?'')"
  by code_simp+

section \<open>Properties\<close>

text \<open>
  C2. A \<^verbatim>\<open>GET\<close> request with any header lines, arriving whole on a new connection, is answered
  in one call: the handlers run through request line, headers and body, the file below the
  document root is open, the send buffer holds exactly the header of a response with status 200, the
  content type of the extension and the length of the file, the connection will be kept
  open unless the last \<^verbatim>\<open>Connection\<close> header says \<^verbatim>\<open>close\<close>, nothing of the request is left in the
  receive buffer, and the kernel has been told to watch for writing instead of reading, with a
  timer. The invariant of the worker holds again (it is part of \<open>serving\<close>).
\<close>

theorem get_is_answered:
  assumes "srv_inv w L xs" "c \<in> L" "waiting t w xs c a" "fst a > 0" "w_reqs w (w_next w) = None"
    and "length (bdata (w_heap w)) = limit" "request_pool_size (w_cfg w) = 3488"
    and "served w path e v hs rfd" "w_recv w (fst a) = [Data (get_text path e v hs)]"
  shows "\<exists>w' ys q. http_init_request (rev_of c) w = Some w' \<and>
    serving w' L ys c ((accepted (fst a) (snd a))\<lparr>c_data := Some (w_next w)\<rparr>) (w_next w) q answer_events \<and>
    prepared w e rfd (fold field_keep hs True) q \<and>
    w_calls w' = w_calls w @ [Kdel (fst a) READ_EVENT, Kadd (fst a) WRITE_EVENT] \<and> (time_limit w, wev_of c) \<in> set ys \<and> outside w' = outside w"
  by (rule get_answered [OF assms])

theorem get_is_answered_witness:
  "\<exists>w xs c w' q. waiting 20000 w xs c (7, 100) \<and> http_init_request (rev_of c) w = Some w' \<and> w_reqs w' (w_next w) = Some q \<and>
    contents (send_buffer q) = response_head 1 200 HTML 5 \<and> \<not> keep_alive (rq q) \<and>
    w_calls w' = w_calls w @ [Kdel 7 READ_EVENT, Kadd 7 WRITE_EVENT]"
proof -
  let ?a = "(7, 100) :: int \<times> 32 word"
  let ?hs = "[(''Connection'', 1, ''close'')]"
  obtain w0 L xs c where w0: "srv_inv w0 L xs" "c \<in> L" "waiting 20000 w0 xs c (7, 100)" "w_reqs w0 = Map.empty"
    "length (bdata (w_heap w0)) = limit" "request_pool_size (w_cfg w0) = 3488" "header_table w0" "w_fs w0 = example_files"
    "asks_for w0 ''docs/a'' (Some ''html'') (CHR ''1'') 9" using client_waits by blast
  let ?txt = "get_text ''docs/a'' (Some ''html'') (CHR ''1'') ?hs"
  let ?w = "arrives 7 ?txt w0"
  have a: "srv_inv ?w L xs" "waiting 20000 ?w xs c (7, 100)" "w_reqs ?w (w_next ?w) = None" "length (bdata (w_heap ?w)) = limit"
    "request_pool_size (w_cfg ?w) = 3488" "w_recv ?w (fst (7, 100 :: 32 word)) = [Data ?txt]" "fst (7, 100 :: 32 word) > (0 :: int)"
    using srv_cong [of ?w w0 L xs] w0 by (simp_all add: arrives_def waiting_def get_ev_def)
  have sv: "served ?w ''docs/a'' (Some ''html'') (CHR ''1'') ?hs 9"
    using w0(7-9) example_lengths(1) example_fields(1) by (simp add: served_def arrives_def asks_for_def header_table_def example_files_def)
  obtain w' ys q where r: "http_init_request (rev_of c) ?w = Some w'"
    "serving w' L ys c ((accepted (fst ?a) (snd ?a))\<lparr>c_data := Some (w_next ?w)\<rparr>) (w_next ?w) q answer_events"
    "prepared ?w (Some ''html'') 9 (fold field_keep ?hs True) q" "w_calls w' = w_calls ?w @ [Kdel (fst ?a) READ_EVENT, Kadd (fst ?a) WRITE_EVENT]"
    using get_is_answered [OF a(1) w0(2) a(2,7,3-5) sv a(6)] by blast
  have "contents (send_buffer q) = response_head 1 200 HTML 5" "\<not> keep_alive (rq q)"
    using r(3) w0(8) example_fields(2) by (simp_all add: prepared_def type_of_def arrives_def example_files_def)
  then show ?thesis using a(2) r(1,4) servingD(6) [OF r(2)]
    by (intro exI [of _ ?w] exI [of _ xs] exI [of _ c] exI [of _ w'] exI [of _ q]) simp
qed

text \<open>
  C1. A connection that is kept alive serves one request after the other: whatever sequence of
  requests for existing files a client sends, each is answered with its header and the whole
  file, in order and with nothing in between, the file is closed, and the connection goes back to
  reading. (The loop calls the handlers that the events have; the socket takes what it is given.)
\<close>

theorem kept_alive_serves:
  assumes "srv_inv w L xs" "c \<in> L" "waiting t w xs c a" "fst a > 0" "w_reqs w (w_next w) = None"
    and "length (bdata (w_heap w)) = limit" "request_pool_size (w_cfg w) = 3488" "\<forall>g \<in> set gs. good w g"
  shows "\<exists>w' ys. conversation c (fst a) (map spell gs) w = Some w' \<and> srv_inv w' L ys \<and>
    w_calls w' = w_calls w @ concat (map (replies w (fst a)) gs)"
  by (rule conversation_ok [OF assms])

theorem kept_alive_serves_witness:
  "\<exists>w c g w'. g_path g = ''docs/a'' \<and> conversation c 7 [spell g, spell g] w = Some w' \<and>
    w_calls w' = w_calls w @ replies w 7 g @ replies w 7 g \<and> Send 7 ''hello'' \<in> set (replies w 7 g)"
proof -
  let ?g = "\<lparr>g_path = ''docs/a'', g_ext = Some ''html'', g_major = CHR ''1'', g_fields = [], g_fd = 9\<rparr>"
  obtain w L xs c where w: "srv_inv w L xs" "c \<in> L" "waiting 20000 w xs c (7, 100)" "w_reqs w = Map.empty"
    "length (bdata (w_heap w)) = limit" "request_pool_size (w_cfg w) = 3488" "header_table w" "w_fs w = example_files"
    "w_file w = (\<lambda>_. ''hello'')" "asks_for w ''docs/a'' (Some ''html'') (CHR ''1'') 9" using client_waits by blast
  have p: "fst (7, 100 :: 32 word) > (0 :: int)" "w_reqs w (w_next w) = None" using w(4) by simp_all
  have "good w ?g" using w(7-10) example_lengths(2) by (simp add: good_def served_def example_files_def)
  then have "\<forall>g \<in> set [?g, ?g]. good w g" by simp
  from kept_alive_serves [OF w(1-3) p w(5,6) this] obtain w' where
    "conversation c 7 [spell ?g, spell ?g] w = Some w'" "w_calls w' = w_calls w @ replies w 7 ?g @ replies w 7 ?g" by auto
  then show ?thesis using w(9) by (intro exI [of _ w] exI [of _ c] exI [of _ ?g] exI [of _ w']) (simp add: replies_def)
qed

text \<open>
  C11. A header line that starts with none of the characters of a name stops the worker: after
  a good request line, such a byte makes \<open>parse_header\<close> fail with the null pointer as the name, and the
  handler stores a NUL through it. The call has no result: in C the process dies with a segmentation
  fault, and with it every connection it holds.
\<close>

theorem bad_header_kills_worker:
  assumes "srv_inv w L xs" "c \<in> L" "waiting t w xs c a" "fst a > 0" "w_reqs w (w_next w) = None"
    and "length (bdata (w_heap w)) = limit" "request_pool_size (w_cfg w) = 3488" "asks_for w path e v rfd"
    and "w_recv w (fst a) = [Data (get_line path e v @ ch # rest)]" "length (get_line path e v @ ch # rest) \<le> limit" "no_header ch"
  shows "http_init_request (rev_of c) w = None"
  by (rule bad_header_stops [OF assms])

theorem bad_header_kills_worker_witness:
  "\<exists>w xs c. waiting 20000 w xs c (7, 100) \<and> w_recv w 7 = [Data (get_line ''docs/a'' (Some ''html'') (CHR ''1'') @ ''?'' @ CRLF)] \<and>
    http_init_request (rev_of c) w = None"
proof -
  obtain w0 L xs c where w0: "srv_inv w0 L xs" "c \<in> L" "waiting 20000 w0 xs c (7, 100)" "w_reqs w0 = Map.empty"
    "length (bdata (w_heap w0)) = limit" "request_pool_size (w_cfg w0) = 3488"
    "asks_for w0 ''docs/a'' (Some ''html'') (CHR ''1'') 9" using client_waits by blast
  let ?txt = "get_line ''docs/a'' (Some ''html'') (CHR ''1'') @ CHR ''?'' # [CR, LF]"
  let ?w = "arrives 7 ?txt w0"
  have a: "srv_inv ?w L xs" "waiting 20000 ?w xs c (7, 100)" "w_reqs ?w (w_next ?w) = None" "length (bdata (w_heap ?w)) = limit"
    "request_pool_size (w_cfg ?w) = 3488" "w_recv ?w (fst (7, 100 :: 32 word)) = [Data ?txt]" "fst (7, 100 :: 32 word) > (0 :: int)"
    "asks_for ?w ''docs/a'' (Some ''html'') (CHR ''1'') 9"
    using srv_cong [of ?w w0 L xs] w0 by (simp_all add: arrives_def waiting_def get_ev_def asks_for_def)
  have "http_init_request (rev_of c) ?w = None"
    by (rule bad_header_kills_worker [OF a(1) w0(2) a(2,7,3-5,8,6) example_lengths(3) example_fields(3)])
  then show ?thesis using a(2,6) by (intro exI [of _ ?w] exI [of _ xs] exI [of _ c]) (simp add: CRLF_def)
qed

end
