(* ===== verification/Relay.thy ===== *)
theory Relay
  imports Keep_Alive
begin

text \<open>
  The answer of a back end on its way to the client: \<open>http_recv_upstream\<close> fills the send buffer of the
  request from the connection to the back end, and \<open>handle_response\<close> empties it into the client's.
\<close>

section \<open>Operations on the events of one connection\<close>

lemma srv_add_event:
  assumes inv: "srv_inv w L xs" and c: "c \<in> L" "w_conns w c = Some k" "get_ev (ev_of c d) w = Some e" "\<not> ev_active e"
  shows "\<exists>S. add_event (ev_of c d) d' w = Some (w\<lparr>w_tm := S, w_kevent := tl (w_kevent w), w_calls := w_calls w @ [Kadd (c_fd k) d']\<rparr>) \<and>
    srv_inv (w\<lparr>w_tm := S, w_kevent := tl (w_kevent w), w_calls := w_calls w @ [Kadd (c_fd k) d']\<rparr>) L xs \<and>
    tm_events S = (tm_events (w_tm w))(ev_of c d \<mapsto> e\<lparr>ev_active := True\<rparr>) \<and> current_msec S = current_msec (w_tm w)"
proof -
  note D = srv_invD(1) [OF inv]
  let ?S = "(w_tm w)\<lparr>tm_events := (tm_events (w_tm w))(ev_of c d \<mapsto> e\<lparr>ev_active := True\<rparr>)\<rparr>"
  let ?w = "w\<lparr>w_tm := ?S, w_kevent := tl (w_kevent w), w_calls := w_calls w @ [Kadd (c_fd k) d']\<rparr>"
  have g: "tm_events (w_tm w) (ev_of c d) = Some e" using c(3) by (simp add: get_ev_def)
  have a: "add_event (ev_of c d) d' w = Some ?w"
    using c by (simp add: add_event_def kqueue_add_event_def set_ev_def on_timers_def set_event_def g split_beta kevent_frame)
  obtain w' where "add_event (ev_of c d) d' w = Some w'" "conn_inv w' L xs" "event_frame {ev_of c d} w w'"
    using add_event_ok [OF D c(1), of d d'] by blast
  then have "srv_inv ?w L xs" using srv_events [OF inv, of "{ev_of c d}" ?w xs] a by simp
  then show ?thesis using a by (intro exI [of _ ?S]) simp
qed

text \<open>Without a timer, so that only the registration goes.\<close>

lemma srv_del_event:
  assumes inv: "srv_inv w L xs" and c: "c \<in> L" "w_conns w c = Some k" "get_ev (ev_of c d) w = Some e" "ev_active e" "\<not> timer_set e"
  shows "\<exists>S. del_event (ev_of c d) d' w = Some (w\<lparr>w_tm := S, w_kevent := tl (w_kevent w), w_calls := w_calls w @ [Kdel (c_fd k) d']\<rparr>) \<and>
    srv_inv (w\<lparr>w_tm := S, w_kevent := tl (w_kevent w), w_calls := w_calls w @ [Kdel (c_fd k) d']\<rparr>) L xs \<and>
    tm_events S = (tm_events (w_tm w))(ev_of c d \<mapsto> e\<lparr>ev_active := False\<rparr>)"
proof -
  note D = srv_invD(1) [OF inv]
  let ?S = "(w_tm w)\<lparr>tm_events := (tm_events (w_tm w))(ev_of c d \<mapsto> e\<lparr>ev_active := False\<rparr>)\<rparr>"
  let ?w = "w\<lparr>w_tm := ?S, w_kevent := tl (w_kevent w), w_calls := w_calls w @ [Kdel (c_fd k) d']\<rparr>"
  have g: "tm_events (w_tm w) (ev_of c d) = Some e" using c(3) by (simp add: get_ev_def)
  have a: "del_event (ev_of c d) d' w = Some ?w"
    using c by (simp add: del_event_def kqueue_del_event_def del_timer_if_set_def get_ev_def set_ev_def on_timers_def set_event_def g split_beta kevent_frame)
  obtain w' ys where w': "del_event (ev_of c d) d' w = Some w'" "conn_inv w' L ys" "event_frame {ev_of c d} w w'"
    "ys = xs \<or> ys = filter (\<lambda>x. snd x \<noteq> ev_of c d) xs"
    using del_event_ok [OF D c(1), of d d'] by blast
  have "ev_of c d \<notin> snd ` set xs"
  proof
    assume "ev_of c d \<in> snd ` set xs"
    then obtain key where "(key, ev_of c d) \<in> set xs" by auto
    moreover have "tm_inv (w_tm w) xs" using D by (simp add: conn_inv_def)
    ultimately show False using tm_invD [of "w_tm w" xs "ev_of c d" e] g c(5) by (force simp: event_ok_def)
  qed
  then have "filter (\<lambda>x. snd x \<noteq> ev_of c d) xs = xs" by (intro filter_True) force
  then have "ys = xs" using w'(4) by metis
  then have "srv_inv ?w L xs" using srv_events [OF inv, of "{ev_of c d}" ?w xs] a w'(1-3) by simp
  then show ?thesis using a by (intro exI [of _ ?S]) simp
qed

text \<open>With or without a timer.\<close>

lemma srv_drop_event:
  assumes inv: "srv_inv w L xs" and c: "c \<in> L" "w_conns w c = Some k" "get_ev (ev_of c d) w = Some e" "ev_active e"
  shows "\<exists>S e' ys. del_event (ev_of c d) d w = Some (w\<lparr>w_tm := S, w_kevent := tl (w_kevent w), w_calls := w_calls w @ [Kdel (c_fd k) d]\<rparr>) \<and>
    srv_inv (w\<lparr>w_tm := S, w_kevent := tl (w_kevent w), w_calls := w_calls w @ [Kdel (c_fd k) d]\<rparr>) L ys \<and>
    tm_events S = (tm_events (w_tm w))(ev_of c d \<mapsto> e') \<and> \<not> ev_active e'"
proof -
  note D = srv_invD(1) [OF inv]
  let ?e = "e\<lparr>ev_active := False\<rparr>" and ?f = "\<lambda>e :: handler event. e\<lparr>ev_active := False\<rparr>"
  obtain w1 where w1: "set_ev ?f (ev_of c d) w = Some w1" "conn_inv w1 L xs"
    "w1 = w\<lparr>w_tm := (w_tm w)\<lparr>tm_events := (tm_events (w_tm w))(ev_of c d \<mapsto> ?e)\<rparr>\<rparr>"
    using set_active_ok [OF D c(1,3), of ?f] by auto
  have tm: "tm_inv (w_tm w1) xs" and e1: "tm_events (w_tm w1) (ev_of c d) = Some ?e" using w1(2,3) by (simp_all add: conn_inv_def)
  obtain S e' where S: "(if timer_set ?e then event_del_timer (ev_of c d) (w_tm w1) else Some (w_tm w1)) = Some S"
    "tm_events S = (tm_events (w_tm w1))(ev_of c d \<mapsto> e')" "ev_active e' = ev_active ?e"
    using del_if_set_ok [OF tm e1] by blast
  let ?w = "w\<lparr>w_tm := S, w_kevent := tl (w_kevent w), w_calls := w_calls w @ [Kdel (c_fd k) d]\<rparr>"
  have a: "del_event (ev_of c d) d w = Some ?w"
    using w1 c S(1)
    by (auto simp: del_event_def kqueue_del_event_def del_timer_if_set_def get_ev_def del_timer_def on_timers_def split_beta kevent_frame
        split: if_splits)
  obtain w' ys where w': "del_event (ev_of c d) d w = Some w'" "conn_inv w' L ys" "event_frame {ev_of c d} w w'"
    "ys = xs \<or> ys = filter (\<lambda>x. snd x \<noteq> ev_of c d) xs" using del_event_ok [OF D c(1), of d d] by blast
  have "srv_inv w' L ys" by (rule srv_events [OF inv w'(3,2)]) (use w'(4) in auto)
  then show ?thesis using a w'(1) S(2,3) w1(3) by (intro exI [of _ S] exI [of _ e'] exI [of _ ys]) simp
qed

text \<open>A timer, armed or moved.\<close>

lemma timer_added:
  assumes inv: "tm_inv S xs" and e: "tm_events S ev = Some e"
  shows "\<exists>S' e'. event_add_timer ev d S = Some S' \<and> tm_inv S' (rearm (timer_set e) (current_msec S + d) ev xs) \<and>
    sentinel (tm_tree S') = sentinel (tm_tree S) \<and> tm_events S' = (tm_events S)(ev \<mapsto> e') \<and>
    ev_handler e' = ev_handler e \<and> ev_active e' = ev_active e \<and> (timedout e' \<longrightarrow> timedout e)"
proof -
  obtain S' e' where S: "event_add_timer ev d S = Some S'" "tm_inv S' (rearm (timer_set e) (current_msec S + d) ev xs)"
    "sentinel (tm_tree S') = sentinel (tm_tree S)" "\<forall>b. b \<noteq> ev \<longrightarrow> tm_events S' b = tm_events S b" "tm_events S' ev = Some e'"
    "ev_handler e' = ev_handler e" "ev_active e' = ev_active e"
    using add_timer_ok [OF inv e] by blast
  have "timedout e' \<longrightarrow> timedout e"
    using S(1,5) e by (auto simp: event_add_timer_def arm_timer_def event_del_timer_def set_event_def Let_def bind_eq_Some_conv split: if_splits)
  moreover have "tm_events S' = (tm_events S)(ev \<mapsto> e')" using S(4,5) by auto
  ultimately show ?thesis using S by blast
qed

lemma srv_add_timer:
  assumes inv: "srv_inv w L xs" and c: "c \<in> L" "get_ev (ev_of c d) w = Some e" "ev_handler e = Some h"
    and h: "h \<noteq> Event_accept" "h \<noteq> Connection_result" and e: "\<not> timedout e"
  shows "\<exists>S ys e'. add_timer (ev_of c d) t w = Some (w\<lparr>w_tm := S\<rparr>) \<and> srv_inv (w\<lparr>w_tm := S\<rparr>) L ys \<and>
    tm_events S = (tm_events (w_tm w))(ev_of c d \<mapsto> e') \<and> ev_handler e' = Some h \<and> ev_active e' = ev_active e \<and> \<not> timedout e' \<and>
    ys = rearm (timer_set e) (current_msec (w_tm w) + of_int t) (ev_of c d) xs"
proof -
  note D = srv_invD [OF inv]
  have tm: "tm_inv (w_tm w) xs" and g: "tm_events (w_tm w) (ev_of c d) = Some e"
    using D(1) c(2) by (simp_all add: conn_inv_def get_ev_def)
  let ?ys = "rearm (timer_set e) (current_msec (w_tm w) + of_int t) (ev_of c d) xs"
  obtain S e' where S: "event_add_timer (ev_of c d) (of_int t) (w_tm w) = Some S" "tm_inv S ?ys"
    "sentinel (tm_tree S) = sentinel (tm_tree (w_tm w))" "tm_events S = (tm_events (w_tm w))(ev_of c d \<mapsto> e')"
    "ev_handler e' = ev_handler e" "ev_active e' = ev_active e" "timedout e' \<longrightarrow> timedout e"
    using timer_added [OF tm g] by blast
  let ?w = "w\<lparr>w_tm := S\<rparr>"
  have ci: "conn_inv ?w L ?ys" by (rule conn_inv_events [OF D(1) c(1) S(2,4,3)]) simp_all
  have tc: "data_of ?w b = data_of w b" "client ?w b = client w b" "backend ?w b = backend w b" "typed ?w b di h' = typed w b di h'"
    "chosen ?w b = chosen w b" for b di h' using typed_cong [of ?w b w] by auto
  have ge: "get_ev (ev_of b di) ?w = (if b = c \<and> di = d then Some e' else get_ev (ev_of b di) w)" for b di
    by (simp add: get_ev_def S(4))
  have "srv_inv ?w L ?ys"
  proof (rule srv_invI [OF ci])
    show "81 \<le> length (w_static ?w)" using D(2) by simp
    show "req_ok ?w L r0 q0" if "w_reqs ?w r0 = Some q0" for r0 q0 using D(3) [of r0 q0] that tc(1) by (simp add: req_ok_def)
    show "client ?w b \<or> backend ?w b" if "b \<in> L" "data_of ?w b \<noteq> None" for b using D(4) that tc by simp
    show "typed ?w b di h'" if "b \<in> L" "get_ev (ev_of b di) ?w = Some ea" "ev_handler ea = Some h'" for b di ea h'
      using that D(5) [of b di ea h'] D(5) [OF c] S(5) c(3) tc(4) by (auto simp: ge split: if_splits)
    show "armed_ok ?w b di" if "ev_of b di \<in> snd ` set ?ys" for b di
    proof (cases "b = c \<and> di = d")
      case True
      then show ?thesis using S(5) c(3) h by (auto simp: armed_ok_def ge)
    next
      case False
      then have "ev_of b di \<in> snd ` set xs" using that by (auto simp: rearm_def put_entry_set split: if_splits)
      then show ?thesis using D(6) [of b di] False tc(5) by (auto simp: armed_ok_def ge)
    qed
  qed
  moreover have "add_timer (ev_of c d) t w = Some ?w" using S(1) by (simp add: add_timer_def on_timers_def)
  ultimately show ?thesis using S(4-7) c(3) e by (intro exI [of _ S] exI [of _ ?ys] exI [of _ e']) simp
qed

section \<open>A client and its back end\<close>

text \<open>\<open>c\<close> is the client's connection, \<open>u\<close> the one to the back end, and \<open>ec\<close> the client's write event.\<close>

definition linked :: "world \<Rightarrow> slot set \<Rightarrow> slot \<Rightarrow> slot \<Rightarrow> int \<Rightarrow> int \<Rightarrow> nat \<Rightarrow> http_request \<Rightarrow> handler event \<Rightarrow> bool" where
  "linked w L c u cfd ufd r q ec \<longleftrightarrow> (\<exists>xs. srv_inv w L xs) \<and> w_reqs w r = Some q \<and> connection q = Some c \<and> upstream q = Some u \<and>
     (\<exists>k. w_conns w c = Some k \<and> c_fd k = cfd) \<and> (\<exists>k. w_conns w u = Some k \<and> c_fd k = ufd) \<and> cfd > 0 \<and> ufd > 0 \<and>
     get_ev (wev_of c) w = Some ec \<and> (\<exists>e. get_ev (rev_of u) w = Some e \<and> ev_handler e = Some Recv_upstream \<and> \<not> timedout e)"

lemma linkedD:
  assumes "linked w L c u cfd ufd r q ec"
  shows "\<exists>xs. srv_inv w L xs" "w_reqs w r = Some q" "connection q = Some c" "upstream q = Some u" "cfd > 0" "ufd > 0"
    "get_ev (wev_of c) w = Some ec" "\<exists>e. get_ev (rev_of u) w = Some e \<and> ev_handler e = Some Recv_upstream \<and> \<not> timedout e"
    "\<exists>k. w_conns w c = Some k \<and> c_fd k = cfd \<and> c_data k = Some r" "\<exists>k. w_conns w u = Some k \<and> c_fd k = ufd \<and> c_data k = Some r"
    "c \<in> L" "u \<in> L" "c \<noteq> u" "client w c" "buffer_wf (recv_buffer q)" "buffer_wf (send_buffer q)"
proof -
  show D: "\<exists>xs. srv_inv w L xs" "w_reqs w r = Some q" "connection q = Some c" "upstream q = Some u" "cfd > 0" "ufd > 0"
    "get_ev (wev_of c) w = Some ec" "\<exists>e. get_ev (rev_of u) w = Some e \<and> ev_handler e = Some Recv_upstream \<and> \<not> timedout e"
    using assms unfolding linked_def by blast+
  obtain xs where "srv_inv w L xs" using D(1) by blast
  then have R: "req_ok w L r q" using srv_invD(3) D(2) by blast
  have d: "data_of w c = Some r" "data_of w u = Some r" using R D(3,4) by (auto simp: req_ok_def)
  show "\<exists>k. w_conns w c = Some k \<and> c_fd k = cfd \<and> c_data k = Some r" "\<exists>k. w_conns w u = Some k \<and> c_fd k = ufd \<and> c_data k = Some r"
    using assms d unfolding linked_def by (auto simp: data_of_def)
  show "c \<in> L" "u \<in> L" "c \<noteq> u" "client w c" "buffer_wf (recv_buffer q)" "buffer_wf (send_buffer q)"
    using R D(2-4) d by (auto simp: req_ok_def client_def)
qed

lemma linked_cong:
  assumes "linked w L c u cfd ufd r q ec" "w_tm w' = w_tm w" "w_pool w' = w_pool w" "w_conns w' = w_conns w" "w_reqs w' = w_reqs w"
    "w_static w' = w_static w" "w_doms w' = w_doms w"
  shows "linked w' L c u cfd ufd r q ec"
  using assms srv_cong [of w' w L] by (simp add: linked_def get_ev_def)

lemma linked_req:
  assumes l: "linked w L c u cfd ufd r q ec" and q: "links q' = links q" "buffer_wf (recv_buffer q')" "buffer_wf (send_buffer q')"
  shows "linked (w\<lparr>w_reqs := (w_reqs w)(r \<mapsto> q')\<rparr>) L c u cfd ufd r q' ec"
proof -
  obtain xs where "srv_inv w L xs" using linkedD(1) [OF l] by blast
  then have "srv_inv (w\<lparr>w_reqs := (w_reqs w)(r \<mapsto> q')\<rparr>) L xs" using srv_req [OF _ linkedD(2) [OF l] q] by blast
  then show ?thesis using l q(1) by (auto simp: linked_def links_def get_ev_def)
qed

text \<open>An operation on the client's write event, and one on the back end's read event.\<close>

lemma linked_wev:
  assumes l: "linked w L c u cfd ufd r q ec" and inv: "srv_inv w' L ys"
    and w': "w_conns w' = w_conns w" "w_reqs w' = w_reqs w" "tm_events (w_tm w') = (tm_events (w_tm w))(wev_of c \<mapsto> e)"
  shows "linked w' L c u cfd ufd r q e"
  using l inv w' by (auto simp: linked_def get_ev_def)

lemma linked_rev:
  assumes l: "linked w L c u cfd ufd r q ec" and inv: "srv_inv w' L ys"
    and w': "w_conns w' = w_conns w" "w_reqs w' = w_reqs w" "tm_events (w_tm w') = (tm_events (w_tm w))(rev_of u \<mapsto> e)"
    and e: "ev_handler e = Some Recv_upstream" "\<not> timedout e"
  shows "linked w' L c u cfd ufd r q ec"
  using l inv w' e by (auto simp: linked_def get_ev_def)

lemma linked_handler:
  assumes l: "linked w L c u cfd ufd r q ec"
  shows "\<exists>S. set_handler Handle_response (wev_of c) w = Some (w\<lparr>w_tm := S\<rparr>) \<and>
    linked (w\<lparr>w_tm := S\<rparr>) L c u cfd ufd r q (ec\<lparr>ev_handler := Some Handle_response\<rparr>)"
proof -
  note D = linkedD [OF l]
  obtain xs where inv: "srv_inv w L xs" using D(1) by blast
  let ?S = "(w_tm w)\<lparr>tm_events := (tm_events (w_tm w))(wev_of c \<mapsto> ec\<lparr>ev_handler := Some Handle_response\<rparr>)\<rparr>"
  have "set_handler Handle_response (wev_of c) w = Some (w\<lparr>w_tm := ?S\<rparr>)" "srv_inv (w\<lparr>w_tm := ?S\<rparr>) L xs"
    using srv_handler [OF inv D(11), of WRITE_EVENT Handle_response] D(7,14) by auto
  then show ?thesis using linked_wev [OF l, of "w\<lparr>w_tm := ?S\<rparr>" xs] by (intro exI [of _ ?S]) simp
qed

lemma linked_add_event:
  assumes l: "linked w L c u cfd ufd r q ec" and e: "\<not> ev_active ec"
  shows "\<exists>S. add_event (wev_of c) WRITE_EVENT w = Some (w\<lparr>w_tm := S, w_kevent := tl (w_kevent w), w_calls := w_calls w @ [Kadd cfd WRITE_EVENT]\<rparr>) \<and>
    linked (w\<lparr>w_tm := S, w_kevent := tl (w_kevent w), w_calls := w_calls w @ [Kadd cfd WRITE_EVENT]\<rparr>) L c u cfd ufd r q (ec\<lparr>ev_active := True\<rparr>)"
proof -
  note D = linkedD [OF l]
  obtain xs k where x: "srv_inv w L xs" "w_conns w c = Some k" "c_fd k = cfd" using D(1,9) by blast
  have "get_ev (ev_of c WRITE_EVENT) w = Some ec" using D(7) by simp
  from srv_add_event [OF x(1) D(11) x(2) this e, of WRITE_EVENT] obtain S where
    "add_event (wev_of c) WRITE_EVENT w = Some (w\<lparr>w_tm := S, w_kevent := tl (w_kevent w), w_calls := w_calls w @ [Kadd cfd WRITE_EVENT]\<rparr>)"
    "srv_inv (w\<lparr>w_tm := S, w_kevent := tl (w_kevent w), w_calls := w_calls w @ [Kadd cfd WRITE_EVENT]\<rparr>) L xs"
    "tm_events S = (tm_events (w_tm w))(wev_of c \<mapsto> ec\<lparr>ev_active := True\<rparr>)" by (auto simp: x(3))
  then show ?thesis by (intro exI [of _ S] conjI linked_wev [OF l, of _ xs]) simp_all
qed

lemma linked_del_event:
  assumes l: "linked w L c u cfd ufd r q ec" and e: "ev_active ec" "\<not> timer_set ec"
  shows "\<exists>S. del_event (wev_of c) WRITE_EVENT w = Some (w\<lparr>w_tm := S, w_kevent := tl (w_kevent w), w_calls := w_calls w @ [Kdel cfd WRITE_EVENT]\<rparr>) \<and>
    linked (w\<lparr>w_tm := S, w_kevent := tl (w_kevent w), w_calls := w_calls w @ [Kdel cfd WRITE_EVENT]\<rparr>) L c u cfd ufd r q (ec\<lparr>ev_active := False\<rparr>)"
proof -
  note D = linkedD [OF l]
  obtain xs k where x: "srv_inv w L xs" "w_conns w c = Some k" "c_fd k = cfd" using D(1,9) by blast
  have "get_ev (ev_of c WRITE_EVENT) w = Some ec" using D(7) by simp
  from srv_del_event [OF x(1) D(11) x(2) this e, of WRITE_EVENT] obtain S where
    "del_event (wev_of c) WRITE_EVENT w = Some (w\<lparr>w_tm := S, w_kevent := tl (w_kevent w), w_calls := w_calls w @ [Kdel cfd WRITE_EVENT]\<rparr>)"
    "srv_inv (w\<lparr>w_tm := S, w_kevent := tl (w_kevent w), w_calls := w_calls w @ [Kdel cfd WRITE_EVENT]\<rparr>) L xs"
    "tm_events S = (tm_events (w_tm w))(wev_of c \<mapsto> ec\<lparr>ev_active := False\<rparr>)" by (auto simp: x(3))
  then show ?thesis by (intro exI [of _ S] conjI linked_wev [OF l, of _ xs]) simp_all
qed

lemma linked_add_timer:
  assumes l: "linked w L c u cfd ufd r q ec"
  shows "\<exists>S. add_timer (rev_of u) t w = Some (w\<lparr>w_tm := S\<rparr>) \<and> linked (w\<lparr>w_tm := S\<rparr>) L c u cfd ufd r q ec"
proof -
  note D = linkedD [OF l]
  obtain xs e where x: "srv_inv w L xs" "get_ev (ev_of u READ_EVENT) w = Some e" "ev_handler e = Some Recv_upstream" "\<not> timedout e"
    using D(1,8) by auto
  obtain S ys e' where "add_timer (rev_of u) t w = Some (w\<lparr>w_tm := S\<rparr>)" "srv_inv (w\<lparr>w_tm := S\<rparr>) L ys"
    "tm_events S = (tm_events (w_tm w))(rev_of u \<mapsto> e')" "ev_handler e' = Some Recv_upstream" "\<not> timedout e'"
    using srv_add_timer [OF x(1) D(12) x(2,3) _ _ x(4), of t] by auto
  then show ?thesis by (intro exI [of _ S] conjI linked_rev [OF l, of _ ys e']) simp_all
qed

section \<open>From the back end to the client\<close>

text \<open>The client's write event between two pieces of the answer.\<close>

definition resting :: "handler event \<Rightarrow> bool" where
  "resting e \<longleftrightarrow> at_rest e \<and> ev_handler e \<in> {None, Some Handle_response}"

definition emptied :: "buffer \<Rightarrow> bool" where
  "emptied b \<longleftrightarrow> bbegin b = 0 \<and> bend b = 0"

lemma emptied_clear: "emptied b \<Longrightarrow> buffer_clear b = b"
  by (simp add: emptied_def buffer_clear_def)

abbreviation sending :: "handler event \<Rightarrow> handler event" where
  "sending e \<equiv> e\<lparr>ev_handler := Some Handle_response, ev_active := True\<rparr>"

lemma client_told:
  assumes l: "linked w L c u cfd ufd r q ec" and ec: "resting ec"
  shows "\<exists>w1 S. (if ev_handler ec = None then set_handler Handle_response (wev_of c) w else Some w) = Some w1 \<and>
    add_event (wev_of c) WRITE_EVENT w1 = Some (w\<lparr>w_tm := S, w_kevent := tl (w_kevent w), w_calls := w_calls w @ [Kadd cfd WRITE_EVENT]\<rparr>) \<and>
    linked (w\<lparr>w_tm := S, w_kevent := tl (w_kevent w), w_calls := w_calls w @ [Kadd cfd WRITE_EVENT]\<rparr>) L c u cfd ufd r q (sending ec)"
proof (cases "ev_handler ec = None")
  case True
  obtain S where S: "set_handler Handle_response (wev_of c) w = Some (w\<lparr>w_tm := S\<rparr>)"
    "linked (w\<lparr>w_tm := S\<rparr>) L c u cfd ufd r q (ec\<lparr>ev_handler := Some Handle_response\<rparr>)" using linked_handler [OF l] by blast
  then show ?thesis using linked_add_event [OF S(2)] ec True by (simp add: resting_def at_rest_def)
next
  case False
  then have eq: "ec\<lparr>ev_active := True\<rparr> = sending ec" using ec by (cases ec) (auto simp: resting_def)
  have "\<not> ev_active ec" using ec by (simp add: resting_def at_rest_def)
  from linked_add_event [OF l this] show ?thesis unfolding eq using False by auto
qed

text \<open>The first lines of \<open>http_recv_upstream\<close>, up to the use of the result of \<open>buffer_recv\<close>.\<close>

lemma upstream_read:
  assumes l: "linked w L c u cfd ufd r q ec" and ec: "resting ec"
    and b: "buffer_recv (send_buffer q) (w_recv w ufd) = Some (err, b, [])" "buffer_wf b"
  shows "\<exists>w1. w_calls w1 = w_calls w @ [Kadd cfd WRITE_EVENT] \<and> linked w1 L c u cfd ufd r (q\<lparr>send_buffer := b\<rparr>) (sending ec) \<and>
    http_recv_upstream (rev_of u) w =
      (if err = OK then Option.bind (http_close_connection u w1) (set_rq (\<lambda>x. x\<lparr>response_done := True\<rparr>) r)
       else if err = ERROR then answer_err r 503 w1
       else add_timer (rev_of u) (upstream_timeout (w_cfg w1)) w1)"
proof -
  note D = linkedD [OF l]
  obtain k e where k: "w_conns w u = Some k" "c_fd k = ufd" "c_data k = Some r" "get_ev (rev_of u) w = Some e" "\<not> timedout e"
    using D(8,10) by blast
  let ?q = "q\<lparr>send_buffer := b\<rparr>"
  let ?w = "w\<lparr>w_reqs := (w_reqs w)(r \<mapsto> ?q), w_recv := (w_recv w)(ufd := [])\<rparr>"
  have rd: "recv_into send_buffer send_buffer_update r ufd w = Some (err, ?w)" using D(2) b(1) by (simp add: recv_into_def set_req_def)
  have "linked (w\<lparr>w_reqs := (w_reqs w)(r \<mapsto> ?q)\<rparr>) L c u cfd ufd r ?q ec"
    using linked_req [OF l, of ?q] D(15) b(2) by (simp add: links_def)
  then have l1: "linked ?w L c u cfd ufd r ?q ec" by (rule linked_cong) simp_all
  obtain w1 S where t: "(if ev_handler ec = None then set_handler Handle_response (wev_of c) ?w else Some ?w) = Some w1"
    "add_event (wev_of c) WRITE_EVENT w1 = Some (?w\<lparr>w_tm := S, w_kevent := tl (w_kevent ?w), w_calls := w_calls ?w @ [Kadd cfd WRITE_EVENT]\<rparr>)"
    "linked (?w\<lparr>w_tm := S, w_kevent := tl (w_kevent ?w), w_calls := w_calls ?w @ [Kadd cfd WRITE_EVENT]\<rparr>) L c u cfd ufd r ?q (sending ec)"
    using client_told [OF l1 ec] by blast
  let ?w2 = "?w\<lparr>w_tm := S, w_kevent := tl (w_kevent ?w), w_calls := w_calls ?w @ [Kadd cfd WRITE_EVENT]\<rparr>"
  have ge: "get_ev (wev_of c) ?w = Some ec" using linkedD(7) [OF l1] .
  have "http_recv_upstream (rev_of u) w =
      (if err = OK then Option.bind (http_close_connection u ?w2) (set_rq (\<lambda>x. x\<lparr>response_done := True\<rparr>) r)
       else if err = ERROR then answer_err r 503 ?w2
       else add_timer (rev_of u) (upstream_timeout (w_cfg ?w2)) ?w2)"
    using k D(2-4,6) rd ge t(1,2) by (simp add: http_recv_upstream_def Let_def)
  then show ?thesis using t(3) by (intro exI [of _ ?w2]) simp
qed

lemma piece_read:
  assumes l: "linked w L c u cfd ufd r q ec" and ec: "resting ec" and sb: "emptied (send_buffer q)"
    and bs: "w_recv w ufd = [Data bs]" "bs \<noteq> []" "length bs \<le> limit"
  shows "\<exists>w' b. http_recv_upstream (rev_of u) w = Some w' \<and> linked w' L c u cfd ufd r (q\<lparr>send_buffer := b\<rparr>) (sending ec) \<and>
    contents b = bs \<and> w_calls w' = w_calls w @ [Kadd cfd WRITE_EVENT]"
proof -
  note D = linkedD [OF l]
  have "length (bdata (send_buffer q)) = limit" using D(16) by (simp add: buffer_wf_def)
  from recv_all [OF bs(3,2) this] obtain d where d: "buffer_recv (send_buffer q) (w_recv w ufd) =
      Some (AGAIN, (send_buffer q)\<lparr>bdata := d, bend := length bs\<rparr>, [])" "length d = limit" "take (length bs) d = bs"
    unfolding emptied_clear [OF sb] bs(1) by blast
  let ?b = "(send_buffer q)\<lparr>bdata := d, bend := length bs\<rparr>"
  have b: "buffer_wf ?b" "contents ?b = bs" using sb d(2,3) bs(3) by (simp_all add: buffer_wf_def contents_def segment_def emptied_def)
  obtain w1 where w1: "w_calls w1 = w_calls w @ [Kadd cfd WRITE_EVENT]" "linked w1 L c u cfd ufd r (q\<lparr>send_buffer := ?b\<rparr>) (sending ec)"
    "http_recv_upstream (rev_of u) w = add_timer (rev_of u) (upstream_timeout (w_cfg w1)) w1"
    using upstream_read [OF l ec d(1) b(1)] by auto
  then show ?thesis using linked_add_timer [OF w1(2), of "upstream_timeout (w_cfg w1)"] b(2) by fastforce
qed

lemma piece_sent:
  assumes l: "linked w L c u cfd ufd r q (sending ec)" and ec: "resting ec" and sb: "contents (send_buffer q) \<noteq> []" "\<not> response_done (rq q)"
    and o: "w_send w = [Sent m] # ws" "limit \<le> m"
  shows "\<exists>w' e. handle_response (wev_of c) w = Some w' \<and> linked w' L c u cfd ufd r (q\<lparr>send_buffer := buffer_clear (send_buffer q)\<rparr>) e \<and>
    resting e \<and> w_calls w' = w_calls w @ [Send cfd (contents (send_buffer q)), Kdel cfd WRITE_EVENT]"
proof -
  note D = linkedD [OF l]
  obtain k where k: "w_conns w c = Some k" "c_fd k = cfd" "c_data k = Some r" using D(9) by blast
  let ?sb = "send_buffer q" and ?q = "q\<lparr>send_buffer := buffer_clear (send_buffer q)\<rparr>"
  have fits: "length (contents ?sb) \<le> m" using D(16) o(2) by (auto simp: buffer_wf_def contents_def segment_def)
  note out = buffer_send_all [OF D(16) sb(1) fits]
  let ?w = "w\<lparr>w_send := ws, w_calls := w_calls w @ [Send cfd (contents ?sb)], w_reqs := (w_reqs w)(r \<mapsto> ?q)\<rparr>"
  have r1: "send_from send_buffer send_buffer_update r cfd w = Some (OK, ?w)"
    using D(2) out o(1) by (simp add: send_from_def set_req_def call_def)
  have "linked (w\<lparr>w_reqs := (w_reqs w)(r \<mapsto> ?q)\<rparr>) L c u cfd ufd r ?q (sending ec)"
    using linked_req [OF l, of ?q] D(15,16) by (simp add: links_def)
  then have l1: "linked ?w L c u cfd ufd r ?q (sending ec)" by (rule linked_cong) simp_all
  obtain S where S: "del_event (wev_of c) WRITE_EVENT ?w =
      Some (?w\<lparr>w_tm := S, w_kevent := tl (w_kevent ?w), w_calls := w_calls ?w @ [Kdel cfd WRITE_EVENT]\<rparr>)"
    "linked (?w\<lparr>w_tm := S, w_kevent := tl (w_kevent ?w), w_calls := w_calls ?w @ [Kdel cfd WRITE_EVENT]\<rparr>) L c u cfd ufd r ?q
      ((sending ec)\<lparr>ev_active := False\<rparr>)"
    using linked_del_event [OF l1] ec by (auto simp: resting_def at_rest_def)
  have "handle_response (wev_of c) w =
      Some (?w\<lparr>w_tm := S, w_kevent := tl (w_kevent ?w), w_calls := w_calls ?w @ [Kdel cfd WRITE_EVENT]\<rparr>)"
    using k D(4,5,7) r1 sb(2) S(1) ec by (simp add: handle_response_def resting_def at_rest_def)
  moreover have "resting ((sending ec)\<lparr>ev_active := False\<rparr>)" using ec by (simp add: resting_def at_rest_def)
  ultimately show ?thesis using S(2) by (intro exI conjI) auto
qed

text \<open>The back end closes its side: the connection to it goes, and the request is done.\<close>

lemma end_read:
  assumes l: "linked w L c u cfd ufd r q ec" and ec: "resting ec" and sb: "emptied (send_buffer q)" and eof: "w_recv w ufd = [Eof]"
  shows "\<exists>w' ys. http_recv_upstream (rev_of u) w = Some w' \<and> srv_inv w' (L - {u}) ys \<and>
    w_reqs w' r = Some (q\<lparr>upstream := None, rq := (rq q)\<lparr>response_done := True\<rparr>\<rparr>) \<and>
    w_calls w' = w_calls w @ [Kadd cfd WRITE_EVENT, Close ufd]"
proof -
  note D = linkedD [OF l]
  have b: "buffer_recv (send_buffer q) (w_recv w ufd) = Some (OK, send_buffer q, [])"
    using sb eof by (simp add: buffer_full_def emptied_def limit_def)
  obtain w1 where w1: "w_calls w1 = w_calls w @ [Kadd cfd WRITE_EVENT]" "linked w1 L c u cfd ufd r q (sending ec)"
    "http_recv_upstream (rev_of u) w = Option.bind (http_close_connection u w1) (set_rq (\<lambda>x. x\<lparr>response_done := True\<rparr>) r)"
    using upstream_read [OF l ec b D(16)] by auto
  note D1 = linkedD [OF w1(2)]
  obtain xs where inv: "srv_inv w1 L xs" using D1(1) by blast
  let ?q = "q\<lparr>upstream := None\<rparr>"
  obtain w2 k where w2: "http_close_connection u w1 = Some w2" "w_conns w1 u = Some k" "close_frame u k w1 w2"
    "srv_inv w2 (L - {u}) (without {u} xs)" "w_reqs w2 = (w_reqs w1)(r \<mapsto> ?q)"
    using close_backend_ok [OF inv D1(2,4)] by blast
  have fd: "c_fd k = ufd" using D1(10) w2(2) by simp
  let ?q' = "?q\<lparr>rq := (rq q)\<lparr>response_done := True\<rparr>\<rparr>"
  have "srv_inv (w2\<lparr>w_reqs := (w_reqs w2)(r \<mapsto> ?q')\<rparr>) (L - {u}) (without {u} xs)"
    by (rule srv_req [OF w2(4), of r ?q]) (use D(15,16) w2(5) in \<open>simp_all add: links_def\<close>)
  moreover have "http_recv_upstream (rev_of u) w = Some (w2\<lparr>w_reqs := (w_reqs w2)(r \<mapsto> ?q')\<rparr>)"
    using w1(3) w2(1,5) by (simp add: set_rq_def set_req_def)
  moreover have "w_calls w2 = w_calls w @ [Kadd cfd WRITE_EVENT, Close ufd]" using close_frameD(6) [OF w2(3)] w1(1) fd D(6) by simp
  ultimately show ?thesis by (intro exI [of _ "w2\<lparr>w_reqs := (w_reqs w2)(r \<mapsto> ?q')\<rparr>"] exI [of _ "without {u} xs"]) simp
qed

section \<open>A connection to a back end\<close>

text \<open>The slot of a new connection becomes the other side of a request; its events are as they were cleared.\<close>

lemma srv_open:
  assumes s: "serving w L xs c k r q E" and u: "u \<notin> L"
    and ci: "conn_inv (w\<lparr>w_pool := pm, w_tm := S, w_conns := (w_conns w)(u \<mapsto> ku)\<rparr>) (insert u L) xs"
    and S: "tm_events S = (tm_events (w_tm w))(rev_of u \<mapsto> zero_event, wev_of u \<mapsto> zero_event)" and ku: "c_data ku = Some r"
  shows "srv_inv (w\<lparr>w_pool := pm, w_tm := S, w_conns := (w_conns w)(u \<mapsto> ku), w_reqs := (w_reqs w)(r \<mapsto> q\<lparr>upstream := Some u\<rparr>)\<rparr>) (insert u L) xs"
    (is "srv_inv ?w _ _")
proof -
  note Q = servingD [OF s]
  note D = srv_invD [OF Q(1)]
  have cu: "c \<noteq> u" using Q(2) u by blast
  have da: "data_of ?w b = (if b = u then Some r else data_of w b)" for b using ku by (simp add: data_of_def)
  have role: "client ?w b = client w b" "backend ?w b = backend w b" "chosen ?w b = chosen w b" if b: "b \<noteq> u" for b
    using b da [of b] Q(6,8) by (cases "data_of w b = Some r"; auto simp: client_def backend_def chosen_def)+
  have ty: "typed ?w b d h = typed w b d h" if b: "b \<noteq> u" for b d h
    using b da [of b] role [OF b] by (cases d; cases h) auto
  have ge: "get_ev (ev_of b d) ?w = (if b = u then Some zero_event else get_ev (ev_of b d) w)" for b d
    by (cases d) (simp_all add: get_ev_def S)
  show ?thesis
  proof (rule srv_invI)
    show "conn_inv ?w (insert u L) xs" using ci conn_inv_cong [of ?w "w\<lparr>w_pool := pm, w_tm := S, w_conns := (w_conns w)(u \<mapsto> ku)\<rparr>"] by simp
    show "81 \<le> length (w_static ?w)" using D(2) by simp
    show "req_ok ?w (insert u L) r0 q0" if h: "w_reqs ?w r0 = Some q0" for r0 q0
    proof (cases "r0 = r")
      case True
      then show ?thesis using h D(3) [OF Q(6)] Q(7,8) da cu by (auto simp: req_ok_def)
    next
      case False
      then have "req_ok w L r0 q0" using h D(3) [of r0 q0] by simp
      then show ?thesis using da u unfolding req_ok_def by fastforce
    qed
    show "client ?w b \<or> backend ?w b" if "b \<in> insert u L" "data_of ?w b \<noteq> None" for b
      using that D(4) [of b] da [of b] role [of b] u by (cases "b = u") (auto simp: backend_def da)
    show "typed ?w b d h" if "b \<in> insert u L" "get_ev (ev_of b d) ?w = Some e" "ev_handler e = Some h" for b d e h
      using that D(5) [of b d e h] ty [of b d h] by (cases "b = u") (auto simp: ge zero_event_def)
    show "armed_ok ?w b d" if h: "ev_of b d \<in> snd ` set xs" for b d
    proof -
      obtain key where "(key, ev_of b d) \<in> set xs" using h by auto
      then have "b \<in> L" using timers_live [OF D(1)] by fastforce
      then show ?thesis using D(6) [OF h] u role(3) [of b] by (auto simp: armed_ok_def ge)
    qed
  qed
qed

text \<open>The chosen server is noted.\<close>

lemma srv_choose:
  assumes inv: "srv_inv w L xs" and q: "w_reqs w r = Some q" and i: "i < length (w_doms w)" "b < length (servers (w_doms w ! i))"
  shows "srv_inv (w\<lparr>w_reqs := (w_reqs w)(r \<mapsto> q\<lparr>cur_upstream := Some (i, b)\<rparr>)\<rparr>) L xs" (is "srv_inv ?w _ _")
proof -
  note D = srv_invD [OF inv]
  have da: "data_of ?w x = data_of w x" for x by (simp add: data_of_def)
  have role: "client ?w x = client w x" "backend ?w x = backend w x" "chosen w x \<Longrightarrow> chosen ?w x" for x
    using q by (auto simp: client_def backend_def chosen_def da)
  have ty: "typed ?w x d h = typed w x d h" for x d h using da role by (cases d; cases h) auto
  have ge: "get_ev ev ?w = get_ev ev w" for ev by (simp add: get_ev_def)
  show ?thesis
  proof (rule srv_invI)
    show "conn_inv ?w L xs" using D(1) conn_inv_cong [of ?w w] by simp
    show "81 \<le> length (w_static ?w)" using D(2) by simp
    show "req_ok ?w L r0 q0" if "w_reqs ?w r0 = Some q0" for r0 q0
      using that D(3) [of r0 q0] D(3) [OF q] i by (auto simp: req_ok_def da split: if_splits)
    show "client ?w x \<or> backend ?w x" if "x \<in> L" "data_of ?w x \<noteq> None" for x using that D(4) da role by simp
    show "typed ?w x d h" if "x \<in> L" "get_ev (ev_of x d) ?w = Some e" "ev_handler e = Some h" for x d e h
      using that D(5) [of x d e h] ty ge by simp
    show "armed_ok ?w x d" if "ev_of x d \<in> snd ` set xs" for x d
      using D(6) [OF that] role(3) [of x] by (auto simp: armed_ok_def ge)
  qed
qed

text \<open>The request gets its connection to a back end.\<close>

lemma opened_ok:
  assumes s: "serving w L xs c k r q E" and room: "int (card L) < max_connections (w_cfg w)"
  shows "\<exists>u pm S. open_upstream_connection r w =
      Some (Some u, w\<lparr>w_pool := pm, w_tm := S, w_conns := (w_conns w)(u \<mapsto> fresh_conn\<lparr>c_data := Some r\<rparr>)\<rparr>) \<and> u \<notin> L \<and>
    tm_events S = (tm_events (w_tm w))(rev_of u \<mapsto> zero_event, wev_of u \<mapsto> zero_event) \<and> current_msec S = current_msec (w_tm w) \<and>
    srv_inv (w\<lparr>w_pool := pm, w_tm := S, w_conns := (w_conns w)(u \<mapsto> fresh_conn\<lparr>c_data := Some r\<rparr>),
      w_reqs := (w_reqs w)(r \<mapsto> q\<lparr>upstream := Some u\<rparr>)\<rparr>) (insert u L) xs"
proof -
  note D = servingD [OF s]
  let ?S = "\<lambda>u. zero_ev (wev_of u) (zero_ev (rev_of u) (w_tm w))"
  obtain u pm where u: "getIdleConnection w = Some (Some u, w\<lparr>w_pool := pm, w_tm := ?S u, w_conns := (w_conns w)(u \<mapsto> fresh_conn)\<rparr>)"
    "u \<notin> L" "conn_inv (w\<lparr>w_pool := pm, w_tm := ?S u, w_conns := (w_conns w)(u \<mapsto> fresh_conn)\<rparr>) (insert u L) xs"
    using getIdleConnection_ok [OF D(11) room] by blast
  let ?k = "fresh_conn\<lparr>c_data := Some r\<rparr>"
  have ci: "conn_inv (w\<lparr>w_pool := pm, w_tm := ?S u, w_conns := (w_conns w)(u \<mapsto> ?k)\<rparr>) (insert u L) xs"
    using conn_inv_conns [OF u(3), of u ?k] by simp
  have "open_upstream_connection r w = Some (Some u, w\<lparr>w_pool := pm, w_tm := ?S u, w_conns := (w_conns w)(u \<mapsto> ?k)\<rparr>)"
    using D(6,7) u(1) by (simp add: open_upstream_connection_def set_conn_def)
  then show ?thesis using u(2) srv_open [OF s u(2) ci] by (intro exI [of _ u] exI [of _ pm] exI [of _ "?S u"]) simp
qed

text \<open>What \<open>init_upstream_connection\<close> does to a connection whose events are as they were cleared.\<close>

lemma init_upstream_ok:
  assumes inv: "srv_inv w L xs" and u: "u \<in> L" "w_conns w u = Some ku" "c_data ku = Some r" "backend w u"
    and ev: "get_ev (rev_of u) w = Some zero_event" "get_ev (wev_of u) w = Some zero_event"
  shows "\<exists>w' ys S e. init_upstream_connection u fd w = Some w' \<and> srv_inv w' L ys \<and>
    w' = w\<lparr>w_tm := S, w_conns := (w_conns w)(u \<mapsto> ku\<lparr>is_connected := True, c_fd := fd\<rparr>), w_kevent := tl (w_kevent w),
      w_calls := w_calls w @ [Kadd fd READ_EVENT]\<rparr> \<and>
    tm_events S = (tm_events (w_tm w))(rev_of u \<mapsto> zero_event\<lparr>ev_handler := Some Recv_upstream, ev_active := True\<rparr>, wev_of u \<mapsto> e) \<and>
    ev_handler e = Some Proxy_pass \<and> \<not> ev_active e \<and> \<not> timedout e \<and>
    (current_msec (w_tm w) + of_int (upstream_timeout (w_cfg w)), wev_of u) \<in> set ys"
proof -
  let ?k1 = "ku\<lparr>is_connected := True\<rparr>" and ?k2 = "ku\<lparr>is_connected := True, c_fd := fd\<rparr>"
  let ?w1 = "w\<lparr>w_conns := (w_conns w)(u \<mapsto> ?k1)\<rparr>"
  have i1: "srv_inv ?w1 L xs" using srv_conn [OF inv u(1-3), of ?k1] u(3) by simp
  have bk: "backend ?w1 u" using u(2-4) by (auto simp: backend_def data_of_def)
  let ?ep = "zero_event\<lparr>ev_handler := Some Proxy_pass\<rparr>" and ?er = "zero_event\<lparr>ev_handler := Some Recv_upstream\<rparr>"
  let ?w2 = "?w1\<lparr>w_tm := (w_tm w)\<lparr>tm_events := (tm_events (w_tm w))(wev_of u \<mapsto> ?ep)\<rparr>\<rparr>"
  have 2: "set_handler Proxy_pass (wev_of u) ?w1 = Some ?w2" "srv_inv ?w2 L xs"
    using srv_handler [OF i1 u(1), of WRITE_EVENT Proxy_pass] bk ev(2) by (auto simp: get_ev_def)
  have bk2: "backend ?w2 u" using bk by (simp add: backend_def data_of_def)
  let ?w3 = "?w2\<lparr>w_tm := (w_tm ?w2)\<lparr>tm_events := (tm_events (w_tm ?w2))(rev_of u \<mapsto> ?er)\<rparr>\<rparr>"
  have 3: "set_handler Recv_upstream (rev_of u) ?w2 = Some ?w3" "srv_inv ?w3 L xs"
    using srv_handler [OF 2(2) u(1), of READ_EVENT Recv_upstream] bk2 ev(1) by (auto simp: get_ev_def)
  let ?w4 = "?w3\<lparr>w_conns := (w_conns w)(u \<mapsto> ?k2)\<rparr>"
  have i4: "srv_inv ?w4 L xs" using srv_conn [OF 3(2) u(1), of ?k1 r ?k2] u(3) by simp
  have g4: "w_conns ?w4 u = Some ?k2" "get_ev (ev_of u READ_EVENT) ?w4 = Some ?er" "\<not> ev_active ?er"
    by (simp_all add: get_ev_def zero_event_def)
  obtain S5 where 5: "add_event (rev_of u) READ_EVENT ?w4 =
      Some (?w4\<lparr>w_tm := S5, w_kevent := tl (w_kevent ?w4), w_calls := w_calls ?w4 @ [Kadd fd READ_EVENT]\<rparr>)"
    "srv_inv (?w4\<lparr>w_tm := S5, w_kevent := tl (w_kevent ?w4), w_calls := w_calls ?w4 @ [Kadd fd READ_EVENT]\<rparr>) L xs"
    "tm_events S5 = (tm_events (w_tm ?w4))(rev_of u \<mapsto> ?er\<lparr>ev_active := True\<rparr>)" "current_msec S5 = current_msec (w_tm w)"
    using srv_add_event [OF i4 u(1) g4, of READ_EVENT] by auto
  let ?w5 = "?w4\<lparr>w_tm := S5, w_kevent := tl (w_kevent ?w4), w_calls := w_calls ?w4 @ [Kadd fd READ_EVENT]\<rparr>"
  have g5: "get_ev (ev_of u WRITE_EVENT) ?w5 = Some ?ep" "ev_handler ?ep = Some Proxy_pass" "\<not> timedout ?ep"
    using 5(3) by (simp_all add: get_ev_def zero_event_def)
  obtain S ys e where 6: "add_timer (wev_of u) (upstream_timeout (w_cfg ?w5)) ?w5 = Some (?w5\<lparr>w_tm := S\<rparr>)" "srv_inv (?w5\<lparr>w_tm := S\<rparr>) L ys"
    "tm_events S = (tm_events S5)(wev_of u \<mapsto> e)" "ev_handler e = Some Proxy_pass" "ev_active e = ev_active ?ep" "\<not> timedout e"
    "ys = rearm (timer_set ?ep) (current_msec S5 + of_int (upstream_timeout (w_cfg w))) (wev_of u) xs"
    using srv_add_timer [OF 5(2) u(1) g5(1,2) _ _ g5(3), of "upstream_timeout (w_cfg ?w5)"] by auto
  have "init_upstream_connection u fd w = Some (?w5\<lparr>w_tm := S\<rparr>)"
    using u(2) 2(1) 3(1) 5(1) 6(1) by (simp add: init_upstream_connection_def set_conn_def)
  moreover have "(current_msec (w_tm w) + of_int (upstream_timeout (w_cfg w)), wev_of u) \<in> set ys"
    unfolding 6(7) 5(4) by (simp add: rearm_def zero_event_def put_entry_set)
  ultimately show ?thesis using 5(3) 6(2-6) by (intro exI [of _ "?w5\<lparr>w_tm := S\<rparr>"] exI [of _ ys] exI [of _ S] exI [of _ e]) (simp add: fun_upd_twist zero_event_def)
qed

text \<open>Between two pieces of the answer.\<close>

definition relaying :: "world \<Rightarrow> slot set \<Rightarrow> slot \<Rightarrow> slot \<Rightarrow> int \<Rightarrow> int \<Rightarrow> nat \<Rightarrow> http_request \<Rightarrow> bool" where
  "relaying w L c u cfd ufd r q \<longleftrightarrow> (\<exists>ec. linked w L c u cfd ufd r q ec \<and> resting ec) \<and> emptied (send_buffer q) \<and> \<not> response_done (rq q)"

text \<open>The first choice in a domain whose servers have not failed, when the connection succeeds.\<close>

lemma first_choice:
  assumes dom: "find_domain t doms = Some i" "i < length doms" "servers (doms ! i) = ss"
    and ss: "0 < length ss" "length ss \<le> 31" "\<forall>s \<in> set ss. unfailed s"
  shows "\<exists>b d. next_server ss = Some b \<and> servers d = after_picks (settled ss) [Some b] \<and>
    (\<forall>(connect :: nat \<Rightarrow> nat \<Rightarrow> server \<Rightarrow> 'w \<Rightarrow> (rc \<times> 'w) option) give_up w w'. connect i b (servers d ! b) w = Some (OK, w') \<longrightarrow>
      get_server_by_round connect give_up now block (Some t) None 0 doms w = Some (Some i, 1, doms[i := d], w'))"
proof -
  let ?d = "refresh_all now ((doms ! i)\<lparr>tried := [0]\<rparr>)"
  have "refresh now s = (False, s\<lparr>us_state := UPSTREAM_CONN_SUC\<rparr>)" if "s \<in> set ss" for s
    using that ss(3) by (auto simp: unfailed_def refresh_def)
  then have sd: "servers ?d = settled ss" "tried ?d = [0]" using dom(3) by (simp_all add: refresh_all_def)
  have init: "init_before_round now block (Some t) None doms = Some (OK, Some i, doms[i := ?d])"
    using dom ss(2) by (simp add: init_before_round_def Let_def)
  obtain b d where x: "get_server_by_round_once now ?d = Some (Some b, d)" "next_server ss = Some b" "servers d = after_picks (settled ss) [Some b]"
    using once_healthy [OF sd _ _ settled_healthy [OF ss(3)], of now] ss(1,2) unfolding next_server_settled by auto
  have found: "try_servers (connect i) now ?d 0 w = Some (d, 1, True, w')" if "connect i b (servers d ! b) w = Some (OK, w')" 
    for connect :: "nat \<Rightarrow> nat \<Rightarrow> server \<Rightarrow> 'w \<Rightarrow> (rc \<times> 'w) option" and w w'
    using ss(1) sd(1) x(1) that by (subst try_servers.simps) simp
  have "get_server_by_round connect give_up now block (Some t) None 0 doms w = Some (Some i, 1, doms[i := d], w')"
    if c: "connect i b (servers d ! b) w = Some (OK, w')" for connect :: "nat \<Rightarrow> nat \<Rightarrow> server \<Rightarrow> 'w \<Rightarrow> (rc \<times> 'w) option" and give_up w w'
    using init dom(2) found [of connect, OF c] by (simp add: get_server_by_round_def)
  then show ?thesis using x(2,3) by (intro exI [of _ b] exI [of _ d]) simp
qed

text \<open>The back end is connected, and nothing has been sent to it.\<close>

definition ready_for_request :: "world \<Rightarrow> slot \<Rightarrow> bool" where
  "ready_for_request w u \<longleftrightarrow> (\<exists>k. w_conns w u = Some k \<and> is_connected k) \<and>
     (\<exists>e. get_ev (wev_of u) w = Some e \<and> ev_handler e = Some Proxy_pass \<and> \<not> ev_active e \<and> \<not> timedout e)"

text \<open>\<open>process_uri\<close> for a location of back ends: the two steps by which the request gets its connection.\<close>

definition reachable_back_end :: "world \<Rightarrow> str \<Rightarrow> int \<Rightarrow> bool" where
  "reachable_back_end w t fd \<longleftrightarrow> load_balance (w_cfg w) = ROUND_MODE \<and> (\<forall>d \<in> set (w_doms w). length (servers d) \<le> 64) \<and>
     (\<exists>i ss fds cs. find_domain t (w_doms w) = Some i \<and> i < length (w_doms w) \<and> servers (w_doms w ! i) = ss \<and> 0 < length ss \<and>
       length ss \<le> 31 \<and> (\<forall>s \<in> set ss. unfailed s \<and> w_inet w (chars (loc_host (location_of s)))) \<and>
       w_socket w = fd # fds \<and> fd > 0 \<and> w_connect w = Connect_ok # cs)"

text \<open>
  The request \<open>q'\<close> has a server of the domain \<open>t\<close>: the one that comes next by weighted round robin. The weights of the domain
  have moved on accordingly, and the one attempt to connect has gone to the address of that server.
\<close>

definition got_server :: "world \<Rightarrow> world \<Rightarrow> str \<Rightarrow> int \<Rightarrow> http_request \<Rightarrow> bool" where
  "got_server w w' t fd q' \<longleftrightarrow> (\<exists>i b. find_domain t (w_doms w) = Some i \<and> next_server (servers (w_doms w ! i)) = Some b \<and>
     cur_server_domain q' = Some i \<and> cur_upstream q' = Some (i, b) \<and> upstream_tries q' = 1 \<and>
     servers (w_doms w' ! i) = after_picks (settled (servers (w_doms w ! i))) [Some b] \<and>
     (\<forall>j. j \<noteq> i \<longrightarrow> w_doms w' ! j = w_doms w ! j) \<and>
     (let l = location_of (servers (w_doms w ! i) ! b) in
       w_calls w' = w_calls w @ [Connect fd (loc_host l) (loc_port l), Kadd fd READ_EVENT]))"

lemma connected_ok:
  assumes s: "serving w L xs c k r q E" and E: "resting (E WRITE_EVENT)" and room: "int (card L) < max_connections (w_cfg w)"
    and q: "emptied (send_buffer q)" "\<not> response_done (rq q)" "cur_server_domain q = None" "upstream_tries q = 0"
    and be: "reachable_back_end w t fd"
  shows "\<exists>u w1 w2 w3 q' ys. open_upstream_connection r w = Some (Some u, w1) \<and> set_req (\<lambda>q. q\<lparr>upstream := Some u\<rparr>) r w1 = Some w2 \<and>
    try_connect_upstream r (Some t) w2 = Some w3 \<and> u \<notin> L \<and> relaying w3 (insert u L) c u (c_fd k) fd r q' \<and> ready_for_request w3 u \<and>
    got_server w w3 t fd q' \<and> srv_inv w3 (insert u L) ys \<and>
    (current_msec (w_tm w) + of_int (upstream_timeout (w_cfg w)), wev_of u) \<in> set ys \<and>
    recv_buffer q' = recv_buffer q \<and> rq q' = rq q \<and> get_ev (rev_of c) w3 = Some (E READ_EVENT) \<and> w_recv w3 = w_recv w"
proof -
  note D = servingD [OF s]
  obtain i ss fds cs where B: "load_balance (w_cfg w) = ROUND_MODE" "\<forall>d \<in> set (w_doms w). length (servers d) \<le> 64"
    "find_domain t (w_doms w) = Some i" "i < length (w_doms w)" "servers (w_doms w ! i) = ss" "0 < length ss" "length ss \<le> 31"
    "\<forall>s \<in> set ss. unfailed s" "\<forall>s \<in> set ss. w_inet w (chars (loc_host (location_of s)))" "w_socket w = fd # fds" "fd > 0" "w_connect w = Connect_ok # cs"
    using be unfolding reachable_back_end_def by blast
  obtain u pm S where o: "open_upstream_connection r w =
      Some (Some u, w\<lparr>w_pool := pm, w_tm := S, w_conns := (w_conns w)(u \<mapsto> fresh_conn\<lparr>c_data := Some r\<rparr>)\<rparr>)" "u \<notin> L"
    "tm_events S = (tm_events (w_tm w))(rev_of u \<mapsto> zero_event, wev_of u \<mapsto> zero_event)" "current_msec S = current_msec (w_tm w)"
    "srv_inv (w\<lparr>w_pool := pm, w_tm := S, w_conns := (w_conns w)(u \<mapsto> fresh_conn\<lparr>c_data := Some r\<rparr>),
      w_reqs := (w_reqs w)(r \<mapsto> q\<lparr>upstream := Some u\<rparr>)\<rparr>) (insert u L) xs"
    using opened_ok [OF s room] by blast
  let ?k = "fresh_conn\<lparr>c_data := Some r\<rparr>" and ?q = "q\<lparr>upstream := Some u\<rparr>"
  let ?w1 = "w\<lparr>w_pool := pm, w_tm := S, w_conns := (w_conns w)(u \<mapsto> ?k)\<rparr>"
  let ?w2 = "w\<lparr>w_pool := pm, w_tm := S, w_conns := (w_conns w)(u \<mapsto> ?k), w_reqs := (w_reqs w)(r \<mapsto> ?q)\<rparr>"
  have 2: "set_req (\<lambda>q. q\<lparr>upstream := Some u\<rparr>) r ?w1 = Some ?w2" using D(6) by (simp add: set_req_def)
  obtain b d where b: "next_server ss = Some b" "servers d = after_picks (settled ss) [Some b]"
    "\<And>(connect :: nat \<Rightarrow> nat \<Rightarrow> server \<Rightarrow> world \<Rightarrow> (rc \<times> world) option) give_up v v'. connect i b (servers d ! b) v = Some (OK, v') \<Longrightarrow>
      get_server_by_round connect give_up (current_msec S) (\<lambda>_. None) (Some t) None 0 (w_doms w) v = Some (Some i, 1, (w_doms w)[i := d], v')"
    using first_choice [OF B(3-8), of "current_msec S" "\<lambda>_. None"] by blast
  have bl: "b < length ss" by (rule next_server_Some [OF b(1)])
  then have d: "length (servers d) = length ss" "location_of (servers d ! b) = location_of (ss ! b)" using b(2) by simp_all
  let ?k' = "?k\<lparr>c_fd := fd\<rparr>" and ?qc = "?q\<lparr>cur_upstream := Some (i, b)\<rparr>"
  let ?co = "Connect fd (loc_host (location_of (ss ! b))) (loc_port (location_of (ss ! b)))"
  let ?w3 = "?w2\<lparr>w_socket := fds, w_conns := (w_conns w)(u \<mapsto> ?k'), w_connect := cs, w_calls := w_calls w @ [?co]\<rparr>"
  let ?w4 = "?w3\<lparr>w_reqs := (w_reqs w)(r \<mapsto> ?qc)\<rparr>"
  have "srv_inv (?w2\<lparr>w_conns := (w_conns w)(u \<mapsto> ?k')\<rparr>) (insert u L) xs" using srv_conn [OF o(5), of u ?k r ?k'] by simp
  then have "srv_inv ?w3 (insert u L) xs" using srv_cong [of ?w3 "?w2\<lparr>w_conns := (w_conns w)(u \<mapsto> ?k')\<rparr>" "insert u L" xs] by simp
  then have i4: "srv_inv ?w4 (insert u L) xs" using srv_choose [of ?w3 "insert u L" xs r ?q i b] B(4,5) bl by simp
  have u4: "w_conns ?w4 u = Some ?k'" "c_data ?k' = Some r" "backend ?w4 u" "get_ev (rev_of u) ?w4 = Some zero_event"
    "get_ev (wev_of u) ?w4 = Some zero_event" using o(3) by (simp_all add: backend_def data_of_def get_ev_def)
  obtain w5 ys S5 e where w5: "init_upstream_connection u fd ?w4 = Some w5" "srv_inv w5 (insert u L) ys"
    "w5 = ?w4\<lparr>w_tm := S5, w_conns := (w_conns ?w4)(u \<mapsto> ?k'\<lparr>is_connected := True, c_fd := fd\<rparr>), w_kevent := tl (w_kevent ?w4),
      w_calls := w_calls ?w4 @ [Kadd fd READ_EVENT]\<rparr>"
    "tm_events S5 = (tm_events (w_tm ?w4))(rev_of u \<mapsto> zero_event\<lparr>ev_handler := Some Recv_upstream, ev_active := True\<rparr>, wev_of u \<mapsto> e)"
    "ev_handler e = Some Proxy_pass" "\<not> ev_active e" "\<not> timedout e"
    "(current_msec (w_tm ?w4) + of_int (upstream_timeout (w_cfg ?w4)), wev_of u) \<in> set ys"
    using init_upstream_ok [OF i4 insertI1 u4, of fd] by blast
  have inet: "w_inet w (chars (loc_host (location_of (servers d ! b))))" using B(9) bl d(2) nth_mem by fastforce
  have t: "try_connect r i b (servers d ! b) ?w2 = Some (OK, w5)"
    using B(10-12) inet w5(1) d(2) by (simp add: try_connect_def socket_of_def set_conn_def set_req_def call_def Let_def)
  let ?q6 = "?qc\<lparr>cur_server_domain := Some i, upstream_tries := 1\<rparr>"
  let ?w6 = "w5\<lparr>w_reqs := (w_reqs w5)(r \<mapsto> ?q6), w_doms := (w_doms w)[i := d]\<rparr>"
  have "get_server_by_round (try_connect r) (answer_err r 502) (current_msec S) (\<lambda>_. None) (Some t) None 0 (w_doms w) ?w2 =
      Some (Some i, 1, (w_doms w)[i := d], w5)" by (rule b(3) [of "try_connect r", OF t])
  then have tried: "try_connect_upstream r (Some t) ?w2 = Some ?w6"
    using B(1,2) q(3,4) w5(3) by (simp add: try_connect_upstream_def Let_def set_req_def)
  have bf: "buffer_wf (recv_buffer ?q6)" "buffer_wf (send_buffer ?q6)" using D(12,13) by simp_all
  have lens: "map (length \<circ> servers) ((w_doms w)[i := d]) = map (length \<circ> servers) (w_doms w)"
    using B(4,5) d(1) by (intro nth_equalityI) (auto simp: nth_list_update)
  have "srv_inv (w5\<lparr>w_reqs := (w_reqs w5)(r \<mapsto> ?q6)\<rparr>) (insert u L) ys"
    using srv_req [OF w5(2), of r ?qc ?q6] w5(3) bf by (simp add: links_def)
  then have i6: "srv_inv ?w6 (insert u L) ys"
    by (subst srv_cong [of ?w6 "w5\<lparr>w_reqs := (w_reqs w5)(r \<mapsto> ?q6)\<rparr>"]) (simp_all add: w5(3) lens)
  have cu: "c \<noteq> u" using D(2) o(2) by blast
  have cw: "get_ev (wev_of c) ?w6 = Some (E WRITE_EVENT)"
    using serving_evs(2) [OF s] cu o(3) w5(4) by (simp add: w5(3) get_ev_def)
  have "linked ?w6 (insert u L) c u (c_fd k) fd r ?q6 (E WRITE_EVENT)"
    unfolding linked_def using i6 cw D(3,5,7) cu B(11) w5(4)
    by (auto simp: w5(3) get_ev_def zero_event_def)
  then have "relaying ?w6 (insert u L) c u (c_fd k) fd r ?q6" using E q by (auto simp: relaying_def)
  moreover have "ready_for_request ?w6 u" using w5(4-7) by (simp add: ready_for_request_def w5(3) get_ev_def)
  moreover have "get_ev (rev_of c) ?w6 = Some (E READ_EVENT)"
    using serving_evs(1) [OF s] cu o(3) w5(4) by (simp add: w5(3) get_ev_def)
  moreover have "w_recv ?w6 = w_recv w" by (simp add: w5(3))
  moreover have "got_server w ?w6 t fd ?q6"
    unfolding got_server_def using B(3-5) b(1,2) by (intro exI [of _ i] exI [of _ b]) (simp add: w5(3))
  moreover have "(current_msec (w_tm w) + of_int (upstream_timeout (w_cfg w)), wev_of u) \<in> set ys" using w5(8) o(4) by simp
  moreover have "recv_buffer ?q6 = recv_buffer q" "rq ?q6 = rq q" by simp_all
  ultimately show ?thesis using o(1,2) 2 tried i6 by blast
qed

section \<open>A whole answer\<close>

text \<open>
  Each piece of the answer arrives on the connection to the back end and is passed on by the two
  handlers, until the back end closes its side.
\<close>

definition peer_closes :: "int \<Rightarrow> world \<Rightarrow> world" where
  "peer_closes fd w = w\<lparr>w_recv := (w_recv w)(fd := [Eof])\<rparr>"

definition pass_on :: "slot \<Rightarrow> slot \<Rightarrow> int \<Rightarrow> char list \<Rightarrow> world \<Rightarrow> world option" where
  "pass_on c u fd bs w = do { w \<leftarrow> dispatch (u, READ_EVENT) (arrives fd bs w); dispatch (c, WRITE_EVENT) (socket_takes w) }"

fun relay :: "slot \<Rightarrow> slot \<Rightarrow> int \<Rightarrow> char list list \<Rightarrow> world \<Rightarrow> world option" where
  "relay c u fd [] w = dispatch (u, READ_EVENT) (peer_closes fd w)"
| "relay c u fd (bs # bss) w = do { w \<leftarrow> pass_on c u fd bs w; relay c u fd bss w }"

lemma pass_on_ok:
  assumes r: "relaying w L c u cfd ufd r q" and bs: "bs \<noteq> []" "length bs \<le> limit"
  shows "\<exists>w' b. pass_on c u ufd bs w = Some w' \<and> relaying w' L c u cfd ufd r (q\<lparr>send_buffer := b\<rparr>) \<and>
    w_calls w' = w_calls w @ [Kadd cfd WRITE_EVENT, Send cfd bs, Kdel cfd WRITE_EVENT]"
proof -
  let ?w = "arrives ufd bs w"
  obtain ec where l: "linked w L c u cfd ufd r q ec" and ec: "resting ec" "emptied (send_buffer q)" "\<not> response_done (rq q)"
    using r unfolding relaying_def by blast
  have l0: "linked ?w L c u cfd ufd r q ec" by (rule linked_cong [OF l]) (simp_all add: arrives_def)
  have "w_recv ?w ufd = [Data bs]" by (simp add: arrives_def)
  from piece_read [OF l0 ec(1,2) this bs] obtain w1 b where w1: "http_recv_upstream (rev_of u) ?w = Some w1"
    "linked w1 L c u cfd ufd r (q\<lparr>send_buffer := b\<rparr>) (sending ec)" "contents b = bs" "w_calls w1 = w_calls w @ [Kadd cfd WRITE_EVENT]"
    by (auto simp: arrives_def)
  let ?w1 = "socket_takes w1"
  have l1: "linked ?w1 L c u cfd ufd r (q\<lparr>send_buffer := b\<rparr>) (sending ec)" by (rule linked_cong [OF w1(2)]) (simp_all add: socket_takes_def)
  have o: "w_send ?w1 = [Sent limit] # []" by (simp add: socket_takes_def)
  have ne: "contents (send_buffer (q\<lparr>send_buffer := b\<rparr>)) \<noteq> []" "\<not> response_done (rq (q\<lparr>send_buffer := b\<rparr>))" using w1(3) bs(1) ec(3) by simp_all
  obtain w2 e where w2: "handle_response (wev_of c) ?w1 = Some w2" "linked w2 L c u cfd ufd r (q\<lparr>send_buffer := buffer_clear b\<rparr>) e"
    "resting e" "w_calls w2 = w_calls w1 @ [Send cfd bs, Kdel cfd WRITE_EVENT]"
    using piece_sent [OF l1 ec(1) ne o order_refl] w1(3) by (auto simp: socket_takes_def)
  have "pass_on c u ufd bs w = Some w2"
    using linkedD(8) [OF l0] linkedD(7) [OF l1] w1(1) w2(1) by (auto simp: pass_on_def dispatch_def run_handler_def Let_def)
  moreover have "relaying w2 L c u cfd ufd r (q\<lparr>send_buffer := buffer_clear b\<rparr>)"
    using w2(2,3) ec(3) by (auto simp: relaying_def emptied_def buffer_clear_def)
  ultimately show ?thesis using w2(4) w1(4) by auto
qed

definition passed_on :: "int \<Rightarrow> char list \<Rightarrow> sys_call list" where
  "passed_on fd bs = [Kadd fd WRITE_EVENT, Send fd bs, Kdel fd WRITE_EVENT]"

lemma relay_ok:
  assumes "relaying w L c u cfd ufd r q" "\<forall>bs \<in> set bss. bs \<noteq> [] \<and> length bs \<le> limit"
  shows "\<exists>w' ys q'. relay c u ufd bss w = Some w' \<and> srv_inv w' (L - {u}) ys \<and> w_reqs w' r = Some q' \<and>
    response_done (rq q') \<and> upstream q' = None \<and> contents (send_buffer q') = [] \<and>
    w_calls w' = w_calls w @ concat (map (passed_on cfd) bss) @ [Kadd cfd WRITE_EVENT, Close ufd]"
  using assms
proof (induction bss arbitrary: w q)
  case Nil
  obtain ec where l: "linked w L c u cfd ufd r q ec" and ec: "resting ec" "emptied (send_buffer q)"
    using Nil.prems(1) unfolding relaying_def by blast
  let ?w = "peer_closes ufd w"
  have l0: "linked ?w L c u cfd ufd r q ec" by (rule linked_cong [OF l]) (simp_all add: peer_closes_def)
  have "w_recv ?w ufd = [Eof]" by (simp add: peer_closes_def)
  from end_read [OF l0 ec this] obtain w' ys where w': "http_recv_upstream (rev_of u) ?w = Some w'" "srv_inv w' (L - {u}) ys"
    "w_reqs w' r = Some (q\<lparr>upstream := None, rq := (rq q)\<lparr>response_done := True\<rparr>\<rparr>)" "w_calls w' = w_calls w @ [Kadd cfd WRITE_EVENT, Close ufd]"
    by (auto simp: peer_closes_def)
  have "relay c u ufd [] w = Some w'" using linkedD(8) [OF l0] w'(1) by (auto simp: dispatch_def run_handler_def Let_def)
  then show ?case using w'(2-4) ec(2) by (auto simp: emptied_def contents_def)
next
  case (Cons bs bss)
  obtain w1 b where w1: "pass_on c u ufd bs w = Some w1" "relaying w1 L c u cfd ufd r (q\<lparr>send_buffer := b\<rparr>)"
    "w_calls w1 = w_calls w @ passed_on cfd bs"
    using pass_on_ok [OF Cons.prems(1), of bs] Cons.prems(2) by (auto simp: passed_on_def)
  then show ?case using Cons.IH [OF w1(2)] Cons.prems(2) by auto
qed

section \<open>The request on its way to the back end\<close>

text \<open>An operation on one of the two other events.\<close>

lemma linked_frame:
  assumes l: "linked w L c u cfd ufd r q ec" and inv: "srv_inv w' L ys"
    and w': "w_conns w' = w_conns w" "w_reqs w' = w_reqs w" "tm_events (w_tm w') = (tm_events (w_tm w))(ev \<mapsto> e)"
    and ev: "ev \<noteq> wev_of c" "ev \<noteq> rev_of u"
  shows "linked w' L c u cfd ufd r q ec"
  using l inv w' ev by (auto simp: linked_def get_ev_def)

lemma other_added:
  assumes l: "linked w L c u cfd ufd r q ec" and b: "b \<in> L" "w_conns w b = Some k" "ev_of b d \<noteq> wev_of c" "ev_of b d \<noteq> rev_of u"
    and e: "get_ev (ev_of b d) w = Some e" "\<not> ev_active e"
  shows "\<exists>S. add_event (ev_of b d) d w = Some (w\<lparr>w_tm := S, w_kevent := tl (w_kevent w), w_calls := w_calls w @ [Kadd (c_fd k) d]\<rparr>) \<and>
    linked (w\<lparr>w_tm := S, w_kevent := tl (w_kevent w), w_calls := w_calls w @ [Kadd (c_fd k) d]\<rparr>) L c u cfd ufd r q ec \<and>
    tm_events S = (tm_events (w_tm w))(ev_of b d \<mapsto> e\<lparr>ev_active := True\<rparr>)"
proof -
  obtain xs where inv: "srv_inv w L xs" using linkedD(1) [OF l] by blast
  obtain S where S: "add_event (ev_of b d) d w = Some (w\<lparr>w_tm := S, w_kevent := tl (w_kevent w), w_calls := w_calls w @ [Kadd (c_fd k) d]\<rparr>)"
    "srv_inv (w\<lparr>w_tm := S, w_kevent := tl (w_kevent w), w_calls := w_calls w @ [Kadd (c_fd k) d]\<rparr>) L xs"
    "tm_events S = (tm_events (w_tm w))(ev_of b d \<mapsto> e\<lparr>ev_active := True\<rparr>)" using srv_add_event [OF inv b(1,2) e, of d] by auto
  then show ?thesis using linked_frame [OF l S(2) _ _ _ b(3,4)] by (intro exI [of _ S]) simp
qed

lemma other_deleted:
  assumes l: "linked w L c u cfd ufd r q ec" and b: "b \<in> L" "w_conns w b = Some k" "ev_of b d \<noteq> wev_of c" "ev_of b d \<noteq> rev_of u"
    and e: "get_ev (ev_of b d) w = Some e" "ev_active e"
  shows "\<exists>S e'. del_event (ev_of b d) d w = Some (w\<lparr>w_tm := S, w_kevent := tl (w_kevent w), w_calls := w_calls w @ [Kdel (c_fd k) d]\<rparr>) \<and>
    linked (w\<lparr>w_tm := S, w_kevent := tl (w_kevent w), w_calls := w_calls w @ [Kdel (c_fd k) d]\<rparr>) L c u cfd ufd r q ec \<and>
    tm_events S = (tm_events (w_tm w))(ev_of b d \<mapsto> e') \<and> \<not> ev_active e'"
proof -
  obtain xs where inv: "srv_inv w L xs" using linkedD(1) [OF l] by blast
  obtain S e' ys where S: "del_event (ev_of b d) d w = Some (w\<lparr>w_tm := S, w_kevent := tl (w_kevent w), w_calls := w_calls w @ [Kdel (c_fd k) d]\<rparr>)"
    "srv_inv (w\<lparr>w_tm := S, w_kevent := tl (w_kevent w), w_calls := w_calls w @ [Kdel (c_fd k) d]\<rparr>) L ys"
    "tm_events S = (tm_events (w_tm w))(ev_of b d \<mapsto> e')" "\<not> ev_active e'" using srv_drop_event [OF inv b(1,2) e] by blast
  then show ?thesis using linked_frame [OF l S(2) _ _ _ b(3,4)] by (intro exI [of _ S] exI [of _ e']) simp
qed

lemma other_timer:
  assumes l: "linked w L c u cfd ufd r q ec" and b: "b \<in> L" "ev_of b d \<noteq> wev_of c" "ev_of b d \<noteq> rev_of u"
    and e: "get_ev (ev_of b d) w = Some e" "ev_handler e = Some h" "h \<noteq> Event_accept" "h \<noteq> Connection_result" "\<not> timedout e"
  shows "\<exists>S e'. add_timer (ev_of b d) t w = Some (w\<lparr>w_tm := S\<rparr>) \<and> linked (w\<lparr>w_tm := S\<rparr>) L c u cfd ufd r q ec \<and>
    tm_events S = (tm_events (w_tm w))(ev_of b d \<mapsto> e') \<and> ev_handler e' = Some h \<and> ev_active e' = ev_active e \<and> \<not> timedout e'"
proof -
  obtain xs where inv: "srv_inv w L xs" using linkedD(1) [OF l] by blast
  obtain S ys e' where S: "add_timer (ev_of b d) t w = Some (w\<lparr>w_tm := S\<rparr>)" "srv_inv (w\<lparr>w_tm := S\<rparr>) L ys"
    "tm_events S = (tm_events (w_tm w))(ev_of b d \<mapsto> e')" "ev_handler e' = Some h" "ev_active e' = ev_active e" "\<not> timedout e'"
    using srv_add_timer [OF inv b(1) e(1-4,5)] by blast
  then show ?thesis using linked_frame [OF l S(2) _ _ _ b(2,3)] by (intro exI [of _ S] exI [of _ e']) simp
qed

text \<open>The text \<open>txt\<close> of a request waits to be passed on, and the kernel watches for the back end to take it.\<close>

definition forwarding :: "world \<Rightarrow> slot \<Rightarrow> slot \<Rightarrow> http_request \<Rightarrow> char list \<Rightarrow> bool" where
  "forwarding w c u q txt \<longleftrightarrow> contents (recv_buffer q) = txt \<and> (\<exists>e. get_ev (rev_of c) w = Some e \<and> \<not> ev_active e) \<and>
     (\<exists>e. get_ev (wev_of u) w = Some e \<and> ev_handler e = Some Proxy_pass \<and> ev_active e \<and> \<not> timedout e)"

lemma request_passed:
  assumes l: "relaying w L c u cfd ufd r q" and f: "forwarding w c u q txt" "txt \<noteq> []"
  shows "\<exists>w' q'. dispatch (u, WRITE_EVENT) (socket_takes w) = Some w' \<and> relaying w' L c u cfd ufd r q' \<and>
    w_calls w' = w_calls w @ [Send ufd txt, Kadd cfd READ_EVENT, Kdel ufd WRITE_EVENT]"
proof -
  let ?w = "socket_takes w" and ?q = "q\<lparr>recv_buffer := buffer_clear (recv_buffer q)\<rparr>"
  obtain ec where l0: "linked w L c u cfd ufd r q ec" and ec: "resting ec" "emptied (send_buffer q)" "\<not> response_done (rq q)"
    using l unfolding relaying_def by blast
  have l1: "linked ?w L c u cfd ufd r q ec" by (rule linked_cong [OF l0]) (simp_all add: socket_takes_def)
  note D = linkedD [OF l1]
  obtain er eu where e: "get_ev (rev_of c) w = Some er" "\<not> ev_active er" "get_ev (wev_of u) w = Some eu" "ev_handler eu = Some Proxy_pass"
    "ev_active eu" "\<not> timedout eu" using f(1) unfolding forwarding_def by blast
  obtain k where k: "w_conns ?w u = Some k" "c_fd k = ufd" "c_data k = Some r" using D(10) by blast
  have ne: "contents (recv_buffer q) \<noteq> []" using f by (simp add: forwarding_def)
  have fits: "length (contents (recv_buffer q)) \<le> limit" using D(15) by (auto simp: buffer_wf_def contents_def segment_def)
  have out: "buffer_send (recv_buffer q) [Sent limit] = Some (OK, buffer_clear (recv_buffer q), txt)"
    using buffer_send_all [OF D(15) ne fits] f(1) by (simp add: forwarding_def)
  let ?w1 = "?w\<lparr>w_send := [], w_calls := w_calls w @ [Send ufd txt], w_reqs := (w_reqs w)(r \<mapsto> ?q)\<rparr>"
  have r1: "send_from recv_buffer recv_buffer_update r ufd ?w = Some (OK, ?w1)"
    using D(2) out by (simp add: send_from_def set_req_def call_def socket_takes_def)
  have "linked (?w\<lparr>w_reqs := (w_reqs ?w)(r \<mapsto> ?q)\<rparr>) L c u cfd ufd r ?q ec"
    using linked_req [OF l1, of ?q] D(15,16) by (simp add: links_def)
  then have l2: "linked ?w1 L c u cfd ufd r ?q ec" by (rule linked_cong) (simp_all add: socket_takes_def)
  have twice: "set_req (\<lambda>q. q\<lparr>recv_buffer := buffer_clear (recv_buffer q)\<rparr>) r ?w1 = Some ?w1"
    by (simp add: set_req_def buffer_clear_def)
  have e1: "get_ev (rev_of c) ?w1 = Some er" "get_ev (wev_of u) ?w1 = Some eu" using e(1,3) by (simp_all add: get_ev_def socket_takes_def)
  obtain w2 where w2: "add_event (rev_of c) READ_EVENT ?w1 = Some w2" "linked w2 L c u cfd ufd r ?q ec"
    "get_ev (wev_of u) w2 = Some eu" "w_conns w2 = w_conns w" "w_calls w2 = w_calls ?w1 @ [Kadd cfd READ_EVENT]"
    using other_added [OF l2 D(11), of _ READ_EVENT er] D(9,13) e1 e(2) by (auto simp: get_ev_def socket_takes_def)
  obtain w3 where w3: "del_event (wev_of u) WRITE_EVENT w2 = Some w3" "linked w3 L c u cfd ufd r ?q ec"
    "w_calls w3 = w_calls w2 @ [Kdel ufd WRITE_EVENT]"
    using other_deleted [OF w2(2) D(12), of k WRITE_EVENT eu] w2(3,4) k(1,2) D(13) e(5) by (auto simp: socket_takes_def)
  obtain e3 where e3: "get_ev (rev_of u) w3 = Some e3" using linkedD(8) [OF w3(2)] by blast
  obtain w4 where w4: "(if timer_set e3 then Some w3 else add_timer (rev_of u) (upstream_timeout (w_cfg w3)) w3) = Some w4"
    "linked w4 L c u cfd ufd r ?q ec" "w_calls w4 = w_calls w3"
    using linked_add_timer [OF w3(2), of "upstream_timeout (w_cfg w3)"] w3(2) by (cases "timer_set e3") auto
  have gu: "get_ev (wev_of u) ?w = Some eu" using e(3) by (simp add: get_ev_def socket_takes_def)
  have "http_proxy_pass (wev_of u) ?w = Some w4"
    using k D(2,3,6) gu e(6) r1 twice w2(1) w3(1) e3 w4(1) by (simp add: http_proxy_pass_def Let_def)
  then have "dispatch (u, WRITE_EVENT) ?w = Some w4" using gu e(4) by (simp add: dispatch_def run_handler_def)
  moreover have "relaying w4 L c u cfd ufd r ?q" using w4(2) ec by (auto simp: relaying_def)
  ultimately show ?thesis using w4(3) w3(3) w2(5) by auto
qed

text \<open>The headers are read, there is no body, and the client has sent nothing more.\<close>

definition headers_read :: "world \<Rightarrow> slot \<Rightarrow> int \<Rightarrow> http_request \<Rightarrow> bool" where
  "headers_read w c cfd q \<longleftrightarrow> content_length (rq q) \<le> 0 \<and> w_recv w cfd = [] \<and>
     (\<exists>e. get_ev (rev_of c) w = Some e \<and> ev_active e \<and> \<not> timedout e)"

lemma body_handled:
  assumes l: "relaying w L c u cfd ufd r q" and h: "headers_read w c cfd q" "ready_for_request w u"
  shows "\<exists>w' q'. request_handle_body (rev_of c) w = Some w' \<and> relaying w' L c u cfd ufd r q' \<and>
    forwarding w' c u q' (take (bbegin (recv_buffer q)) (bdata (recv_buffer q))) \<and>
    w_calls w' = w_calls w @ [Kdel cfd READ_EVENT, Kadd ufd WRITE_EVENT]"
proof -
  let ?b = "recv_buffer q"
  let ?q = "q\<lparr>recv_buffer := ?b\<lparr>bend := bbegin ?b, bbegin := 0\<rparr>\<rparr>"
  obtain ec where l0: "linked w L c u cfd ufd r q ec" and ec: "resting ec" "emptied (send_buffer q)" "\<not> response_done (rq q)"
    using l unfolding relaying_def by blast
  note D = linkedD [OF l0]
  obtain k ku er eu where k: "w_conns w c = Some k" "c_fd k = cfd" "c_data k = Some r"
    "w_conns w u = Some ku" "c_fd ku = ufd" "is_connected ku"
    "get_ev (rev_of c) w = Some er" "ev_active er" "\<not> timedout er"
    "get_ev (wev_of u) w = Some eu" "ev_handler eu = Some Proxy_pass" "\<not> ev_active eu" "\<not> timedout eu"
    using D(9,10) h unfolding headers_read_def ready_for_request_def by auto
  have rd: "recv_into recv_buffer recv_buffer_update r cfd w = Some (AGAIN, w)"
    using recv_none [OF D(2)] h(1) by (simp add: headers_read_def)
  have body: "parse_request_body_identity r w = Some (OK, w)" using D(2) h(1) by (simp add: parse_request_body_identity_def headers_read_def Let_def)
  obtain S1 e1 where 1: "del_event (rev_of c) READ_EVENT w =
      Some (w\<lparr>w_tm := S1, w_kevent := tl (w_kevent w), w_calls := w_calls w @ [Kdel cfd READ_EVENT]\<rparr>)"
    "linked (w\<lparr>w_tm := S1, w_kevent := tl (w_kevent w), w_calls := w_calls w @ [Kdel cfd READ_EVENT]\<rparr>) L c u cfd ufd r q ec"
    "tm_events S1 = (tm_events (w_tm w))(rev_of c \<mapsto> e1)" "\<not> ev_active e1"
    using other_deleted [OF l0 D(11) k(1), of READ_EVENT er] D(13) k(2,7,8) by auto
  let ?w1 = "w\<lparr>w_tm := S1, w_kevent := tl (w_kevent w), w_calls := w_calls w @ [Kdel cfd READ_EVENT]\<rparr>"
  let ?w2 = "?w1\<lparr>w_reqs := (w_reqs w)(r \<mapsto> ?q)\<rparr>"
  have 2: "rewind_all r ?w1 = Some ?w2" using D(2) by (simp add: rewind_all_def set_req_def)
  have l2: "linked ?w2 L c u cfd ufd r ?q ec"
    using linked_req [OF 1(2), of ?q] D(15,16) by (auto simp: links_def buffer_wf_def)
  have g2: "w_conns ?w2 u = Some ku" "get_ev (ev_of u WRITE_EVENT) ?w2 = Some eu" using k(4,10) 1(3) by (simp_all add: get_ev_def)
  have oth: "ev_of u WRITE_EVENT \<noteq> wev_of c" "ev_of u WRITE_EVENT \<noteq> rev_of u" using D(13) by auto
  obtain S3 where 3: "add_event (wev_of u) WRITE_EVENT ?w2 =
      Some (?w2\<lparr>w_tm := S3, w_kevent := tl (w_kevent ?w2), w_calls := w_calls ?w2 @ [Kadd ufd WRITE_EVENT]\<rparr>)"
    "linked (?w2\<lparr>w_tm := S3, w_kevent := tl (w_kevent ?w2), w_calls := w_calls ?w2 @ [Kadd ufd WRITE_EVENT]\<rparr>) L c u cfd ufd r ?q ec"
    "tm_events S3 = (tm_events S1)(wev_of u \<mapsto> eu\<lparr>ev_active := True\<rparr>)"
    using other_added [OF l2 D(12) g2(1) oth g2(2) k(12)] k(5) by auto
  let ?w3 = "?w2\<lparr>w_tm := S3, w_kevent := tl (w_kevent ?w2), w_calls := w_calls ?w2 @ [Kadd ufd WRITE_EVENT]\<rparr>"
  have g3: "get_ev (ev_of u WRITE_EVENT) ?w3 = Some (eu\<lparr>ev_active := True\<rparr>)" "ev_handler (eu\<lparr>ev_active := True\<rparr>) = Some Proxy_pass"
    "\<not> timedout (eu\<lparr>ev_active := True\<rparr>)" using 3(3) k(11,13) by (simp_all add: get_ev_def)
  let ?t = "post_accept_timeout (w_cfg ?w3)"
  obtain S4 e4 where 4: "add_timer (wev_of u) ?t ?w3 = Some (?w3\<lparr>w_tm := S4\<rparr>)" "linked (?w3\<lparr>w_tm := S4\<rparr>) L c u cfd ufd r ?q ec"
    "tm_events S4 = (tm_events S3)(wev_of u \<mapsto> e4)" "ev_handler e4 = Some Proxy_pass" "ev_active e4" "\<not> timedout e4"
    using other_timer [OF 3(2) D(12) oth g3(1,2) _ _ g3(3), of ?t] by auto
  have "request_handle_body (rev_of c) w = Some (?w3\<lparr>w_tm := S4\<rparr>)"
    using k D(2,4,5) rd body 1(1) 2 3(1) 4(1) by (simp add: request_handle_body_def Let_def)
  moreover have "relaying (?w3\<lparr>w_tm := S4\<rparr>) L c u cfd ufd r ?q" using 4(2) ec by (auto simp: relaying_def)
  moreover have "forwarding (?w3\<lparr>w_tm := S4\<rparr>) c u ?q (take (bbegin ?b) (bdata ?b))"
    using 1(3,4) 3(3) 4(3-6) by (simp add: forwarding_def contents_def segment_def get_ev_def)
  ultimately show ?thesis by auto
qed

text \<open>A request and its answer: the handlers that are called when it has been read.\<close>

definition exchange :: "slot \<Rightarrow> slot \<Rightarrow> int \<Rightarrow> char list list \<Rightarrow> world \<Rightarrow> world option" where
  "exchange c u fd bss w = do {
     w \<leftarrow> request_handle_body (rev_of c) w;
     w \<leftarrow> dispatch (u, WRITE_EVENT) (socket_takes w);
     relay c u fd bss w
   }"

definition exchange_calls :: "int \<Rightarrow> int \<Rightarrow> char list \<Rightarrow> char list list \<Rightarrow> sys_call list" where
  "exchange_calls cfd ufd txt bss = [Kdel cfd READ_EVENT, Kadd ufd WRITE_EVENT, Send ufd txt, Kadd cfd READ_EVENT, Kdel ufd WRITE_EVENT] @
     concat (map (passed_on cfd) bss) @ [Kadd cfd WRITE_EVENT, Close ufd]"

lemma exchange_ok:
  assumes "relaying w L c u cfd ufd r q" "headers_read w c cfd q" "ready_for_request w u" "0 < bbegin (recv_buffer q)"
    and "\<forall>bs \<in> set bss. bs \<noteq> [] \<and> length bs \<le> limit"
  shows "\<exists>w' ys q'. exchange c u ufd bss w = Some w' \<and> srv_inv w' (L - {u}) ys \<and> w_reqs w' r = Some q' \<and>
    response_done (rq q') \<and> upstream q' = None \<and> contents (send_buffer q') = [] \<and>
    w_calls w' = w_calls w @ exchange_calls cfd ufd (take (bbegin (recv_buffer q)) (bdata (recv_buffer q))) bss"
proof -
  let ?txt = "take (bbegin (recv_buffer q)) (bdata (recv_buffer q))"
  obtain w0 q0 where w0: "request_handle_body (rev_of c) w = Some w0" "relaying w0 L c u cfd ufd r q0" "forwarding w0 c u q0 ?txt"
    "w_calls w0 = w_calls w @ [Kdel cfd READ_EVENT, Kadd ufd WRITE_EVENT]" using body_handled [OF assms(1-3)] by blast
  have "buffer_wf (recv_buffer q)" using assms(1) linkedD(15) unfolding relaying_def by blast
  then have "?txt \<noteq> []" using assms(4) by (auto simp: buffer_wf_def limit_def BUF_SIZE_def)
  then obtain w1 q1 where w1: "dispatch (u, WRITE_EVENT) (socket_takes w0) = Some w1" "relaying w1 L c u cfd ufd r q1"
    "w_calls w1 = w_calls w0 @ [Send ufd ?txt, Kadd cfd READ_EVENT, Kdel ufd WRITE_EVENT]" using request_passed [OF w0(2,3)] by blast
  then show ?thesis using relay_ok [OF w1(2) assms(5)] w0(1,4) by (auto simp: exchange_def exchange_calls_def)
qed

end
