(* ===== verification/Proxy_Service.thy ===== *)
theory Proxy_Service
  imports Relay Client_Service
begin

text \<open>
  What a client gets from a location of back ends: the properties of choosing and connecting a back
  end for a request, and of passing on the request and its answer.
\<close>

section \<open>An example\<close>

definition example_text :: "char list" where
  "example_text = ''GET /backend HTTP/1.1'' @ [CR, LF, CR, LF]"

lemma srv_doms:
  assumes inv: "srv_inv w L xs" and r: "w_reqs w = Map.empty"
  shows "srv_inv (w\<lparr>w_doms := ds\<rparr>) L xs"
proof -
  note D = srv_invD [OF inv]
  have da: "data_of (w\<lparr>w_doms := ds\<rparr>) b = data_of w b" "client (w\<lparr>w_doms := ds\<rparr>) b = client w b"
    "backend (w\<lparr>w_doms := ds\<rparr>) b = backend w b" "chosen (w\<lparr>w_doms := ds\<rparr>) b = chosen w b"
    "typed (w\<lparr>w_doms := ds\<rparr>) b d h = typed w b d h" for b d h using typed_cong [of "w\<lparr>w_doms := ds\<rparr>" b w] by auto
  show ?thesis
    by (rule srv_invI) (use D r da conn_inv_cong [of "w\<lparr>w_doms := ds\<rparr>" w] in \<open>auto simp: get_ev_def armed_ok_def\<close>)
qed

lemma example_reachable:
  assumes "w_doms w = [example_domain]" "w_socket w = [8]" "w_connect w = [Connect_ok]" "w_inet w = (\<lambda>_. True)" "load_balance (w_cfg w) = ROUND_MODE"
  shows "reachable_back_end w (STRING ''a'') 8"
proof -
  have "\<forall>s \<in> set (servers example_domain). unfailed s" using example_healthy by (simp add: healthy_def unfailed_def)
  moreover have len: "length (servers example_domain) = 2" by (simp add: example_domain_def)
  moreover have "servers example_domain \<noteq> []" using len by (metis list.size(3) zero_neq_numeral)
  ultimately show ?thesis using assms example_find by (simp add: reachable_back_end_def)
qed

text \<open>A request whose line and headers have been read.\<close>

lemma request_waits:
  "\<exists>w L xs c k r q. serving w L xs c k r q (start_events zero_event Process_request_line) \<and> c_fd k = 7 \<and>
     int (card L) < max_connections (w_cfg w) \<and> emptied (send_buffer q) \<and> \<not> response_done (rq q) \<and> cur_server_domain q = None \<and>
     upstream_tries q = 0 \<and> reachable_back_end w (STRING ''a'') 8 \<and> w_doms w = [example_domain] \<and> content_length (rq q) = 0 \<and> w_recv w 7 = [] \<and>
     bbegin (recv_buffer q) = length example_text \<and> take (length example_text) (bdata (recv_buffer q)) = example_text"
proof -
  obtain w0 L xs c where w0: "srv_inv w0 L xs" "c \<in> L" "waiting 20000 w0 xs c (7, 100)" "w_reqs w0 = Map.empty"
    "length (bdata (w_heap w0)) = limit" "request_pool_size (w_cfg w0) = 3488"
    "int (card L) < max_connections (w_cfg w0)" "load_balance (w_cfg w0) = ROUND_MODE" using client_waits by blast
  let ?w = "w0\<lparr>w_doms := [example_domain], w_socket := [8], w_connect := [Connect_ok], w_inet := (\<lambda>_. True), w_recv := (\<lambda>_. [])\<rparr>"
  have "srv_inv ?w L xs" using srv_doms [OF w0(1,4)] srv_cong [of ?w "w0\<lparr>w_doms := [example_domain]\<rparr>" L xs] by simp
  moreover have "waiting 20000 ?w xs c (7, 100)" using w0(3) by (simp add: waiting_def get_ev_def)
  moreover have "fst (7, 100 :: 32 word) > (0 :: int)" "w_reqs ?w (w_next ?w) = None" "length (bdata (w_heap ?w)) = limit"
    "request_pool_size (w_cfg ?w) = 3488" using w0(4-6) by simp_all
  ultimately obtain p S where s: "serving (with_request c (accepted 7 100) (new_request (w_heap ?w) p c) S ?w) L xs c
      ((accepted 7 100)\<lparr>c_data := Some (w_next ?w)\<rparr>) (w_next ?w) (new_request (w_heap ?w) p c) (start_events zero_event Process_request_line)"
    using init_request_ok [of ?w L xs c 20000 "(7, 100)"] w0(2) by auto
  let ?v = "with_request c (accepted 7 100) (new_request (w_heap ?w) p c) S ?w"
  let ?q = "(new_request (w_heap ?w) p c)\<lparr>recv_buffer := (received example_text)\<lparr>bbegin := length example_text\<rparr>\<rparr>"
  have len: "length example_text \<le> limit" by (simp add: example_text_def limit_def BUF_SIZE_def)
  have "buffer_wf (recv_buffer ?q)" "buffer_wf (send_buffer ?q)"
    using len received_wf [OF len] servingD(13) [OF s] by (simp_all add: buffer_wf_def received_def)
  then have s': "serving (?v\<lparr>w_reqs := (w_reqs ?v)(w_next ?w \<mapsto> ?q)\<rparr>) L xs c ((accepted 7 100)\<lparr>c_data := Some (w_next ?w)\<rparr>) (w_next ?w) ?q
      (start_events zero_event Process_request_line)" using serving_req [OF s, of ?q] by (simp add: links_def)
  moreover have "reachable_back_end (?v\<lparr>w_reqs := (w_reqs ?v)(w_next ?w \<mapsto> ?q)\<rparr>) (STRING ''a'') 8"
    by (rule example_reachable) (simp_all add: w0(8))
  moreover have "emptied (send_buffer ?q)" "\<not> response_done (rq ?q)" "cur_server_domain ?q = None" "upstream_tries ?q = 0" "content_length (rq ?q) = 0"
    "bbegin (recv_buffer ?q) = length example_text" "take (length example_text) (bdata (recv_buffer ?q)) = example_text"
    by (simp_all add: new_request_def zero_request_def emptied_def buffer_clear_def received_def)
  ultimately show ?thesis using w0(7)
    by (intro exI [of _ "?v\<lparr>w_reqs := (w_reqs ?v)(w_next ?w \<mapsto> ?q)\<rparr>"] exI [of _ L] exI [of _ xs] exI [of _ c]
        exI [of _ "(accepted 7 100)\<lparr>c_data := Some (w_next ?w)\<rparr>"] exI [of _ "w_next ?w"] exI [of _ ?q]) auto
qed

lemma example_rest: "resting (start_events zero_event h WRITE_EVENT)"
  by (simp add: resting_def at_rest_def zero_event_def)

section \<open>Properties\<close>



text \<open>
  C3. A request that has been read is passed on to its back end, and the answer to the client: from
  \<open>request_handle_body\<close> on, the bytes of the receive buffer up to the read position go to the back end as the parsers
  have left them there (the names of headers in lower case and, in place of the colons, a NUL), and then every
  piece that arrives from it is sent to the client as it is, in order, with nothing lost, added or
  repeated; when the back end closes its side, its connection is closed and its slot given
  back, the request is done and its buffer empty, and the invariant of the worker holds. (Every piece fits
  the buffer, and the sockets take what they are given.)
\<close>

theorem answer_is_relayed:
  assumes "relaying w L c u cfd ufd r q" "headers_read w c cfd q" "ready_for_request w u" "0 < bbegin (recv_buffer q)"
    and "\<forall>bs \<in> set bss. bs \<noteq> [] \<and> length bs \<le> limit"
  shows "\<exists>w' ys q'. exchange c u ufd bss w = Some w' \<and> srv_inv w' (L - {u}) ys \<and> w_reqs w' r = Some q' \<and>
    response_done (rq q') \<and> upstream q' = None \<and> contents (send_buffer q') = [] \<and>
    w_calls w' = w_calls w @ exchange_calls cfd ufd (take (bbegin (recv_buffer q)) (bdata (recv_buffer q))) bss"
  by (rule exchange_ok [OF assms])

theorem answer_is_relayed_witness:
  "\<exists>w c u w'. exchange c u 8 [''HTTP/1.1 200 OK'', ''hello''] w = Some w' \<and>
    w_calls w' = w_calls w @ [Kdel 7 READ_EVENT, Kadd 8 WRITE_EVENT, Send 8 example_text, Kadd 7 READ_EVENT, Kdel 8 WRITE_EVENT,
      Kadd 7 WRITE_EVENT, Send 7 ''HTTP/1.1 200 OK'', Kdel 7 WRITE_EVENT, Kadd 7 WRITE_EVENT, Send 7 ''hello'', Kdel 7 WRITE_EVENT,
      Kadd 7 WRITE_EVENT, Close 8]"
proof -
  obtain w L xs c k r q where s: "serving w L xs c k r q (start_events zero_event Process_request_line)" "int (card L) < max_connections (w_cfg w)"
    "emptied (send_buffer q)" "\<not> response_done (rq q)" "cur_server_domain q = None" "upstream_tries q = 0"
    "reachable_back_end w (STRING ''a'') 8" and t: "c_fd k = 7" "content_length (rq q) = 0" "w_recv w 7 = []"
    "bbegin (recv_buffer q) = length example_text" "take (length example_text) (bdata (recv_buffer q)) = example_text" using request_waits by blast
  obtain u w3 q' where u: "relaying w3 (insert u L) c u 7 8 r q'" "ready_for_request w3 u" "recv_buffer q' = recv_buffer q" "rq q' = rq q"
    "get_ev (rev_of c) w3 = Some (start_events zero_event Process_request_line READ_EVENT)" "w_recv w3 = w_recv w"
    using connected_ok [OF s(1) example_rest s(2-7)] unfolding t(1) by blast
  have h: "headers_read w3 c 7 q'" using u(4-6) t(2,3) by (simp add: headers_read_def)
  have "0 < bbegin (recv_buffer q')" "\<forall>bs \<in> set [''HTTP/1.1 200 OK'', ''hello'']. bs \<noteq> [] \<and> length bs \<le> limit"
    using u(3) t(4) by (simp_all add: example_text_def limit_def BUF_SIZE_def)
  from answer_is_relayed [OF u(1) h u(2) this] show ?thesis
    using u(3) t(4,5) by (auto simp: exchange_calls_def passed_on_def)
qed

end
