(* ===== verification/Process_C.thy ===== *)
theory Process_C
  imports Event_Loop
begin

text \<open>
  The processes of the server: \<^verbatim>\<open>worker/master.c\<close>, the sending of signals in
  \<^verbatim>\<open>worker/worker.c\<close> and the handler of signals in \<^verbatim>\<open>main.c\<close>.
\<close>

section \<open>State and system calls\<close>

datatype signo = SIGINT | SIGQUIT | SIGCHLD | SIGALRM | SIGSEGV | SIGPIPE | SIGKILL

datatype process_kind = MASTER | WORKER

text \<open>\<open>pr_listen\<close> is \<^verbatim>\<open>listen_fd\<close>, \<open>pr_closed\<close> what the process has closed. Answers of \<^verbatim>\<open>kill\<close> and \<^verbatim>\<open>waitpid\<close>; a child is reaped with its exit code.\<close>

datatype kill_out = Kill_ok | Kill_no_process | Kill_failed

datatype wait_out = Reaped int int | None_exited | Wait_interrupted | Wait_failed

record proc =
  process_status :: process_kind
  pr_flags :: flags
  delay :: int
  workers :: "worker vector"
  pr_kill :: "kill_out list"
  pr_wait :: "wait_out list"
  pr_fork :: "int list"
  pr_sent :: "(int \<times> signo) list"
  pr_listen :: int
  pr_closed :: "int list"

definition set_flags :: "(flags \<Rightarrow> flags) \<Rightarrow> proc \<Rightarrow> proc" where
  "set_flags f p = p\<lparr>pr_flags := f (pr_flags p)\<rparr>"

definition get_worker :: "nat \<Rightarrow> proc \<Rightarrow> worker option" where
  "get_worker i p = do { k \<leftarrow> vectorAt (workers p) (int i); vload (workers p) k }"

definition set_worker :: "(worker \<Rightarrow> worker) \<Rightarrow> nat \<Rightarrow> proc \<Rightarrow> proc option" where
  "set_worker f i p = do {
     x \<leftarrow> get_worker i p;
     ws \<leftarrow> vstore (workers p) i (f x);
     Some (p\<lparr>workers := ws\<rparr>)
   }"

section \<open>Signals to the workers\<close>

definition send_kill :: "int \<Rightarrow> signo \<Rightarrow> proc \<Rightarrow> kill_out \<times> proc" where
  "send_kill pid sig p =
     (let (ans, rest) = next_answer Kill_ok (pr_kill p)
      in (ans, p\<lparr>pr_kill := rest, pr_sent := pr_sent p @ [(pid, sig)]\<rparr>))"

definition signal_one :: "signo \<Rightarrow> nat \<Rightarrow> proc \<Rightarrow> proc option" where
  "signal_one sig i p = do {
     x \<leftarrow> get_worker i p;
     if w_pid x = - 1 then Some p
     else if w_exiting x \<and> sig = SIGQUIT then Some p
     else do {
       let (ans, p) = send_kill (w_pid x) sig p;
       case ans of
         Kill_ok \<Rightarrow> set_worker (\<lambda>x. x\<lparr>w_exiting := True\<rparr>) i p
       | Kill_no_process \<Rightarrow>
           map_option (set_flags (\<lambda>f. f\<lparr>p_reap := True\<rparr>)) (set_worker (\<lambda>x. x\<lparr>w_exited := True, w_exiting := False\<rparr>) i p)
       | Kill_failed \<Rightarrow> Some p
     }
   }"

definition signal_worker_processes :: "signo \<Rightarrow> proc \<Rightarrow> proc option" where
  "signal_worker_processes sig p = for_each (signal_one sig) [0..<nat (v_used (workers p))] p"

text \<open>The other function of this kind, in \<^verbatim>\<open>master.c\<close>.\<close>

definition signal_worker_process :: "signo \<Rightarrow> proc \<Rightarrow> proc option" where
  "signal_worker_process sig p = for_each (\<lambda>i p. do {
       x \<leftarrow> get_worker i p;
       if w_pid x \<le> 0 then Some p
       else if w_exiting x \<and> sig = SIGQUIT then Some p
       else set_worker (\<lambda>x. x\<lparr>w_exiting := True\<rparr>) i (snd (send_kill (w_pid x) sig p))
     }) [0..<nat (v_used (workers p))] p"

section \<open>Children that exit\<close>

text \<open>The search for the worker that has exited.\<close>

fun mark_exited :: "int \<Rightarrow> int \<Rightarrow> nat list \<Rightarrow> proc \<Rightarrow> proc option" where
  "mark_exited pid ex [] p = Some p"
| "mark_exited pid ex (i # js) p = do {
     x \<leftarrow> get_worker i p;
     if w_pid x = pid then
       set_worker (\<lambda>x. let x = x\<lparr>w_exited := True\<rparr> in if ex = 2 \<and> w_respawn x then x\<lparr>w_respawn := False\<rparr> else x) i p
     else mark_exited pid ex js p
   }"

fun process_get_status :: "wait_out list \<Rightarrow> proc \<Rightarrow> proc option" where
  "process_get_status [] p = Some (p\<lparr>pr_wait := []\<rparr>)"
| "process_get_status (ans # rest) p =
     (case ans of
        None_exited \<Rightarrow> Some (p\<lparr>pr_wait := rest\<rparr>)
      | Wait_interrupted \<Rightarrow> process_get_status rest p
      | Wait_failed \<Rightarrow> Some (p\<lparr>pr_wait := rest\<rparr>)
      | Reaped pid ex \<Rightarrow>
          Option.bind (mark_exited pid ex [0..<nat (v_used (workers p))] p) (process_get_status rest))"

text \<open>
  \<^verbatim>\<open>fork\<close> as this process sees it. Where the code calls \<open>spawn_process\<close>, the process either comes back, or
  goes into \<open>worker_cycle_process\<close> and never returns, since \<^verbatim>\<open>exit(0)\<close> follows. The second is meant for the child,
  to which \<^verbatim>\<open>fork\<close> answers 0; but the master itself takes this branch too when \<^verbatim>\<open>fork\<close> answers -1.
\<close>

datatype 'a run = Returns 'a | Runs_worker proc

definition fork_call :: "proc \<Rightarrow> int \<times> proc" where
  "fork_call p = (let (pid, rest) = next_answer (- 1) (pr_fork p) in (pid, p\<lparr>pr_fork := rest\<rparr>))"

definition spawn_process :: "proc \<Rightarrow> (int \<times> proc) run" where
  "spawn_process p = (let (pid, p) = fork_call p in if pid > 0 then Returns (pid, p) else Runs_worker p)"

text \<open>One round of the loop over the workers; \<open>live\<close> is its other variable.\<close>

definition reap_one :: "nat \<Rightarrow> bool \<times> proc \<Rightarrow> (bool \<times> proc) run option" where
  "reap_one i st = do {
     let (live, p) = st;
     x \<leftarrow> get_worker i p;
     if w_pid x \<le> 0 then Some (Returns (live, p))
     else if w_exited x then
       (if w_respawn x \<and> \<not> w_exiting x \<and> \<not> p_quit (pr_flags p) \<and> \<not> p_terminate (pr_flags p) then
          (case spawn_process p of
             Runs_worker p \<Rightarrow> Some (Runs_worker p)
           | Returns (new_pid, p) \<Rightarrow>
               if new_pid \<le> 0 then do {
                 p \<leftarrow> set_worker (\<lambda>x. x\<lparr>w_pid := - 1\<rparr>) i p;
                 Some (Returns (live, p))
               } else do {
                 p \<leftarrow> set_worker (\<lambda>x. x\<lparr>w_pid := new_pid, w_exited := False, w_exiting := False\<rparr>) i p;
                 Some (Returns (True, p))
               })
        else Some (Returns (live, p)))
     else Some (Returns (True, p))
   }"

fun reap_loop :: "nat list \<Rightarrow> bool \<times> proc \<Rightarrow> (bool \<times> proc) run option" where
  "reap_loop [] st = Some (Returns st)"
| "reap_loop (i # js) st = Option.bind (reap_one i st) (\<lambda>r.
     case r of Runs_worker p \<Rightarrow> Some (Runs_worker p) | Returns st \<Rightarrow> reap_loop js st)"

definition reap_children :: "proc \<Rightarrow> (bool \<times> proc) run option" where
  "reap_children p = reap_loop [0..<nat (v_capacity (workers p))] (False, p)"

section \<open>The handler of signals\<close>

datatype signal_result = Resumes proc | Killed

definition singal_handler :: "signo \<Rightarrow> proc \<Rightarrow> signal_result option" where
  "singal_handler sig p = do {
     let q = (case process_status p of
         MASTER \<Rightarrow> Some (case sig of
             SIGINT \<Rightarrow> set_flags (\<lambda>f. f\<lparr>p_terminate := True\<rparr>) p
           | SIGQUIT \<Rightarrow> set_flags (\<lambda>f. f\<lparr>p_quit := True\<rparr>) p
           | SIGCHLD \<Rightarrow> set_flags (\<lambda>f. f\<lparr>p_reap := True\<rparr>) p
           | SIGALRM \<Rightarrow> set_flags (\<lambda>f. f\<lparr>p_sigalarm := True\<rparr>) p
           | SIGSEGV \<Rightarrow> set_flags (\<lambda>f. f\<lparr>p_terminate := True\<rparr>) p
           | _ \<Rightarrow> p)
       | WORKER \<Rightarrow> (case sig of
             SIGINT \<Rightarrow> Some (set_flags (\<lambda>f. f\<lparr>p_terminate := True\<rparr>) p)
           | SIGQUIT \<Rightarrow> Some (set_flags (\<lambda>f. f\<lparr>p_quit := True\<rparr>) p)
           | SIGSEGV \<Rightarrow> None
           | _ \<Rightarrow> Some p));
     (case q of
        None \<Rightarrow> Some Killed
      | Some p \<Rightarrow> if sig = SIGCHLD then map_option Resumes (process_get_status (pr_wait p) p) else Some (Resumes p))
   }"

section \<open>Starting the workers\<close>

text \<open>
  The loop for \<open>n\<close> more workers, which is \<^verbatim>\<open>worker_num - used\<close> at its start. \<open>oks\<close> are the answers
  of the allocator to the vector. The kind of the process tells the parent from the child.
\<close>

fun create_workers :: "nat \<Rightarrow> bool list \<Rightarrow> proc \<Rightarrow> proc option" where
  "create_workers 0 oks p = Some p"
| "create_workers (Suc n) oks p =
     (let (pid, p) = fork_call p in
      if pid = 0 then Some (p\<lparr>process_status := WORKER\<rparr>)
      else do {
        let p = p\<lparr>process_status := MASTER\<rparr>;
        let (ok, oks) = next_answer True oks;
        let (k, ws) = vectorPush ok (workers p);
        i \<leftarrow> k;
        ws \<leftarrow> vstore ws i zero_worker;
        p \<leftarrow> set_worker (\<lambda>x. x\<lparr>w_pid := pid, w_exited := False, w_exiting := False, w_respawn := True\<rparr>) i (p\<lparr>workers := ws\<rparr>);
        create_workers n oks p
      })"

definition create_worker_process :: "config \<Rightarrow> bool list \<Rightarrow> proc \<Rightarrow> proc option" where
  "create_worker_process cfg oks p = create_workers (nat (worker_num cfg - v_used (workers p))) oks p"

section \<open>The loop of the master\<close>

text \<open>The signals that arrive while \<^verbatim>\<open>sigsuspend\<close> waits.\<close>

fun handle_signals :: "signo list \<Rightarrow> proc \<Rightarrow> signal_result option" where
  "handle_signals [] p = Some (Resumes p)"
| "handle_signals (s # ss) p = Option.bind (singal_handler s p) (\<lambda>r.
     case r of Killed \<Rightarrow> Some Killed | Resumes p \<Rightarrow> handle_signals ss p)"

text \<open>
  One round, with the variable \<open>live\<close>. What \<^verbatim>\<open>setitimer\<close> is called with is \<open>delay\<close>; the first line
  stands for the block before \<^verbatim>\<open>sigsuspend\<close>.
\<close>

definition master_round :: "signo list \<Rightarrow> bool \<times> proc \<Rightarrow> (fate \<times> bool \<times> proc) run option" where
  "master_round sigs st = do {
     let (live, p) = st;
     let p = (if delay p \<noteq> 0 \<and> p_sigalarm (pr_flags p)
       then set_flags (\<lambda>f. f\<lparr>p_sigalarm := False\<rparr>) (p\<lparr>delay := delay p * 2\<rparr>) else p);
     r \<leftarrow> handle_signals sigs p;
     (case r of
        Killed \<Rightarrow> Some (Returns (Exits, live, p))
      | Resumes p \<Rightarrow> do {
          r \<leftarrow> (if p_reap (pr_flags p)
            then reap_children (set_flags (\<lambda>f. f\<lparr>p_reap := False\<rparr>) p) else Some (Returns (live, p)));
          case r of
            Runs_worker p \<Rightarrow> Some (Runs_worker p)
          | Returns (live, p) \<Rightarrow>
              let f = pr_flags p in
              if \<not> live \<and> (p_quit f \<or> p_terminate f) then Some (Returns (Exits, live, p))
              else if p_terminate f then do {
                let p = (if delay p = 0 then p\<lparr>delay := 50\<rparr> else p);
                p \<leftarrow> (if delay p \<ge> 1000 then signal_worker_processes SIGKILL p else Some p);
                p \<leftarrow> signal_worker_processes SIGINT p;
                Some (Returns (Lives, live, p))
              } else if p_quit f then do {
                p \<leftarrow> signal_worker_processes SIGQUIT (p\<lparr>pr_closed := pr_closed p @ [pr_listen p]\<rparr>);
                Some (Returns (Lives, live, p))
              } else Some (Returns (Lives, live, p))
        })
   }"

fun master_rounds :: "signo list list \<Rightarrow> bool \<times> proc \<Rightarrow> (fate \<times> bool \<times> proc) run option" where
  "master_rounds [] st = Some (Returns (Lives, st))"
| "master_rounds (s # ss) st = Option.bind (master_round s st) (\<lambda>r.
     case r of
       Runs_worker p \<Rightarrow> Some (Runs_worker p)
     | Returns (Exits, st) \<Rightarrow> Some (Returns (Exits, st))
     | Returns (Lives, st) \<Rightarrow> master_rounds ss st)"

end
