(* ===== verification/Process_Inv.thy ===== *)
theory Process_Inv
  imports Process_C
begin

text \<open>
  The master's table of workers. The loops over the vector are functions on its list of
  entries; with them, what the master does when children have exited.
\<close>

section \<open>The table as a list\<close>

definition worker_table :: "proc \<Rightarrow> worker list \<Rightarrow> bool" where
  "worker_table p ws \<longleftrightarrow> v_capacity (workers p) = int (length ws) \<and> v_data (workers p) = Some (map Some ws) \<and>
     0 \<le> v_used (workers p) \<and> v_used (workers p) \<le> int (length ws)"

definition with_table :: "worker list \<Rightarrow> proc \<Rightarrow> proc" where
  "with_table ws p = p\<lparr>workers := (workers p)\<lparr>v_data := Some (map Some ws)\<rparr>\<rparr>"

lemma with_table_reads [simp]:
  "pr_flags (with_table ws p) = pr_flags p" "pr_fork (with_table ws p) = pr_fork p" "pr_wait (with_table ws p) = pr_wait p"
  "process_status (with_table ws p) = process_status p" "delay (with_table ws p) = delay p"
  "v_used (workers (with_table ws p)) = v_used (workers p)" "v_capacity (workers (with_table ws p)) = v_capacity (workers p)"
  "with_table vs (with_table ws p) = with_table vs p"
  by (simp_all add: with_table_def)

lemma worker_table_with_table: "worker_table p ws \<Longrightarrow> length vs = length ws \<Longrightarrow> worker_table (with_table vs p) vs"
  by (simp add: worker_table_def with_table_def)

lemma with_table_same: "worker_table p ws \<Longrightarrow> with_table ws p = p"
  by (simp add: worker_table_def with_table_def)

lemma worker_table_cong: "workers p' = workers p \<Longrightarrow> worker_table p' ws = worker_table p ws"
  by (simp add: worker_table_def)

lemma get_worker_entry: "worker_table p ws \<Longrightarrow> i < length ws \<Longrightarrow> get_worker i p = Some (ws ! i)"
  by (simp add: get_worker_def worker_table_def vectorAt_def vload_def)

lemma set_worker_entry: "worker_table p ws \<Longrightarrow> i < length ws \<Longrightarrow> set_worker f i p = Some (with_table (ws[i := f (ws ! i)]) p)"
  by (simp add: set_worker_def get_worker_entry vstore_def) (simp add: worker_table_def with_table_def map_update)

section \<open>reap_children\<close>

text \<open>The specification: the entries that are to be restarted get the answers of \<^verbatim>\<open>fork\<close>, one each and in order.\<close>

definition to_restart :: "flags \<Rightarrow> worker \<Rightarrow> bool" where
  "to_restart f x \<longleftrightarrow> w_pid x > 0 \<and> w_exited x \<and> w_respawn x \<and> \<not> w_exiting x \<and> \<not> p_quit f \<and> \<not> p_terminate f"

abbreviation with_pid :: "int \<Rightarrow> worker \<Rightarrow> worker" where
  "with_pid pid x \<equiv> x\<lparr>w_pid := pid, w_exited := False, w_exiting := False\<rparr>"

fun restart :: "flags \<Rightarrow> int list \<Rightarrow> worker list \<Rightarrow> worker list" where
  "restart f pids [] = []"
| "restart f pids (x # xs) = (if to_restart f x then with_pid (hd pids) x # restart f (tl pids) xs else x # restart f pids xs)"

abbreviation restarts :: "flags \<Rightarrow> worker list \<Rightarrow> nat" where
  "restarts f xs \<equiv> length (filter (to_restart f) xs)"

definition runs_one :: "worker list \<Rightarrow> bool" where
  "runs_one ws \<longleftrightarrow> (\<exists>x \<in> set ws. w_pid x > 0 \<and> \<not> w_exited x)"

lemma length_restart [simp]: "length (restart f pids ws) = length ws"
  by (induction f pids ws rule: restart.induct) simp_all

lemma restart_done:
  "restarts f ws \<le> length pids \<Longrightarrow> \<forall>pid \<in> set (take (restarts f ws) pids). 0 < pid \<Longrightarrow> \<forall>y \<in> set (restart f pids ws). \<not> to_restart f y"
proof (induction ws arbitrary: pids)
  case (Cons x ws)
  show ?case
  proof (cases "to_restart f x")
    case True
    then obtain pid rest where p: "pids = pid # rest" using Cons.prems(1) by (cases pids) auto
    have "\<not> to_restart f (with_pid pid x)" by (simp add: to_restart_def)
    moreover have "\<forall>y \<in> set (restart f rest ws). \<not> to_restart f y"
      by (rule Cons.IH) (use Cons.prems p True in simp_all)
    moreover have "restart f pids (x # ws) = with_pid pid x # restart f rest ws" using True p by simp
    ultimately show ?thesis by simp
  next
    case False
    moreover have "\<forall>y \<in> set (restart f pids ws). \<not> to_restart f y"
      by (rule Cons.IH) (use Cons.prems False in simp_all)
    ultimately show ?thesis by simp
  qed
qed simp

text \<open>One round of the loop, for an entry that is to be restarted and for any other.\<close>

lemma reap_one_restarts:
  assumes "get_worker i p = Some x" "to_restart (pr_flags p) x" "pr_fork p = pid # rest"
  shows "reap_one i (l, p) = (if pid > 0
    then map_option (\<lambda>p. Returns (True, p)) (set_worker (with_pid pid) i (p\<lparr>pr_fork := rest\<rparr>))
    else Some (Runs_worker (p\<lparr>pr_fork := rest\<rparr>)))"
  using assms by (auto simp: reap_one_def to_restart_def spawn_process_def fork_call_def map_option_case split: option.split)

lemma reap_one_skips:
  assumes "get_worker i p = Some x" "\<not> to_restart (pr_flags p) x"
  shows "reap_one i (l, p) = Some (Returns (l \<or> w_pid x > 0 \<and> \<not> w_exited x, p))"
  using assms by (auto simp: reap_one_def to_restart_def)

lemma reap_from:
  "worker_table p (us @ ws) \<Longrightarrow> restarts (pr_flags p) ws \<le> length (pr_fork p) \<Longrightarrow>
    \<forall>pid \<in> set (take (restarts (pr_flags p) ws) (pr_fork p)). 0 < pid \<Longrightarrow>
    reap_loop [length us..<length us + length ws] (l, p) = Some (Returns (l \<or> runs_one (restart (pr_flags p) (pr_fork p) ws),
      with_table (us @ restart (pr_flags p) (pr_fork p) ws) (p\<lparr>pr_fork := drop (restarts (pr_flags p) ws) (pr_fork p)\<rparr>)))"
proof (induction ws arbitrary: us p l)
  case Nil
  then show ?case using with_table_same [OF Nil(1)] by (simp add: runs_one_def)
next
  case (Cons x ws)
  have upt: "[length us..<length us + length (x # ws)] = length us # [length (us @ [x])..<length (us @ [x]) + length ws]"
    by (subst upt_conv_Cons) simp_all
  have x: "get_worker (length us) p = Some x" using get_worker_entry [OF Cons.prems(1), of "length us"] by simp
  have set: "set_worker f (length us) q = Some (with_table (us @ f x # ws) q)" if "worker_table q (us @ x # ws)" for f q
    using set_worker_entry [OF that, of "length us" f] by simp
  note IH = Cons.IH [of _ "us @ [_]", unfolded append_assoc append_Cons append_Nil]
  show ?case
  proof (cases "to_restart (pr_flags p) x")
    case True
    obtain pid forks where n: "pr_fork p = pid # forks" using Cons.prems(2) True by (cases "pr_fork p") auto
    have pos: "0 < pid" using Cons.prems(3) True n by simp
    let ?q = "p\<lparr>pr_fork := forks\<rparr>"
    have q: "worker_table ?q (us @ x # ws)" using Cons.prems(1) worker_table_cong [of ?q p] by simp
    have one: "reap_one (length us) (l, p) = Some (Returns (True, with_table (us @ with_pid pid x # ws) ?q))"
      using reap_one_restarts [OF x True n, of l] pos set [OF q] by simp
    have t: "worker_table (with_table (us @ with_pid pid x # ws) ?q) (us @ with_pid pid x # ws)"
      by (rule worker_table_with_table [OF q]) simp
    show ?thesis
      using IH [OF t, of True] one Cons.prems(2,3) True n pos unfolding upt by (simp add: runs_one_def with_table_def)
  next
    case False
    then show ?thesis using IH [OF Cons.prems(1), of "l \<or> w_pid x > 0 \<and> \<not> w_exited x"] reap_one_skips [OF x False, of l] Cons.prems(2,3)
      unfolding upt by (auto simp: runs_one_def)
  qed
qed

lemma reap_children_list:
  assumes "worker_table p ws" "restarts (pr_flags p) ws \<le> length (pr_fork p)"
    "\<forall>pid \<in> set (take (restarts (pr_flags p) ws) (pr_fork p)). 0 < pid"
  shows "reap_children p = Some (Returns (runs_one (restart (pr_flags p) (pr_fork p) ws),
    with_table (restart (pr_flags p) (pr_fork p) ws) (p\<lparr>pr_fork := drop (restarts (pr_flags p) ws) (pr_fork p)\<rparr>)))"
  using reap_from [of p "[]" ws False] assms by (simp add: reap_children_def worker_table_def)

text \<open>When \<^verbatim>\<open>fork\<close> fails, the loop does not come back: the caller has become a worker.\<close>

lemma reap_fork_fails_from:
  "worker_table p (us @ ws @ x # vs) \<Longrightarrow> \<forall>y \<in> set ws. \<not> to_restart (pr_flags p) y \<Longrightarrow> to_restart (pr_flags p) x \<Longrightarrow>
    pr_fork p = pid # rest \<Longrightarrow> pid \<le> 0 \<Longrightarrow>
    reap_loop [length us..<length us + length (ws @ x # vs)] (l, p) = Some (Runs_worker (p\<lparr>pr_fork := rest\<rparr>))"
proof (induction ws arbitrary: us l)
  case Nil
  have upt: "[length us..<length us + length ([] @ x # vs)] = length us # [Suc (length us)..<length us + length (x # vs)]"
    by (subst upt_conv_Cons) simp_all
  have x: "get_worker (length us) p = Some x" using get_worker_entry [OF Nil.prems(1), of "length us"] by simp
  show ?case using reap_one_restarts [OF x Nil.prems(3,4), of l] Nil.prems(5) unfolding upt by simp
next
  case (Cons y ws)
  have upt: "[length us..<length us + length ((y # ws) @ x # vs)] =
      length us # [length (us @ [y])..<length (us @ [y]) + length (ws @ x # vs)]" by (subst upt_conv_Cons) simp_all
  have y: "get_worker (length us) p = Some y" using get_worker_entry [OF Cons.prems(1), of "length us"] by simp
  show ?case using reap_one_skips [OF y, of l] Cons.IH [of "us @ [y]"] Cons.prems unfolding upt by simp
qed

lemma reap_fork_fails:
  assumes "worker_table p (ws @ x # vs)" "\<forall>y \<in> set ws. \<not> to_restart (pr_flags p) y" "to_restart (pr_flags p) x" "pr_fork p = pid # rest" "pid \<le> 0"
  shows "reap_children p = Some (Runs_worker (p\<lparr>pr_fork := rest\<rparr>))"
proof -
  have cap: "nat (v_capacity (workers p)) = length (ws @ x # vs)" using assms(1) by (simp add: worker_table_def)
  show ?thesis using reap_fork_fails_from [of p "[]" ws x vs pid rest False] assms unfolding reap_children_def cap by simp
qed

section \<open>process_get_status\<close>

definition note_exit :: "int \<times> int \<Rightarrow> worker \<Rightarrow> worker" where
  "note_exit e x = (if w_pid x = fst e then
     (let x = x\<lparr>w_exited := True\<rparr> in if snd e = 2 \<and> w_respawn x then x\<lparr>w_respawn := False\<rparr> else x) else x)"

lemma note_exit_pid [simp]: "w_pid (note_exit e x) = w_pid x"
  by (simp add: note_exit_def Let_def)

lemma mark_from:
  "worker_table p (us @ ws @ vs) \<Longrightarrow> distinct (map w_pid ws) \<Longrightarrow>
    mark_exited pid ex [length us..<length us + length ws] p = Some (with_table (us @ map (note_exit (pid, ex)) ws @ vs) p)"
proof (induction ws arbitrary: us)
  case Nil
  then show ?case using with_table_same [OF Nil(1)] by simp
next
  case (Cons x ws)
  have upt: "[length us..<length us + length (x # ws)] = length us # [length (us @ [x])..<length (us @ [x]) + length ws]"
    by (subst upt_conv_Cons) simp_all
  have x: "get_worker (length us) p = Some x" using get_worker_entry [OF Cons.prems(1), of "length us"] by simp
  show ?case
  proof (cases "w_pid x = pid")
    case True
    have "w_pid y \<noteq> pid" if "y \<in> set ws" for y using Cons.prems(2) True that by auto (metis imageI)
    then have "map (note_exit (pid, ex)) ws = ws" by (intro map_idI) (simp add: note_exit_def)
    then show ?thesis using set_worker_entry [OF Cons.prems(1), of "length us"] x True
      unfolding upt by simp (simp add: note_exit_def)
  next
    case False
    then show ?thesis using Cons.IH [of "us @ [x]"] Cons.prems x unfolding upt by (simp add: note_exit_def)
  qed
qed

lemma get_status_list:
  "worker_table p (ws @ vs) \<Longrightarrow> int (length ws) = v_used (workers p) \<Longrightarrow> distinct (map w_pid ws) \<Longrightarrow>
    process_get_status (map (case_prod Reaped) es @ None_exited # rest) p =
      Some (with_table (map (fold note_exit es) ws @ vs) (p\<lparr>pr_wait := rest\<rparr>))"
proof (induction es arbitrary: ws p)
  case Nil
  have "map (fold note_exit []) ws = ws" by (intro map_idI) simp
  then show ?case using with_table_same [of "p\<lparr>pr_wait := rest\<rparr>" "ws @ vs"] worker_table_cong [of "p\<lparr>pr_wait := rest\<rparr>" p] Nil(1) by simp
next
  case (Cons e es)
  obtain pid ex where e: "e = (pid, ex)" by (cases e)
  have 1: "mark_exited pid ex [0..<length ws] p = Some (with_table (map (note_exit e) ws @ vs) p)"
    using mark_from [of p "[]" ws vs pid ex] Cons.prems e by simp
  have n: "nat (v_used (workers p)) = length ws" using Cons.prems(2) by simp
  have "worker_table (with_table (map (note_exit e) ws @ vs) p) (map (note_exit e) ws @ vs)" using worker_table_with_table [OF Cons.prems(1)] by simp
  moreover have "distinct (map w_pid (map (note_exit e) ws))" using Cons.prems(3) by (simp add: comp_def)
  ultimately have "process_get_status (map (case_prod Reaped) es @ None_exited # rest) (with_table (map (note_exit e) ws @ vs) p) =
      Some (with_table (map (fold note_exit es) (map (note_exit e) ws) @ vs) (with_table (map (note_exit e) ws @ vs) p\<lparr>pr_wait := rest\<rparr>))"
    using Cons.IH [of "with_table (map (note_exit e) ws @ vs) p" "map (note_exit e) ws"] Cons.prems(2,3) by simp
  then show ?case using 1 n e by (simp add: with_table_def comp_def)
qed

section \<open>A round of the master\<close>

text \<open>The state in which the master, woken by \<^verbatim>\<open>SIGCHLD\<close>, looks for workers to restart: it has the table \<open>us\<close>.\<close>

definition exits_noted :: "worker list \<Rightarrow> wait_out list \<Rightarrow> proc \<Rightarrow> proc" where
  "exits_noted us rest p = with_table us (set_flags (\<lambda>f. f\<lparr>p_reap := False\<rparr>) (p\<lparr>pr_wait := rest\<rparr>))"

lemma exits_noted_reads [simp]:
  "pr_flags (exits_noted us rest p) = (pr_flags p)\<lparr>p_reap := False\<rparr>" "pr_fork (exits_noted us rest p) = pr_fork p"
  "to_restart ((pr_flags p)\<lparr>p_reap := False\<rparr>) = to_restart (pr_flags p)"
  by (auto simp: exits_noted_def set_flags_def to_restart_def fun_eq_iff)

lemma restart_flags: "to_restart f = to_restart f' \<Longrightarrow> restart f pids ws = restart f' pids ws"
  by (induction ws arbitrary: pids) simp_all

lemma sigchld_round:
  assumes m: "process_status p = MASTER" "delay p = 0" "\<not> p_quit (pr_flags p)" "\<not> p_terminate (pr_flags p)"
    and t: "worker_table p (ws @ vs)" "int (length ws) = v_used (workers p)" "distinct (map w_pid ws)"
    and exits: "pr_wait p = map (case_prod Reaped) es @ None_exited # rest"
    and us: "us = map (fold note_exit es) ws @ vs"
  shows "worker_table (exits_noted us rest p) us"
    "reap_children (exits_noted us rest p) = Some (Runs_worker q) \<Longrightarrow> master_round [SIGCHLD] (live, p) = Some (Runs_worker q)"
    "reap_children (exits_noted us rest p) = Some (Returns (alive, q)) \<Longrightarrow> \<not> p_quit (pr_flags q) \<Longrightarrow> \<not> p_terminate (pr_flags q) \<Longrightarrow>
      master_round [SIGCHLD] (live, p) = Some (Returns (Lives, alive, q))"
proof -
  let ?p1 = "set_flags (\<lambda>f. f\<lparr>p_reap := True\<rparr>) p"
  let ?p2 = "with_table us (?p1\<lparr>pr_wait := rest\<rparr>)"
  have t1: "worker_table ?p1 (ws @ vs)" using t(1) worker_table_cong [of ?p1 p] by (simp add: set_flags_def)
  have h: "handle_signals [SIGCHLD] p = Some (Resumes ?p2)"
    using get_status_list [OF t1, of es rest] t(2,3) m(1) exits us by (simp add: singal_handler_def set_flags_def)
  have e: "set_flags (\<lambda>f. f\<lparr>p_reap := False\<rparr>) ?p2 = exits_noted us rest p"
    by (simp add: exits_noted_def set_flags_def with_table_def)
  let ?p3 = "set_flags (\<lambda>f. f\<lparr>p_reap := False\<rparr>) (p\<lparr>pr_wait := rest\<rparr>)"
  have "worker_table ?p3 (ws @ vs)" using t(1) worker_table_cong [of ?p3 p] by (simp add: set_flags_def)
  then show "worker_table (exits_noted us rest p) us"
    unfolding exits_noted_def by (rule worker_table_with_table) (simp add: us)
  have f: "p_reap (pr_flags ?p2)" by (simp add: set_flags_def)
  note round = master_round_def [of "[SIGCHLD]" "(live, p)"]
  show "reap_children (exits_noted us rest p) = Some (Runs_worker q) \<Longrightarrow> master_round [SIGCHLD] (live, p) = Some (Runs_worker q)"
    using h m(2) f e by (simp add: round del: handle_signals.simps)
  show "reap_children (exits_noted us rest p) = Some (Returns (alive, q)) \<Longrightarrow> \<not> p_quit (pr_flags q) \<Longrightarrow> \<not> p_terminate (pr_flags q) \<Longrightarrow>
      master_round [SIGCHLD] (live, p) = Some (Returns (Lives, alive, q))"
    using h m(2) f e by (simp add: round del: handle_signals.simps)
qed

text \<open>
  If \<^verbatim>\<open>fork\<close> fails for the first worker that is to be restarted, the master itself goes into the loop
  of a worker: nobody looks after the workers any more.
\<close>

lemma failed_fork_ends_master:
  assumes "process_status p = MASTER" "delay p = 0" "\<not> p_quit (pr_flags p)" "\<not> p_terminate (pr_flags p)"
    and "worker_table p (ws @ vs)" "int (length ws) = v_used (workers p)" "distinct (map w_pid ws)"
    and "pr_wait p = map (case_prod Reaped) es @ None_exited # rest"
    and x: "map (fold note_exit es) ws @ vs = as @ x # bs" "\<forall>y \<in> set as. \<not> to_restart (pr_flags p) y" "to_restart (pr_flags p) x"
    and fails: "pr_fork p = - 1 # pids"
  shows "\<exists>q. master_round [SIGCHLD] (live, p) = Some (Runs_worker q) \<and> process_status q = MASTER"
proof -
  note r = sigchld_round [OF assms(1-8) refl]
  let ?q = "exits_noted (as @ x # bs) rest p\<lparr>pr_fork := pids\<rparr>"
  have "reap_children (exits_noted (as @ x # bs) rest p) = Some (Runs_worker ?q)"
    using reap_fork_fails [OF r(1) [unfolded x(1)], of "- 1" pids] x(2,3) fails by simp
  moreover have "process_status ?q = MASTER" using assms(1) by (simp add: exits_noted_def set_flags_def)
  ultimately show ?thesis using r(2) [unfolded x(1)] by blast
qed

section \<open>Properties\<close>


text \<open>The master of the program after the start of its one worker.\<close>

definition example_master :: proc where
  "example_master = \<lparr>process_status = MASTER, pr_flags = \<lparr>p_reap = False, p_terminate = False, p_exiting = False, p_sigalarm = False,
     p_quit = False, p_event_timer_alarm = False\<rparr>, delay = 0,
     workers = \<lparr>v_capacity = 2, v_used = 1, v_unit_size = 8, v_data = Some (map Some [zero_worker\<lparr>w_pid := 700, w_respawn := True\<rparr>, zero_worker])\<rparr>,
     pr_kill = [], pr_wait = [Reaped 700 11, None_exited], pr_fork = [701, 702], pr_sent = [], pr_listen = 3, pr_closed = []\<rparr>"


end
