(* ===== verification/Accept_Lock.thy ===== *)
theory Accept_Lock
  imports Prelude
begin

text \<open>
  The lock in shared memory of \<^verbatim>\<open>base/shared_memory.c\<close> and its set-up in \<^verbatim>\<open>module/module.c\<close>. Processes
  that share the lock are interleaved by a step relation. Its parameter says whether the instruction
  of \<^verbatim>\<open>atomic_cmp_set\<close> has the prefix \<^verbatim>\<open>lock\<close>: with it the comparison and the store are one step,
  without it another processor can act in between.
\<close>

section \<open>Set-up\<close>

record shmtx =
  lock_at :: "nat option"
  spin :: "32 word"

text \<open>The argument is what \<^verbatim>\<open>mmap\<close> answers.\<close>

definition shm_alloc :: "nat option \<Rightarrow> rc \<times> nat option" where
  "shm_alloc mapped = (case mapped of None \<Rightarrow> (ERROR, None) | Some a \<Rightarrow> (OK, Some a))"

definition shmtx_create :: "shmtx \<Rightarrow> nat option \<Rightarrow> rc \<times> shmtx" where
  "shmtx_create mtx addr =
     (let mtx = mtx\<lparr>lock_at := addr\<rparr>
      in if spin mtx = - 1 then (OK, mtx) else (OK, mtx\<lparr>spin := 2048\<rparr>))"

definition event_module_init :: "nat option \<Rightarrow> shmtx \<Rightarrow> rc \<times> shmtx" where
  "event_module_init mapped mtx =
     (let (err, a) = shm_alloc mapped in
      if err \<noteq> OK then (ERROR, mtx)
      else let (err, mtx) = shmtx_create (mtx\<lparr>spin := - 1\<rparr>) a in
        if err \<noteq> OK then (ERROR, mtx) else (OK, mtx))"

section \<open>The steps of the processes\<close>

text \<open>\<^verbatim>\<open>cmpxchgq\<close>: the answer and what the word holds afterwards.\<close>

definition atomic_cmp_set :: "64 word \<Rightarrow> 64 word \<Rightarrow> 64 word \<Rightarrow> bool \<times> 64 word" where
  "atomic_cmp_set lk old new = (lk = old, if lk = old then new else lk)"

text \<open>
  Where a process is: outside; in \<open>shmtx_try_lock\<close> after it has read 0; in the middle of a
  \<^verbatim>\<open>cmpxchgq\<close> without the prefix, with the result of the comparison; inside; or in
  \<open>shmtx_try_unlock\<close> after it has read \<^verbatim>\<open>old\<close>, and there in the middle of a \<^verbatim>\<open>cmpxchgq\<close> without the prefix.
\<close>

datatype place = Outside | Read_zero | Compared bool | Inside | Leaving "64 word" | Releasing bool

record lock_state =
  lk :: "64 word"
  pl_of :: "nat \<Rightarrow> place"

inductive lock_step :: "bool \<Rightarrow> lock_state \<Rightarrow> lock_state \<Rightarrow> bool" for prefix :: bool where
  look: "pl_of s i = Outside \<Longrightarrow> lk s = 0 \<Longrightarrow> lock_step prefix s (s\<lparr>pl_of := (pl_of s)(i := Read_zero)\<rparr>)"
| fail: "pl_of s i = Outside \<Longrightarrow> lk s \<noteq> 0 \<Longrightarrow> lock_step prefix s s"
| cas: "prefix \<Longrightarrow> pl_of s i = Read_zero \<Longrightarrow> atomic_cmp_set (lk s) 0 1 = (ok, l) \<Longrightarrow>
    lock_step prefix s (s\<lparr>lk := l, pl_of := (pl_of s)(i := if ok then Inside else Outside)\<rparr>)"
| compare: "\<not> prefix \<Longrightarrow> pl_of s i = Read_zero \<Longrightarrow> lock_step prefix s (s\<lparr>pl_of := (pl_of s)(i := Compared (lk s = 0))\<rparr>)"
| store: "pl_of s i = Compared True \<Longrightarrow> lock_step prefix s (s\<lparr>lk := 1, pl_of := (pl_of s)(i := Inside)\<rparr>)"
| no_store: "pl_of s i = Compared False \<Longrightarrow> lock_step prefix s (s\<lparr>pl_of := (pl_of s)(i := Outside)\<rparr>)"
| leave: "pl_of s i = Inside \<Longrightarrow> lock_step prefix s (s\<lparr>pl_of := (pl_of s)(i := Leaving (lk s))\<rparr>)"
| unlock: "prefix \<Longrightarrow> pl_of s i = Leaving old \<Longrightarrow> atomic_cmp_set (lk s) old 0 = (ok, l) \<Longrightarrow>
    lock_step prefix s (s\<lparr>lk := l, pl_of := (pl_of s)(i := if ok then Outside else Inside)\<rparr>)"
| unlock_compare: "\<not> prefix \<Longrightarrow> pl_of s i = Leaving old \<Longrightarrow>
    lock_step prefix s (s\<lparr>pl_of := (pl_of s)(i := Releasing (lk s = old))\<rparr>)"
| unlock_store: "pl_of s i = Releasing True \<Longrightarrow> lock_step prefix s (s\<lparr>lk := 0, pl_of := (pl_of s)(i := Outside)\<rparr>)"
| unlock_again: "pl_of s i = Releasing False \<Longrightarrow> lock_step prefix s (s\<lparr>pl_of := (pl_of s)(i := Inside)\<rparr>)"

inductive_cases lock_stepE: "lock_step prefix s t"

definition free_lock :: lock_state where
  "free_lock = \<lparr>lk = 0, pl_of = (\<lambda>_. Outside)\<rparr>"

abbreviation lock_steps :: "bool \<Rightarrow> lock_state \<Rightarrow> lock_state \<Rightarrow> bool" where
  "lock_steps prefix \<equiv> (lock_step prefix)\<^sup>*\<^sup>*"

fun holds :: "place \<Rightarrow> bool" where
  "holds Inside = True"
| "holds (Leaving _) = True"
| "holds (Releasing _) = True"
| "holds _ = False"

section \<open>Mutual exclusion\<close>

text \<open>The word is 1 exactly when somebody holds the lock, there is one holder at most, and a process
  that leaves has read 1.\<close>

definition lock_inv :: "lock_state \<Rightarrow> bool" where
  "lock_inv s \<longleftrightarrow> (\<forall>i j. holds (pl_of s i) \<longrightarrow> holds (pl_of s j) \<longrightarrow> i = j) \<and>
     (\<forall>i. holds (pl_of s i) \<longrightarrow> lk s = 1) \<and> (lk s = 0 \<or> (\<exists>i. holds (pl_of s i))) \<and>
     (\<forall>i old. pl_of s i = Leaving old \<longrightarrow> old = 1) \<and> (\<forall>i b. pl_of s i \<noteq> Compared b \<and> pl_of s i \<noteq> Releasing b)"

lemma lock_invI:
  assumes "\<And>i j. holds (pl_of s i) \<Longrightarrow> holds (pl_of s j) \<Longrightarrow> i = j" "\<And>i. holds (pl_of s i) \<Longrightarrow> lk s = 1"
    "lk s = 0 \<or> (\<exists>i. holds (pl_of s i))" "\<And>i old. pl_of s i = Leaving old \<Longrightarrow> old = 1" "\<And>i b. pl_of s i \<noteq> Compared b \<and> pl_of s i \<noteq> Releasing b"
  shows "lock_inv s"
  using assms unfolding lock_inv_def by auto

lemma lock_invD:
  assumes "lock_inv s"
  shows "holds (pl_of s i) \<Longrightarrow> holds (pl_of s j) \<Longrightarrow> i = j" "holds (pl_of s i) \<Longrightarrow> lk s = 1"
    "lk s = 0 \<Longrightarrow> \<not> holds (pl_of s i)" "lk s \<noteq> 0 \<Longrightarrow> \<exists>i. holds (pl_of s i)" "pl_of s i = Leaving old \<Longrightarrow> old = 1"
    "pl_of s i \<noteq> Compared b \<and> pl_of s i \<noteq> Releasing b"
  using assms unfolding lock_inv_def by force+

lemma lock_step_inv: "lock_step prefix s t \<Longrightarrow> prefix \<Longrightarrow> lock_inv s \<Longrightarrow> lock_inv t"
proof (induction rule: lock_step.induct)
  case (look s i)
  then show ?case using lock_invD [OF look.prems(2)]
    by (intro lock_invI) (auto split: if_splits)
next
  case (cas s i ok l)
  note d = lock_invD [OF cas.prems(2)]
  show ?case
  proof (cases "lk s = 0")
    case True
    then show ?thesis using cas.hyps d
      by (intro lock_invI disjI2 exI [of _ i]) (auto simp: atomic_cmp_set_def split: if_splits)
  next
    case False
    then have l: "l = lk s" "\<not> ok" using cas.hyps by (auto simp: atomic_cmp_set_def split: if_splits)
    obtain j where j: "holds (pl_of s j)" using d(4) False by blast
    then have "j \<noteq> i" using cas.hyps by auto
    then show ?thesis using l d(1,2,5,6) j by (intro lock_invI disjI2 exI [of _ j]) (auto split: if_splits)
  qed
next
  case (leave s i)
  note d = lock_invD [OF leave.prems(2)]
  have i: "holds (pl_of s i)" using leave.hyps by simp
  have one: "lk s = 1" using d(2) [OF i] .
  have others: "\<not> holds (pl_of s j)" if "j \<noteq> i" for j using d(1) i that by blast
  show ?case using one others d(5,6) by (intro lock_invI disjI2 exI [of _ i]) (auto split: if_splits)
next
  case (unlock s i old ok l)
  note d = lock_invD [OF unlock.prems(2)]
  have i: "holds (pl_of s i)" using unlock.hyps by simp
  have one: "lk s = 1" "old = 1" using d(2) [OF i] d(5) unlock.hyps by blast+
  then have l: "l = 0" "ok" using unlock.hyps by (auto simp: atomic_cmp_set_def)
  have others: "\<not> holds (pl_of s j)" if "j \<noteq> i" for j using d(1) i that by blast
  show ?case using l others d(5,6) by (intro lock_invI) (auto split: if_splits)
qed (auto simp: lock_inv_def)

lemma free_lock_inv: "lock_inv free_lock"
  by (simp add: lock_inv_def free_lock_def)

lemma lock_steps_inv: "lock_steps True s t \<Longrightarrow> lock_inv s \<Longrightarrow> lock_inv t"
  by (induction rule: rtranclp_induct) (auto intro: lock_step_inv)

lemma one_holder: "lock_steps True free_lock s \<Longrightarrow> holds (pl_of s i) \<Longrightarrow> holds (pl_of s j) \<Longrightarrow> i = j"
  using lock_steps_inv [OF _ free_lock_inv] lock_invD(1) by blast

text \<open>Without the prefix both processes can find 0 before either stores 1.\<close>

lemma two_holders:
  "\<exists>s. lock_steps False free_lock s \<and> pl_of s 0 = Inside \<and> pl_of s 1 = Inside"
proof -
  let ?st = "\<lambda>l a b. \<lparr>lk = l, pl_of = (\<lambda>x. if x = 0 then a else if x = 1 then b else Outside)\<rparr> :: lock_state"
  have to: "lock_step False s t \<Longrightarrow> t = t' \<Longrightarrow> lock_step False s t'" for s t t' by simp
  have "lock_step False free_lock (?st 0 Read_zero Outside)"
    by (rule to [OF look [of free_lock 0]]) (simp_all add: free_lock_def fun_eq_iff)
  moreover have "lock_step False (?st 0 Read_zero Outside) (?st 0 Read_zero Read_zero)"
    by (rule to [OF look [of _ 1]]) (simp_all add: fun_eq_iff)
  moreover have "lock_step False (?st 0 Read_zero Read_zero) (?st 0 (Compared True) Read_zero)"
    by (rule to [OF compare [of False _ 0]]) (simp_all add: fun_eq_iff)
  moreover have "lock_step False (?st 0 (Compared True) Read_zero) (?st 0 (Compared True) (Compared True))"
    by (rule to [OF compare [of False _ 1]]) (simp_all add: fun_eq_iff)
  moreover have "lock_step False (?st 0 (Compared True) (Compared True)) (?st 1 Inside (Compared True))"
    by (rule to [OF store [of _ 0]]) (simp_all add: fun_eq_iff)
  moreover have "lock_step False (?st 1 Inside (Compared True)) (?st 1 Inside Inside)"
    by (rule to [OF store [of _ 1]]) (simp_all add: fun_eq_iff)
  ultimately have "lock_steps False free_lock (?st 1 Inside Inside)"
    by (meson converse_rtranclp_into_rtranclp rtranclp.rtrancl_refl)
  then show ?thesis by (intro exI [of _ "?st 1 Inside Inside"]) simp
qed

lemma prefix_decides:
  "(\<exists>s i j. lock_steps prefix free_lock s \<and> i \<noteq> j \<and> pl_of s i = Inside \<and> pl_of s j = Inside) \<longleftrightarrow> \<not> prefix"
proof (cases prefix)
  case True
  then show ?thesis using one_holder by (metis holds.simps(1))
next
  case False
  then show ?thesis using two_holders by (metis zero_neq_one)
qed

section \<open>Properties\<close>

text \<open>
  C12. The lock excludes two processes at a time exactly when \<^verbatim>\<open>cmpxchgq\<close> is one step, that is, when
  the instruction has the prefix \<^verbatim>\<open>lock\<close>: for any number of processes and every interleaving of
  their steps there is one holder at most with it, and there is an interleaving with two holders
  without it. (The program builds \<^verbatim>\<open>atomic_cmp_set\<close> without it.)
\<close>

theorem lock_excludes_iff_atomic:
  "(\<exists>s i j. lock_steps prefix free_lock s \<and> i \<noteq> j \<and> pl_of s i = Inside \<and> pl_of s j = Inside) \<longleftrightarrow> \<not> prefix"
  by (rule prefix_decides)

end
