(* ===== verification/Main_C.thy ===== *)
theory Main_C
  imports Process_Inv Accept_Lock
begin

text \<open>
  The start of the program in \<^verbatim>\<open>main.c\<close>: the listening socket, the handlers of signals, the
  initialisation of the modules and the first worker, then the loop of the master or of the worker.
\<close>

section \<open>System calls of the start\<close>

datatype disposition = Handler | Ignore

datatype start_call = Socket | Reuse_addr int | Reuse_port int | Bind int "16 word" "32 word" | Listen int int
  | Get_flags int | Set_flags int "32 word" | Daemonize | Sigaction signo disposition

text \<open>
  What the system answers: \<^verbatim>\<open>socket\<close>, whether \<^verbatim>\<open>bind\<close> and \<^verbatim>\<open>listen\<close> succeed, \<^verbatim>\<open>fcntl(fd, F_GETFL, 0)\<close>;
  the allocator for the two tables of the configuration, \<^verbatim>\<open>open\<close> of the document root, \<^verbatim>\<open>mmap\<close>, and the
  allocator for the table of workers.
\<close>

record startup =
  k_socket :: int
  k_bind :: bool
  k_listen :: bool
  k_flags :: "int \<Rightarrow> 32 word"
  k_base :: nat
  k_clean :: bool
  k_vector :: bool
  k_root :: int
  k_mapped :: "nat option"
  k_push :: "bool list"

section \<open>The listening socket\<close>

text \<open>\<^verbatim>\<open>htons\<close> of a machine that stores the low byte first; \<^verbatim>\<open>htonl(INADDR_ANY)\<close> is 0.\<close>

definition htons :: "16 word \<Rightarrow> 16 word" where
  "htons x = or (push_bit 8 x) (drop_bit 8 x)"

definition startUp :: "startup \<Rightarrow> int \<Rightarrow> int \<times> start_call list" where
  "startUp k prt =
     (let fd = k_socket k in
      if fd = - 1 then (- 1, [Socket])
      else
        let cs = [Socket, Reuse_addr 1, Reuse_port 1, Bind fd (htons (of_int prt)) 0] in
        if \<not> k_bind k then (- 1, cs)
        else let cs = cs @ [Listen fd 65536] in
          if \<not> k_listen k then (- 1, cs) else (fd, cs))"

definition O_NONBLOCK :: "32 word" where
  "O_NONBLOCK = 4"

text \<open>The assertion stops the program.\<close>

definition set_nonblocking :: "startup \<Rightarrow> int \<Rightarrow> start_call list option" where
  "set_nonblocking k fd =
     (let fl = k_flags k fd in
      if fl = - 1 then None else Some [Get_flags fd, Set_flags fd (or fl O_NONBLOCK)])"

section \<open>Signals and modules\<close>

definition signals :: "(signo \<times> disposition) list" where
  "signals = [(SIGINT, Handler), (SIGQUIT, Handler), (SIGCHLD, Handler), (SIGALRM, Handler), (SIGSEGV, Handler), (SIGPIPE, Ignore)]"

text \<open>A failure of \<^verbatim>\<open>sigaction\<close> is only logged.\<close>

definition signal_init :: "start_call list" where
  "signal_init = map (\<lambda>(s, d). Sigaction s d) signals"

definition upstream_module_init :: rc where
  "upstream_module_init = OK"

definition module_init :: "startup \<Rightarrow> shmtx \<Rightarrow> shmtx" where
  "module_init k mtx =
     (let (_, mtx) = event_module_init (k_mapped k) mtx;
          _ = upstream_module_init
      in mtx)"

text \<open>\<^verbatim>\<open>accept_connection\<close> of \<^verbatim>\<open>worker.c\<close>, an older \<open>event_accept\<close> that nothing calls any more: the
  slot is taken before the answer of \<^verbatim>\<open>accept\<close> is looked at.\<close>

fun accept_connection :: "accept_out list \<Rightarrow> world \<Rightarrow> world option" where
  "accept_connection [] w = do {
     (x, w) \<leftarrow> getIdleConnection w;
     c \<leftarrow> x;
     set_conn (\<lambda>k. k\<lparr>c_fd := - 1\<rparr>) c w
   }"
| "accept_connection (Accept_error # es) w = do {
     (x, w) \<leftarrow> getIdleConnection w;
     c \<leftarrow> x;
     set_conn (\<lambda>k. k\<lparr>c_fd := - 1\<rparr>) c w
   }"
| "accept_connection (Accepted fd ip # es) w = Option.bind (getIdleConnection w) (\<lambda>(x, w).
     Option.bind x (\<lambda>c. Option.bind (set_conn (\<lambda>k. k\<lparr>c_fd := fd, is_connected := True\<rparr>) c w) (accept_connection es)))"

section \<open>main\<close>

text \<open>The variables of the program when the first worker has been forked.\<close>

record started =
  s_cfg :: config
  s_fd :: int
  s_lock :: shmtx
  s_proc :: proc
  s_calls :: "start_call list"

text \<open>Up to \<^verbatim>\<open>create_worker_process\<close>.\<close>

definition main_start :: "startup \<Rightarrow> shmtx \<Rightarrow> proc \<Rightarrow> started option" where
  "main_start k mtx p = do {
     (_, cfg) \<leftarrow> config_load (k_base k) (k_clean k) (k_vector k) (k_root k);
     let (fd, cs) = startUp k (port cfg);
     nb \<leftarrow> set_nonblocking k fd;
     let dm = (if daemon cfg \<noteq> 0 then [Daemonize] else []);
     let mtx = module_init k mtx;
     p \<leftarrow> create_worker_process cfg (k_push k) (p\<lparr>workers := cfg_workers cfg, pr_listen := fd\<rparr>);
     Some \<lparr>s_cfg = cfg, s_fd = fd, s_lock = mtx, s_proc = p, s_calls = cs @ nb @ dm @ signal_init\<rparr>
   }"

text \<open>The loop of a worker from its first line; \<open>rounds\<close> is what the kernel and the signals do.\<close>

definition worker_cycle_process :: "bool \<Rightarrow> bool \<Rightarrow> int \<Rightarrow> mem \<Rightarrow> (nat \<Rightarrow> nat \<Rightarrow> server) \<Rightarrow> nat \<Rightarrow> bool \<Rightarrow>
    ((32 word \<Rightarrow> poll) \<times> (flags \<Rightarrow> flags)) list \<Rightarrow> flags \<times> world \<Rightarrow> (fate \<times> flags \<times> world) option" where
  "worker_cycle_process kq sig fd m junk base clean rounds st = do {
     (c, w) \<leftarrow> worker_process_init kq sig fd m junk base clean (snd st);
     worker_rounds c rounds (fst st, w)
   }"

text \<open>The kind of the process chooses the loop; \<open>ms\<close> are the signals of the rounds of the master. A master that
  \<open>spawn_process\<close> has sent into the loop of a worker runs that one.\<close>

definition p_main :: "startup \<Rightarrow> shmtx \<Rightarrow> proc \<Rightarrow> signo list list \<Rightarrow> (int \<Rightarrow> flags \<times> world \<Rightarrow> (fate \<times> flags \<times> world) option) \<Rightarrow> world \<Rightarrow>
    ((fate \<times> bool \<times> proc) + (fate \<times> flags \<times> world)) option" where
  "p_main k mtx p ms cycle w = do {
     s \<leftarrow> main_start k mtx p;
     let work = (\<lambda>p. map_option Inr (cycle (s_fd s) (pr_flags p, w\<lparr>w_cfg := s_cfg s\<rparr>)));
     if process_status (s_proc s) = MASTER then do {
       r \<leftarrow> master_rounds ms (True, s_proc s);
       case r of Returns x \<Rightarrow> Some (Inl x) | Runs_worker p \<Rightarrow> work p
     } else work (s_proc s)
   }"

section \<open>The start succeeds exactly with a listening socket\<close>

lemma htons_port: "htons 3001 = 0xB90B"
  by (simp add: htons_def)

abbreviation listening :: "startup \<Rightarrow> bool" where
  "listening k \<equiv> k_socket k \<noteq> - 1 \<and> k_bind k \<and> k_listen k"

lemma config_load_tables:
  assumes "config_load base True True fd = Some (r, cfg)"
  shows "port cfg = 3001" "daemon cfg = 1" "worker_num cfg = 1"
    "cfg_workers cfg = \<lparr>v_capacity = 2, v_used = 0, v_unit_size = SIZEOF_WORKER, v_data = Some (map Some [zero_worker, zero_worker])\<rparr>"
  using assms by (auto simp: config_load_def Let_def vectorInit_def numeral_2_eq_2 split: if_splits bind_splits)

lemma create_first:
  assumes "worker_num cfg = 1" "workers p = \<lparr>v_capacity = 2, v_used = 0, v_unit_size = u, v_data = Some (map Some [x, y])\<rparr>"
    and "pr_fork p = pid # rest"
  shows "create_worker_process cfg oks p = Some (if pid = 0 then p\<lparr>pr_fork := rest, process_status := WORKER\<rparr>
    else p\<lparr>pr_fork := rest, process_status := MASTER, workers := \<lparr>v_capacity = 2, v_used = 1, v_unit_size = u,
      v_data = Some (map Some [zero_worker\<lparr>w_pid := pid, w_exited := False, w_exiting := False, w_respawn := True\<rparr>, y])\<rparr>\<rparr>)"
proof -
  have push: "vectorPush ok \<lparr>v_capacity = 2, v_used = 0, v_unit_size = u, v_data = d\<rparr> = (Some 0, \<lparr>v_capacity = 2, v_used = 1, v_unit_size = u, v_data = d\<rparr>)"
    for ok and d :: "worker option list option"
    by (simp add: vectorPush_def vectorResize_def vectorBack_def vectorAt_def Let_def)
  show ?thesis using assms
    by (cases oks) (simp_all add: create_worker_process_def fork_call_def push vstore_def set_worker_def get_worker_def
        vectorAt_def vload_def Let_def)
qed

lemma startup_ok:
  assumes cfg: "k_base k + 2 ^ 36 < 2 ^ 63" "k_clean k" "k_vector k" and p: "pr_fork p = pid # rest"
    and fl: "k_flags k (- 1) = - 1" "k_socket k \<noteq> - 1 \<Longrightarrow> k_flags k (k_socket k) \<noteq> - 1"
  shows "if listening k
    then \<exists>s. main_start k mtx p = Some s \<and> s_fd s = k_socket k \<and>
      {Bind (k_socket k) 0xB90B 0, Listen (k_socket k) 65536, Daemonize, Sigaction SIGCHLD Handler, Sigaction SIGPIPE Ignore} \<subseteq> set (s_calls s) \<and>
      (if pid = 0 then process_status (s_proc s) = WORKER \<and> v_used (workers (s_proc s)) = 0
       else process_status (s_proc s) = MASTER \<and> v_used (workers (s_proc s)) = 1 \<and>
         worker_table (s_proc s) [zero_worker\<lparr>w_pid := pid, w_respawn := True\<rparr>, zero_worker])
    else main_start k mtx p = None"
proof -
  obtain cfg where c: "config_load (k_base k) True True (k_root k) = Some (OK, cfg)" using config_load_ok [OF cfg(1)] by blast
  note t = config_load_tables [OF c]
  show ?thesis
  proof (cases "listening k")
    case True
    let ?q = "p\<lparr>workers := cfg_workers cfg, pr_listen := k_socket k\<rparr>"
    have f: "create_worker_process cfg (k_push k) ?q = Some (if pid = 0 then ?q\<lparr>pr_fork := rest, process_status := WORKER\<rparr>
      else ?q\<lparr>pr_fork := rest, process_status := MASTER, workers := \<lparr>v_capacity = 2, v_used = 1, v_unit_size = SIZEOF_WORKER,
        v_data = Some (map Some [zero_worker\<lparr>w_pid := pid, w_exited := False, w_exiting := False, w_respawn := True\<rparr>, zero_worker])\<rparr>\<rparr>)"
      using create_first [of cfg ?q SIZEOF_WORKER zero_worker zero_worker pid rest] t(3,4) p by simp
    have z: "zero_worker\<lparr>w_pid := pid, w_exited := False, w_exiting := False, w_respawn := True\<rparr> = zero_worker\<lparr>w_pid := pid, w_respawn := True\<rparr>"
      by (simp add: zero_worker_def)
    show ?thesis using True c t fl(2) f z
      by (auto simp: main_start_def cfg startUp_def set_nonblocking_def Let_def htons_port signal_init_def signals_def worker_table_def)
  next
    case False
    then have "fst (startUp k 3001) = - 1" by (auto simp: startUp_def Let_def)
    then show ?thesis using False c t(1) fl(1) by (auto simp: main_start_def cfg set_nonblocking_def split_beta)
  qed
qed

section \<open>Properties\<close>

text \<open>
  C10. The program starts exactly when it can listen: if \<^verbatim>\<open>socket\<close>, \<^verbatim>\<open>bind\<close> and \<^verbatim>\<open>listen\<close> succeed, \<open>main\<close>
  listens on port 3001 of every address, becomes a daemon, ignores \<^verbatim>\<open>SIGPIPE\<close>, and forks its one
  worker: the child goes on as a worker, the parent as the master, whose table has the process
  id of the worker, marked to be replaced when it dies. If one of the calls fails, the program stops, though
  only because \<open>set_nonblocking\<close> does not survive the descriptor -1. (\<^verbatim>\<open>fcntl\<close> answers -1 for the
  descriptor -1, and something else for an open socket; the memory for the tables is there.)
\<close>

theorem program_starts_iff_listening:
  assumes "k_base k + 2 ^ 36 < 2 ^ 63" "k_clean k" "k_vector k" "pr_fork p = pid # rest"
    and "k_flags k (- 1) = - 1" "k_socket k \<noteq> - 1 \<Longrightarrow> k_flags k (k_socket k) \<noteq> - 1"
  shows "if listening k
    then \<exists>s. main_start k mtx p = Some s \<and> s_fd s = k_socket k \<and>
      {Bind (k_socket k) 0xB90B 0, Listen (k_socket k) 65536, Daemonize, Sigaction SIGCHLD Handler, Sigaction SIGPIPE Ignore} \<subseteq> set (s_calls s) \<and>
      (if pid = 0 then process_status (s_proc s) = WORKER \<and> v_used (workers (s_proc s)) = 0
       else process_status (s_proc s) = MASTER \<and> v_used (workers (s_proc s)) = 1 \<and>
         worker_table (s_proc s) [zero_worker\<lparr>w_pid := pid, w_respawn := True\<rparr>, zero_worker])
    else main_start k mtx p = None"
  by (rule startup_ok [OF assms])

definition example_startup :: startup where
  "example_startup = \<lparr>k_socket = 3, k_bind = True, k_listen = True, k_flags = (\<lambda>fd. if fd = 3 then 2 else - 1), k_base = 4096,
     k_clean = True, k_vector = True, k_root = 5, k_mapped = Some 1, k_push = []\<rparr>"

theorem program_starts_iff_listening_witness:
  "(\<exists>s. main_start example_startup \<lparr>lock_at = None, spin = 0\<rparr> (example_master\<lparr>pr_fork := [700]\<rparr>) = Some s \<and> s_fd s = 3 \<and>
     worker_table (s_proc s) [zero_worker\<lparr>w_pid := 700, w_respawn := True\<rparr>, zero_worker]) \<and>
   main_start (example_startup\<lparr>k_bind := False\<rparr>) \<lparr>lock_at = None, spin = 0\<rparr> (example_master\<lparr>pr_fork := [700]\<rparr>) = None"
  using program_starts_iff_listening [of example_startup "example_master\<lparr>pr_fork := [700]\<rparr>" 700 "[]" "\<lparr>lock_at = None, spin = 0\<rparr>"]
    program_starts_iff_listening [of "example_startup\<lparr>k_bind := False\<rparr>" "example_master\<lparr>pr_fork := [700]\<rparr>" 700 "[]" "\<lparr>lock_at = None, spin = 0\<rparr>"]
  by (simp add: example_startup_def) blast

end
