(* ===== verification/Spec2Isabelle.thy ===== *)
theory Spec2Isabelle
  imports Vector_C Pool_C Memory_Pool Buffer_C Header_Map Http_Response Request_Uri Timer_Queue Start_Up
    Client_Service Proxy_Service Main_C
begin

text \<open>
  A verification development for the web server \<^verbatim>\<open>pWebServer\<close>: a master process with worker
  processes, each of which serves static files and forwards requests to back ends from one
  event loop over \<^verbatim>\<open>kqueue\<close>. Paths of source files are relative to \<^verbatim>\<open>src/\<close>.

  \<^bold>\<open>How the parts work together.\<close> \<^verbatim>\<open>main\<close> reads the settings, opens the listening socket, forks a
  worker and runs the loop of the master, which replaces workers that die. A worker builds its
  tables and then goes round a loop: wait for events, call the handler of each ready event, expire
  timers. A connection is a slot of a pool and owns two events, one for reading and one for
  writing; an event has a handler, which the handlers themselves exchange as a request goes on:
  request line, headers, body, response header, file, and back to the request line if the connection is
  kept alive. A request owns two buffers and a memory pool, points to its connection and, if it is
  proxied, to the connection to a back end, which the round robin or the hash ring has chosen. Each
  event can be armed with a timer, a node of a red-black tree.

  \<^bold>\<open>Conventions.\<close> A definition has the name of its C function. A function that can stop the
  process (a failed \<^verbatim>\<open>ABORT_ON\<close>, an access through a null pointer, a read or store outside an array)
  has type \<open>option\<close>, and \<open>None\<close> is that outcome, so every theorem with a result \<open>Some\<close> also says that
  nothing of the kind happens. Integers that wrap around are words; pointers are addresses into explicit
  memories (tree nodes, pool headers, slots, requests) or offsets (the slices of a request in its
  receive buffer). What the kernel, the allocator, the file system and the peers answer is an argument or
  a list of answers in the state; every system call that matters is recorded in \<open>w_calls\<close>.

  \<^bold>\<open>Theories of the model, by component.\<close>
  \<^item> \<open>Prelude\<close>: return codes, \<open>guard\<close>, iteration over a list of operations, rules for the option monad.
  \<^item> \<open>Common_Util\<close> (\<^verbatim>\<open>commonUtil.c\<close>, \<^verbatim>\<open>base/string_t.c\<close>): macros, case folding, \<^verbatim>\<open>strncmp\<close>, counted strings.
  \<^item> \<open>Vector_C\<close> (\<^verbatim>\<open>base/vector.c\<close>), \<open>Pool_C\<close> (\<^verbatim>\<open>base/chunk.c\<close>, \<^verbatim>\<open>base/pool.c\<close>), \<open>Memory_Pool\<close>
    (\<^verbatim>\<open>base/memory_pool.c\<close>), \<open>Hash_Table\<close> (\<^verbatim>\<open>base/hash.c\<close>): the containers, each with its invariant. What
    the memory pool and the slot pool promise are the locales \<open>arena\<close> and \<open>slot_allocator\<close>, interpreted on them.
  \<^item> \<open>Rb_Tree\<close> (\<^verbatim>\<open>base/rb_tree.c\<close>) is the pointer tree; \<open>Rb_Shape\<close>, \<open>Rb_Insert\<close>, \<open>Rb_Delete\<close>, \<open>Rb_Remove\<close>
    relate it to a sorted list of entries. \<open>Timer_Event\<close> (\<^verbatim>\<open>event/timer_event.c\<close>, \<^verbatim>\<open>event/event.h\<close>) states what the
    timers need of a queue as the locale \<open>sorted_queue\<close> and interprets it on the tree.
  \<^item> \<open>Http_Types\<close> (\<^verbatim>\<open>http/http.h\<close>), \<open>Byte_Scan\<close>: the data of a request, and the loop that both parsers share, as a
    locale of byte machines that look no further than the current byte.
  \<^item> \<open>Uri_Parser\<close>, \<open>Request_Line\<close> (\<^verbatim>\<open>http/http.c\<close>, \<^verbatim>\<open>http/http_request.c\<close>), \<open>Header_Parser\<close>, \<open>Header_Map\<close>
    (\<^verbatim>\<open>http/header.c\<close>): the state machines of the parsers and the table of header handlers;
    \<open>Request_Accept\<close> has the grammar of request lines, \<open>Request_Uri\<close> the choice of the file.
  \<^item> \<open>Buffer_C\<close> (\<^verbatim>\<open>http/connection.c\<close>), \<open>Http_Response\<close> (\<^verbatim>\<open>http/http_response.c\<close>): socket buffers, response
    headers, error pages and the loop of \<^verbatim>\<open>sendfile\<close>.
  \<^item> \<open>Round_Robin\<close>, \<open>Consistent_Hash\<close> (\<^verbatim>\<open>module/upstream_server_module.c\<close>), \<open>Start_Up\<close> (\<^verbatim>\<open>config.c\<close>,
    \<^verbatim>\<open>module/module.c\<close>): the choice of a back end, the settings, and the domains of servers.
  \<^item> \<open>Connection_C\<close> (\<^verbatim>\<open>http/connection.c\<close>, \<^verbatim>\<open>event/event.c\<close>, \<^verbatim>\<open>module/kqueue_event_module.c\<close>): the record
    \<open>world\<close> of a worker, events and connections. \<open>Upstream_C\<close>, \<open>Handlers_C\<close> (\<^verbatim>\<open>http/http.c\<close>): requests, back ends
    and all handlers of events. \<open>Event_Loop\<close> (\<^verbatim>\<open>worker/worker.c\<close>): one round of events and the loop.
  \<^item> \<open>Process_C\<close> (\<^verbatim>\<open>worker/master.c\<close>): the table of workers, signals, and the loop of the master;
    \<open>Main_C\<close> (\<^verbatim>\<open>main.c\<close>); \<open>Accept_Lock\<close> (\<^verbatim>\<open>base/shared_memory.c\<close>): the lock, as interleaved processes.

  \<^bold>\<open>What the groups of lemmas show.\<close>
  \<^item> Refinement: insertion into and deletion from the pointer tree are those of a sorted queue, with
    the balance of a red-black tree, and the timers are that queue (\<open>Timer_Queue\<close>).
  \<^item> Parsers: they invert the grammar of request and header lines, do not depend on the pieces in which the
    bytes arrive, never leave the buffer, and no request leads out of the document root.
  \<^item> Memory: blocks do not overlap, freeing undoes allocating, slots in use are never handed out.
  \<^item> Back ends: the round robin is fair by weights in every run of as many requests as the weights add up to, while no
    server has failed; the search for a server makes each attempt the code makes, in order, and answers with the
    error exactly when none has succeeded; and a ring without the failed server keeps all other assignments, if no two
    servers share a point on it.
  \<^item> The worker: \<open>Connection_Inv\<close>, \<open>Accept_Inv\<close> and \<open>Server_Inv\<close> build the invariant \<open>srv_inv\<close>, in which slots,
    connections, requests, events, handlers and timers fit together. \<open>Worker_Start\<close> shows that the start
    establishes it and \<open>event_accept\<close> keeps it; \<open>Expiry\<close> that expiring timers keeps it, whatever handlers are
    called: the handlers of the program interpret the locale \<open>timeout_handlers\<close> of \<open>Timer_Event\<close>. A client that
    stays silent is dropped.
  \<^item> A request: \<open>Serving\<close> has the steps of one client while the invariant holds, \<open>Header_Fields\<close> the loop
    over header lines, \<open>Get_Request\<close> the way from the first byte to the prepared answer, \<open>Keep_Alive\<close> the sending
    and the return to reading; \<open>Client_Service\<close> puts them together for any sequence of requests.
  \<^item> A proxied request: \<open>Relay\<close> has the steps of a client and its back end, from the connection to the end of
    the answer; \<open>Proxy_Service\<close> states that a request gets the back end whose turn it is, that this gets the request as the
    parsers have left it in the receive buffer, and the client the whole answer.
  \<^item> Processes: while \<^verbatim>\<open>fork\<close> succeeds, the master replaces exactly the dead workers, each by a process of its own; when it
    fails, the master itself goes into the loop of a worker, which is the outcome \<open>Runs_worker\<close> of \<open>spawn_process\<close>
    (\<open>Process_Inv\<close>). The program starts exactly with a listening socket (\<open>Main_C\<close>), and the lock is one exactly with an
    atomic exchange (\<open>Accept_Lock\<close>).

  \<^bold>\<open>Loops.\<close> Loops over lists, buffers and arrays are structural or have a termination proof with a
  measure. Those that can run for ever in C are \<open>partial_function (option)\<close>: the expiry of timers, the loop over
  header lines, the walks of the tree, the searches of the memory pool and of a hash bucket, and the search
  for a server; that they return is part of the theorems about them. The loops of
  master and worker take the list of what happens in their rounds, and end with it or with the
  process. There is no fuel.

  \<^bold>\<open>Bounds.\<close> Sizes are those of the program: receive and send buffers of 1025 bytes, 65536
  connections, a pool of 3488 bytes for a request, 500 ms between two updates of the clock. The
  theorems about requests assume that a request fits the receive buffer and arrives whole, that a file is
  shorter than 2 to the 31 bytes, since \<^verbatim>\<open>resource_off\<close> is a C \<^verbatim>\<open>int\<close> and wraps beyond, and that the keys of timers lie within half of the range of the 32-bit clock.
  The sizes of C objects are those of 64-bit pointers.

  \<^bold>\<open>Not modelled.\<close> Logging; the release of memory to the system (\<^verbatim>\<open>free\<close>, \<^verbatim>\<open>munmap\<close>); the branch of \<open>hashInit\<close>
  for a table without a hash object and \<open>skip_host\<close> and \<open>test_connection\<close>, which do nothing; the tables of function
  pointers of \<^verbatim>\<open>module.c\<close>, whose entries are called directly; the tests under \<^verbatim>\<open>test/\<close>. Signals
  arrive between two rounds of a loop, not within one. The kernel reports events of the connections
  that are registered; that a batch of events can name a connection which an earlier handler of the batch has
  closed is visible in \<open>kqueue_process_events\<close>, but the theorems do not follow such batches. The way of a
  proxied request is modelled with all its handlers; the theorems about it begin with the choice of the server and
  go on with the end of the headers, for a first attempt to connect that succeeds at once and sockets
  that take what they are given. What comes after the end of the answer (\<open>http_response_done\<close>) is not followed
  for proxied requests.
\<close>

end
